(* ===== verification/Nc_Base.thy ===== *)
theory Nc_Base
  imports Main "HOL-Library.Word"
begin

text \<open>
  The prelude of the NetCosm development: the machine integers, the result type of
  operations that can kill the process, the C library's character and string functions
  the program uses, and the list and word lemmas the components share.

  A C string is modelled by the \<open>string\<close> of its characters before the terminating NUL;
  a memory block or a file is modelled by the \<open>string\<close> of its bytes.
\<close>

section \<open>Shared collections\<close>

named_theorems nc_simps \<open>unfolding rules of small model functions\<close>
named_theorems nc_intro \<open>introduction rules for well-formedness predicates\<close>

section \<open>Machine integers\<close>

type_synonym u8 = "8 word"
type_synonym u32 = "32 word"
type_synonym u64 = "64 word"

section \<open>Results\<close>

text \<open>
  Every way in which the C code stops short of returning a value: a call of
  \<open>error\<close> (util.c, which prints and calls \<open>abort\<close>), a failed \<open>assert\<close>, a division by
  zero, and the memory errors that C leaves undefined.
\<close>

datatype crash =
    Error string
  | Assert_Failed
  | Div_By_Zero
  | Null_Deref
  | Out_Of_Bounds
  | Use_After_Free
  | Exit_Process

type_synonym 'a res = "crash + 'a"

definition res_bind :: "'a res \<Rightarrow> ('a \<Rightarrow> 'b res) \<Rightarrow> 'b res" where
  "res_bind m f = (case m of Inl e \<Rightarrow> Inl e | Inr x \<Rightarrow> f x)"

lemma res_bind_simps [simp]:
  "res_bind (Inl e) f = Inl e"
  "res_bind (Inr x) f = f x"
  by (simp_all add: res_bind_def)

lemma res_bind_eq_Inr: "res_bind m f = Inr y \<longleftrightarrow> (\<exists>x. m = Inr x \<and> f x = Inr y)"
  by (cases m) auto

lemma res_bind_assoc: "res_bind (res_bind m f) g = res_bind m (\<lambda>x. res_bind (f x) g)"
  by (cases m) auto

lemma res_bind_cong [fundef_cong]:
  "m = m' \<Longrightarrow> (\<And>x. m' = Inr x \<Longrightarrow> f x = g x) \<Longrightarrow> res_bind m f = res_bind m' g"
  by (cases m') auto

text \<open>A loop over the elements of a list, stopping at the first crash.\<close>

fun res_fold :: "('a \<Rightarrow> 's \<Rightarrow> 's res) \<Rightarrow> 'a list \<Rightarrow> 's \<Rightarrow> 's res" where
  "res_fold f [] s = Inr s"
| "res_fold f (x # xs) s = res_bind (f x s) (res_fold f xs)"

lemma res_fold_append: "res_fold f (xs @ ys) s = res_bind (res_fold f xs s) (res_fold f ys)"
  by (induction xs arbitrary: s) (simp_all add: res_bind_assoc res_bind_def split: sum.splits)

text \<open>A loop whose body keeps an invariant and never crashes runs to its end.\<close>

lemma res_fold_invariant:
  assumes "\<And>x s. x \<in> set xs \<Longrightarrow> P s \<Longrightarrow> \<exists>s'. f x s = Inr s' \<and> P s'" and "P s"
  shows "\<exists>s'. res_fold f xs s = Inr s' \<and> P s'"
  using assms
proof (induction xs arbitrary: s)
  case Nil
  then show ?case by simp
next
  case (Cons x xs)
  obtain s1 where s1: "f x s = Inr s1" "P s1"
    using Cons.prems(1)[of x s] Cons.prems(2) by auto
  have "\<exists>s'. res_fold f xs s1 = Inr s' \<and> P s'"
    by (rule Cons.IH) (use Cons.prems(1) s1(2) in auto)
  then show ?case using s1(1) by simp
qed

lemma res_fold_total:
  assumes "\<And>x s. x \<in> set xs \<Longrightarrow> f x s = Inr (g x s)"
  shows "res_fold f xs s = Inr (fold g xs s)"
  using assms by (induction xs arbitrary: s) auto

section \<open>Characters and strings of the C library\<close>

text \<open>
  \<open>tolower\<close>, \<open>toupper\<close>, \<open>isalpha\<close>, \<open>isdigit\<close> and \<open>isspace\<close> in the C locale, in which the server
  runs (it never calls \<open>setlocale\<close>).
\<close>

definition code :: "char \<Rightarrow> nat" where
  "code c = of_char c"

definition tolower :: "char \<Rightarrow> char" where
  "tolower c = (if 65 \<le> code c \<and> code c \<le> 90 then char_of (code c + 32) else c)"

definition toupper :: "char \<Rightarrow> char" where
  "toupper c = (if 97 \<le> code c \<and> code c \<le> 122 then char_of (code c - 32) else c)"

definition isalpha :: "char \<Rightarrow> bool" where
  "isalpha c \<longleftrightarrow> (65 \<le> code c \<and> code c \<le> 90) \<or> (97 \<le> code c \<and> code c \<le> 122)"

definition isdigit :: "char \<Rightarrow> bool" where
  "isdigit c \<longleftrightarrow> 48 \<le> code c \<and> code c \<le> 57"

definition isspace :: "char \<Rightarrow> bool" where
  "isspace c \<longleftrightarrow> code c = 32 \<or> (9 \<le> code c \<and> code c \<le> 13)"

lemma code_less [simp]: "code c < 256"
  by (simp add: code_def)

lemma code_char_of [simp]: "code (char_of (n::nat)) = n mod 256"
  by (simp add: code_def)

lemma code_eq_iff [simp]: "code c = code d \<longleftrightarrow> c = d"
  by (simp add: code_def)

lemma char_of_code [simp]: "char_of (code c) = c"
  by (simp add: code_def)

lemma code_tolower: "code (tolower c) = (if 65 \<le> code c \<and> code c \<le> 90 then code c + 32 else code c)"
  by (simp add: tolower_def)

lemma code_toupper: "code (toupper c) = (if 97 \<le> code c \<and> code c \<le> 122 then code c - 32 else code c)"
  using code_less[of c] by (simp add: toupper_def del: code_less)

lemma tolower_idem [simp]: "tolower (tolower c) = tolower c"
  by (simp add: code_tolower flip: code_eq_iff)

lemma toupper_idem [simp]: "toupper (toupper c) = toupper c"
  by (auto simp: code_toupper simp flip: code_eq_iff)

text \<open>\<open>strcmp\<close> and \<open>strcasecmp\<close>; callers only use the sign of the result.\<close>

fun strcmp :: "string \<Rightarrow> string \<Rightarrow> int" where
  "strcmp [] [] = 0"
| "strcmp [] (d # ds) = -1"
| "strcmp (c # cs) [] = 1"
| "strcmp (c # cs) (d # ds) =
     (if c = d then strcmp cs ds else if code c < code d then -1 else 1)"

definition strcasecmp :: "string \<Rightarrow> string \<Rightarrow> int" where
  "strcasecmp a b = strcmp (map tolower a) (map tolower b)"

lemma strcmp_eq_0 [simp]: "strcmp a b = 0 \<longleftrightarrow> a = b"
  by (induction a b rule: strcmp.induct) auto

lemma strcasecmp_eq_0 [simp]: "strcasecmp a b = 0 \<longleftrightarrow> map tolower a = map tolower b"
  by (simp add: strcasecmp_def)

text \<open>
  \<open>strtok_r\<close> on the rest of the string kept in \<open>*saveptr\<close>: leading delimiters are
  skipped, the token extends to the next delimiter, which is overwritten and skipped.
  \<open>None\<close> is the NULL return, which leaves an exhausted rest behind.
\<close>

definition strtok_r :: "string \<Rightarrow> string \<Rightarrow> string option \<times> string" where
  "strtok_r delim s =
     (let t = dropWhile (\<lambda>c. c \<in> set delim) s in
      if t = [] then (None, [])
      else (Some (takeWhile (\<lambda>c. c \<notin> set delim) t), tl (dropWhile (\<lambda>c. c \<notin> set delim) t)))"

lemma tl_Nil_dropWhile [simp]: "tl [] = []"
  by simp

lemma strtok_r_Some_nonempty: "strtok_r delim s = (Some t, r) \<Longrightarrow> t \<noteq> []"
  by (auto simp: strtok_r_def Let_def takeWhile_eq_Nil_iff split: if_splits)
    (metis (no_types, lifting) dropWhile_eq_Nil_conv hd_dropWhile)

lemma strtok_r_token: "strtok_r delim s = (Some t, r) \<Longrightarrow> set t \<inter> set delim = {}"
  by (auto simp: strtok_r_def Let_def dest: set_takeWhileD split: if_splits)

section \<open>Shared list and word lemmas\<close>

lemma sorted_wrt_remove_nth:
  "sorted_wrt R (xs @ x # ys) \<Longrightarrow> sorted_wrt R (xs @ ys)"
  by (auto simp: sorted_wrt_append)

lemma length_concat_update:
  "i < length xss \<Longrightarrow>
   length (concat (xss[i := ys])) + length (xss ! i) = length (concat xss) + length ys"
proof (induction xss arbitrary: i)
  case (Cons xs xss)
  then show ?case by (cases i) auto
qed simp

lemma in_set_concat_nth: "x \<in> set (concat xss) \<longleftrightarrow> (\<exists>i<length xss. x \<in> set (xss ! i))"
  by (auto simp: in_set_conv_nth) (metis nth_mem)+

lemma length_filter_update:
  "i < length xs \<Longrightarrow>
   length (filter P (xs[i := y])) + (if P (xs ! i) then 1 else 0)
     = length (filter P xs) + (if P y then 1 else (0::nat))"
proof (induction xs arbitrary: i)
  case (Cons x xs)
  then show ?case by (cases i) auto
qed simp

end
