(* ===== verification/Nc_Hash.thy ===== *)
theory Nc_Hash
  imports Nc_Base "HOL-Library.Multiset"
begin

text \<open>
  The chained hash table of \<open>src/hash.c\<close>.

  A chain of \<open>struct hash_node\<close>s is the list of its (key, data) pairs, the bucket array
  the list of its chains; a pointer to a node is its position in its chain. The callbacks
  \<open>free_key\<close>, \<open>free_data\<close> and \<open>dup_data\<close> act on a state \<open>'s\<close> outside the
  table (the heap their owners keep their data in) and may crash there. The counters
  \<open>n_entries\<close> and \<open>used_buckets\<close> are \<open>size_t\<close> words and wrap; \<open>table_sz\<close> is
  the length of an allocated array and is a natural number. Allocation succeeds, the
  data pointers stored are not NULL (no call site stores one).

  The lemmas relate every operation to the finite map the table represents, give the
  exact effect on the counters, and show that the iterator visits every entry once.
\<close>

unbundle bit_operations_syntax

section \<open>Hash and comparison functions\<close>

text \<open>\<open>char\<close> is signed on the platforms of the program: it is sign-extended to \<open>int\<close>
  before the exclusive or.\<close>

fun hash_djb_loop :: "u32 \<Rightarrow> string \<Rightarrow> u32" where
  "hash_djb_loop h [] = h"
| "hash_djb_loop h (c # str) =
     hash_djb_loop ((push_bit 5 h + h) XOR scast (of_nat (code c) :: u8)) str"

definition hash_djb :: "string \<Rightarrow> u32" where
  "hash_djb str = hash_djb_loop 5381 str"

definition compare_strings :: "string \<Rightarrow> string \<Rightarrow> int" where
  "compare_strings a b = strcmp a b"

definition compare_strings_nocase :: "string \<Rightarrow> string \<Rightarrow> int" where
  "compare_strings_nocase a b = strcasecmp a b"

text \<open>\<open>SIMP_HASH\<close> and \<open>SIMP_EQUAL\<close> for an integer type: the value itself, and
  \<open>memcmp\<close> of the two representations.\<close>

definition simp_hash :: "int \<Rightarrow> u32" where
  "simp_hash key = word_of_int key"

definition simp_equal :: "int \<Rightarrow> int \<Rightarrow> int" where
  "simp_equal a b = (if a = b then 0 else if a < b then -1 else 1)"

section \<open>The table\<close>

record ('k, 'v, 's) hash_map =
  hm_hash :: "'k \<Rightarrow> u32"
  hm_compare :: "'k \<Rightarrow> 'k \<Rightarrow> int"
  hm_table :: "('k \<times> 'v) list list"
  hm_table_sz :: nat
  hm_free_key :: "('k \<Rightarrow> 's \<Rightarrow> 's res) option"
  hm_free_data :: "('v \<Rightarrow> 's \<Rightarrow> 's res) option"
  hm_dup_data :: "('v \<Rightarrow> 's \<Rightarrow> ('v \<times> 's) res) option"
  hm_n_entries :: u64
  hm_used_buckets :: u64

definition hash_init ::
  "nat \<Rightarrow> ('k \<Rightarrow> u32) \<Rightarrow> ('k \<Rightarrow> 'k \<Rightarrow> int) \<Rightarrow> ('k, 'v, 's) hash_map" where
  "hash_init sz hash_fn compare_keys =
     (let sz = (if sz = 0 then 1 else sz) in
      \<lparr>hm_hash = hash_fn, hm_compare = compare_keys, hm_table = replicate sz [],
       hm_table_sz = sz, hm_free_key = None, hm_free_data = None, hm_dup_data = None,
       hm_n_entries = 0, hm_used_buckets = 0\<rparr>)"

definition hash_setfreekey_cb ::
  "('k, 'v, 's) hash_map \<Rightarrow> ('k \<Rightarrow> 's \<Rightarrow> 's res) option \<Rightarrow> ('k, 'v, 's) hash_map" where
  "hash_setfreekey_cb m cb = m\<lparr>hm_free_key := cb\<rparr>"

definition hash_setfreedata_cb ::
  "('k, 'v, 's) hash_map \<Rightarrow> ('v \<Rightarrow> 's \<Rightarrow> 's res) option \<Rightarrow> ('k, 'v, 's) hash_map" where
  "hash_setfreedata_cb m cb = m\<lparr>hm_free_data := cb\<rparr>"

definition hash_setdupdata_cb ::
  "('k, 'v, 's) hash_map \<Rightarrow> ('v \<Rightarrow> 's \<Rightarrow> ('v \<times> 's) res) option \<Rightarrow> ('k, 'v, 's) hash_map" where
  "hash_setdupdata_cb m cb = m\<lparr>hm_dup_data := cb\<rparr>"

text \<open>\<open>map->hash(key) % map->table_sz\<close>: both operands are unsigned.\<close>

definition hash_index :: "('k, 'v, 's) hash_map \<Rightarrow> 'k \<Rightarrow> nat" where
  "hash_index m key = unat (hm_hash m key) mod hm_table_sz m"

definition hash_chain :: "('k, 'v, 's) hash_map \<Rightarrow> 'k \<Rightarrow> ('k \<times> 'v) list" where
  "hash_chain m key = hm_table m ! hash_index m key"

text \<open>The optional callbacks: \<open>if(map->free_data) map->free_data(...)\<close>.\<close>

definition call_free :: "('a \<Rightarrow> 's \<Rightarrow> 's res) option \<Rightarrow> 'a \<Rightarrow> 's \<Rightarrow> 's res" where
  "call_free cb x s = (case cb of None \<Rightarrow> Inr s | Some f \<Rightarrow> f x s)"

subsection \<open>Freeing\<close>

text \<open>\<open>hash_free\<close>: every node's data, then its key, bucket by bucket.\<close>

definition hash_free_node :: "('k, 'v, 's) hash_map \<Rightarrow> 'k \<times> 'v \<Rightarrow> 's \<Rightarrow> 's res" where
  "hash_free_node m node s =
     res_bind (call_free (hm_free_data m) (snd node) s) (call_free (hm_free_key m) (fst node))"

definition hash_free :: "('k, 'v, 's) hash_map \<Rightarrow> 's \<Rightarrow> 's res" where
  "hash_free m s = res_fold (res_fold (hash_free_node m)) (hm_table m) s"

subsection \<open>Iteration\<close>

text \<open>
  \<open>struct iterstate_t\<close>: the current bucket and the current node in it. One call of
  \<open>hash_iterate\<close> advances to the next node, moving on to later buckets when a chain is
  exhausted; \<open>None\<close> is the final NULL, on which the saved state is freed.
\<close>

record iterstate =
  it_node :: "nat option"
  it_bucket :: nat

definition iter_start :: iterstate where
  "iter_start = \<lparr>it_node = None, it_bucket = 0\<rparr>"

function hash_iterate ::
  "('k, 'v, 's) hash_map \<Rightarrow> iterstate \<Rightarrow> (('k \<times> 'v) \<times> iterstate) option" where
  "hash_iterate m st =
     (if it_bucket st < hm_table_sz m then
        (let chain = hm_table m ! it_bucket st;
             node = (case it_node st of None \<Rightarrow> 0 | Some i \<Rightarrow> Suc i) in
         if node < length chain then Some (chain ! node, st\<lparr>it_node := Some node\<rparr>)
         else hash_iterate m \<lparr>it_node = None, it_bucket = Suc (it_bucket st)\<rparr>)
      else None)"
  by pat_completeness auto
termination
  by (relation "measure (\<lambda>(m, st). hm_table_sz m - it_bucket st)") auto

declare hash_iterate.simps [simp del]

subsection \<open>Resizing and insertion\<close>

text \<open>One step of the \<open>hash_resize\<close> loop: the node moves to the head of its new chain.\<close>

definition rehash_node ::
  "('k, 'v, 's) hash_map \<Rightarrow> 'k \<times> 'v \<Rightarrow> ('k, 'v, 's) hash_map" where
  "rehash_node m node =
     (let i = hash_index m (fst node); chain = hm_table m ! i in
      m\<lparr>hm_table := (hm_table m)[i := node # chain],
        hm_used_buckets := (if chain = [] then hm_used_buckets m + 1 else hm_used_buckets m),
        hm_n_entries := hm_n_entries m + 1\<rparr>)"

text \<open>
  \<open>new_sz = 0\<close> would divide by zero at the first node (at the next operation if the map
  is empty); no caller passes it. The final \<open>assert\<close> compares the entry counter with
  the nodes counted.
\<close>

definition hash_resize ::
  "('k, 'v, 's) hash_map \<Rightarrow> nat \<Rightarrow> (bool \<times> ('k, 'v, 's) hash_map) res" where
  "hash_resize m new_sz =
     (if new_sz = hm_table_sz m then Inr (False, m)
      else if new_sz = 0 then Inl Div_By_Zero
      else
        let old = hm_table m;
            fresh = m\<lparr>hm_table := replicate new_sz [], hm_table_sz := new_sz,
                      hm_n_entries := 0, hm_used_buckets := 0\<rparr>;
            m' = fold (\<lambda>node acc. rehash_node acc node) (concat old) fresh in
        if hm_n_entries m = hm_n_entries m' then Inr (True, m') else Inl Assert_Failed)"

definition RESIZE_THRESHOLD :: nat where
  "RESIZE_THRESHOLD = 2 ^ 15 + 2 ^ 14"

definition over_threshold :: "u64 \<Rightarrow> nat \<Rightarrow> bool" where
  "over_threshold used sz \<longleftrightarrow> unat (push_bit 16 used) div sz \<ge> RESIZE_THRESHOLD"

text \<open>
  \<open>hash_internal_insert_new\<close>: \<open>last\<close> is the last node of the chain, NULL when the
  chain is empty. Only the first node of a bucket counts it as used and can resize.
\<close>

definition hash_internal_insert_new ::
  "'k \<Rightarrow> 'v \<Rightarrow> ('k, 'v, 's) hash_map \<Rightarrow> nat \<Rightarrow> ('k, 'v, 's) hash_map res" where
  "hash_internal_insert_new key data m hash =
     (let chain = hm_table m ! hash;
          m = m\<lparr>hm_n_entries := hm_n_entries m + 1,
                hm_table := (hm_table m)[hash := chain @ [(key, data)]]\<rparr> in
      if chain = [] then
        let m = m\<lparr>hm_used_buckets := hm_used_buckets m + 1\<rparr> in
        if over_threshold (hm_used_buckets m) (hm_table_sz m)
        then res_bind (hash_resize m (hm_table_sz m * 2)) (\<lambda>(_, m'). Inr m')
        else Inr m
      else Inr m)"

fun chain_find :: "('k \<Rightarrow> 'k \<Rightarrow> int) \<Rightarrow> 'k \<Rightarrow> ('k \<times> 'v) list \<Rightarrow> nat option" where
  "chain_find compare key [] = None"
| "chain_find compare key ((k, v) # chain) =
     (if compare key k = 0 then Some 0 else map_option Suc (chain_find compare key chain))"

text \<open>The position in its chain of the first node whose key compares equal.\<close>

definition hash_find :: "('k, 'v, 's) hash_map \<Rightarrow> 'k \<Rightarrow> nat option" where
  "hash_find m key = chain_find (hm_compare m) key (hash_chain m key)"

definition hash_insert ::
  "('k, 'v, 's) hash_map \<Rightarrow> 'k \<Rightarrow> 'v \<Rightarrow> ('v option \<times> ('k, 'v, 's) hash_map) res" where
  "hash_insert m key data =
     (case hash_find m key of
        Some i \<Rightarrow> Inr (Some (snd (hash_chain m key ! i)), m)
      | None \<Rightarrow> res_bind (hash_internal_insert_new key data m (hash_index m key))
                  (\<lambda>m'. Inr (None, m')))"

text \<open>Writing a node's key and data in place.\<close>

definition hash_set_node ::
  "('k, 'v, 's) hash_map \<Rightarrow> nat \<Rightarrow> nat \<Rightarrow> 'k \<times> 'v \<Rightarrow> ('k, 'v, 's) hash_map" where
  "hash_set_node m hash i node =
     m\<lparr>hm_table := (hm_table m)[hash := (hm_table m ! hash)[i := node]]\<rparr>"

definition hash_overwrite ::
  "('k, 'v, 's) hash_map \<Rightarrow> 'k \<Rightarrow> 'v \<Rightarrow> 's \<Rightarrow> (('k, 'v, 's) hash_map \<times> 's) res" where
  "hash_overwrite m key data s =
     (case hash_find m key of
        Some i \<Rightarrow>
          (let node = hash_chain m key ! i in
           res_bind (call_free (hm_free_data m) (snd node) s) (\<lambda>s.
           res_bind (call_free (hm_free_key m) (fst node) s) (\<lambda>s.
           Inr (hash_set_node m (hash_index m key) i (key, data), s))))
      | None \<Rightarrow> res_bind (hash_internal_insert_new key data m (hash_index m key))
                  (\<lambda>m'. Inr (m', s)))"

definition hash_lookup :: "('k, 'v, 's) hash_map \<Rightarrow> 'k \<Rightarrow> 'v option" where
  "hash_lookup m key = map_option (\<lambda>i. snd (hash_chain m key ! i)) (hash_find m key)"

definition hash_getkeyptr :: "('k, 'v, 's) hash_map \<Rightarrow> 'k \<Rightarrow> 'k option" where
  "hash_getkeyptr m key = map_option (\<lambda>i. fst (hash_chain m key ! i)) (hash_find m key)"

definition hash_size :: "('k, 'v, 's) hash_map \<Rightarrow> u64" where
  "hash_size m = hm_n_entries m"

text \<open>\<open>hash_insert_pairs\<close> on the (key, pair pointer) pairs; an existing key is skipped.\<close>

fun hash_insert_pairs ::
  "('k, 'v, 's) hash_map \<Rightarrow> ('k \<times> 'v) list \<Rightarrow> ('k, 'v, 's) hash_map res" where
  "hash_insert_pairs m [] = Inr m"
| "hash_insert_pairs m (pair # pairs) =
     res_bind (hash_insert m (fst pair) (snd pair)) (\<lambda>(_, m'). hash_insert_pairs m' pairs)"

subsection \<open>Removal\<close>

text \<open>Taking a node out of its chain: the head of a chain also decrements \<open>used_buckets\<close>.\<close>

definition hash_unlink ::
  "('k, 'v, 's) hash_map \<Rightarrow> nat \<Rightarrow> nat \<Rightarrow> ('k, 'v, 's) hash_map" where
  "hash_unlink m hash i =
     (let chain = hm_table m ! hash in
      m\<lparr>hm_table := (hm_table m)[hash := take i chain @ drop (Suc i) chain],
        hm_used_buckets := (if i = 0 then hm_used_buckets m - 1 else hm_used_buckets m)\<rparr>)"

definition hash_remove ::
  "('k, 'v, 's) hash_map \<Rightarrow> 'k \<Rightarrow> 's \<Rightarrow> (bool \<times> ('k, 'v, 's) hash_map \<times> 's) res" where
  "hash_remove m key s =
     (case hash_find m key of
        None \<Rightarrow> Inr (False, m, s)
      | Some i \<Rightarrow>
          (let node = hash_chain m key ! i; m' = hash_unlink m (hash_index m key) i in
           res_bind (call_free (hm_free_key m) (fst node) s) (\<lambda>s.
           res_bind (call_free (hm_free_data m) (snd node) s) (\<lambda>s.
           Inr (True, m'\<lparr>hm_n_entries := hm_n_entries m' - 1\<rparr>, s)))))"

text \<open>
  \<open>struct hash_export_node\<close>: the bucket and the node; \<open>last\<close> and \<open>next\<close> are the
  neighbouring positions. \<open>hash_del_internal_node\<close> leaves \<open>n_entries\<close> alone.
\<close>

record hash_export_node =
  en_hash :: nat
  en_node :: "nat option"

definition hash_get_internal_node :: "('k, 'v, 's) hash_map \<Rightarrow> 'k \<Rightarrow> hash_export_node" where
  "hash_get_internal_node m key =
     (case hash_find m key of
        Some i \<Rightarrow> \<lparr>en_hash = hash_index m key, en_node = Some i\<rparr>
      | None \<Rightarrow> \<lparr>en_hash = 0, en_node = None\<rparr>)"

definition hash_del_internal_node ::
  "('k, 'v, 's) hash_map \<Rightarrow> hash_export_node \<Rightarrow> 's \<Rightarrow> (('k, 'v, 's) hash_map \<times> 's) res" where
  "hash_del_internal_node m node s =
     (case en_node node of
        None \<Rightarrow> Inr (m, s)
      | Some i \<Rightarrow>
          res_bind (hash_free_node m (hm_table m ! en_hash node ! i) s) (\<lambda>s.
          Inr (hash_unlink m (en_hash node) i, s)))"

subsection \<open>Duplication\<close>

definition call_dup :: "('v \<Rightarrow> 's \<Rightarrow> ('v \<times> 's) res) option \<Rightarrow> 'v \<Rightarrow> 's \<Rightarrow> ('v \<times> 's) res" where
  "call_dup cb x s = (case cb of None \<Rightarrow> Inr (x, s) | Some f \<Rightarrow> f x s)"

definition hash_dup ::
  "('k, 'v, 's) hash_map \<Rightarrow> 's \<Rightarrow> (('k, 'v, 's) hash_map \<times> 's) res" where
  "hash_dup m s =
     res_fold (\<lambda>(key, data) (ret, s).
         res_bind (call_dup (hm_dup_data m) data s) (\<lambda>(data', s').
         res_bind (hash_insert ret key data') (\<lambda>(_, ret'). Inr (ret', s'))))
       (concat (hm_table m))
       (m\<lparr>hm_table := replicate (hm_table_sz m) [], hm_used_buckets := 0, hm_n_entries := 0\<rparr>, s)"

text \<open>The verdict of \<open>hash_dump\<close>: ``Map is sane'' when both counters agree with a recount.\<close>

definition hash_dump_sane :: "('k, 'v, 's) hash_map \<Rightarrow> bool" where
  "hash_dump_sane m \<longleftrightarrow>
     of_nat (length (concat (hm_table m))) = hm_n_entries m \<and>
     of_nat (length (filter (\<lambda>chain. chain \<noteq> []) (hm_table m))) = hm_used_buckets m"

section \<open>Well-formed tables\<close>

text \<open>
  What a comparison and a hash function must promise for the table to be a map at
  \<open>n\<close> buckets: \<open>compare(a, b) == 0\<close> is an equivalence and equivalent keys share a
  bucket.
\<close>

definition key_equiv :: "('k \<Rightarrow> 'k \<Rightarrow> int) \<Rightarrow> bool" where
  "key_equiv c \<longleftrightarrow> (\<forall>a. c a a = 0) \<and> (\<forall>a b. c a b = 0 \<longrightarrow> c b a = 0) \<and>
     (\<forall>a b d. c a b = 0 \<longrightarrow> c b d = 0 \<longrightarrow> c a d = 0)"

definition key_compat :: "('k \<Rightarrow> u32) \<Rightarrow> ('k \<Rightarrow> 'k \<Rightarrow> int) \<Rightarrow> nat \<Rightarrow> bool" where
  "key_compat h c n \<longleftrightarrow>
     key_equiv c \<and> (\<forall>a b. c a b = 0 \<longrightarrow> unat (h a) mod n = unat (h b) mod n)"

abbreviation hm_compat :: "('k, 'v, 's) hash_map \<Rightarrow> nat \<Rightarrow> bool" where
  "hm_compat m n \<equiv> key_compat (hm_hash m) (hm_compare m) n"

definition hash_entries :: "('k, 'v, 's) hash_map \<Rightarrow> ('k \<times> 'v) list" where
  "hash_entries m = concat (hm_table m)"

definition keys_apart :: "('k \<Rightarrow> 'k \<Rightarrow> int) \<Rightarrow> ('k \<times> 'v) list \<Rightarrow> bool" where
  "keys_apart c ps \<longleftrightarrow> sorted_wrt (\<lambda>p q. c (fst p) (fst q) \<noteq> 0) ps"

definition hash_wf :: "('k, 'v, 's) hash_map \<Rightarrow> bool" where
  "hash_wf m \<longleftrightarrow> 0 < hm_table_sz m \<and> length (hm_table m) = hm_table_sz m \<and>
     (\<forall>i<hm_table_sz m. keys_apart (hm_compare m) (hm_table m ! i) \<and>
        (\<forall>p\<in>set (hm_table m ! i). hash_index m (fst p) = i))"

definition hash_counted :: "('k, 'v, 's) hash_map \<Rightarrow> bool" where
  "hash_counted m \<longleftrightarrow> hm_n_entries m = of_nat (length (hash_entries m))"

definition used_count :: "('k, 'v, 's) hash_map \<Rightarrow> nat" where
  "used_count m = length (filter (\<lambda>chain. chain \<noteq> []) (hm_table m))"

definition used_exact :: "('k, 'v, 's) hash_map \<Rightarrow> bool" where
  "used_exact m \<longleftrightarrow> hm_used_buckets m = of_nat (used_count m)"

text \<open>The hash function, the comparison and the callbacks, which no operation changes.\<close>

definition same_funs :: "('k, 'v, 's) hash_map \<Rightarrow> ('k, 'v, 's) hash_map \<Rightarrow> bool" where
  "same_funs m m' \<longleftrightarrow> hm_hash m' = hm_hash m \<and> hm_compare m' = hm_compare m \<and>
     hm_free_key m' = hm_free_key m \<and> hm_free_data m' = hm_free_data m \<and>
     hm_dup_data m' = hm_dup_data m"

lemma same_funs_refl [simp]: "same_funs m m"
  by (simp add: same_funs_def)

lemma same_funs_trans: "same_funs a b \<Longrightarrow> same_funs b c \<Longrightarrow> same_funs a c"
  by (simp add: same_funs_def)

lemma key_compat_equiv: "key_compat h c n \<Longrightarrow> key_equiv c"
  by (simp add: key_compat_def)

lemma key_equiv_refl: "key_equiv c \<Longrightarrow> c a a = 0"
  by (simp add: key_equiv_def)

lemma key_equiv_sym: "key_equiv c \<Longrightarrow> c a b = 0 \<longleftrightarrow> c b a = 0"
  unfolding key_equiv_def by blast

lemma key_equiv_trans: "key_equiv c \<Longrightarrow> c a b = 0 \<Longrightarrow> c b d = 0 \<Longrightarrow> c a d = 0"
  unfolding key_equiv_def by blast

subsection \<open>Chains\<close>

lemma chain_find_None: "chain_find c k ch = None \<longleftrightarrow> (\<forall>p\<in>set ch. c k (fst p) \<noteq> 0)"
  by (induction c k ch rule: chain_find.induct) auto

lemma chain_find_Some:
  "chain_find c k ch = Some i \<longleftrightarrow>
     i < length ch \<and> c k (fst (ch ! i)) = 0 \<and> (\<forall>j<i. c k (fst (ch ! j)) \<noteq> 0)"
proof (induction c k ch arbitrary: i rule: chain_find.induct)
  case (2 c k k' v ch)
  then show ?case by (cases i) (auto simp: less_Suc_eq_0_disj)
qed simp

lemma keys_apart_append:
  "keys_apart c (xs @ ys) \<longleftrightarrow> keys_apart c xs \<and> keys_apart c ys \<and>
     (\<forall>p\<in>set xs. \<forall>q\<in>set ys. c (fst p) (fst q) \<noteq> 0)"
  by (simp add: keys_apart_def sorted_wrt_append)

lemma keys_apart_simps [simp]:
  "keys_apart c []"
  "keys_apart c (p # ps) \<longleftrightarrow> (\<forall>q\<in>set ps. c (fst p) (fst q) \<noteq> 0) \<and> keys_apart c ps"
  by (auto simp: keys_apart_def)

lemma keys_apart_unique:
  assumes "keys_apart c ps" "key_equiv c" "p \<in> set ps" "q \<in> set ps" "c (fst p) (fst q) = 0"
  shows "p = q"
  using assms
proof (induction ps)
  case (Cons r ps)
  then show ?case using key_equiv_sym[of c "fst p" "fst q"] by auto
qed simp

lemma keys_apart_concat:
  assumes "\<forall>i<length xss. keys_apart c (xss ! i)"
    and "\<forall>i<length xss. \<forall>j<i. \<forall>p\<in>set (xss ! j). \<forall>q\<in>set (xss ! i). c (fst p) (fst q) \<noteq> 0"
  shows "keys_apart c (concat xss)"
  using assms
proof (induction xss rule: rev_induct)
  case (snoc xs xss)
  have "keys_apart c (concat xss)"
  proof (rule snoc.IH)
    show "\<forall>i<length xss. keys_apart c (xss ! i)"
    proof (intro allI impI)
      fix i assume "i < length xss"
      then show "keys_apart c (xss ! i)"
        using snoc.prems(1)[rule_format, of i] by (simp add: nth_append)
    qed
    show "\<forall>i<length xss. \<forall>j<i. \<forall>p\<in>set (xss ! j). \<forall>q\<in>set (xss ! i). c (fst p) (fst q) \<noteq> 0"
    proof (intro allI impI ballI)
      fix i j p q
      assume "i < length xss" "j < i" "p \<in> set (xss ! j)" "q \<in> set (xss ! i)"
      then show "c (fst p) (fst q) \<noteq> 0"
        using snoc.prems(2)[rule_format, of i j p q] by (simp add: nth_append)
    qed
  qed
  moreover have "keys_apart c xs"
    using snoc.prems(1) by (metis length_append_singleton lessI nth_append_length)
  moreover have "\<forall>p\<in>set (concat xss). \<forall>q\<in>set xs. c (fst p) (fst q) \<noteq> 0"
  proof (intro ballI)
    fix p q assume "p \<in> set (concat xss)" and q: "q \<in> set xs"
    then obtain j where "j < length xss" "p \<in> set (xss ! j)"
      unfolding in_set_concat_nth by blast
    then show "c (fst p) (fst q) \<noteq> 0"
      using snoc.prems(2)[rule_format, of "length xss" j p q] q by (simp add: nth_append)
  qed
  ultimately show ?case by (simp add: keys_apart_append)
qed simp

lemma hash_entries_nth:
  "p \<in> set (hash_entries m) \<longleftrightarrow> (\<exists>i<length (hm_table m). p \<in> set (hm_table m ! i))"
  by (simp add: hash_entries_def in_set_concat_nth del: set_concat)

lemma hash_wf_index_less: "hash_wf m \<Longrightarrow> hash_index m k < length (hm_table m)"
  by (simp add: hash_wf_def hash_index_def)

lemma hash_wf_entry_chain:
  assumes "hash_wf m" "p \<in> set (hash_entries m)"
  shows "p \<in> set (hash_chain m (fst p))"
  using assms by (auto simp: hash_entries_nth hash_wf_def hash_chain_def)

lemma hash_chain_entries: "hash_wf m \<Longrightarrow> p \<in> set (hash_chain m k) \<Longrightarrow> p \<in> set (hash_entries m)"
  using hash_wf_index_less[of m k] by (auto simp: hash_entries_nth hash_chain_def)

lemma hm_compat_index: "hm_compat m (hm_table_sz m) \<Longrightarrow> hm_compare m a b = 0 \<Longrightarrow> hash_index m a = hash_index m b"
  by (simp add: key_compat_def hash_index_def)

lemma hash_wf_entries_apart:
  assumes wf: "hash_wf m" and c: "hm_compat m (hm_table_sz m)"
  shows "keys_apart (hm_compare m) (hash_entries m)"
  unfolding hash_entries_def
proof (rule keys_apart_concat)
  show "\<forall>i<length (hm_table m). keys_apart (hm_compare m) (hm_table m ! i)"
    using wf by (simp add: hash_wf_def)
  show "\<forall>i<length (hm_table m). \<forall>j<i. \<forall>p\<in>set (hm_table m ! j). \<forall>q\<in>set (hm_table m ! i).
      hm_compare m (fst p) (fst q) \<noteq> 0"
  proof (intro allI impI ballI notI)
    fix i j p q
    assume "i < length (hm_table m)" "j < i" "p \<in> set (hm_table m ! j)"
      "q \<in> set (hm_table m ! i)" and eq: "hm_compare m (fst p) (fst q) = 0"
    then have "hash_index m (fst p) = j" "hash_index m (fst q) = i"
      using wf by (auto simp: hash_wf_def)
    with hm_compat_index[OF c eq] \<open>j < i\<close> show False by simp
  qed
qed

subsection \<open>Lookup is the map of the entries\<close>

lemma hash_lookup_iff:
  assumes wf: "hash_wf m" and c: "hm_compat m (hm_table_sz m)"
  shows "hash_lookup m k = Some v \<longleftrightarrow>
    (\<exists>k'. (k', v) \<in> set (hash_entries m) \<and> hm_compare m k k' = 0)"
proof
  assume "hash_lookup m k = Some v"
  then obtain i where i: "hash_find m k = Some i" and v: "v = snd (hash_chain m k ! i)"
    by (auto simp: hash_lookup_def)
  then have "i < length (hash_chain m k)" "hm_compare m k (fst (hash_chain m k ! i)) = 0"
    by (auto simp: hash_find_def chain_find_Some)
  then show "\<exists>k'. (k', v) \<in> set (hash_entries m) \<and> hm_compare m k k' = 0"
    using v hash_chain_entries[OF wf nth_mem] by (metis prod.collapse)
next
  assume "\<exists>k'. (k', v) \<in> set (hash_entries m) \<and> hm_compare m k k' = 0"
  then obtain k' where k': "(k', v) \<in> set (hash_entries m)" "hm_compare m k k' = 0" by blast
  have eqv: "key_equiv (hm_compare m)" using c by (rule key_compat_equiv)
  have in_chain: "(k', v) \<in> set (hash_chain m k)"
    using hash_wf_entry_chain[OF wf k'(1)] hm_compat_index[OF c k'(2)]
    by (simp add: hash_chain_def)
  then have "\<exists>p\<in>set (hash_chain m k). hm_compare m k (fst p) = 0" using k'(2) by force
  then have "hash_find m k \<noteq> None" unfolding hash_find_def chain_find_None by blast
  then obtain i where i: "hash_find m k = Some i" by blast
  let ?p = "hash_chain m k ! i"
  have p: "?p \<in> set (hash_chain m k)" "hm_compare m k (fst ?p) = 0"
    using i by (auto simp: hash_find_def chain_find_Some)
  have "hm_compare m (fst ?p) k' = 0"
    using p(2) k'(2) eqv by (metis key_equiv_sym key_equiv_trans)
  moreover have "keys_apart (hm_compare m) (hash_chain m k)"
    using wf hash_wf_index_less[OF wf] by (auto simp: hash_wf_def hash_chain_def)
  ultimately have "?p = (k', v)"
    using keys_apart_unique[OF _ eqv p(1) in_chain] by simp
  then show "hash_lookup m k = Some v" using i by (simp add: hash_lookup_def)
qed

lemma hash_lookup_None:
  assumes wf: "hash_wf m" and c: "hm_compat m (hm_table_sz m)"
  shows "hash_lookup m k = None \<longleftrightarrow> (\<forall>p\<in>set (hash_entries m). hm_compare m k (fst p) \<noteq> 0)"
proof -
  have "hash_lookup m k = None \<longleftrightarrow> (\<forall>v. hash_lookup m k \<noteq> Some v)" by (cases "hash_lookup m k") auto
  also have "\<dots> \<longleftrightarrow> (\<forall>p\<in>set (hash_entries m). hm_compare m k (fst p) \<noteq> 0)"
    unfolding hash_lookup_iff[OF wf c] by force
  finally show ?thesis .
qed

lemma distinct_map_fst_sorted_wrt:
  "distinct (map fst ps) \<longleftrightarrow> sorted_wrt (\<lambda>p q. fst p \<noteq> fst q) ps"
  by (induction ps) auto

text \<open>Taking one entry out leaves no other entry with an equal key.\<close>

lemma entries_apart_remove:
  assumes "keys_apart c ps" "mset ps = add_mset p (mset qs)" "key_equiv c"
  shows "\<forall>q\<in>set qs. c (fst p) (fst q) \<noteq> 0"
proof -
  obtain xs ys where ps: "ps = xs @ p # ys"
    using assms(2) by (metis in_set_conv_decomp set_mset_mset union_single_eq_member)
  then have "mset qs = mset (xs @ ys)" using assms(2) by simp
  then have "set qs = set (xs @ ys)" by (rule mset_eq_setD)
  then show ?thesis
    using assms(1) key_equiv_sym[OF assms(3)] by (auto simp: ps keys_apart_append)
qed

text \<open>The counters and the callbacks play no part in these predicates.\<close>

lemma counter_updates [simp]:
  "hash_wf (m\<lparr>hm_n_entries := n\<rparr>) = hash_wf m"
  "hash_wf (m\<lparr>hm_used_buckets := n\<rparr>) = hash_wf m"
  "hash_entries (m\<lparr>hm_n_entries := n\<rparr>) = hash_entries m"
  "hash_entries (m\<lparr>hm_used_buckets := n\<rparr>) = hash_entries m"
  "same_funs m' (m\<lparr>hm_n_entries := n\<rparr>) = same_funs m' m"
  "same_funs m' (m\<lparr>hm_used_buckets := n\<rparr>) = same_funs m' m"
  by (simp_all add: hash_wf_def hash_entries_def same_funs_def hash_index_def)

subsection \<open>Resizing keeps the map and recounts\<close>

lemma mset_concat_update:
  "i < length xss \<Longrightarrow> mset (concat (xss[i := ys])) + mset (xss ! i) = mset (concat xss) + mset ys"
proof (induction xss arbitrary: i)
  case (Cons xs xss)
  then show ?case by (cases i) (auto simp: ac_simps)
qed simp

lemma mset_concat_cons:
  assumes "i < length xss" shows "mset (concat (xss[i := x # xss ! i])) = add_mset x (mset (concat xss))"
  using mset_concat_update[OF assms, of "x # xss ! i"] by simp

lemma mset_concat_snoc:
  assumes "i < length xss" shows "mset (concat (xss[i := xss ! i @ [x]])) = add_mset x (mset (concat xss))"
  using mset_concat_update[OF assms, of "xss ! i @ [x]"] by simp

lemma rehash_node_simps [simp]:
  "hm_hash (rehash_node m p) = hm_hash m"
  "hm_compare (rehash_node m p) = hm_compare m"
  "hm_table_sz (rehash_node m p) = hm_table_sz m"
  "hash_index (rehash_node m p) k = hash_index m k"
  "length (hm_table (rehash_node m p)) = length (hm_table m)"
  "hm_n_entries (rehash_node m p) = hm_n_entries m + 1"
  "same_funs m' (rehash_node m p) = same_funs m' m"
  "same_funs (rehash_node m p) m' = same_funs m m'"
  by (auto simp: rehash_node_def Let_def hash_index_def same_funs_def)

lemma rehash_node_step:
  assumes wf: "hash_wf m" and apart: "\<forall>q\<in>set (hash_entries m). hm_compare m (fst p) (fst q) \<noteq> 0"
  shows "hash_wf (rehash_node m p)"
    and "mset (hash_entries (rehash_node m p)) = add_mset p (mset (hash_entries m))"
    and "used_exact m \<Longrightarrow> used_exact (rehash_node m p)"
proof -
  let ?i = "hash_index m (fst p)"
  have i: "?i < length (hm_table m)" using wf by (rule hash_wf_index_less)
  have tbl: "hm_table (rehash_node m p) = (hm_table m)[?i := p # hm_table m ! ?i]"
    by (simp add: rehash_node_def Let_def)
  show "mset (hash_entries (rehash_node m p)) = add_mset p (mset (hash_entries m))"
    using mset_concat_cons[OF i] by (simp add: hash_entries_def tbl)
  have "\<forall>q\<in>set (hm_table m ! ?i). hm_compare m (fst p) (fst q) \<noteq> 0"
    using apart i by (auto simp: hash_entries_nth)
  then show "hash_wf (rehash_node m p)"
    using wf i unfolding hash_wf_def by (auto simp: tbl nth_list_update)
  show "used_exact (rehash_node m p)" if "used_exact m"
    using that length_filter_update[OF i, of "\<lambda>c. c \<noteq> []" "p # hm_table m ! ?i"]
    by (auto simp: used_exact_def used_count_def rehash_node_def Let_def)
qed

lemma rehash_fold:
  assumes "hash_wf m" "keys_apart (hm_compare m) ps" "key_equiv (hm_compare m)"
    "\<forall>p\<in>set ps. \<forall>q\<in>set (hash_entries m). hm_compare m (fst p) (fst q) \<noteq> 0"
    "used_exact m"
  shows "let m' = fold (\<lambda>node acc. rehash_node acc node) ps m in
     hash_wf m' \<and> same_funs m m' \<and> hm_table_sz m' = hm_table_sz m \<and> used_exact m' \<and>
     mset (hash_entries m') = mset ps + mset (hash_entries m) \<and>
     hm_n_entries m' = hm_n_entries m + of_nat (length ps)"
  using assms
proof (induction ps arbitrary: m)
  case (Cons p ps)
  let ?m = "rehash_node m p"
  have step: "hash_wf ?m" "mset (hash_entries ?m) = add_mset p (mset (hash_entries m))" "used_exact ?m"
    using rehash_node_step[of m p] Cons.prems by auto
  then have set: "set (hash_entries ?m) = insert p (set (hash_entries m))"
    by (metis set_mset_add_mset_insert set_mset_mset)
  have ih: "let m' = fold (\<lambda>node acc. rehash_node acc node) ps ?m in
     hash_wf m' \<and> same_funs ?m m' \<and> hm_table_sz m' = hm_table_sz ?m \<and> used_exact m' \<and>
     mset (hash_entries m') = mset ps + mset (hash_entries ?m) \<and>
     hm_n_entries m' = hm_n_entries ?m + of_nat (length ps)"
  proof (rule Cons.IH)
    show "\<forall>r\<in>set ps. \<forall>q\<in>set (hash_entries ?m). hm_compare ?m (fst r) (fst q) \<noteq> 0"
      using Cons.prems(2,4) key_equiv_sym[OF Cons.prems(3)] by (auto simp: set)
  qed (use step Cons.prems in auto)
  then show ?case by (simp add: Let_def step(2))
qed (simp add: hash_entries_def)

lemma hash_entries_replicate [simp]:
  "hash_entries (m\<lparr>hm_table := replicate n []\<rparr>) = []"
  "hash_entries (m\<lparr>hm_table := replicate n [], hm_table_sz := n\<rparr>) = []"
  by (auto simp: hash_entries_def)

text \<open>The table \<open>hash_resize\<close> and \<open>hash_dup\<close> start from.\<close>

lemma fresh_table_wf:
  assumes "0 < n" and "m' = m\<lparr>hm_table := replicate n [], hm_table_sz := n, hm_n_entries := 0, hm_used_buckets := 0\<rparr>"
  shows "hash_wf m'" "used_exact m'" "hash_counted m'" "hash_entries m' = []" "same_funs m m'"
    "hm_table_sz m' = n" "hm_n_entries m' = 0"
  using assms by (auto simp: hash_wf_def used_exact_def used_count_def hash_counted_def hash_entries_def same_funs_def)

lemma hash_resize_recount:
  assumes wf: "hash_wf m" and c: "hm_compat m (hm_table_sz m)" and n: "0 < n" "n \<noteq> hm_table_sz m"
  obtains m' where "hash_resize m n = (if hash_counted m then Inr (True, m') else Inl Assert_Failed)"
    "hash_wf m'" "same_funs m m'" "hm_table_sz m' = n" "used_exact m'" "hash_counted m'"
    "mset (hash_entries m') = mset (hash_entries m)"
proof -
  let ?fresh = "m\<lparr>hm_table := replicate n [], hm_table_sz := n, hm_n_entries := 0, hm_used_buckets := 0\<rparr>"
  let ?m' = "fold (\<lambda>node acc. rehash_node acc node) (hash_entries m) ?fresh"
  note fresh = fresh_table_wf[OF n(1) refl, of m]
  have "let m' = ?m' in
     hash_wf m' \<and> same_funs ?fresh m' \<and> hm_table_sz m' = hm_table_sz ?fresh \<and> used_exact m' \<and>
     mset (hash_entries m') = mset (hash_entries m) + mset (hash_entries ?fresh) \<and>
     hm_n_entries m' = hm_n_entries ?fresh + of_nat (length (hash_entries m))"
    by (rule rehash_fold)
      (use fresh hash_wf_entries_apart[OF wf c] key_compat_equiv[OF c] in \<open>simp_all add: same_funs_def\<close>)
  then have m': "hash_wf ?m'" "same_funs ?fresh ?m'" "hm_table_sz ?m' = n" "used_exact ?m'"
    "mset (hash_entries ?m') = mset (hash_entries m)"
    "hm_n_entries ?m' = of_nat (length (hash_entries m))"
    by (auto simp: Let_def fresh)
  have counted: "hash_counted ?m'"
    using m'(6) mset_eq_length[OF m'(5)] by (simp add: hash_counted_def)
  have "hash_resize m n = (if hash_counted m then Inr (True, ?m') else Inl Assert_Failed)"
    using n m'(6) by (simp add: hash_resize_def Let_def hash_counted_def hash_entries_def)
  then show thesis
    using that m'(1-5) counted same_funs_trans[OF fresh(5) m'(2)] by blast
qed

subsection \<open>Insertion\<close>

text \<open>
  What an operation that adds the pair \<open>p\<close> leaves behind; the sizes allowed are the old
  one and its double.
\<close>

definition adds_entry ::
  "('k, 'v, 's) hash_map \<Rightarrow> 'k \<times> 'v \<Rightarrow> ('k, 'v, 's) hash_map \<Rightarrow> bool" where
  "adds_entry m p m' \<longleftrightarrow> hash_wf m' \<and> same_funs m m' \<and>
     hm_table_sz m' \<in> {hm_table_sz m, 2 * hm_table_sz m} \<and>
     mset (hash_entries m') = add_mset p (mset (hash_entries m)) \<and>
     (hash_counted m \<longrightarrow> hash_counted m') \<and> (used_exact m \<longrightarrow> used_exact m')"

lemma adds_entry_set: "adds_entry m p m' \<Longrightarrow> set (hash_entries m') = insert p (set (hash_entries m))"
  by (metis adds_entry_def set_mset_add_mset_insert set_mset_mset)

lemma hash_internal_insert_new_spec:
  assumes wf: "hash_wf m" and c: "hm_compat m (hm_table_sz m)" and new: "hash_find m k = None"
  shows "(\<exists>m'. hash_internal_insert_new k v m (hash_index m k) = Inr m' \<and> adds_entry m (k, v) m') \<or>
     hash_internal_insert_new k v m (hash_index m k) = Inl Assert_Failed \<and> \<not> hash_counted m"
proof -
  let ?i = "hash_index m k" let ?chain = "hm_table m ! ?i"
  let ?m1 = "m\<lparr>hm_n_entries := hm_n_entries m + 1, hm_table := (hm_table m)[?i := ?chain @ [(k, v)]],
    hm_used_buckets := (if ?chain = [] then hm_used_buckets m + 1 else hm_used_buckets m)\<rparr>"
  have i: "?i < length (hm_table m)" using wf by (rule hash_wf_index_less)
  have "\<forall>p\<in>set ?chain. hm_compare m k (fst p) \<noteq> 0"
    using new by (simp add: hash_find_def hash_chain_def chain_find_None)
  then have apart: "\<forall>p\<in>set ?chain. hm_compare m (fst p) k \<noteq> 0"
    using key_equiv_sym[OF key_compat_equiv[OF c]] by blast
  have m1: "mset (hash_entries ?m1) = add_mset (k, v) (mset (hash_entries m))"
    using mset_concat_snoc[OF i] by (simp add: hash_entries_def)
  have wf1: "hash_wf ?m1"
    using wf apart i by (auto simp: hash_wf_def nth_list_update keys_apart_append hash_index_def)
  have len: "length (hash_entries ?m1) = Suc (length (hash_entries m))"
    using mset_eq_length[OF m1[unfolded mset.simps(2)[symmetric]]] by simp
  have counted: "hash_counted ?m1 = hash_counted m"
    using len by (auto simp: hash_counted_def)
  have used: "used_exact m \<Longrightarrow> used_exact ?m1"
    using length_filter_update[OF i, of "\<lambda>c. c \<noteq> []" "?chain @ [(k, v)]"]
    by (auto simp: used_exact_def used_count_def)
  have adds: "adds_entry m (k, v) ?m1"
    using wf1 m1 counted used by (auto simp: adds_entry_def same_funs_def)
  show ?thesis
  proof (cases "?chain = [] \<and> over_threshold (hm_used_buckets m + 1) (hm_table_sz m)")
    case False
    then have "hash_internal_insert_new k v m ?i = Inr ?m1"
      by (auto simp: hash_internal_insert_new_def Let_def)
    then show ?thesis using adds by blast
  next
    case True
    have sz: "0 < 2 * hm_table_sz m" "2 * hm_table_sz m \<noteq> hm_table_sz ?m1"
      using wf by (auto simp: hash_wf_def)
    have c1: "hm_compat ?m1 (hm_table_sz ?m1)" using c by simp
    obtain m' where m': "hash_resize ?m1 (2 * hm_table_sz m) =
        (if hash_counted ?m1 then Inr (True, m') else Inl Assert_Failed)"
      "hash_wf m'" "same_funs ?m1 m'" "hm_table_sz m' = 2 * hm_table_sz m" "used_exact m'"
      "hash_counted m'" "mset (hash_entries m') = mset (hash_entries ?m1)"
      by (rule hash_resize_recount[OF wf1 c1 sz]) blast
    have "hash_internal_insert_new k v m ?i = res_bind (hash_resize ?m1 (2 * hm_table_sz m)) (\<lambda>(_, m'). Inr m')"
      using True by (simp add: hash_internal_insert_new_def Let_def mult.commute)
    moreover have "adds_entry m (k, v) m'"
      using m' m1 by (auto simp: adds_entry_def same_funs_def)
    ultimately show ?thesis using m'(1) counted by auto
  qed
qed

lemma hash_insert_present:
  "hash_lookup m k = Some d \<Longrightarrow> hash_insert m k v = Inr (Some d, m)"
  by (auto simp: hash_insert_def hash_lookup_def split: option.splits)

lemma hash_insert_absent:
  assumes "hash_wf m" "hm_compat m (hm_table_sz m)" "hash_lookup m k = None" "hash_counted m"
  obtains m' where "hash_insert m k v = Inr (None, m')" "adds_entry m (k, v) m'"
proof -
  have "hash_find m k = None" using assms(3) by (simp add: hash_lookup_def)
  then show thesis
    using hash_internal_insert_new_spec[OF assms(1,2), of k v] assms(4) that
    by (auto simp: hash_insert_def)
qed

lemma adds_entry_lookup:
  assumes "adds_entry m (k, v) m'" "hash_wf m" "hm_compat m (hm_table_sz m)"
    "hm_compat m (hm_table_sz m')" "hash_lookup m k = None"
  shows "hash_lookup m' k' = (if hm_compare m k' k = 0 then Some v else hash_lookup m k')"
proof -
  have wf': "hash_wf m'" and cmp: "hm_compare m' = hm_compare m" "hm_compat m' (hm_table_sz m')"
    using assms(1,4) by (auto simp: adds_entry_def same_funs_def)
  have eqv: "key_equiv (hm_compare m)" using assms(3) by (rule key_compat_equiv)
  note iff = hash_lookup_iff[OF wf' cmp(2)] adds_entry_set[OF assms(1)] cmp(1)
  have none: "\<forall>p\<in>set (hash_entries m). hm_compare m k (fst p) \<noteq> 0"
    using assms(5) hash_lookup_None[OF assms(2,3)] by blast
  show ?thesis
  proof (cases "hm_compare m k' k = 0")
    case True
    have "hash_lookup m' k' = Some v" unfolding iff(1) using True by (auto simp: iff(2,3))
    then show ?thesis using True by simp
  next
    case False
    have "hash_lookup m' k' = Some w \<longleftrightarrow> hash_lookup m k' = Some w" for w
      unfolding iff(1) hash_lookup_iff[OF assms(2,3)] using False by (auto simp: iff(2,3))
    then have "hash_lookup m' k' = hash_lookup m k'"
      by (cases "hash_lookup m k'") (metis not_Some_eq)+
    then show ?thesis using False by simp
  qed
qed

subsection \<open>Removal\<close>

definition drops_entry ::
  "('k, 'v, 's) hash_map \<Rightarrow> 'k \<times> 'v \<Rightarrow> ('k, 'v, 's) hash_map \<Rightarrow> bool" where
  "drops_entry m p m' \<longleftrightarrow> hash_wf m' \<and> same_funs m m' \<and> hm_table_sz m' = hm_table_sz m \<and>
     mset (hash_entries m) = add_mset p (mset (hash_entries m'))"

lemma mset_remove_nth: "i < length xs \<Longrightarrow> add_mset (xs ! i) (mset (take i xs @ drop (Suc i) xs)) = mset xs"
  by (metis add_mset_add_single id_take_nth_drop mset.simps(2) mset_append union_mset_add_mset_right)

lemma keys_apart_remove_nth: "keys_apart c ch \<Longrightarrow> keys_apart c (take i ch @ drop (Suc i) ch)"
proof (cases "i < length ch")
  case True
  then show "keys_apart c ch \<Longrightarrow> ?thesis"
    using id_take_nth_drop[OF True] by (metis keys_apart_append keys_apart_simps(2) list.set_intros(2))
qed simp

lemma hash_unlink_drops:
  assumes wf: "hash_wf m" and h: "h < hm_table_sz m" and i: "i < length (hm_table m ! h)"
  shows "drops_entry m (hm_table m ! h ! i) (hash_unlink m h i)"
    and "hm_n_entries (hash_unlink m h i) = hm_n_entries m"
proof -
  let ?ch = "hm_table m ! h" let ?ch' = "take i ?ch @ drop (Suc i) ?ch"
  have len: "h < length (hm_table m)" using wf h by (simp add: hash_wf_def)
  have "mset (hash_entries (hash_unlink m h i)) + mset ?ch = mset (hash_entries m) + mset ?ch'"
    using mset_concat_update[OF len, of ?ch'] by (simp add: hash_entries_def hash_unlink_def Let_def)
  then have "mset (hash_entries m) = add_mset (?ch ! i) (mset (hash_entries (hash_unlink m h i)))"
    using mset_remove_nth[OF i] by (simp flip: mset_remove_nth[OF i])
  moreover have "hash_wf (hash_unlink m h i)"
  proof -
    have tbl: "hm_table (hash_unlink m h i) = (hm_table m)[h := ?ch']"
      by (simp add: hash_unlink_def Let_def)
    have chain: "keys_apart (hm_compare m) ?ch'" "\<forall>p\<in>set ?ch'. hash_index m (fst p) = h"
      using wf h keys_apart_remove_nth by (auto simp: hash_wf_def dest!: in_set_takeD in_set_dropD)
    moreover have "hash_index (hash_unlink m h i) = hash_index m"
      by (simp add: hash_index_def hash_unlink_def Let_def fun_eq_iff)
    ultimately show ?thesis
      using wf len by (simp add: hash_wf_def tbl nth_list_update) (simp add: hash_unlink_def Let_def)
  qed
  ultimately show "drops_entry m (?ch ! i) (hash_unlink m h i)"
    by (simp add: drops_entry_def same_funs_def hash_unlink_def Let_def)
  show "hm_n_entries (hash_unlink m h i) = hm_n_entries m"
    by (simp add: hash_unlink_def Let_def)
qed

lemma hash_find_pos:
  assumes "hash_wf m" "hash_find m k = Some i"
  shows "hash_index m k < hm_table_sz m" "i < length (hm_table m ! hash_index m k)"
    "hm_compare m k (fst (hm_table m ! hash_index m k ! i)) = 0"
    "hash_lookup m k = Some (snd (hm_table m ! hash_index m k ! i))"
  using assms hash_wf_index_less[OF assms(1), of k]
  by (auto simp: hash_wf_def hash_find_def chain_find_Some hash_chain_def hash_lookup_def)

lemma drops_entry_length: "drops_entry m p m' \<Longrightarrow> length (hash_entries m) = Suc (length (hash_entries m'))"
  by (metis drops_entry_def size_add_mset size_mset)

lemma hash_remove_present:
  assumes wf: "hash_wf m" and l: "hash_lookup m k = Some v"
  obtains k' m' where "hm_compare m k k' = 0" "drops_entry m (k', v) m'"
    "hm_n_entries m' = hm_n_entries m - 1"
    "\<And>s. hash_remove m k s = res_bind (call_free (hm_free_key m) k' s) (\<lambda>s.
           res_bind (call_free (hm_free_data m) v s) (\<lambda>s. Inr (True, m', s)))"
proof -
  obtain i where i: "hash_find m k = Some i" using l by (auto simp: hash_lookup_def)
  let ?h = "hash_index m k" let ?p = "hm_table m ! ?h ! i"
  let ?m' = "hash_unlink m ?h i"
  note pos = hash_find_pos[OF wf i]
  note un = hash_unlink_drops[OF wf pos(1,2)]
  have v: "?p = (fst ?p, v)" using pos(4) l by (metis option.inject prod.collapse)
  show thesis
  proof (rule that[of "fst ?p" "?m'\<lparr>hm_n_entries := hm_n_entries ?m' - 1\<rparr>"])
    show "drops_entry m (fst ?p, v) (?m'\<lparr>hm_n_entries := hm_n_entries ?m' - 1\<rparr>)"
      using un(1) v by (simp add: drops_entry_def)
    show "hash_remove m k s = res_bind (call_free (hm_free_key m) (fst ?p) s) (\<lambda>s.
           res_bind (call_free (hm_free_data m) v s) (\<lambda>s.
             Inr (True, ?m'\<lparr>hm_n_entries := hm_n_entries ?m' - 1\<rparr>, s)))" for s
      using v by (simp add: hash_remove_def i Let_def hash_chain_def) (metis snd_conv)
  qed (use pos(3) un(2) in simp_all)
qed

lemma hash_remove_absent: "hash_lookup m k = None \<Longrightarrow> hash_remove m k s = Inr (False, m, s)"
  by (simp add: hash_remove_def hash_lookup_def)

lemma drops_entry_lookup:
  assumes d: "drops_entry m (k', v) m'" and wf: "hash_wf m" and c: "hm_compat m (hm_table_sz m)"
    and k: "hm_compare m k k' = 0"
  shows "hash_lookup m' q = (if hm_compare m q k = 0 then None else hash_lookup m q)"
proof -
  have wf': "hash_wf m'" and cmp: "hm_compare m' = hm_compare m" "hm_compat m' (hm_table_sz m')"
    using d c by (auto simp: drops_entry_def same_funs_def)
  have eqv: "key_equiv (hm_compare m)" using c by (rule key_compat_equiv)
  have ms: "mset (hash_entries m) = add_mset (k', v) (mset (hash_entries m'))"
    using d by (simp add: drops_entry_def)
  have set: "set (hash_entries m) = insert (k', v) (set (hash_entries m'))"
    using ms by (metis set_mset_add_mset_insert set_mset_mset)
  have apart: "\<forall>p\<in>set (hash_entries m'). hm_compare m k' (fst p) \<noteq> 0"
    using entries_apart_remove[OF hash_wf_entries_apart[OF wf c] ms eqv] by simp
  show ?thesis
  proof (cases "hm_compare m q k = 0")
    case True
    have "hm_compare m k' q = 0" using True k eqv by (metis key_equiv_sym key_equiv_trans)
    then have "\<forall>p\<in>set (hash_entries m'). hm_compare m' q (fst p) \<noteq> 0"
      using apart eqv cmp(1) by (metis key_equiv_trans)
    then show ?thesis using True hash_lookup_None[OF wf' cmp(2)] by simp
  next
    case False
    have "hm_compare m q k' \<noteq> 0" using False k eqv by (metis key_equiv_sym key_equiv_trans)
    then have "hash_lookup m' q = Some w \<longleftrightarrow> hash_lookup m q = Some w" for w
      unfolding hash_lookup_iff[OF wf' cmp(2)] hash_lookup_iff[OF wf c] by (auto simp: set cmp(1))
    then have "hash_lookup m' q = hash_lookup m q"
      by (cases "hash_lookup m q") (metis not_Some_eq)+
    then show ?thesis using False by simp
  qed
qed

subsection \<open>Iteration\<close>

text \<open>The loop every client writes around \<open>hash_iterate\<close>, and what is left of it.\<close>

definition iter_rest :: "('k, 'v, 's) hash_map \<Rightarrow> iterstate \<Rightarrow> ('k \<times> 'v) list" where
  "iter_rest m st =
     (if it_bucket st < hm_table_sz m
      then drop (case it_node st of None \<Rightarrow> 0 | Some i \<Rightarrow> Suc i) (hm_table m ! it_bucket st) @
        concat (map ((!) (hm_table m)) [Suc (it_bucket st)..<hm_table_sz m])
      else [])"

lemma hash_iterate_rest:
  "(case hash_iterate m st of None \<Rightarrow> iter_rest m st = []
    | Some (p, st') \<Rightarrow> iter_rest m st = p # iter_rest m st')"
proof (induction m st rule: hash_iterate.induct)
  case (1 m st)
  let ?node = "case it_node st of None \<Rightarrow> 0 | Some i \<Rightarrow> Suc i"
  let ?chain = "hm_table m ! it_bucket st"
  show ?case
  proof (cases "it_bucket st < hm_table_sz m")
    case True
    show ?thesis
    proof (cases "?node < length ?chain")
      case node: True
      then show ?thesis using True
        by (subst hash_iterate.simps) (auto simp: iter_rest_def Let_def Cons_nth_drop_Suc)
    next
      case False
      have "iter_rest m st = iter_rest m \<lparr>it_node = None, it_bucket = Suc (it_bucket st)\<rparr>"
        using True False by (auto simp: iter_rest_def upt_conv_Cons)
      then show ?thesis using 1[OF True refl refl] True False
        by (subst hash_iterate.simps) (auto simp: Let_def split: option.splits)
    qed
  next
    case False
    then show ?thesis by (subst hash_iterate.simps) (simp add: iter_rest_def)
  qed
qed

function hash_iter_loop :: "('k, 'v, 's) hash_map \<Rightarrow> iterstate \<Rightarrow> ('k \<times> 'v) list" where
  "hash_iter_loop m st =
     (case hash_iterate m st of None \<Rightarrow> [] | Some (p, st') \<Rightarrow> p # hash_iter_loop m st')"
  by pat_completeness auto
termination
proof (relation "measure (\<lambda>(m, st). length (iter_rest m st))", goal_cases)
  case (2 m st x p st')
  then show ?case using hash_iterate_rest[of m st] by (auto split: prod.splits)
qed simp

declare hash_iter_loop.simps [simp del]

lemma hash_iter_loop_rest: "hash_iter_loop m st = iter_rest m st"
proof (induction m st rule: hash_iter_loop.induct)
  case (1 m st)
  then show ?case using hash_iterate_rest[of m st]
    by (subst hash_iter_loop.simps) (auto split: option.splits)
qed

lemma hash_iter_loop_entries: "hash_wf m \<Longrightarrow> hash_iter_loop m iter_start = hash_entries m"
proof -
  assume wf: "hash_wf m"
  then have "hm_table m = map ((!) (hm_table m)) [0..<hm_table_sz m]"
    using map_nth[of "hm_table m"] by (simp add: hash_wf_def)
  moreover have "[0..<hm_table_sz m] = 0 # [Suc 0..<hm_table_sz m]"
    using wf by (simp add: hash_wf_def upt_conv_Cons)
  ultimately have "concat (hm_table m) = hm_table m ! 0 @ concat (map ((!) (hm_table m)) [Suc 0..<hm_table_sz m])"
    by (metis concat.simps(2) list.map(2))
  then show "hash_iter_loop m iter_start = hash_entries m"
    using wf by (simp add: hash_iter_loop_rest iter_rest_def iter_start_def hash_wf_def hash_entries_def)
qed

subsection \<open>Overwriting\<close>

lemma mset_update_nth: "i < length xs \<Longrightarrow> add_mset (xs ! i) (mset (xs[i := y])) = add_mset y (mset xs)"
  by (simp add: mset_update)

lemma keys_apart_update:
  assumes "keys_apart c ch" "key_equiv c" "i < length ch" "c k (fst (ch ! i)) = 0"
  shows "keys_apart c (ch[i := (k, v)])"
proof -
  let ?xs = "take i ch" and ?p = "ch ! i" and ?ys = "drop (Suc i) ch"
  have ch: "ch = ?xs @ ?p # ?ys" using assms(3) by (rule id_take_nth_drop)
  have upd: "ch[i := (k, v)] = ?xs @ (k, v) # ?ys" using assms(3) by (rule upd_conv_take_nth_drop)
  have apart: "keys_apart c (?xs @ ?p # ?ys)" using assms(1) ch by simp
  then have xy: "\<forall>q\<in>set ?xs. c (fst q) (fst ?p) \<noteq> 0" "\<forall>q\<in>set ?ys. c (fst ?p) (fst q) \<noteq> 0"
    by (auto simp: keys_apart_append)
  have "\<forall>q\<in>set ?xs. c (fst q) k \<noteq> 0" "\<forall>q\<in>set ?ys. c k (fst q) \<noteq> 0"
    using xy assms(4) key_equiv_sym[OF assms(2)] key_equiv_trans[OF assms(2)] by blast+
  then show ?thesis using apart unfolding upd by (auto simp: keys_apart_append)
qed

lemma chain_find_cong:
  "list_all2 (\<lambda>p p'. (c q (fst p) = 0) = (c q (fst p') = 0)) ch ch' \<Longrightarrow> chain_find c q ch = chain_find c q ch'"
  by (induction rule: list_all2_induct) auto

lemma hash_set_node:
  assumes wf: "hash_wf m" and c: "hm_compat m (hm_table_sz m)" and i: "hash_find m k = Some i"
    and k2: "hm_compare m k k2 = 0"
    and m': "m' = hash_set_node m (hash_index m k) i (k2, v)"
  shows "hash_wf m'" "same_funs m m'" "hm_table_sz m' = hm_table_sz m" "hm_n_entries m' = hm_n_entries m"
    "add_mset (hash_chain m k ! i) (mset (hash_entries m')) = add_mset (k2, v) (mset (hash_entries m))"
    "hash_counted m' = hash_counted m"
    "hash_lookup m' q = (if hm_compare m q k = 0 then Some v else hash_lookup m q)"
    "hash_find m' q = hash_find m q"
proof -
  let ?h = "hash_index m k" let ?ch = "hm_table m ! ?h" let ?p = "?ch ! i"
  have tbl: "hm_table m' = (hm_table m)[?h := ?ch[i := (k2, v)]]" by (simp add: m' hash_set_node_def)
  have flds: "hm_compare m' = hm_compare m" "hash_index m' = hash_index m" "hm_table_sz m' = hm_table_sz m"
    by (simp_all add: m' hash_set_node_def hash_index_def fun_eq_iff)
  note pos = hash_find_pos[OF wf i]
  have eqv: "key_equiv (hm_compare m)" using c by (rule key_compat_equiv)
  have len: "?h < length (hm_table m)" using wf by (rule hash_wf_index_less)
  have k2p: "hm_compare m k2 (fst ?p) = 0" using k2 pos(3) eqv by (metis key_equiv_sym key_equiv_trans)
  have ix: "hash_index m k2 = ?h" using hm_compat_index[OF c k2] by simp
  show wf': "hash_wf m'"
  proof -
    have "keys_apart (hm_compare m) (?ch[i := (k2, v)])"
      using wf pos(1) by (intro keys_apart_update[OF _ eqv pos(2) k2p]) (simp add: hash_wf_def)
    moreover have "\<forall>q\<in>set (?ch[i := (k2, v)]). hash_index m (fst q) = ?h"
      using wf pos(1) ix set_update_subset_insert[of ?ch i "(k2, v)"] by (fastforce simp: hash_wf_def)
    ultimately show ?thesis
      using wf len by (simp add: hash_wf_def nth_list_update tbl flds)
  qed
  have "mset (hash_entries m') + mset ?ch = mset (hash_entries m) + mset (?ch[i := (k2, v)])"
    using mset_concat_update[OF len] by (simp add: hash_entries_def tbl)
  then have "add_mset ?p (mset (hash_entries m')) + mset ?ch
      = add_mset (k2, v) (mset (hash_entries m)) + mset ?ch"
    using mset_update_nth[OF pos(2), of "(k2, v)"]
    by (metis union_mset_add_mset_left union_mset_add_mset_right)
  then have ms: "add_mset ?p (mset (hash_entries m')) = add_mset (k2, v) (mset (hash_entries m))"
    by (rule add_right_imp_eq)
  then show "add_mset (hash_chain m k ! i) (mset (hash_entries m')) = add_mset (k2, v) (mset (hash_entries m))"
    by (simp add: hash_chain_def)
  have "?p \<in> set (hash_entries m)"
    using hash_chain_entries[OF wf, of ?p k] pos(2) by (simp add: hash_chain_def)
  then obtain qs where qs: "mset (hash_entries m) = add_mset ?p (mset qs)"
    by (metis ex_mset insert_DiffM set_mset_mset)
  then have "add_mset ?p (mset (hash_entries m')) = add_mset ?p (add_mset (k2, v) (mset qs))"
    unfolding ms by (simp only: add_mset_commute)
  then have qs': "mset (hash_entries m') = add_mset (k2, v) (mset qs)"
    by (simp only: add_mset_add_mset_same_iff)
  have sets: "set (hash_entries m) = insert ?p (set qs)" "set (hash_entries m') = insert (k2, v) (set qs)"
    using arg_cong[OF qs, of set_mset] arg_cong[OF qs', of set_mset] by simp_all
  have c': "hm_compat m' (hm_table_sz m')" using c by (simp add: m' hash_set_node_def)
  show "hash_lookup m' q = (if hm_compare m q k = 0 then Some v else hash_lookup m q)"
  proof (cases "hm_compare m q k = 0")
    case True
    then have "hm_compare m q k2 = 0" using k2 key_equiv_trans[OF eqv] by blast
    then have "hash_lookup m' q = Some v"
      unfolding hash_lookup_iff[OF wf' c'] by (auto simp: sets flds)
    then show ?thesis using True by simp
  next
    case False
    then have "hm_compare m q (fst ?p) \<noteq> 0" "hm_compare m q k2 \<noteq> 0"
      using pos(3) k2 eqv by (metis key_equiv_sym key_equiv_trans)+
    then have "hash_lookup m' q = Some w \<longleftrightarrow> hash_lookup m q = Some w" for w
      unfolding hash_lookup_iff[OF wf' c'] hash_lookup_iff[OF wf c] sets flds by (metis fst_conv insert_iff)
    then show ?thesis using False by (cases "hash_lookup m q") (metis not_Some_eq)+
  qed
  show "hash_counted m' = hash_counted m"
    using arg_cong[OF qs, of size] arg_cong[OF qs', of size]
    by (simp add: hash_counted_def m' hash_set_node_def)
  show "hash_find m' q = hash_find m q"
  proof -
    have "(hm_compare m q (fst ?p) = 0) = (hm_compare m q k2 = 0)"
      using k2p eqv by (metis key_equiv_sym key_equiv_trans)
    then have "list_all2 (\<lambda>p p'. (hm_compare m q (fst p) = 0) = (hm_compare m q (fst p') = 0))
        (hash_chain m' q) (hash_chain m q)"
      using len pos(2) by (auto simp: list_all2_conv_all_nth hash_chain_def tbl flds nth_list_update split: if_splits)
    then show ?thesis
      unfolding hash_find_def flds by (rule chain_find_cong)
  qed
qed (simp_all add: m' hash_set_node_def same_funs_def)

lemma hash_overwrite_present:
  assumes wf: "hash_wf m" and c: "hm_compat m (hm_table_sz m)" and l: "hash_lookup m k = Some d"
  obtains k' m' where "hm_compare m k k' = 0" "hash_wf m'" "same_funs m m'"
    "hash_counted m' = hash_counted m"
    "\<And>q. hash_lookup m' q = (if hm_compare m q k = 0 then Some v else hash_lookup m q)"
    "\<And>s. hash_overwrite m k v s = res_bind (call_free (hm_free_data m) d s) (\<lambda>s.
           res_bind (call_free (hm_free_key m) k' s) (\<lambda>s. Inr (m', s)))"
proof -
  obtain i where i: "hash_find m k = Some i" and d: "d = snd (hash_chain m k ! i)"
    using l by (auto simp: hash_lookup_def)
  have "hm_compare m k k = 0" using key_equiv_refl[OF key_compat_equiv[OF c]] .
  note set = hash_set_node[OF wf c i this refl, of v]
  show thesis
    by (rule that[OF hash_find_pos(3)[OF wf i] set(1,2,6,7)])
      (simp add: hash_overwrite_def i Let_def d hash_chain_def)
qed

lemma hash_overwrite_absent:
  assumes "hash_wf m" "hm_compat m (hm_table_sz m)" "hash_lookup m k = None" "hash_counted m"
  obtains m' where "hash_overwrite m k v s = Inr (m', s)" "adds_entry m (k, v) m'"
proof -
  have "hash_find m k = None" using assms(3) by (simp add: hash_lookup_def)
  then show thesis
    using hash_internal_insert_new_spec[OF assms(1,2), of k v] assms(4) that
    by (auto simp: hash_overwrite_def)
qed

subsection \<open>Duplication\<close>

text \<open>A duplicate without a \<open>dup_data\<close> callback holds the same entries, freshly counted.\<close>

lemma hash_dup_entries:
  assumes wf: "hash_wf m" and c: "\<And>n. hm_compat m n" and dup: "hm_dup_data m = None"
  obtains m' where "hash_dup m s = Inr (m', s)" "hash_wf m'" "same_funs m m'"
    "mset (hash_entries m') = mset (hash_entries m)" "hash_counted m'" "used_exact m'"
proof -
  let ?f = "\<lambda>(key, data) (ret, s). res_bind (call_dup (hm_dup_data m) data s) (\<lambda>(data', s').
     res_bind (hash_insert ret key data') (\<lambda>(_, ret'). Inr (ret', s')))"
  let ?r0 = "m\<lparr>hm_table := replicate (hm_table_sz m) [], hm_used_buckets := 0, hm_n_entries := 0\<rparr>"
  have step: "\<exists>r'. res_fold ?f ps (r, s) = Inr (r', s) \<and> hash_wf r' \<and> same_funs m r' \<and>
      hash_counted r' \<and> used_exact r' \<and> mset (hash_entries r') = mset ps + mset (hash_entries r)"
    if "keys_apart (hm_compare m) ps" "hash_wf r" "same_funs m r" "hash_counted r" "used_exact r"
      "\<forall>p\<in>set ps. \<forall>q\<in>set (hash_entries r). hm_compare m (fst p) (fst q) \<noteq> 0" for ps r
    using that
  proof (induction ps arbitrary: r)
    case (Cons p ps)
    obtain k v where p: "p = (k, v)" by (cases p)
    have cr: "hm_compat r n" for n using c Cons.prems(3) by (simp add: same_funs_def)
    have "hash_lookup r k = None"
      using hash_lookup_None[OF Cons.prems(2) cr] Cons.prems(3,6) p by (auto simp: same_funs_def)
    then obtain r1 where r1: "hash_insert r k v = Inr (None, r1)" "adds_entry r (k, v) r1"
      using hash_insert_absent[OF Cons.prems(2) cr _ Cons.prems(4)] by blast
    have set: "set (hash_entries r1) = insert (k, v) (set (hash_entries r))"
      using r1(2) by (rule adds_entry_set)
    have "\<exists>r'. res_fold ?f ps (r1, s) = Inr (r', s) \<and> hash_wf r' \<and> same_funs m r' \<and>
      hash_counted r' \<and> used_exact r' \<and> mset (hash_entries r') = mset ps + mset (hash_entries r1)"
    proof (rule Cons.IH)
      show "\<forall>p\<in>set ps. \<forall>q\<in>set (hash_entries r1). hm_compare m (fst p) (fst q) \<noteq> 0"
        using Cons.prems(1,6) p key_equiv_sym[OF key_compat_equiv[OF c]] by (auto simp: set)
    qed (use Cons.prems r1(2) same_funs_trans in \<open>auto simp: adds_entry_def\<close>)
    then show ?case using r1 p by (auto simp: call_dup_def dup adds_entry_def)
  qed simp
  have r0: "?r0 = m\<lparr>hm_table := replicate (hm_table_sz m) [], hm_table_sz := hm_table_sz m, hm_n_entries := 0, hm_used_buckets := 0\<rparr>"
    by simp
  have "0 < hm_table_sz m" using wf by (simp add: hash_wf_def)
  note fresh = fresh_table_wf[OF this r0]
  show thesis
    using step[OF hash_wf_entries_apart[OF wf c], of ?r0] fresh that
    by (auto simp: hash_dup_def hash_entries_def)
qed

section \<open>The hash and comparison functions of the program\<close>

lemma exact_key_compat: "(\<And>a b. c a b = 0 \<longleftrightarrow> a = b) \<Longrightarrow> key_compat h c n"
  by (simp add: key_compat_def key_equiv_def)

lemma compare_strings_eq_0 [simp]: "compare_strings a b = 0 \<longleftrightarrow> a = b"
  by (simp add: compare_strings_def)

lemma simp_equal_eq_0 [simp]: "simp_equal a b = 0 \<longleftrightarrow> a = b"
  by (simp add: simp_equal_def)

lemma compare_strings_nocase_eq_0 [simp]:
  "compare_strings_nocase a b = 0 \<longleftrightarrow> map tolower a = map tolower b"
  by (simp add: compare_strings_nocase_def)

lemma tolower_eq_mod_32: "tolower a = tolower b \<Longrightarrow> code a mod 32 = code b mod 32"
proof -
  assume "tolower a = tolower b"
  then have "code (tolower a) = code (tolower b)" by simp
  then have "code a = code b \<or> code b = code a + 32 \<or> code a = code b + 32"
    unfolding code_tolower by (simp split: if_splits)
  then show ?thesis by (elim disjE) simp_all
qed

lemma take_bit_scast: "take_bit 5 (scast (w :: u8) :: u32) = take_bit 5 (ucast w)"
  by (rule bit_word_eqI) (auto simp: bit_take_bit_iff bit_signed_iff bit_unsigned_iff min_def)

lemma take_bit_djb_step:
  assumes "take_bit 5 h = take_bit 5 (h' :: u32)" "code a mod 32 = code b mod 32"
  shows "take_bit 5 ((push_bit 5 h + h) XOR scast (of_nat (code a) :: u8))
       = take_bit 5 ((push_bit 5 h' + h') XOR scast (of_nat (code b) :: u8))"
proof -
  have h: "take_bit 5 (push_bit 5 g + g) = take_bit 5 g" for g :: u32
  proof (transfer, simp add: take_bit_eq_mod push_bit_eq_mult)
    show "33 * g mod 32 = g mod 32" for g :: int
      using mod_mult_self2[of g 32 g] by simp
  qed
  have c: "take_bit 5 (ucast (of_nat (code x) :: u8) :: u32) = of_nat (code x mod 32)" for x
    unfolding unsigned_of_nat take_bit_of_nat by (simp add: take_bit_eq_mod mod_mod_cancel)
  show ?thesis
    by (simp add: take_bit_xor h take_bit_scast c assms)
qed

lemma hash_djb_loop_low_bits:
  assumes "map tolower a = map tolower b" "take_bit 5 h = take_bit 5 h'"
  shows "take_bit 5 (hash_djb_loop h a) = take_bit 5 (hash_djb_loop h' b)"
  using assms
proof (induction a arbitrary: b h h')
  case (Cons x a)
  then obtain y b' where b: "b = y # b'" "tolower x = tolower y" "map tolower a = map tolower b'"
    by (cases b) auto
  then show ?case
    using Cons.IH[OF b(3) take_bit_djb_step[OF Cons.prems(2) tolower_eq_mod_32[OF b(2)]]] by simp
qed simp

lemma take_bit_5_unat: "unat (take_bit 5 (w :: u32)) = unat w mod 32"
  unfolding unsigned_take_bit_eq by (simp add: take_bit_eq_mod)

lemma djb_nocase_compat:
  assumes "n dvd 32" shows "key_compat hash_djb compare_strings_nocase n"
proof -
  have main: "unat (hash_djb a) mod n = unat (hash_djb b) mod n"
    if "map tolower a = map tolower b" for a b
  proof -
    have "take_bit 5 (hash_djb a) = take_bit 5 (hash_djb b)"
      unfolding hash_djb_def by (rule hash_djb_loop_low_bits[OF that]) simp
    then have "unat (hash_djb a) mod 32 = unat (hash_djb b) mod 32"
      by (metis take_bit_5_unat)
    then show ?thesis
      unfolding mod_mod_cancel[OF assms, of "unat (hash_djb a)", symmetric]
        mod_mod_cancel[OF assms, of "unat (hash_djb b)", symmetric] by (rule arg_cong)
  qed
  have "key_equiv compare_strings_nocase" by (simp add: key_equiv_def)
  then show ?thesis unfolding key_compat_def by (intro conjI allI impI) (assumption, rule main, simp)
qed

section \<open>The contract of a table with a faithful key comparison\<close>

text \<open>
  What the rest of the program relies on when it keeps a registry in a hash table: every
  client below uses keys on which the comparison is equality.
\<close>

locale table_map =
  fixes inv :: "'m \<Rightarrow> bool"
    and lookup :: "'m \<Rightarrow> 'k \<Rightarrow> 'v option"
    and insert :: "'m \<Rightarrow> 'k \<Rightarrow> 'v \<Rightarrow> ('v option \<times> 'm) res"
    and entries :: "'m \<Rightarrow> ('k \<times> 'v) list"
  assumes insert_present: "inv m \<Longrightarrow> lookup m k = Some d \<Longrightarrow> insert m k v = Inr (Some d, m)"
    and insert_absent: "inv m \<Longrightarrow> lookup m k = None \<Longrightarrow>
          \<exists>m'. insert m k v = Inr (None, m') \<and> inv m' \<and> lookup m' = (lookup m)(k \<mapsto> v)"
    and entries_lookup: "inv m \<Longrightarrow> map_of (entries m) = lookup m"
    and entries_distinct: "inv m \<Longrightarrow> distinct (map fst (entries m))"

locale removable_map = table_map inv lookup insert entries
  for inv :: "'m \<Rightarrow> bool"
    and lookup :: "'m \<Rightarrow> 'k \<Rightarrow> 'v option"
    and insert :: "'m \<Rightarrow> 'k \<Rightarrow> 'v \<Rightarrow> ('v option \<times> 'm) res"
    and entries :: "'m \<Rightarrow> ('k \<times> 'v) list" +
  fixes remove :: "'m \<Rightarrow> 'k \<Rightarrow> 's \<Rightarrow> (bool \<times> 'm \<times> 's) res"
    and size :: "'m \<Rightarrow> u64"
  assumes remove_absent: "inv m \<Longrightarrow> lookup m k = None \<Longrightarrow> remove m k s = Inr (False, m, s)"
    and remove_present: "inv m \<Longrightarrow> lookup m k = Some d \<Longrightarrow>
          \<exists>m' s'. remove m k s = Inr (True, m', s') \<and> inv m' \<and> lookup m' = (lookup m)(k := None)"
    and size_entries: "inv m \<Longrightarrow> size m = of_nat (length (entries m))"

text \<open>Filling a table from an array: either an existing key is an error, or it is skipped.\<close>

fun insert_distinct ::
  "('m \<Rightarrow> 'k \<Rightarrow> 'v \<Rightarrow> ('v option \<times> 'm) res) \<Rightarrow> ('k \<Rightarrow> crash) \<Rightarrow> 'm \<Rightarrow> ('k \<times> 'v) list \<Rightarrow> 'm res" where
  "insert_distinct ins err m [] = Inr m"
| "insert_distinct ins err m ((k, v) # ps) =
     res_bind (ins m k v) (\<lambda>(old, m').
       if old \<noteq> None then Inl (err k) else insert_distinct ins err m' ps)"

fun insert_skipping ::
  "('m \<Rightarrow> 'k \<Rightarrow> 'v \<Rightarrow> ('v option \<times> 'm) res) \<Rightarrow> 'm \<Rightarrow> ('k \<times> 'v) list \<Rightarrow> 'm res" where
  "insert_skipping ins m [] = Inr m"
| "insert_skipping ins m ((k, v) # ps) = res_bind (ins m k v) (\<lambda>(_, m'). insert_skipping ins m' ps)"

context table_map begin

lemma insert_distinct_ok:
  assumes "inv m" "distinct (map fst ps)" "\<forall>p\<in>set ps. lookup m (fst p) = None"
  shows "\<exists>m'. insert_distinct insert err m ps = Inr m' \<and> inv m' \<and> lookup m' = lookup m ++ map_of ps"
  using assms
proof (induction ps arbitrary: m)
  case (Cons p ps)
  obtain k v where p: "p = (k, v)" by (cases p)
  obtain m1 where m1: "insert m k v = Inr (None, m1)" "inv m1" "lookup m1 = (lookup m)(k \<mapsto> v)"
    using insert_absent[OF Cons.prems(1), of k v] Cons.prems(3) p by auto
  obtain m' where m': "insert_distinct insert err m1 ps = Inr m'" "inv m'" "lookup m' = lookup m1 ++ map_of ps"
  proof -
    have "\<forall>q\<in>set ps. lookup m1 (fst q) = None" using Cons.prems(2,3) p m1(3) by force
    then show thesis using Cons.IH[OF m1(2)] Cons.prems(2) that by auto
  qed
  moreover have "(lookup m)(k \<mapsto> v) ++ map_of ps = lookup m ++ map_of (p # ps)"
    using Cons.prems(2) p by (auto simp: map_add_def fun_eq_iff map_of_eq_None_iff[symmetric] split: option.splits)
  ultimately have "lookup m' = lookup m ++ map_of (p # ps)" by (simp only: m1(3))
  moreover have "insert_distinct insert err m (p # ps) = Inr m'" using m1(1) m'(1) by (simp add: p)
  ultimately show ?case using m'(2) by blast
qed simp

lemma insert_distinct_duplicate:
  assumes "inv m" "\<not> distinct (map fst ps) \<or> (\<exists>p\<in>set ps. lookup m (fst p) \<noteq> None)"
  shows "\<exists>k\<in>fst ` set ps. insert_distinct insert err m ps = Inl (err k)"
  using assms
proof (induction ps arbitrary: m)
  case (Cons p ps)
  obtain k v where p: "p = (k, v)" by (cases p)
  show ?case
  proof (cases "lookup m k")
    case None
    then obtain m1 where m1: "insert m k v = Inr (None, m1)" "inv m1" "lookup m1 = (lookup m)(k \<mapsto> v)"
      using insert_absent[OF Cons.prems(1)] by blast
    have "\<exists>k\<in>fst ` set ps. insert_distinct insert err m1 ps = Inl (err k)"
      by (rule Cons.IH[OF m1(2)]) (use Cons.prems(2) p None m1(3) in \<open>auto split: if_splits\<close>)
    then show ?thesis using m1(1) p by auto
  next
    case (Some d)
    then show ?thesis using insert_present[OF Cons.prems(1) Some] p by simp
  qed
qed simp

lemma insert_skipping_ok:
  assumes "inv m"
  shows "\<exists>m'. insert_skipping insert m ps = Inr m' \<and> inv m' \<and> lookup m' = map_of ps ++ lookup m"
  using assms
proof (induction ps arbitrary: m)
  case (Cons p ps)
  obtain k v where p: "p = (k, v)" by (cases p)
  obtain old m1 where m1: "insert m k v = Inr (old, m1)" "inv m1"
    "lookup m1 = (if lookup m k = None then (lookup m)(k \<mapsto> v) else lookup m)"
    using insert_absent[OF Cons.prems, of k v] insert_present[OF Cons.prems, of k _ v] Cons.prems
    by (cases "lookup m k") auto
  obtain m' where m': "insert_skipping insert m1 ps = Inr m'" "inv m'" "lookup m' = map_of ps ++ lookup m1"
    using Cons.IH[OF m1(2)] by blast
  moreover have "map_of ps ++ lookup m1 = map_of (p # ps) ++ lookup m"
    by (rule ext) (auto simp: m1(3) p map_add_def split: option.splits)
  ultimately show ?case using m1(1) p by (metis (mono_tags, lifting) case_prod_conv insert_skipping.simps(2) res_bind_simps(2))
qed simp

lemma lookup_entry: "inv m \<Longrightarrow> (k, v) \<in> set (entries m) \<longleftrightarrow> lookup m k = Some v"
  using entries_lookup entries_distinct by (metis map_of_eq_Some_iff)

end

section \<open>Tables with exact keys meet the contract\<close>

definition frees_total :: "('k, 'v, 's) hash_map \<Rightarrow> bool" where
  "frees_total m \<longleftrightarrow> (\<forall>k s. \<exists>s'. call_free (hm_free_key m) k s = Inr s') \<and>
     (\<forall>v s. \<exists>s'. call_free (hm_free_data m) v s = Inr s')"

definition exact_table ::
  "('k \<Rightarrow> u32) \<Rightarrow> ('k \<Rightarrow> 'k \<Rightarrow> int) \<Rightarrow> ('k, 'v, 's) hash_map \<Rightarrow> bool" where
  "exact_table h c m \<longleftrightarrow> hm_hash m = h \<and> hm_compare m = c \<and>
     hash_wf m \<and> hash_counted m \<and> frees_total m"

lemma exact_table_init: "exact_table h c (hash_init n h c)"
  by (auto simp: exact_table_def hash_init_def Let_def hash_wf_def hash_counted_def hash_entries_def
      frees_total_def call_free_def)

lemma hash_lookup_init [simp]: "hash_lookup (hash_init n h c) = Map.empty"
  by (rule ext) (simp add: hash_lookup_def hash_find_def hash_init_def Let_def hash_chain_def hash_index_def)

lemma exact_table_laws:
  assumes eq: "\<And>a b. c a b = 0 \<longleftrightarrow> a = b"
  shows "removable_map (exact_table h c) hash_lookup hash_insert hash_entries hash_remove hash_size"
proof -
  have compat: "hm_compat m n" if "exact_table h c m" for m :: "('a, 'b, 'c) hash_map" and n
    using that exact_key_compat[OF eq] by (simp add: exact_table_def)
  note wf = exact_table_def[of h c]
  show ?thesis
  proof
    fix m :: "('a, 'b, 'c) hash_map" and k d v s
    assume inv: "exact_table h c m"
    have w: "hash_wf m" "hash_counted m" "hm_compare m = c" using inv by (auto simp: wf)
    show "hash_lookup m k = Some d \<Longrightarrow> hash_insert m k v = Inr (Some d, m)"
      by (rule hash_insert_present)
    show "\<exists>m'. hash_insert m k v = Inr (None, m') \<and> exact_table h c m' \<and> hash_lookup m' = (hash_lookup m)(k \<mapsto> v)"
      if none: "hash_lookup m k = None"
    proof -
      obtain m' where m': "hash_insert m k v = Inr (None, m')" "adds_entry m (k, v) m'"
        using hash_insert_absent[OF w(1) compat[OF inv] none w(2)] by blast
      have "hash_lookup m' = (hash_lookup m)(k \<mapsto> v)"
        using adds_entry_lookup[OF m'(2) w(1) compat[OF inv] compat[OF inv] none] by (auto simp: w(3) eq)
      moreover have "exact_table h c m'"
        using m'(2) inv by (auto simp: wf adds_entry_def same_funs_def frees_total_def)
      ultimately show ?thesis using m'(1) by blast
    qed
    have "keys_apart c (hash_entries m)"
      using hash_wf_entries_apart[OF w(1) compat[OF inv]] w(3) by simp
    then show dist: "distinct (map fst (hash_entries m))"
      unfolding keys_apart_def distinct_map_fst_sorted_wrt by (simp add: eq)
    show "map_of (hash_entries m) = hash_lookup m"
    proof
      fix k
      have "map_of (hash_entries m) k = Some v \<longleftrightarrow> hash_lookup m k = Some v" for v
        using hash_lookup_iff[OF w(1) compat[OF inv], of k v] dist by (simp add: w(3) eq)
      then show "map_of (hash_entries m) k = hash_lookup m k"
        by (cases "hash_lookup m k") (metis not_Some_eq)+
    qed
    show "hash_lookup m k = None \<Longrightarrow> hash_remove m k s = Inr (False, m, s)"
      by (rule hash_remove_absent)
    show "\<exists>m' s'. hash_remove m k s = Inr (True, m', s') \<and> exact_table h c m' \<and>
        hash_lookup m' = (hash_lookup m)(k := None)" if some: "hash_lookup m k = Some d"
    proof -
      obtain k' m' where m': "hm_compare m k k' = 0" "drops_entry m (k', d) m'"
        "hm_n_entries m' = hm_n_entries m - 1"
        "\<And>s. hash_remove m k s = res_bind (call_free (hm_free_key m) k' s) (\<lambda>s.
           res_bind (call_free (hm_free_data m) d s) (\<lambda>s. Inr (True, m', s)))"
        using hash_remove_present[OF w(1) some] by blast
      have "hash_lookup m' = (hash_lookup m)(k := None)"
        using drops_entry_lookup[OF m'(2) w(1) compat[OF inv] m'(1)] by (auto simp: w(3) eq)
      moreover have "hash_counted m'"
        using w(2) m'(3) drops_entry_length[OF m'(2)] by (simp add: hash_counted_def)
      then have "exact_table h c m'"
        using m'(2) inv by (auto simp: wf drops_entry_def same_funs_def frees_total_def)
      moreover have "\<exists>s'. hash_remove m k s = Inr (True, m', s')"
        using inv unfolding m'(4) exact_table_def frees_total_def by (metis res_bind_simps(2))
      ultimately show ?thesis by blast
    qed
    show "hash_size m = of_nat (length (hash_entries m))"
      using w(2) by (simp add: hash_size_def hash_counted_def)
  qed
qed

text \<open>
  A table that owns its data: it has a callback that frees them, which can fail (when the data
  are gone already), and by which overwriting and removing an entry change the state.
\<close>

locale owning_map = table_map inv lookup insert entries
  for inv :: "'m \<Rightarrow> bool"
    and lookup :: "'m \<Rightarrow> 'k \<Rightarrow> 'v option"
    and insert :: "'m \<Rightarrow> 'k \<Rightarrow> 'v \<Rightarrow> ('v option \<times> 'm) res"
    and entries :: "'m \<Rightarrow> ('k \<times> 'v) list" +
  fixes overwrite :: "'m \<Rightarrow> 'k \<Rightarrow> 'v \<Rightarrow> 's \<Rightarrow> ('m \<times> 's) res"
    and remove :: "'m \<Rightarrow> 'k \<Rightarrow> 's \<Rightarrow> (bool \<times> 'm \<times> 's) res"
    and release :: "'v \<Rightarrow> 's \<Rightarrow> 's res"
  assumes overwrite_new: "inv m \<Longrightarrow> lookup m k = None \<Longrightarrow>
        \<exists>m'. overwrite m k v s = Inr (m', s) \<and> inv m' \<and> lookup m' = (lookup m)(k \<mapsto> v)"
    and overwrite_old: "inv m \<Longrightarrow> lookup m k = Some d \<Longrightarrow> release d s = Inr s' \<Longrightarrow>
        \<exists>m'. overwrite m k v s = Inr (m', s') \<and> inv m' \<and> lookup m' = (lookup m)(k \<mapsto> v)"
    and remove_unknown: "inv m \<Longrightarrow> lookup m k = None \<Longrightarrow> remove m k s = Inr (False, m, s)"
    and remove_known: "inv m \<Longrightarrow> lookup m k = Some d \<Longrightarrow> release d s = Inr s' \<Longrightarrow>
        \<exists>m'. remove m k s = Inr (True, m', s') \<and> inv m' \<and> lookup m' = (lookup m)(k := None)"

context owning_map begin

lemma entries_iff: "inv m \<Longrightarrow> (k, v) \<in> set (entries m) \<longleftrightarrow> lookup m k = Some v"
  using entries_lookup[of m] entries_distinct[of m] by (metis map_of_eq_Some_iff)

lemma dom_entries: "inv m \<Longrightarrow> dom (lookup m) = fst ` set (entries m)"
  using entries_iff[of m] by (force simp: dom_def)

lemma card_entries: "inv m \<Longrightarrow> card (dom (lookup m)) = length (entries m)"
  using entries_distinct[of m] unfolding dom_entries by (metis distinct_card length_map set_map)

text \<open>Overwriting what was put in is a plain update again, and removing it restores the rest.\<close>

lemma overwrite_then_remove:
  assumes "inv m" "lookup m k = None" "release v s = Inr s'"
  shows "\<exists>m1 m2. overwrite m k v s = Inr (m1, s) \<and> remove m1 k s = Inr (True, m2, s') \<and> lookup m2 = lookup m"
proof -
  obtain m1 where m1: "overwrite m k v s = Inr (m1, s)" "inv m1" "lookup m1 = (lookup m)(k \<mapsto> v)"
    using overwrite_new[OF assms(1,2)] by blast
  obtain m2 where m2: "remove m1 k s = Inr (True, m2, s')" "lookup m2 = (lookup m1)(k := None)"
    using remove_known[OF m1(2) _ assms(3), of k] m1(3) by auto
  have "lookup m2 = lookup m" using m1(3) m2(2) assms(2) by (auto simp: fun_eq_iff)
  then show ?thesis using m1(1) m2(1) by blast
qed

end

definition owned_table ::
  "('k \<Rightarrow> u32) \<Rightarrow> ('k \<Rightarrow> 'k \<Rightarrow> int) \<Rightarrow> ('v \<Rightarrow> 's \<Rightarrow> 's res) \<Rightarrow> ('k, 'v, 's) hash_map \<Rightarrow> bool" where
  "owned_table h c fr m \<longleftrightarrow> hm_hash m = h \<and> hm_compare m = c \<and> hash_wf m \<and> hash_counted m \<and>
     hm_free_key m = None \<and> hm_free_data m = Some fr"

lemma owned_table_init: "owned_table h c fr (hash_setfreedata_cb (hash_init n h c) (Some fr))"
  using exact_table_init[of h c n]
  by (simp add: owned_table_def hash_setfreedata_cb_def exact_table_def hash_wf_def hash_counted_def hash_entries_def
      hash_index_def hash_init_def Let_def)

lemma owned_table_laws:
  assumes eq: "\<And>a b. c a b = 0 \<longleftrightarrow> a = b"
  shows "owning_map (owned_table h c fr) hash_lookup hash_insert hash_entries hash_overwrite hash_remove fr"
proof -
  have compat: "hm_compat m n" if "owned_table h c fr m" for m :: "('a, 'b, 'c) hash_map" and n
    using that exact_key_compat[OF eq] by (simp add: owned_table_def)
  note own = owned_table_def[of h c fr]
  show ?thesis
  proof
    fix m :: "('a, 'b, 'c) hash_map" and k d v s s'
    assume inv: "owned_table h c fr m"
    have w: "hash_wf m" "hash_counted m" "hm_compare m = c" "hm_free_key m = None" "hm_free_data m = Some fr"
      using inv by (auto simp: own)
    have added: "hash_lookup m' = (hash_lookup m)(k \<mapsto> v) \<and> owned_table h c fr m'"
      if "adds_entry m (k, v) m'" "hash_lookup m k = None" for m'
      using adds_entry_lookup[OF that(1) w(1) compat[OF inv] compat[OF inv] that(2)] that(1) inv
      by (auto simp: w(3) eq own adds_entry_def same_funs_def)
    show "hash_lookup m k = Some d \<Longrightarrow> hash_insert m k v = Inr (Some d, m)"
      by (rule hash_insert_present)
    show "\<exists>m'. hash_insert m k v = Inr (None, m') \<and> owned_table h c fr m' \<and> hash_lookup m' = (hash_lookup m)(k \<mapsto> v)"
      if none: "hash_lookup m k = None"
      using hash_insert_absent[OF w(1) compat[OF inv] none w(2), of v] added none by blast
    have "keys_apart c (hash_entries m)"
      using hash_wf_entries_apart[OF w(1) compat[OF inv]] w(3) by simp
    then show dist: "distinct (map fst (hash_entries m))"
      unfolding keys_apart_def distinct_map_fst_sorted_wrt by (simp add: eq)
    show "map_of (hash_entries m) = hash_lookup m"
    proof
      fix k
      have "map_of (hash_entries m) k = Some v \<longleftrightarrow> hash_lookup m k = Some v" for v
        using hash_lookup_iff[OF w(1) compat[OF inv], of k v] dist by (simp add: w(3) eq)
      then show "map_of (hash_entries m) k = hash_lookup m k"
        by (cases "hash_lookup m k") (metis not_Some_eq)+
    qed
    show "\<exists>m'. hash_overwrite m k v s = Inr (m', s) \<and> owned_table h c fr m' \<and> hash_lookup m' = (hash_lookup m)(k \<mapsto> v)"
      if none: "hash_lookup m k = None"
      using hash_overwrite_absent[OF w(1) compat[OF inv] none w(2), of v s] added none by blast
    show "\<exists>m'. hash_overwrite m k v s = Inr (m', s') \<and> owned_table h c fr m' \<and> hash_lookup m' = (hash_lookup m)(k \<mapsto> v)"
      if d: "hash_lookup m k = Some d" "fr d s = Inr s'"
    proof -
      obtain k' m' where m': "hm_compare m k k' = 0" "hash_wf m'" "same_funs m m'" "hash_counted m' = hash_counted m"
        "\<And>q. hash_lookup m' q = (if hm_compare m q k = 0 then Some v else hash_lookup m q)"
        "\<And>s. hash_overwrite m k v s = res_bind (call_free (hm_free_data m) d s) (\<lambda>s.
               res_bind (call_free (hm_free_key m) k' s) (\<lambda>s. Inr (m', s)))"
        using hash_overwrite_present[OF w(1) compat[OF inv] d(1), of v] by blast
      have "hash_lookup m' = (hash_lookup m)(k \<mapsto> v)" by (auto simp: m'(5) w(3) eq)
      moreover have "owned_table h c fr m'" using m'(2-4) inv by (auto simp: own same_funs_def)
      moreover have "hash_overwrite m k v s = Inr (m', s')" using d(2) by (simp add: m'(6) w call_free_def)
      ultimately show ?thesis by blast
    qed
    show "hash_lookup m k = None \<Longrightarrow> hash_remove m k s = Inr (False, m, s)"
      by (rule hash_remove_absent)
    show "\<exists>m'. hash_remove m k s = Inr (True, m', s') \<and> owned_table h c fr m' \<and> hash_lookup m' = (hash_lookup m)(k := None)"
      if d: "hash_lookup m k = Some d" "fr d s = Inr s'"
    proof -
      obtain k' m' where m': "hm_compare m k k' = 0" "drops_entry m (k', d) m'" "hm_n_entries m' = hm_n_entries m - 1"
        "\<And>s. hash_remove m k s = res_bind (call_free (hm_free_key m) k' s) (\<lambda>s.
             res_bind (call_free (hm_free_data m) d s) (\<lambda>s. Inr (True, m', s)))"
        using hash_remove_present[OF w(1) d(1)] by blast
      have "hash_lookup m' = (hash_lookup m)(k := None)"
        using drops_entry_lookup[OF m'(2) w(1) compat[OF inv] m'(1)] by (auto simp: w(3) eq)
      moreover have "hash_counted m'"
        using w(2) m'(3) drops_entry_length[OF m'(2)] by (simp add: hash_counted_def)
      then have "owned_table h c fr m'" using m'(2) inv by (auto simp: own drops_entry_def same_funs_def)
      moreover have "hash_remove m k s = Inr (True, m', s')" using d(2) by (simp add: m'(4) w call_free_def)
      ultimately show ?thesis by blast
    qed
  qed
qed

text \<open>Tables keyed by strings with \<open>compare_strings\<close>, and by integers with \<open>SIMP_EQUAL\<close>.\<close>

abbreviation str_table :: "(string, 'v, 's) hash_map \<Rightarrow> bool" where
  "str_table \<equiv> exact_table hash_djb compare_strings"

abbreviation int_table :: "(int, 'v, 's) hash_map \<Rightarrow> bool" where
  "int_table \<equiv> exact_table simp_hash simp_equal"

interpretation str_map: removable_map str_table hash_lookup hash_insert hash_entries hash_remove hash_size
  by (rule exact_table_laws) simp

interpretation int_map: removable_map int_table hash_lookup hash_insert hash_entries hash_remove hash_size
  by (rule exact_table_laws) simp

lemma hash_insert_pairs_skipping: "hash_insert_pairs m ps = insert_skipping hash_insert m ps"
  by (induction ps arbitrary: m) (auto simp: res_bind_def split: sum.splits)

text \<open>
  A registry: a fresh table filled with the positions of distinct names, as \<open>obj_new\<close> and
  \<open>verb_new\<close> build it from the arrays of the world module.
\<close>

lemma registry_filled:
  assumes "distinct names"
  shows "\<exists>tab. insert_distinct hash_insert err (hash_init n hash_djb compare_strings) (zip names [0..<length names])
      = Inr tab \<and> str_table tab \<and> hash_lookup tab = map_of (zip names [0..<length names])"
proof -
  let ?ps = "zip names [0..<length names]"
  have "distinct (map fst ?ps)" using assms by simp
  then show ?thesis
    using str_map.insert_distinct_ok[OF exact_table_init[of hash_djb compare_strings n], of ?ps err] by simp
qed

lemma registry_position: "distinct names \<Longrightarrow> i < length names \<Longrightarrow> map_of (zip names [0..<length names]) (names ! i) = Some i"
  by (rule map_of_is_SomeI) (auto simp: in_set_zip)

lemma registry_None: "map_of (zip names [0..<length names]) name = None \<longleftrightarrow> name \<notin> set names"
  unfolding map_of_eq_None_iff set_map[symmetric] by simp

section \<open>Properties\<close>

text \<open>C18: \<open>hash_insert\<close> is insertion into a finite map: an existing key returns the
  stored data pointer and changes nothing; a new key is added, every other lookup keeps
  its answer, the table stays well-formed and correctly counted, and it is at most
  doubled. This holds for every key comparison that the hash function respects at the
  two sizes.\<close>

theorem hash_insert_correct:
  assumes "hash_wf m" "hash_counted m"
    and "key_compat (hm_hash m) (hm_compare m) (hm_table_sz m)"
    and "key_compat (hm_hash m) (hm_compare m) (2 * hm_table_sz m)"
  shows "case hash_lookup m k of
      Some d \<Rightarrow> hash_insert m k v = Inr (Some d, m)
    | None \<Rightarrow> \<exists>m'. hash_insert m k v = Inr (None, m') \<and> hash_wf m' \<and> hash_counted m' \<and>
        hm_table_sz m' \<in> {hm_table_sz m, 2 * hm_table_sz m} \<and>
        (\<forall>q. hash_lookup m' q = (if hm_compare m q k = 0 then Some v else hash_lookup m q))"
proof (cases "hash_lookup m k")
  case None
  obtain m' where m': "hash_insert m k v = Inr (None, m')" "adds_entry m (k, v) m'"
    using hash_insert_absent[OF assms(1,3) None assms(2)] by blast
  have "hm_compat m (hm_table_sz m')" using m'(2) assms(3,4) by (auto simp: adds_entry_def)
  from adds_entry_lookup[OF m'(2) assms(1,3) this None] show ?thesis
    using m' assms(2) None by (auto simp: adds_entry_def)
qed (simp add: hash_insert_present)

theorem hash_insert_correct_witness:
  "\<exists>m'. hash_insert (hash_init 8 hash_djb compare_strings_nocase :: (string, nat, unit) hash_map) ''Bear'' 7
      = Inr (None, m') \<and> hash_lookup m' ''bEAR'' = Some 7"
proof -
  let ?m = "hash_init 8 hash_djb compare_strings_nocase :: (string, nat, unit) hash_map"
  have wf: "hash_wf ?m" "hash_counted ?m"
    using exact_table_init[where 'b = nat and 'c = unit, of hash_djb compare_strings_nocase 8] by (auto simp: exact_table_def)
  have flds: "hm_hash ?m = hash_djb" "hm_compare ?m = compare_strings_nocase" "hm_table_sz ?m = 8"
    by (simp_all add: hash_init_def)
  have eq: "compare_strings_nocase ''bEAR'' ''Bear'' = 0"
    by code_simp
  show ?thesis
    using hash_insert_correct[OF wf, of "''Bear''" 7] djb_nocase_compat[of 8] djb_nocase_compat[of 16] eq
    by (auto simp: flds)
qed



text \<open>C19: \<open>hash_remove\<close> on a string table removes exactly the key asked for: it reports
  whether the key was there, and afterwards that key is unknown and all others are
  unchanged, the size counts the entries left.\<close>

theorem hash_remove_correct:
  assumes "str_table m"
  shows "\<exists>m' s'. hash_remove m k s = Inr (hash_lookup m k \<noteq> None, m', s') \<and> str_table m' \<and>
    hash_lookup m' = (hash_lookup m)(k := None) \<and> hash_size m' = of_nat (length (hash_entries m'))"
proof (cases "hash_lookup m k")
  case None
  then show ?thesis
    using assms str_map.remove_absent[OF assms None] str_map.size_entries[OF assms] by (auto simp: fun_upd_idem)
next
  case (Some d)
  then show ?thesis
    using str_map.remove_present[OF assms Some] str_map.size_entries by fastforce
qed

theorem hash_remove_correct_witness:
  "\<exists>m m' s'. hash_insert (hash_init 3 hash_djb compare_strings :: (string, nat, unit) hash_map) ''guest'' 5 = Inr (None, m) \<and>
     hash_remove m ''guest'' () = Inr (True, m', s') \<and> hash_lookup m' = Map.empty \<and>
     (\<exists>m'' s''. hash_remove m ''root'' () = Inr (False, m'', s'') \<and> hash_lookup m'' ''guest'' = Some 5)"
proof -
  let ?empty = "hash_init 3 hash_djb compare_strings :: (string, nat, unit) hash_map"
  have init: "str_table ?empty" "hash_lookup ?empty = Map.empty"
    using exact_table_init[where 'b = nat and 'c = unit, of hash_djb compare_strings 3] by auto
  obtain m where m: "hash_insert ?empty ''guest'' 5 = Inr (None, m)" "str_table m" "hash_lookup m = [''guest'' \<mapsto> 5]"
    using str_map.insert_absent[OF init(1), of "''guest''" 5] init(2) by auto
  show ?thesis
    using m hash_remove_correct[OF m(2), of "''guest''" "()"] hash_remove_correct[OF m(2), of "''root''" "()"]
    by (fastforce simp: fun_upd_idem)
qed

text \<open>C20: \<open>hash_overwrite\<close> on a string table always stores the new pair, under a new or
  an existing key, frees the old data exactly when there was some, and leaves every other
  key alone.\<close>

theorem hash_overwrite_correct:
  assumes "str_table m"
  shows "\<exists>m' s'. hash_overwrite m k v s = Inr (m', s') \<and> str_table m' \<and>
    hash_lookup m' = (hash_lookup m)(k \<mapsto> v) \<and>
    (case hash_lookup m k of
       None \<Rightarrow> s' = s
     | Some d \<Rightarrow> res_bind (call_free (hm_free_data m) d s) (call_free (hm_free_key m) k) = Inr s')"
proof -
  have wf: "hash_wf m" "hash_counted m" "hm_compare m = compare_strings" and c: "hm_compat m n" for n
    using assms exact_key_compat[of compare_strings] by (auto simp: exact_table_def)
  have str: "str_table m'" if "hash_wf m'" "hash_counted m'" "same_funs m m'" for m'
    using assms that by (auto simp: exact_table_def same_funs_def frees_total_def)
  show ?thesis
  proof (cases "hash_lookup m k")
    case None
    obtain m' where m': "hash_overwrite m k v s = Inr (m', s)" "adds_entry m (k, v) m'"
      using hash_overwrite_absent[OF wf(1) c None wf(2)] by blast
    have "hash_lookup m' = (hash_lookup m)(k \<mapsto> v)"
      using adds_entry_lookup[OF m'(2) wf(1) c c None] by (auto simp: wf(3))
    moreover have "str_table m'" using m'(2) wf(2) by (intro str) (auto simp: adds_entry_def)
    ultimately show ?thesis using m'(1) None by auto
  next
    case (Some d)
    obtain k' m' where m': "hm_compare m k k' = 0" "hash_wf m'" "same_funs m m'" "hash_counted m' = hash_counted m"
      "\<And>q. hash_lookup m' q = (if hm_compare m q k = 0 then Some v else hash_lookup m q)"
      "\<And>s. hash_overwrite m k v s = res_bind (call_free (hm_free_data m) d s) (\<lambda>s.
           res_bind (call_free (hm_free_key m) k' s) (\<lambda>s. Inr (m', s)))"
      using hash_overwrite_present[OF wf(1) c Some, of v] by metis
    have k': "k' = k" using m'(1) by (simp add: wf(3))
    obtain s1 s2 where "call_free (hm_free_data m) d s = Inr s1" "call_free (hm_free_key m) k s1 = Inr s2"
      using assms unfolding exact_table_def frees_total_def by meson
    then show ?thesis
      using m'(2-6) wf(2) str[of m'] Some by (auto simp: k' wf(3) fun_eq_iff)
  qed
qed

theorem hash_overwrite_correct_witness:
  "\<exists>m' s'. hash_overwrite (hash_init 256 hash_djb compare_strings :: (string, nat, unit) hash_map) ''guest'' 5 ()
    = Inr (m', s') \<and> hash_lookup m' ''guest'' = Some 5"
  using hash_overwrite_correct[OF exact_table_init[of hash_djb compare_strings 256], of "''guest''" "5::nat" "()"] by fastforce

text \<open>C23: the loop \<open>while((data = hash_iterate(map, &save, &key)))\<close> terminates and
  yields every entry of the table exactly once, in bucket order.\<close>

theorem hash_iterate_complete:
  assumes "hash_wf m"
  shows "hash_iter_loop m iter_start = concat (hm_table m)"
  using hash_iter_loop_entries[OF assms] by (simp add: hash_entries_def)

theorem hash_iterate_complete_witness:
  "hash_iter_loop (hash_init 2 simp_hash simp_equal :: (int, nat, unit) hash_map) iter_start = []"
  using hash_iterate_complete[of "hash_init 2 simp_hash simp_equal :: (int, nat, unit) hash_map"]
    exact_table_init[where 'b = nat and 'c = unit, of simp_hash simp_equal 2]
  by (auto simp: exact_table_def hash_init_def)

text \<open>\<open>hash_djb\<close> does not see the case of letters in its low five bits, so tables of
  2, 4, 8, 16 or 32 buckets find keys that \<open>compare_strings_nocase\<close> calls equal in the
  bucket where they were stored, although the hash function is case-sensitive.\<close>

theorem hash_djb_nocase_buckets:
  assumes "n dvd 32" "compare_strings_nocase a b = 0"
  shows "unat (hash_djb a) mod n = unat (hash_djb b) mod n"
  using djb_nocase_compat[OF assms(1)] assms(2) unfolding key_compat_def by blast

theorem hash_djb_nocase_buckets_witness:
  "unat (hash_djb ''Key'') mod 8 = unat (hash_djb ''kEY'') mod 8"
  by (rule hash_djb_nocase_buckets) (simp, code_simp)

text \<open>At other sizes the case-insensitive comparison breaks the table: with 64 buckets
  (the sixth bit counts) a key stored under ``A'' is not found under ``a'', and the table
  accepts both as different keys.\<close>

theorem hash_nocase_64_buckets:
  "compare_strings_nocase ''a'' ''A'' = 0 \<and>
   (\<exists>m m'. hash_insert (hash_init 64 hash_djb compare_strings_nocase :: (string, nat, unit) hash_map) ''A'' 1
        = Inr (None, m) \<and> hash_lookup m ''a'' = None \<and> hash_insert m ''a'' 2 = Inr (None, m'))"
proof -
  let ?m0 = "hash_init 64 hash_djb compare_strings_nocase :: (string, nat, unit) hash_map"
  have ix: "unat (hash_djb ''A'') mod 64 = 36" "unat (hash_djb ''a'') mod 64 = 4"
    by (simp_all add: hash_djb_def code_def)
  note defs = hash_insert_def hash_lookup_def hash_find_def hash_chain_def hash_index_def hash_init_def
    hash_internal_insert_new_def over_threshold_def RESIZE_THRESHOLD_def Let_def ix
  have "\<exists>m. hash_insert ?m0 ''A'' 1 = Inr (None, m) \<and> hm_table m = (replicate 64 [])[36 := [(''A'', 1)]]
      \<and> hm_hash m = hash_djb \<and> hm_compare m = compare_strings_nocase \<and> hm_table_sz m = 64
      \<and> hm_used_buckets m = 1"
    by (simp add: defs)
  then obtain m where m: "hash_insert ?m0 ''A'' 1 = Inr (None, m)"
    "hm_table m = (replicate 64 [])[36 := [(''A'', 1)]]" "hm_hash m = hash_djb"
    "hm_compare m = compare_strings_nocase" "hm_table_sz m = 64" "hm_used_buckets m = 1" by blast
  have "hash_lookup m ''a'' = None" by (simp add: defs m)
  moreover have "\<exists>m'. hash_insert m ''a'' 2 = Inr (None, m')" by (simp add: defs m)
  moreover have "compare_strings_nocase ''a'' ''A'' = 0" by code_simp
  ultimately show ?thesis using m(1) by blast
qed

text \<open>Removing the head of a chain that holds further entries leaves \<open>used_buckets\<close>
  one below the number of buckets in use.\<close>

theorem hash_remove_head_undercounts:
  assumes "hash_wf m" "used_exact m" "hash_find m k = Some 0" "1 < length (hash_chain m k)"
    and "hash_remove m k s = Inr (b, m', s')"
  shows "hm_used_buckets m' + 1 = of_nat (used_count m') \<and> \<not> hash_dump_sane m'"
proof -
  let ?h = "hash_index m k" let ?u = "hash_unlink m ?h 0"
  have len: "?h < length (hm_table m)" using assms(1) by (rule hash_wf_index_less)
  have m': "m' = ?u\<lparr>hm_n_entries := hm_n_entries ?u - 1\<rparr>"
    using assms(3,5) by (auto simp: hash_remove_def Let_def res_bind_eq_Inr)
  have count: "used_count m' = used_count m"
    using length_filter_update[OF len, of "\<lambda>c. c \<noteq> []" "drop 1 (hm_table m ! ?h)"] assms(4)
    by (cases "hm_table m ! ?h") (auto simp: m' used_count_def hash_unlink_def Let_def hash_chain_def)
  have "hm_used_buckets m' + 1 = hm_used_buckets m"
    by (simp add: m' hash_unlink_def Let_def)
  then have used: "hm_used_buckets m' + 1 = of_nat (used_count m')"
    using assms(2) by (simp add: used_exact_def count)
  then have "hm_used_buckets m' \<noteq> of_nat (used_count m')"
    by (metis add.right_neutral add_left_cancel zero_neq_one)
  then show ?thesis using used by (auto simp: hash_dump_sane_def used_count_def)
qed

theorem hash_remove_head_undercounts_witness:
  "\<exists>m m'. hash_remove (m :: (int, nat, unit) hash_map) 5 () = Inr (True, m', ()) \<and> \<not> hash_dump_sane m'"
proof -
  let ?m = "\<lparr>hm_hash = simp_hash, hm_compare = simp_equal, hm_table = [[(5, 1), (6, 2)]], hm_table_sz = 1,
    hm_free_key = None, hm_free_data = None, hm_dup_data = None, hm_n_entries = 2,
    hm_used_buckets = 1\<rparr> :: (int, nat, unit) hash_map"
  note defs = hash_index_def hash_find_def hash_chain_def
  have h: "hash_wf ?m" "used_exact ?m" "hash_find ?m 5 = Some 0" "1 < length (hash_chain ?m 5)"
    by (auto simp: hash_wf_def used_exact_def used_count_def defs)
  have "hash_remove ?m 5 () = Inr (True, ?m\<lparr>hm_table := [[(6, 2)]], hm_n_entries := 1, hm_used_buckets := 0\<rparr>, ())"
    by (simp add: hash_remove_def h defs call_free_def hash_unlink_def)
  with hash_remove_head_undercounts[OF h this] show ?thesis by blast
qed

text \<open>\<open>hash_del_internal_node\<close> removes a node without counting it out, so the next
  resize of the table fails its assertion and kills the server.\<close>

theorem hash_del_internal_node_breaks_resize:
  assumes "hash_wf m" "hash_counted m" "hm_compat m (hm_table_sz m)"
    and "hash_lookup m k = Some d" "0 < n" "n \<noteq> hm_table_sz m"
    and "hash_del_internal_node m (hash_get_internal_node m k) s = Inr (m', s')"
  shows "hash_resize m' n = Inl Assert_Failed"
  proof -
  obtain i where i: "hash_find m k = Some i" using assms(4) by (auto simp: hash_lookup_def)
  let ?h = "hash_index m k"
  have m': "m' = hash_unlink m ?h i"
    using assms(7) i by (auto simp: hash_del_internal_node_def hash_get_internal_node_def res_bind_eq_Inr)
  note pos = hash_find_pos[OF assms(1) i]
  note un = hash_unlink_drops[OF assms(1) pos(1,2)]
  have wf': "hash_wf m'" and c': "hm_compat m' (hm_table_sz m')" and sz: "hm_table_sz m' = hm_table_sz m"
    using un(1) assms(3) by (auto simp: m' drops_entry_def same_funs_def)
  have "\<not> hash_counted m'"
    using un(2) drops_entry_length[OF un(1)] assms(2) by (simp add: hash_counted_def m')
  then show ?thesis
    using hash_resize_recount[OF wf' c' assms(5)] assms(6) sz by (metis (full_types))
qed

theorem hash_del_internal_node_breaks_resize_witness:
  "\<exists>m'. hash_resize (m' :: (int, nat, unit) hash_map) 16 = Inl Assert_Failed \<and> hm_table m' = [[]]"
proof -
  let ?m = "\<lparr>hm_hash = simp_hash, hm_compare = simp_equal, hm_table = [[(5, 1)]], hm_table_sz = 1,
    hm_free_key = None, hm_free_data = None, hm_dup_data = None, hm_n_entries = 1,
    hm_used_buckets = 1\<rparr> :: (int, nat, unit) hash_map"
  note defs = hash_index_def hash_find_def hash_chain_def
  have wf: "hash_wf ?m" "hash_counted ?m" "hm_compat ?m (hm_table_sz ?m)" "hash_lookup ?m 5 = Some 1"
    using exact_key_compat[of simp_equal simp_hash 1]
    by (auto simp: hash_wf_def hash_counted_def hash_entries_def hash_lookup_def defs)
  have "hash_del_internal_node ?m (hash_get_internal_node ?m 5) ()
      = Inr (?m\<lparr>hm_table := [[]], hm_used_buckets := 0\<rparr>, ())"
    by (simp add: hash_del_internal_node_def hash_get_internal_node_def defs hash_free_node_def
        call_free_def hash_unlink_def)
  from hash_del_internal_node_breaks_resize[OF wf _ _ this, of 16] show ?thesis by auto
qed

end
