(* ===== verification/Nc_Multimap.thy ===== *)
theory Nc_Multimap
  imports Nc_Hash
begin

text \<open>
  The multimap of \<open>src/multimap.c\<close>: a hash table from keys to nodes, each node the list of
  all the pairs stored under a key, newest first.

  A \<open>struct multimap_list\<close> is the list of its (key, value) pairs. A node is changed in
  place through the pointer the hash table holds, which the model does with
  \<open>node_write\<close>. \<open>node->map\<close> always points to the multimap that owns the node; it is the
  argument \<open>m\<close> of \<open>free_node\<close>, and the callback the code installs in the table at
  \<open>multimap_init\<close> is resolved to it whenever the table is used (\<open>mm_tab\<close>). The
  comparison and the callbacks read and write the state \<open>'s\<close> the values live in; the
  search value (of type \<open>'c\<close>) of \<open>multimap_delete\<close> does not live there. The pair counters
  count allocated list cells and are natural numbers.
\<close>

record ('k, 'v) multimap_node =
  mn_list :: "('k \<times> 'v) list"
  mn_n_pairs :: nat

record ('k, 'v, 'c, 's) multimap =
  mm_total_pairs :: nat
  mm_refcount :: u32
  mm_hash_tab :: "('k, ('k, 'v) multimap_node, 's) hash_map"
  mm_compare_val :: "'c \<Rightarrow> 'v \<Rightarrow> 's \<Rightarrow> int res"
  mm_free_data :: "('v \<Rightarrow> 's \<Rightarrow> 's res) option"
  mm_free_key :: "('k \<Rightarrow> 's \<Rightarrow> 's res) option"
  mm_dup_data :: "('v \<Rightarrow> 's \<Rightarrow> ('v \<times> 's) res) option"

section \<open>Operations\<close>

text \<open>Freeing one pair: its value, then its key.\<close>

definition free_pair :: "('k, 'v, 'c, 's) multimap \<Rightarrow> 'k \<times> 'v \<Rightarrow> 's \<Rightarrow> 's res" where
  "free_pair m p s = res_bind (call_free (mm_free_data m) (snd p) s) (call_free (mm_free_key m) (fst p))"

definition free_node ::
  "('k, 'v, 'c, 's) multimap \<Rightarrow> ('k, 'v) multimap_node \<Rightarrow> 's \<Rightarrow> 's res" where
  "free_node m node s = res_fold (free_pair m) (mn_list node) s"

definition mm_tab ::
  "('k, 'v, 'c, 's) multimap \<Rightarrow> ('k, ('k, 'v) multimap_node, 's) hash_map" where
  "mm_tab m = hash_setfreedata_cb (mm_hash_tab m) (Some (free_node m))"

definition multimap_init ::
  "nat \<Rightarrow> ('k \<Rightarrow> u32) \<Rightarrow> ('k \<Rightarrow> 'k \<Rightarrow> int) \<Rightarrow> ('c \<Rightarrow> 'v \<Rightarrow> 's \<Rightarrow> int res) \<Rightarrow>
   ('k, 'v, 'c, 's) multimap" where
  "multimap_init tabsz hash_fn compare_key compare_val =
     \<lparr>mm_total_pairs = 0, mm_refcount = 1, mm_hash_tab = hash_init tabsz hash_fn compare_key,
      mm_compare_val = compare_val, mm_free_data = None, mm_free_key = None, mm_dup_data = None\<rparr>"

definition multimap_setfreedata_cb ::
  "('k, 'v, 'c, 's) multimap \<Rightarrow> ('v \<Rightarrow> 's \<Rightarrow> 's res) option \<Rightarrow> ('k, 'v, 'c, 's) multimap" where
  "multimap_setfreedata_cb m cb = m\<lparr>mm_free_data := cb\<rparr>"

definition multimap_setdupdata_cb ::
  "('k, 'v, 'c, 's) multimap \<Rightarrow> ('v \<Rightarrow> 's \<Rightarrow> ('v \<times> 's) res) option \<Rightarrow> ('k, 'v, 'c, 's) multimap" where
  "multimap_setdupdata_cb m cb = m\<lparr>mm_dup_data := cb\<rparr>"

text \<open>\<open>multimap_dup\<close> returns the same map with one more reference; \<open>multimap_free\<close> gives a
  reference back and frees everything with the last one (\<open>None\<close>).\<close>

definition multimap_dup :: "('k, 'v, 'c, 's) multimap \<Rightarrow> ('k, 'v, 'c, 's) multimap" where
  "multimap_dup m = m\<lparr>mm_refcount := mm_refcount m + 1\<rparr>"

definition multimap_free ::
  "('k, 'v, 'c, 's) multimap \<Rightarrow> 's \<Rightarrow> (('k, 'v, 'c, 's) multimap option \<times> 's) res" where
  "multimap_free m s =
     (let m = m\<lparr>mm_refcount := mm_refcount m - 1\<rparr> in
      if mm_refcount m = 0 then res_bind (hash_free (mm_tab m) s) (\<lambda>s. Inr (None, s))
      else Inr (Some m, s))"

text \<open>The list and the value of \<open>*n_pairs\<close>; \<open>None\<close> is the NULL list (and \<open>*n_pairs = 0\<close>).\<close>

definition multimap_lookup ::
  "('k, 'v, 'c, 's) multimap \<Rightarrow> 'k \<Rightarrow> (('k \<times> 'v) list \<times> nat) option" where
  "multimap_lookup m key =
     map_option (\<lambda>node. (mn_list node, mn_n_pairs node)) (hash_lookup (mm_hash_tab m) key)"

text \<open>Writing through the node pointer that \<open>hash_lookup\<close> returned for \<open>key\<close>.\<close>

definition node_write ::
  "('k, 'n, 's) hash_map \<Rightarrow> 'k \<Rightarrow> 'n \<Rightarrow> ('k, 'n, 's) hash_map" where
  "node_write tab key node =
     (case hash_find tab key of
        None \<Rightarrow> tab
      | Some i \<Rightarrow>
          let chain = hash_chain tab key in
          tab\<lparr>hm_table := (hm_table tab)[hash_index tab key := chain[i := (fst (chain ! i), node)]]\<rparr>)"

definition multimap_insert ::
  "('k, 'v, 'c, 's) multimap \<Rightarrow> 'k \<Rightarrow> 'v \<Rightarrow> (bool \<times> ('k, 'v, 'c, 's) multimap) res" where
  "multimap_insert m key val =
     (case hash_lookup (mm_hash_tab m) key of
        None \<Rightarrow>
          res_bind (hash_insert (mm_hash_tab m) key \<lparr>mn_list = [(key, val)], mn_n_pairs = 1\<rparr>)
            (\<lambda>(_, tab). Inr (True, m\<lparr>mm_total_pairs := mm_total_pairs m + 1, mm_hash_tab := tab\<rparr>))
      | Some node \<Rightarrow>
          Inr (False,
            m\<lparr>mm_total_pairs := mm_total_pairs m + 1,
              mm_hash_tab := node_write (mm_hash_tab m) key
                \<lparr>mn_list = (key, val) # mn_list node, mn_n_pairs = mn_n_pairs node + 1\<rparr>\<rparr>))"

text \<open>The loop of \<open>multimap_delete\<close>: the list that stays and the number of pairs deleted.\<close>

fun delete_pairs ::
  "('k, 'v, 'c, 's) multimap \<Rightarrow> 'c \<Rightarrow> ('k \<times> 'v) list \<Rightarrow> 's \<Rightarrow> (('k \<times> 'v) list \<times> nat \<times> 's) res" where
  "delete_pairs m val [] s = Inr ([], 0, s)"
| "delete_pairs m val (p # ps) s =
     res_bind (mm_compare_val m val (snd p) s) (\<lambda>c.
       if c = 0 then
         res_bind (free_pair m p s) (\<lambda>s.
         res_bind (delete_pairs m val ps s) (\<lambda>(kept, n, s). Inr (kept, Suc n, s)))
       else
         res_bind (delete_pairs m val ps s) (\<lambda>(kept, n, s). Inr (p # kept, n, s)))"

definition multimap_delete ::
  "('k, 'v, 'c, 's) multimap \<Rightarrow> 'k \<Rightarrow> 'c \<Rightarrow> 's \<Rightarrow> (nat \<times> ('k, 'v, 'c, 's) multimap \<times> 's) res" where
  "multimap_delete m key val s =
     (case hash_lookup (mm_hash_tab m) key of
        None \<Rightarrow> Inr (0, m, s)
      | Some node \<Rightarrow>
          let internal_node = hash_get_internal_node (mm_hash_tab m) key in
          res_bind (delete_pairs m val (mn_list node) s) (\<lambda>(kept, deleted, s).
            let node = \<lparr>mn_list = kept, mn_n_pairs = mn_n_pairs node - deleted\<rparr>;
                m = m\<lparr>mm_total_pairs := mm_total_pairs m - deleted,
                      mm_hash_tab := node_write (mm_hash_tab m) key node\<rparr> in
            if mn_n_pairs node = 0 then
              res_bind (hash_del_internal_node (mm_tab m) internal_node s) (\<lambda>(tab, s).
                Inr (deleted, m\<lparr>mm_hash_tab := tab\<rparr>, s))
            else Inr (deleted, m, s)))"

definition multimap_delete_all ::
  "('k, 'v, 'c, 's) multimap \<Rightarrow> 'k \<Rightarrow> 's \<Rightarrow> (nat \<times> ('k, 'v, 'c, 's) multimap \<times> 's) res" where
  "multimap_delete_all m key s =
     (case hash_lookup (mm_hash_tab m) key of
        None \<Rightarrow> Inr (0, m, s)
      | Some node \<Rightarrow>
          let ret = mn_n_pairs node; m = m\<lparr>mm_total_pairs := mm_total_pairs m - ret\<rparr> in
          res_bind (hash_remove (mm_tab m) key s) (\<lambda>(_, tab, s).
            Inr (ret, m\<lparr>mm_hash_tab := tab\<rparr>, s)))"

text \<open>One \<open>multimap_iterate\<close> step: the list and the pair count of the next node.\<close>

definition multimap_iterate ::
  "('k, 'v, 'c, 's) multimap \<Rightarrow> iterstate \<Rightarrow> ((('k \<times> 'v) list \<times> nat) \<times> iterstate) option" where
  "multimap_iterate m st =
     map_option (\<lambda>((_, node), st). ((mn_list node, mn_n_pairs node), st)) (hash_iterate (mm_hash_tab m) st)"

text \<open>The lists the loop \<open>while((iter = multimap_iterate(map, &save, NULL)))\<close> sees.\<close>

definition multimap_lists :: "('k, 'v, 'c, 's) multimap \<Rightarrow> (('k \<times> 'v) list \<times> nat) list" where
  "multimap_lists m =
     map (\<lambda>(_, node). (mn_list node, mn_n_pairs node)) (hash_iter_loop (mm_hash_tab m) iter_start)"

definition multimap_size :: "('k, 'v, 'c, 's) multimap \<Rightarrow> nat" where
  "multimap_size m = mm_total_pairs m"

section \<open>Well-formed multimaps\<close>

definition mm_list :: "('k, 'v, 'c, 's) multimap \<Rightarrow> 'k \<Rightarrow> ('k \<times> 'v) list" where
  "mm_list m k = (case multimap_lookup m k of None \<Rightarrow> [] | Some (l, _) \<Rightarrow> l)"

definition mm_pairs :: "('k, 'v, 'c, 's) multimap \<Rightarrow> ('k \<times> 'v) list" where
  "mm_pairs m = concat (map (\<lambda>(_, node). mn_list node) (hash_entries (mm_hash_tab m)))"

abbreviation mm_eq :: "('k, 'v, 'c, 's) multimap \<Rightarrow> 'k \<Rightarrow> 'k \<Rightarrow> bool" where
  "mm_eq m a b \<equiv> hm_compare (mm_hash_tab m) a b = 0"

text \<open>The hash function respects the comparison at \<open>n\<close> buckets.\<close>

definition mm_compat :: "('k, 'v, 'c, 's) multimap \<Rightarrow> nat \<Rightarrow> bool" where
  "mm_compat m n \<longleftrightarrow> hm_compat (mm_hash_tab m) n"

abbreviation mm_sz :: "('k, 'v, 'c, 's) multimap \<Rightarrow> nat" where
  "mm_sz m \<equiv> hm_table_sz (mm_hash_tab m)"

definition node_ok :: "('k \<Rightarrow> 'k \<Rightarrow> int) \<Rightarrow> 'k \<times> ('k, 'v) multimap_node \<Rightarrow> bool" where
  "node_ok c e \<longleftrightarrow> mn_list (snd e) \<noteq> [] \<and> mn_n_pairs (snd e) = length (mn_list (snd e)) \<and>
     (\<forall>p\<in>set (mn_list (snd e)). c (fst e) (fst p) = 0)"

definition mm_wf :: "('k, 'v, 'c, 's) multimap \<Rightarrow> bool" where
  "mm_wf m \<longleftrightarrow> hash_wf (mm_hash_tab m) \<and> mm_compat m (mm_sz m) \<and>
     hm_free_key (mm_hash_tab m) = None \<and>
     (\<forall>e\<in>set (hash_entries (mm_hash_tab m)). node_ok (hm_compare (mm_hash_tab m)) e) \<and>
     mm_total_pairs m = length (mm_pairs m)"

text \<open>Everything but the pairs.\<close>

definition mm_same :: "('k, 'v, 'c, 's) multimap \<Rightarrow> ('k, 'v, 'c, 's) multimap \<Rightarrow> bool" where
  "mm_same m m' \<longleftrightarrow> mm_refcount m' = mm_refcount m \<and> mm_compare_val m' = mm_compare_val m \<and>
     mm_free_data m' = mm_free_data m \<and> mm_free_key m' = mm_free_key m \<and>
     mm_dup_data m' = mm_dup_data m \<and>
     hm_hash (mm_hash_tab m') = hm_hash (mm_hash_tab m) \<and>
     hm_compare (mm_hash_tab m') = hm_compare (mm_hash_tab m)"

lemma mm_same_refl [simp]: "mm_same m m"
  by (simp add: mm_same_def)

lemma mm_same_trans: "mm_same a b \<Longrightarrow> mm_same b c \<Longrightarrow> mm_same a c"
  by (simp add: mm_same_def)

lemma mm_same_compat: "mm_same m m' \<Longrightarrow> mm_compat m' n = mm_compat m n"
  by (simp add: mm_same_def mm_compat_def)

text \<open>The free callback of the table is irrelevant to its contents.\<close>

lemma free_data_updates [simp]:
  "hash_wf (t\<lparr>hm_free_data := f\<rparr>) = hash_wf t"
  "hash_entries (t\<lparr>hm_free_data := f\<rparr>) = hash_entries t"
  "hash_index (t\<lparr>hm_free_data := f\<rparr>) = hash_index t"
  "hash_chain (t\<lparr>hm_free_data := f\<rparr>) = hash_chain t"
  "hash_find (t\<lparr>hm_free_data := f\<rparr>) = hash_find t"
  "hash_lookup (t\<lparr>hm_free_data := f\<rparr>) = hash_lookup t"
  "hash_counted (t\<lparr>hm_free_data := f\<rparr>) = hash_counted t"
  by (simp_all add: hash_wf_def hash_entries_def hash_index_def hash_chain_def hash_find_def
      hash_lookup_def hash_counted_def fun_eq_iff)

lemma mset_concat_map: "mset (concat (map f xs)) = sum_mset (image_mset (\<lambda>x. mset (f x)) (mset xs))"
  by (induction xs) simp_all

lemma mm_list_lookup: "mm_list m k = (case hash_lookup (mm_hash_tab m) k of None \<Rightarrow> [] | Some node \<Rightarrow> mn_list node)"
  by (simp add: mm_list_def multimap_lookup_def split: option.splits)

lemma mm_wf_tab:
  assumes "mm_wf m"
  shows "hash_wf (mm_hash_tab m)" "hm_compat (mm_hash_tab m) (mm_sz m)"
    "key_equiv (hm_compare (mm_hash_tab m))"
  using assms key_compat_equiv by (auto simp: mm_wf_def mm_compat_def)

lemma mm_node_ok:
  assumes "mm_wf m" "hash_lookup (mm_hash_tab m) k = Some node"
  obtains k' where "mm_eq m k k'" "(k', node) \<in> set (hash_entries (mm_hash_tab m))"
    "node_ok (hm_compare (mm_hash_tab m)) (k', node)"
proof -
  obtain k' where k': "(k', node) \<in> set (hash_entries (mm_hash_tab m))" "mm_eq m k k'"
    using hash_lookup_iff[OF mm_wf_tab(1,2)[OF assms(1)]] assms(2) by blast
  moreover have "\<forall>e\<in>set (hash_entries (mm_hash_tab m)). node_ok (hm_compare (mm_hash_tab m)) e"
    using assms(1) by (simp add: mm_wf_def)
  ultimately show thesis using that by blast
qed

lemma mm_list_Nil:
  assumes "mm_wf m" shows "mm_list m k = [] \<longleftrightarrow> hash_lookup (mm_hash_tab m) k = None"
proof (cases "hash_lookup (mm_hash_tab m) k")
  case (Some node)
  then show ?thesis using mm_node_ok[OF assms Some] by (auto simp: mm_list_lookup node_ok_def)
qed (simp add: mm_list_lookup)

lemma mm_list_keys:
  assumes "mm_wf m" "p \<in> set (mm_list m k)" shows "mm_eq m k (fst p)"
proof -
  obtain node where node: "hash_lookup (mm_hash_tab m) k = Some node" "p \<in> set (mn_list node)"
    using assms(2) by (cases "hash_lookup (mm_hash_tab m) k") (auto simp: mm_list_lookup)
  then obtain k' where "mm_eq m k k'" "node_ok (hm_compare (mm_hash_tab m)) (k', node)"
    using mm_node_ok[OF assms(1)] by metis
  then show ?thesis
    using node(2) key_equiv_trans[OF mm_wf_tab(3)[OF assms(1)]] by (fastforce simp: node_ok_def)
qed

lemma mm_pairs_mset:
  "mset (mm_pairs m) =
   sum_mset (image_mset (\<lambda>e. mset (mn_list (snd e))) (mset (hash_entries (mm_hash_tab m))))"
  by (simp add: mm_pairs_def mset_concat_map case_prod_beta)

text \<open>Replacing the node of a key.\<close>

lemma node_write_spec:
  assumes wf: "mm_wf m" and l: "hash_lookup (mm_hash_tab m) k = Some node"
    and tab: "tab = node_write (mm_hash_tab m) k node'"
  obtains k' where "hash_wf tab" "same_funs (mm_hash_tab m) tab" "hm_table_sz tab = mm_sz m"
    "hm_n_entries tab = hm_n_entries (mm_hash_tab m)" "hash_counted tab = hash_counted (mm_hash_tab m)"
    "add_mset (k', node) (mset (hash_entries tab)) = add_mset (k', node') (mset (hash_entries (mm_hash_tab m)))"
    "mm_eq m k k'" "node_ok (hm_compare (mm_hash_tab m)) (k', node)"
    "\<And>q. hash_lookup tab q = (if mm_eq m q k then Some node' else hash_lookup (mm_hash_tab m) q)"
    "\<And>q. hash_find tab q = hash_find (mm_hash_tab m) q"
proof -
  let ?t = "mm_hash_tab m"
  note t = mm_wf_tab[OF wf]
  obtain i where i: "hash_find ?t k = Some i" and node: "node = snd (hash_chain ?t k ! i)"
    using l by (auto simp: hash_lookup_def)
  obtain k' where old: "hash_chain ?t k ! i = (k', node)" using node by (metis prod.collapse)
  note pos = hash_find_pos[OF t(1) i]
  have eq: "mm_eq m k k'" using pos(3) old by (simp add: hash_chain_def)
  have tab': "tab = hash_set_node ?t (hash_index ?t k) i (k', node')"
    by (simp add: tab node_write_def i Let_def hash_set_node_def hash_chain_def old[unfolded hash_chain_def])
  have "hash_chain ?t k ! i \<in> set (hash_entries ?t)"
    using hash_chain_entries[OF t(1), of "hash_chain ?t k ! i" k] pos(2) by (simp add: hash_chain_def)
  then have ok: "node_ok (hm_compare ?t) (k', node)" using wf by (simp add: mm_wf_def old)
  note set = hash_set_node[OF t(1,2) i eq tab']
  show thesis
    by (rule that[of k', OF set(1-4,6) set(5)[unfolded old] eq ok set(7,8)])
qed

text \<open>The well-formedness of a multimap whose table entries are those of another one up to one node.\<close>

definition mm_counted :: "('k, 'v, 'c, 's) multimap \<Rightarrow> bool" where
  "mm_counted m \<longleftrightarrow> hash_counted (mm_hash_tab m)"

lemma mm_total: "mm_wf m \<Longrightarrow> mm_total_pairs m = size (mset (mm_pairs m))"
  by (simp add: mm_wf_def)

lemma mm_wfI:
  assumes wf: "mm_wf m" and same: "mm_same m m'"
    and "hash_wf (mm_hash_tab m')" "hm_free_key (mm_hash_tab m') = None"
    and "mm_compat m (mm_sz m')"
    and "\<forall>e\<in>set (hash_entries (mm_hash_tab m')).
      e \<in> set (hash_entries (mm_hash_tab m)) \<or> node_ok (hm_compare (mm_hash_tab m)) e"
    and "mm_total_pairs m' = length (mm_pairs m')"
  shows "mm_wf m'"
  using assms unfolding mm_wf_def mm_same_compat[OF same] by (auto simp: mm_same_def)


subsection \<open>Insertion\<close>

definition adds_pair ::
  "('k, 'v, 'c, 's) multimap \<Rightarrow> 'k \<Rightarrow> 'v \<Rightarrow> ('k, 'v, 'c, 's) multimap \<Rightarrow> bool" where
  "adds_pair m k v m' \<longleftrightarrow> mm_same m m' \<and> mm_sz m' \<in> {mm_sz m, 2 * mm_sz m} \<and>
     (mm_list m k \<noteq> [] \<longrightarrow> mm_sz m' = mm_sz m) \<and>
     mset (mm_pairs m') = add_mset (k, v) (mset (mm_pairs m)) \<and>
     mm_total_pairs m' = Suc (mm_total_pairs m) \<and> (mm_counted m \<longrightarrow> mm_counted m') \<and>
     (mm_compat m (mm_sz m') \<longrightarrow> mm_wf m' \<and>
        (\<forall>q. mm_list m' q = (if mm_eq m q k then (k, v) # mm_list m q else mm_list m q)))"

lemma mm_list_cong: "mm_wf m \<Longrightarrow> mm_eq m a b \<Longrightarrow> mm_list m a = mm_list m b"
proof -
  assume wf: "mm_wf m" and eq: "mm_eq m a b"
  note t = mm_wf_tab[OF wf]
  have "hash_lookup (mm_hash_tab m) a = Some v \<longleftrightarrow> hash_lookup (mm_hash_tab m) b = Some v" for v
    unfolding hash_lookup_iff[OF t(1,2)] using eq t(3) by (metis key_equiv_sym key_equiv_trans)
  then have "hash_lookup (mm_hash_tab m) a = hash_lookup (mm_hash_tab m) b"
    by (metis not_Some_eq)
  then show ?thesis by (simp add: mm_list_lookup)
qed

lemma multimap_insert_new:
  assumes wf: "mm_wf m" and l: "mm_list m k = []"
  shows "(\<exists>m'. multimap_insert m k v = Inr (True, m') \<and> adds_pair m k v m') \<or>
    multimap_insert m k v = Inl Assert_Failed \<and> \<not> mm_counted m"
proof -
  let ?t = "mm_hash_tab m" let ?node = "\<lparr>mn_list = [(k, v)], mn_n_pairs = Suc 0\<rparr>"
  note t = mm_wf_tab[OF wf]
  have none: "hash_lookup ?t k = None" using mm_list_Nil[OF wf] l by blast
  then have find: "hash_find ?t k = None" by (simp add: hash_lookup_def)
  have ins: "hash_insert ?t k ?node = res_bind (hash_internal_insert_new k ?node ?t (hash_index ?t k)) (\<lambda>m'. Inr (None, m'))"
    by (simp add: hash_insert_def find)
  consider "hash_internal_insert_new k ?node ?t (hash_index ?t k) = Inl Assert_Failed" "\<not> hash_counted ?t"
    | tab where "hash_internal_insert_new k ?node ?t (hash_index ?t k) = Inr tab" "adds_entry ?t (k, ?node) tab"
    using hash_internal_insert_new_spec[OF t(1,2) find, of ?node] by blast
  then show ?thesis
  proof cases
    case 1
    then show ?thesis by (simp add: multimap_insert_def none ins mm_counted_def)
  next
    case (2 tab)
    let ?m' = "m\<lparr>mm_total_pairs := mm_total_pairs m + 1, mm_hash_tab := tab\<rparr>"
    have same: "mm_same m ?m'" using 2(2) by (simp add: mm_same_def adds_entry_def same_funs_def)
    have pairs: "mset (mm_pairs ?m') = add_mset (k, v) (mset (mm_pairs m))"
      using 2(2) by (simp add: mm_pairs_mset adds_entry_def)
    have "mm_wf ?m'" if "mm_compat m (mm_sz ?m')"
    proof (rule mm_wfI[OF wf same _ _ that])
      have "node_ok (hm_compare ?t) (k, ?node)" using key_equiv_refl[OF t(3)] by (simp add: node_ok_def)
      then show "\<forall>e\<in>set (hash_entries (mm_hash_tab ?m')). e \<in> set (hash_entries ?t) \<or> node_ok (hm_compare ?t) e"
        using adds_entry_set[OF 2(2)] by auto
      show "mm_total_pairs ?m' = length (mm_pairs ?m')"
        using mm_total[OF wf] arg_cong[OF pairs, of size] by simp
    qed (use 2(2) wf in \<open>simp_all add: adds_entry_def same_funs_def mm_wf_def\<close>)
    moreover have "mm_list ?m' q = (if mm_eq m q k then (k, v) # mm_list m q else mm_list m q)"
      if "mm_compat m (mm_sz ?m')" for q
      using adds_entry_lookup[OF 2(2) t(1,2) _ none, of q] that mm_list_cong[OF wf, of q k] l
      by (auto simp: mm_compat_def mm_list_lookup)
    moreover have "multimap_insert m k v = Inr (True, ?m')"
      by (simp add: multimap_insert_def none ins 2(1))
    ultimately show ?thesis
      using same pairs 2(2) l by (auto simp: adds_pair_def mm_counted_def adds_entry_def)
  qed
qed

lemma insert_eq_subset: "insert a A = insert b B \<Longrightarrow> A \<subseteq> insert b B"
  by blast

lemma multimap_insert_more:
  assumes wf: "mm_wf m" and l: "mm_list m k \<noteq> []"
  shows "\<exists>m'. multimap_insert m k v = Inr (False, m') \<and> adds_pair m k v m'"
proof -
  let ?t = "mm_hash_tab m"
  obtain node where node: "hash_lookup ?t k = Some node" using l mm_list_Nil[OF wf] by blast
  let ?n' = "\<lparr>mn_list = (k, v) # mn_list node, mn_n_pairs = Suc (mn_n_pairs node)\<rparr>"
  let ?m' = "m\<lparr>mm_total_pairs := mm_total_pairs m + 1, mm_hash_tab := node_write ?t k ?n'\<rparr>"
  let ?w = "node_write ?t k ?n'"
  obtain k' where n: "hash_wf ?w" "same_funs ?t ?w" "hm_table_sz ?w = mm_sz m"
    "hm_n_entries ?w = hm_n_entries ?t" "hash_counted ?w = hash_counted ?t"
    "add_mset (k', node) (mset (hash_entries ?w)) = add_mset (k', ?n') (mset (hash_entries ?t))"
    "mm_eq m k k'" "node_ok (hm_compare ?t) (k', node)"
    "\<And>q. hash_lookup ?w q = (if mm_eq m q k then Some ?n' else hash_lookup ?t q)"
    "\<And>q. hash_find ?w q = hash_find ?t q"
    by (rule node_write_spec[OF wf node refl, of ?n']) (rule that; assumption)
  have eqv: "key_equiv (hm_compare ?t)" using mm_wf_tab[OF wf] by blast
  have same: "mm_same m ?m'" using n(2) by (simp add: mm_same_def same_funs_def)
  have pairs: "mset (mm_pairs ?m') = add_mset (k, v) (mset (mm_pairs m))"
    using arg_cong[OF n(6), of "\<lambda>M. sum_mset (image_mset (\<lambda>e. mset (mn_list (snd e))) M)"]
    by (simp add: mm_pairs_mset)
  have "mm_wf ?m'"
  proof (rule mm_wfI[OF wf same])
    have "node_ok (hm_compare ?t) (k', ?n')"
      using n(7,8) eqv by (auto simp: node_ok_def key_equiv_sym)
    moreover have "set (hash_entries ?w) \<subseteq> insert (k', ?n') (set (hash_entries ?t))"
      using arg_cong[OF n(6), of set_mset] unfolding set_mset_add_mset_insert set_mset_mset by (rule insert_eq_subset)
    ultimately have "\<forall>e\<in>set (hash_entries ?w). e \<in> set (hash_entries ?t) \<or> node_ok (hm_compare ?t) e"
      by blast
    then show "\<forall>e\<in>set (hash_entries (mm_hash_tab ?m')). e \<in> set (hash_entries ?t) \<or> node_ok (hm_compare ?t) e"
      by simp
    show "mm_total_pairs ?m' = length (mm_pairs ?m')"
      using mm_total[OF wf] arg_cong[OF pairs, of size] by simp
    show "mm_compat m (mm_sz ?m')" using n(3) wf by (simp add: mm_wf_def)
  qed (use n(1,2) wf in \<open>simp_all add: same_funs_def mm_wf_def\<close>)
  moreover have "mm_list ?m' q = (if mm_eq m q k then (k, v) # mm_list m q else mm_list m q)" for q
    using n(9)[of q] mm_list_cong[OF wf, of q k] node by (simp add: mm_list_lookup)
  ultimately show ?thesis
    using same pairs n(3,5) by (auto simp: adds_pair_def mm_counted_def multimap_insert_def node)
qed

lemma multimap_insert_spec:
  assumes "mm_wf m"
  shows "(\<exists>m'. multimap_insert m k v = Inr (mm_list m k = [], m') \<and> adds_pair m k v m') \<or>
    multimap_insert m k v = Inl Assert_Failed \<and> \<not> mm_counted m"
  using multimap_insert_new[OF assms, of k v] multimap_insert_more[OF assms, of k v]
  by (cases "mm_list m k = []") auto


subsection \<open>Deletion\<close>

text \<open>
  The loop deletes the pairs satisfying \<open>D\<close> when the comparison decides \<open>D\<close> in every state
  the loop passes through; \<open>P ps s\<close> is an invariant of the pairs still to come and the state.
\<close>

lemma delete_pairs_spec:
  assumes "\<And>p ps s. P (p # ps) s \<Longrightarrow> \<exists>r. mm_compare_val m c (snd p) s = Inr r \<and> (r = 0 \<longleftrightarrow> D p)"
    and "\<And>p ps s. P (p # ps) s \<Longrightarrow> D p \<Longrightarrow> \<exists>s'. free_pair m p s = Inr s' \<and> P ps s'"
    and "\<And>p ps s. P (p # ps) s \<Longrightarrow> \<not> D p \<Longrightarrow> P ps s"
    and "P ps s"
  shows "\<exists>s'. delete_pairs m c ps s = Inr (filter (\<lambda>p. \<not> D p) ps, length (filter D ps), s') \<and> P [] s' \<and>
    res_fold (free_pair m) (filter D ps) s = Inr s'"
  using assms(4)
proof (induction ps arbitrary: s)
  case (Cons p ps)
  obtain r where r: "mm_compare_val m c (snd p) s = Inr r" "r = 0 \<longleftrightarrow> D p"
    using assms(1)[OF Cons.prems] by blast
  show ?case
  proof (cases "D p")
    case True
    obtain s1 where s1: "free_pair m p s = Inr s1" "P ps s1" using assms(2)[OF Cons.prems True] by blast
    show ?thesis using Cons.IH[OF s1(2)] s1(1) r True by auto
  next
    case False
    show ?thesis using Cons.IH[OF assms(3)[OF Cons.prems False]] r False by auto
  qed
qed simp

definition deletes_pairs ::
  "('k, 'v, 'c, 's) multimap \<Rightarrow> 'k \<Rightarrow> ('k \<times> 'v \<Rightarrow> bool) \<Rightarrow> ('k, 'v, 'c, 's) multimap \<Rightarrow> bool" where
  "deletes_pairs m k D m' \<longleftrightarrow> mm_same m m' \<and> mm_sz m' = mm_sz m \<and> mm_wf m' \<and>
     (\<forall>q. mm_list m' q = (if mm_eq m q k then filter (\<lambda>p. \<not> D p) (mm_list m k) else mm_list m q)) \<and>
     mset (mm_pairs m') + mset (filter D (mm_list m k)) = mset (mm_pairs m)"

lemma hash_del_present:
  assumes wf: "hash_wf t" and l: "hash_lookup t k = Some v"
  obtains k' t' where "hm_compare t k k' = 0" "drops_entry t (k', v) t'" "hm_n_entries t' = hm_n_entries t"
    "\<And>s. hash_del_internal_node t (hash_get_internal_node t k) s =
       res_bind (hash_free_node t (k', v) s) (\<lambda>s. Inr (t', s))"
proof -
  obtain i where i: "hash_find t k = Some i" using l by (auto simp: hash_lookup_def)
  note pos = hash_find_pos[OF wf i]
  note un = hash_unlink_drops[OF wf pos(1,2)]
  obtain k' where v: "hm_table t ! hash_index t k ! i = (k', v)"
    using pos(4) l by (metis option.inject prod.collapse)
  show thesis
    by (rule that[OF pos(3)[unfolded v fst_conv] un(1)[unfolded v] un(2)])
      (simp add: hash_del_internal_node_def hash_get_internal_node_def i v)
qed

lemma multimap_delete_spec:
  assumes wf: "mm_wf m"
    and cmp: "\<And>p ps s. P (p # ps) s \<Longrightarrow> \<exists>r. mm_compare_val m c (snd p) s = Inr r \<and> (r = 0 \<longleftrightarrow> D p)"
    and free: "\<And>p ps s. P (p # ps) s \<Longrightarrow> D p \<Longrightarrow> \<exists>s'. free_pair m p s = Inr s' \<and> P ps s'"
    and keep: "\<And>p ps s. P (p # ps) s \<Longrightarrow> \<not> D p \<Longrightarrow> P ps s"
    and P: "P (mm_list m k) s"
  shows "\<exists>m' s'. multimap_delete m k c s = Inr (length (filter D (mm_list m k)), m', s') \<and>
    deletes_pairs m k D m' \<and> P [] s' \<and> res_fold (free_pair m) (filter D (mm_list m k)) s = Inr s' \<and>
    (if filter (\<lambda>p. \<not> D p) (mm_list m k) \<noteq> [] \<or> mm_list m k = [] then mm_counted m' = mm_counted m
     else mm_counted m \<longrightarrow> \<not> mm_counted m')"
proof (cases "mm_list m k = []")
  case True
  have "mm_list m q = []" if "mm_eq m q k" for q using mm_list_cong[OF wf that] True by simp
  then show ?thesis
    using True mm_list_Nil[OF wf, of k] wf P by (auto simp: multimap_delete_def deletes_pairs_def)
next
  case False
  let ?t = "mm_hash_tab m" let ?L = "mm_list m k" let ?K = "filter (\<lambda>p. \<not> D p) ?L"
  note t = mm_wf_tab[OF wf]
  obtain node where node: "hash_lookup ?t k = Some node" using False mm_list_Nil[OF wf] by blast
  have L: "mn_list node = ?L" by (simp add: mm_list_lookup node)
  have "\<exists>s'. delete_pairs m c ?L s = Inr (?K, length (filter D ?L), s') \<and> P [] s' \<and>
      res_fold (free_pair m) (filter D ?L) s = Inr s'"
    by (rule delete_pairs_spec[where P = P]; (rule P cmp free keep; assumption?))
  then obtain s' where del: "delete_pairs m c ?L s = Inr (?K, length (filter D ?L), s')" "P [] s'"
    "res_fold (free_pair m) (filter D ?L) s = Inr s'" by blast
  let ?n' = "\<lparr>mn_list = ?K, mn_n_pairs = mn_n_pairs node - length (filter D ?L)\<rparr>"
  let ?m1 = "m\<lparr>mm_total_pairs := mm_total_pairs m - length (filter D ?L), mm_hash_tab := node_write ?t k ?n'\<rparr>"
  let ?w = "node_write ?t k ?n'"
  obtain k' where n: "hash_wf ?w" "same_funs ?t ?w" "hm_table_sz ?w = mm_sz m"
    "hm_n_entries ?w = hm_n_entries ?t" "hash_counted ?w = hash_counted ?t"
    "add_mset (k', node) (mset (hash_entries ?w)) = add_mset (k', ?n') (mset (hash_entries ?t))"
    "mm_eq m k k'" "node_ok (hm_compare ?t) (k', node)"
    "\<And>q. hash_lookup ?w q = (if mm_eq m q k then Some ?n' else hash_lookup ?t q)"
    "\<And>q. hash_find ?w q = hash_find ?t q"
    by (rule node_write_spec[OF wf node refl, of ?n']) (rule that; assumption)
  have len: "mn_n_pairs node = length ?L" using n(8) L by (simp add: node_ok_def)
  have np: "mn_n_pairs ?n' = length ?K" using sum_length_filter_compl[of D ?L] len by simp
  have same1: "mm_same m ?m1" using n(2) by (simp add: mm_same_def same_funs_def)
  have split: "mset ?L = mset ?K + mset (filter D ?L)" by (metis mset_filter multiset_partition union_commute)
  have "mset ?L + mset (mm_pairs ?m1) = mset ?K + mset (mm_pairs m)"
    using arg_cong[OF n(6), of "\<lambda>M. sum_mset (image_mset (\<lambda>e. mset (mn_list (snd e))) M)"]
    by (simp add: mm_pairs_mset L del: mset_filter)
  then have "mset ?K + (mset (mm_pairs ?m1) + mset (filter D ?L)) = mset ?K + mset (mm_pairs m)"
    by (simp only: split ac_simps)
  then have pairs1: "mset (mm_pairs ?m1) + mset (filter D ?L) = mset (mm_pairs m)"
    by (rule add_left_imp_eq)
  have tot1: "mm_total_pairs ?m1 = length (mm_pairs ?m1)"
    using mm_total[OF wf] arg_cong[OF pairs1, of size] by (simp del: mset_filter)
  have sub1: "set (hash_entries ?w) \<subseteq> insert (k', ?n') (set (hash_entries ?t))"
    using arg_cong[OF n(6), of set_mset] unfolding set_mset_add_mset_insert set_mset_mset by (rule insert_eq_subset)
  show ?thesis
  proof (cases "?K = []")
    case False
    have "node_ok (hm_compare ?t) (k', ?n')"
      using n(8) False np L by (auto simp: node_ok_def)
    then have wf1: "mm_wf ?m1"
      using sub1 n(1,2,3) wf tot1 by (intro mm_wfI[OF wf same1]) (auto simp: same_funs_def mm_wf_def)
    have "mm_list ?m1 q = (if mm_eq m q k then ?K else mm_list m q)" for q
      using n(9)[of q] by (simp add: mm_list_lookup)
    then have "deletes_pairs m k D ?m1"
      using same1 n(3) wf1 pairs1 by (simp add: deletes_pairs_def)
    moreover have "\<not> mn_n_pairs node \<le> length (filter D ?L)"
      using np False length_greater_0_conv[of ?K] unfolding multimap_node.simps by linarith
    then have "multimap_delete m k c s = Inr (length (filter D ?L), ?m1, s')"
      by (simp add: multimap_delete_def node L del(1) Let_def)
    ultimately show ?thesis using False del(2,3) n(5) by (auto simp: mm_counted_def)
  next
    case True
    obtain t1 where t1: "t1 = mm_tab ?m1" by blast
    note tdefs = t1 mm_tab_def hash_setfreedata_cb_def
    have w: "hash_wf t1" "hm_free_key t1 = None" "hm_compare t1 = hm_compare ?t" "hm_table_sz t1 = mm_sz m"
      "hm_hash t1 = hm_hash ?t" "hm_compat t1 (hm_table_sz t1)" "hash_entries t1 = hash_entries ?w"
      using n(1-3) wf t(2) by (simp_all add: tdefs same_funs_def mm_wf_def)
    have lk: "hash_lookup t1 q = (if mm_eq m q k then Some ?n' else hash_lookup ?t q)" for q
      using n(9)[of q] by (simp add: tdefs)
    have lk1: "hash_lookup t1 k = Some ?n'" using lk[of k] key_equiv_refl[OF t(3)] by simp
    have nd: "hash_get_internal_node ?t k = hash_get_internal_node t1 k"
    proof -
      have "hash_find t1 k = hash_find ?t k" using n(10)[of k] by (simp add: tdefs)
      moreover have "hash_index t1 k = hash_index ?t k" by (simp add: hash_index_def w)
      ultimately show ?thesis by (simp add: hash_get_internal_node_def split: option.split)
    qed
    obtain kp u where u: "hm_compare t1 k kp = 0" "drops_entry t1 (kp, ?n') u" "hm_n_entries u = hm_n_entries t1"
      "\<And>s. hash_del_internal_node t1 (hash_get_internal_node t1 k) s = res_bind (hash_free_node t1 (kp, ?n') s) (\<lambda>s. Inr (u, s))"
      using hash_del_present[OF w(1) lk1] by metis
    have free: "hash_free_node t1 (kp, ?n') s' = Inr s'"
      using w(2) True by (simp add: hash_free_node_def call_free_def free_node_def tdefs)
    let ?m' = "?m1\<lparr>mm_hash_tab := u\<rparr>"
    have "multimap_delete m k c s = res_bind (hash_del_internal_node t1 (hash_get_internal_node ?t k) s')
        (\<lambda>(tab, s). Inr (length (filter D ?L), ?m1\<lparr>mm_hash_tab := tab\<rparr>, s))"
      using True np by (simp add: multimap_delete_def node L del(1) Let_def t1)
    then have res: "multimap_delete m k c s = Inr (length (filter D ?L), ?m', s')"
      by (simp only: nd u(4) free res_bind_simps prod.case)
    have same: "mm_same m ?m'"
      using u(2) w by (simp add: mm_same_def drops_entry_def same_funs_def)
    have ms: "mset (hash_entries ?w) = add_mset (kp, ?n') (mset (hash_entries u))"
      using u(2) by (simp add: drops_entry_def w(7))
    have "sum_mset (image_mset (\<lambda>e. mset (mn_list (snd e))) (mset (hash_entries ?w))) =
        sum_mset (image_mset (\<lambda>e. mset (mn_list (snd e))) (mset (hash_entries u)))"
      by (simp only: ms image_mset_add_mset sum_mset.insert) (simp add: True)
    then have pairs: "mset (mm_pairs ?m') = mset (mm_pairs ?m1)" by (simp add: mm_pairs_mset)
    have "mm_wf ?m'"
    proof (rule mm_wfI[OF wf same])
      have apart: "\<forall>e\<in>set (hash_entries u). hm_compare ?t kp (fst e) \<noteq> 0"
        using entries_apart_remove[OF hash_wf_entries_apart[OF w(1,6)], of "(kp, ?n')" "hash_entries u"]
          ms t(3) by (simp add: w(3,7))
      have kk': "hm_compare ?t kp k' = 0"
        using u(1) n(7) t(3) unfolding w(3) by (metis key_equiv_sym key_equiv_trans)
      have "set (hash_entries u) \<subseteq> insert (k', ?n') (set (hash_entries ?t))"
        using sub1 arg_cong[OF ms, of set_mset] by auto
      then have "\<forall>e\<in>set (hash_entries u). e \<in> set (hash_entries ?t)"
        using apart kk' by fastforce
      then show "\<forall>e\<in>set (hash_entries (mm_hash_tab ?m')). e \<in> set (hash_entries ?t) \<or> node_ok (hm_compare ?t) e"
        by simp
      show "mm_total_pairs ?m' = length (mm_pairs ?m')"
        using tot1 arg_cong[OF pairs, of size] by simp
    qed (use u(2) wf w in \<open>simp_all add: drops_entry_def same_funs_def mm_wf_def\<close>)
    moreover have "mm_list ?m' q = (if mm_eq m q k then ?K else mm_list m q)" for q
      using drops_entry_lookup[OF u(2) w(1,6) u(1), of q] lk[of q] True by (simp add: mm_list_lookup w(3))
    ultimately have "deletes_pairs m k D ?m'"
      using same pairs pairs1 u(2) w(4) by (simp add: deletes_pairs_def drops_entry_def)
    moreover have "hash_counted ?t \<longrightarrow> \<not> hash_counted u"
      using u(3) drops_entry_length[OF u(2)] n(5) w(7) by (auto simp: hash_counted_def tdefs)
    ultimately show ?thesis using res del(2,3) True False by (auto simp: mm_counted_def)
  qed
qed


lemma deletes_pairs_total:
  assumes "mm_wf m" "deletes_pairs m k D m'"
  shows "mm_total_pairs m = mm_total_pairs m' + length (filter D (mm_list m k))"
proof -
  have "mset (mm_pairs m') + mset (filter D (mm_list m k)) = mset (mm_pairs m)" "mm_wf m'"
    using assms(2) by (simp_all add: deletes_pairs_def)
  from arg_cong[OF this(1), of size] show ?thesis
    using mm_total[OF assms(1)] mm_total[OF \<open>mm_wf m'\<close>] by (simp del: mset_filter)
qed

lemma multimap_delete_all_spec:
  assumes wf: "mm_wf m" and fold: "res_fold (free_pair m) (mm_list m k) s = Inr s'"
  shows "\<exists>m'. multimap_delete_all m k s = Inr (length (mm_list m k), m', s') \<and>
    deletes_pairs m k (\<lambda>_. True) m' \<and> mm_counted m' = mm_counted m"
proof (cases "mm_list m k = []")
  case True
  have "mm_list m q = []" if "mm_eq m q k" for q using mm_list_cong[OF wf that] True by simp
  then show ?thesis
    using True mm_list_Nil[OF wf, of k] wf fold by (auto simp: multimap_delete_all_def deletes_pairs_def)
next
  case False
  let ?t = "mm_hash_tab m"
  note t = mm_wf_tab[OF wf]
  obtain node where node: "hash_lookup ?t k = Some node" using False mm_list_Nil[OF wf] by blast
  have L: "mn_list node = mm_list m k" by (simp add: mm_list_lookup node)
  have len: "mn_n_pairs node = length (mm_list m k)"
    using mm_node_ok[OF wf node] by (auto simp: node_ok_def L)
  let ?m1 = "m\<lparr>mm_total_pairs := mm_total_pairs m - mn_n_pairs node\<rparr>"
  obtain t1 where t1: "t1 = mm_tab ?m1" by blast
  note tdefs = t1 mm_tab_def hash_setfreedata_cb_def
  have w: "hash_wf t1" "hm_free_key t1 = None" "hm_compare t1 = hm_compare ?t" "hm_table_sz t1 = mm_sz m"
    "hm_hash t1 = hm_hash ?t" "hash_entries t1 = hash_entries ?t" "hash_lookup t1 = hash_lookup ?t"
    "hm_free_data t1 = Some (free_node ?m1)" "hash_counted t1 = hash_counted ?t"
    using t wf by (simp_all add: tdefs mm_wf_def)
  have c1: "hm_compat t1 (hm_table_sz t1)" using t(2) w by simp
  have lk: "hash_lookup t1 k = Some node" by (simp add: w node)
  obtain kp u where u: "hm_compare t1 k kp = 0" "drops_entry t1 (kp, node) u"
    "hm_n_entries u = hm_n_entries t1 - 1"
    "\<And>s. hash_remove t1 k s = res_bind (call_free (hm_free_key t1) kp s) (\<lambda>s.
       res_bind (call_free (hm_free_data t1) node s) (\<lambda>s. Inr (True, u, s)))"
    using hash_remove_present[OF w(1) lk] by blast
  have "free_pair ?m1 = free_pair m" by (simp add: fun_eq_iff free_pair_def)
  then have free: "free_node ?m1 node s = Inr s'" using fold by (simp add: free_node_def L)
  let ?m' = "?m1\<lparr>mm_hash_tab := u\<rparr>"
  have res: "multimap_delete_all m k s = Inr (length (mm_list m k), ?m', s')"
  proof -
    have "multimap_delete_all m k s = res_bind (hash_remove t1 k s) (\<lambda>(_, tab, s). Inr (mn_n_pairs node, ?m1\<lparr>mm_hash_tab := tab\<rparr>, s))"
      by (simp add: multimap_delete_all_def node Let_def t1)
    then show ?thesis using u(4)[of s] free by (simp add: call_free_def w len)
  qed
  have same: "mm_same m ?m'"
    using u(2) w by (simp add: mm_same_def drops_entry_def same_funs_def)
  have ms: "mset (hash_entries ?t) = add_mset (kp, node) (mset (hash_entries u))"
    using u(2) by (simp add: drops_entry_def w)
  have pairs: "mset (mm_pairs ?m') + mset (mm_list m k) = mset (mm_pairs m)"
    by (simp add: mm_pairs_mset ms L)
  have "mm_wf ?m'"
  proof (rule mm_wfI[OF wf same])
    show "\<forall>e\<in>set (hash_entries (mm_hash_tab ?m')). e \<in> set (hash_entries ?t) \<or> node_ok (hm_compare ?t) e"
      using arg_cong[OF ms, of set_mset] by auto
    show "mm_total_pairs ?m' = length (mm_pairs ?m')"
      using mm_total[OF wf] arg_cong[OF pairs, of size] by (simp add: len)
  qed (use u(2) wf w in \<open>simp_all add: drops_entry_def same_funs_def mm_wf_def\<close>)
  moreover have "mm_list ?m' q = (if mm_eq m q k then [] else mm_list m q)" for q
    using drops_entry_lookup[OF u(2) w(1) c1 u(1), of q] by (simp add: mm_list_lookup w(3,7))
  moreover have "hash_counted u = hash_counted ?t"
    using u(3) drops_entry_length[OF u(2)] w(6,9) by (auto simp: hash_counted_def diff_eq_eq add.commute)
  ultimately have "deletes_pairs m k (\<lambda>_. True) ?m'" "mm_counted ?m' = mm_counted m"
    using same pairs u(2) w(4) by (simp_all add: deletes_pairs_def drops_entry_def mm_counted_def)
  then show ?thesis using res by blast
qed

lemma hash_init_simps [simp]:
  "hash_wf (hash_init n h c)" "hash_counted (hash_init n h c)" "hash_entries (hash_init n h c) = []"
  "hm_hash (hash_init n h c) = h" "hm_compare (hash_init n h c) = c"
  "hm_free_key (hash_init n h c) = None" "hm_table_sz (hash_init n h c) = (if n = 0 then 1 else n)"
  using exact_table_init[of h c n] by (auto simp: exact_table_def) (auto simp: hash_entries_def hash_init_def Let_def)

lemma multimap_init_wf:
  assumes "key_compat h c (if n = 0 then 1 else n)"
  shows "mm_wf (multimap_init n h c cv)" "mm_counted (multimap_init n h c cv)"
    "mm_list (multimap_init n h c cv) q = []"
  using assms by (simp_all add: mm_wf_def multimap_init_def mm_counted_def mm_list_lookup mm_compat_def mm_pairs_def)

lemma multimap_lookup_list:
  "mm_wf m \<Longrightarrow> multimap_lookup m k = (if mm_list m k = [] then None else Some (mm_list m k, length (mm_list m k)))"
  using mm_list_Nil[of m k] mm_node_ok[of m k]
  by (cases "hash_lookup (mm_hash_tab m) k") (auto simp: multimap_lookup_def mm_list_lookup node_ok_def)

text \<open>Maps compared case-insensitively with \<open>hash_djb\<close>, as the program uses them for names.\<close>

lemma mm_compat_nocase:
  "hm_hash (mm_hash_tab m) = hash_djb \<Longrightarrow> hm_compare (mm_hash_tab m) = compare_strings_nocase \<Longrightarrow>
   n dvd 32 \<Longrightarrow> mm_compat m n"
  by (simp add: mm_compat_def djb_nocase_compat)

text \<open>A table that miscounts its entries cannot grow.\<close>

lemma rehash_fold_counts:
  "hm_n_entries (fold (\<lambda>node acc. rehash_node acc node) ns t) = hm_n_entries t + of_nat (length ns)"
  by (induction ns arbitrary: t) (simp_all add: rehash_node_def Let_def)

lemma hash_resize_uncounted:
  "\<not> hash_counted t \<Longrightarrow> n \<noteq> hm_table_sz t \<Longrightarrow> 0 < n \<Longrightarrow> hash_resize t n = Inl Assert_Failed"
  by (simp add: hash_resize_def Let_def rehash_fold_counts hash_counted_def hash_entries_def)

lemma hash_insert_uncounted:
  assumes "hash_wf t" "\<not> hash_counted t" "hash_chain t k = []"
    and "over_threshold (hm_used_buckets t + 1) (hm_table_sz t)"
  shows "hash_insert t k v = Inl Assert_Failed"
proof -
  let ?i = "hash_index t k"
  let ?t1 = "t\<lparr>hm_n_entries := hm_n_entries t + 1, hm_table := (hm_table t)[?i := [(k, v)]],
    hm_used_buckets := hm_used_buckets t + 1\<rparr>"
  have i: "?i < length (hm_table t)" "hm_table t ! ?i = []"
    using hash_wf_index_less[OF assms(1)] assms(3) by (auto simp: hash_chain_def)
  have "length (hash_entries ?t1) = Suc (length (hash_entries t))"
    using length_concat_update[OF i(1), of "[(k, v)]"] i(2) by (simp add: hash_entries_def)
  then have "\<not> hash_counted ?t1" using assms(2) by (auto simp: hash_counted_def)
  then have "hash_resize ?t1 (hm_table_sz t * 2) = Inl Assert_Failed"
    using assms(1) by (intro hash_resize_uncounted) (auto simp: hash_wf_def)
  then show ?thesis
    using assms(3,4) i(2) by (simp add: hash_insert_def hash_find_def hash_internal_insert_new_def Let_def)
qed

section \<open>Properties\<close>



text \<open>After \<open>multimap_delete\<close> has taken the last pair of a key away, the table no longer
  counts its entries correctly, and the insertion that makes it grow fails an assertion, which
  kills the server.\<close>

theorem multimap_delete_then_grow_aborts:
  assumes "mm_wf m" "mm_counted m" "\<And>v s. mm_compare_val m c v s = Inr 0"
    and "\<And>p s. \<exists>s'. free_pair m p s = Inr s'"
    and "mm_list m k \<noteq> []" "multimap_delete m k c s = Inr (n, m', s')"
    and "hash_chain (mm_hash_tab m') k2 = []"
    and "over_threshold (hm_used_buckets (mm_hash_tab m') + 1) (mm_sz m')"
  shows "multimap_insert m' k2 v = Inl Assert_Failed"
proof -
  have "deletes_pairs m k (\<lambda>_. True) m' \<and> \<not> mm_counted m'"
    using multimap_delete_spec[where P = "\<lambda>_ _. True" and D = "\<lambda>_. True" and m = m and c = c and k = k and s = s]
      assms(1-6) by auto
  then have m': "mm_wf m'" "\<not> hash_counted (mm_hash_tab m')" by (auto simp: deletes_pairs_def mm_counted_def)
  then have "hash_insert (mm_hash_tab m') k2 node = Inl Assert_Failed" for node
    using hash_insert_uncounted[OF mm_wf_tab(1)[OF m'(1)] m'(2) assms(7,8)] by blast
  moreover have "hash_lookup (mm_hash_tab m') k2 = None"
    by (simp add: hash_lookup_def hash_find_def assms(7))
  ultimately show ?thesis by (simp add: multimap_insert_def)
qed

text \<open>A map with one bucket, whose first entry makes it grow.\<close>

theorem multimap_delete_then_grow_aborts_witness:
  "\<exists>m m'. multimap_delete (m :: (int, nat, nat, unit) multimap) 5 0 () = Inr (1, m', ()) \<and>
     multimap_insert m' 6 1 = Inl Assert_Failed"
proof -
  let ?t = "\<lparr>hm_hash = simp_hash, hm_compare = simp_equal, hm_table = [[(5, \<lparr>mn_list = [(5, 2)], mn_n_pairs = 1\<rparr>)]],
    hm_table_sz = 1, hm_free_key = None, hm_free_data = None, hm_dup_data = None, hm_n_entries = 1,
    hm_used_buckets = 1\<rparr> :: (int, (int, nat) multimap_node, unit) hash_map"
  let ?m = "\<lparr>mm_total_pairs = 1, mm_refcount = 1, mm_hash_tab = ?t, mm_compare_val = (\<lambda>a b s. Inr 0),
    mm_free_data = None, mm_free_key = None, mm_dup_data = None\<rparr> :: (int, nat, nat, unit) multimap"
  note defs = hash_index_def hash_find_def hash_chain_def
  have wf: "mm_wf ?m" "mm_counted ?m" "mm_list ?m 5 \<noteq> []"
    using exact_key_compat[of simp_equal simp_hash 1]
    by (auto simp: hash_wf_def mm_counted_def hash_counted_def hash_entries_def hash_lookup_def defs mm_wf_def
        mm_compat_def node_ok_def mm_pairs_def mm_list_lookup)
  have "\<exists>m'. multimap_delete ?m 5 0 () = Inr (1, m', ()) \<and> hm_table (mm_hash_tab m') = [[]] \<and> mm_sz m' = 1
      \<and> hm_used_buckets (mm_hash_tab m') = 0"
    by (simp add: multimap_delete_def hash_lookup_def defs node_write_def hash_get_internal_node_def
        hash_del_internal_node_def hash_unlink_def free_pair_def call_free_def hash_free_node_def mm_tab_def
        hash_setfreedata_cb_def free_node_def Let_def)
  then obtain m' where m': "multimap_delete ?m 5 0 () = Inr (1, m', ())" "hm_table (mm_hash_tab m') = [[]]"
    "mm_sz m' = 1" "hm_used_buckets (mm_hash_tab m') = 0" by blast
  have "multimap_insert m' 6 1 = Inl Assert_Failed"
    by (rule multimap_delete_then_grow_aborts[OF wf(1,2) _ _ wf(3) m'(1)])
      (simp_all add: m' defs free_pair_def call_free_def over_threshold_def RESIZE_THRESHOLD_def)
  then show ?thesis using m'(1) by blast
qed

end
