(* ===== verification/Nc_Util.thy ===== *)
theory Nc_Util
  imports Nc_Base
begin

text \<open>
  The helpers of \<open>src/util.c\<close>: string clean-up, bounded concatenation and noun formatting,
  and the binary reading and writing of the save files.

  A file descriptor open for writing is the bytes written so far, so a write function
  returns the bytes it appends; one open for reading is the bytes not yet read. Integers are
  stored in the machine's byte order, little-endian, with an 8-byte \<open>size_t\<close>.
\<close>

section \<open>Strings\<close>

text \<open>
  \<open>remove_cruft\<close> calls \<open>strtok_r(str, ''\r\n'', ...)\<close> for its side effect: the first
  delimiter after the first token becomes the terminating NUL. Leading delimiters stay, and
  a string of delimiters only is left alone.
\<close>

definition crlf :: string where
  "crlf = [char_of (13::nat), char_of (10::nat)]"

definition remove_cruft :: "string \<Rightarrow> string" where
  "remove_cruft str =
     takeWhile (\<lambda>c. c \<in> set crlf) str @
     takeWhile (\<lambda>c. c \<notin> set crlf) (dropWhile (\<lambda>c. c \<in> set crlf) str)"

fun all_upper :: "string \<Rightarrow> string" where
  "all_upper [] = []"
| "all_upper (c # s) = toupper c # all_upper s"

fun all_lower :: "string \<Rightarrow> string" where
  "all_lower [] = []"
| "all_lower (c # s) = tolower c # all_lower s"

definition is_vowel :: "char \<Rightarrow> bool" where
  "is_vowel c \<longleftrightarrow> tolower c \<in> {CHR ''a'', CHR ''e'', CHR ''i'', CHR ''o'', CHR ''u''}"

text \<open>The copying loop of \<open>strlcat\<close> with \<open>n\<close> bytes left in the buffer.\<close>

fun strlcat_copy :: "string \<Rightarrow> nat \<Rightarrow> string" where
  "strlcat_copy [] n = []"
| "strlcat_copy (c # s) n = (if n \<noteq> 1 then c # strlcat_copy s (n - 1) else strlcat_copy s n)"

text \<open>\<open>strlcat\<close>: the new contents of \<open>dst\<close> and the return value. A buffer without a NUL in
  its first \<open>siz\<close> bytes is one with \<open>siz \<le> length dst\<close>.\<close>

definition strlcat :: "string \<Rightarrow> string \<Rightarrow> nat \<Rightarrow> string \<times> nat" where
  "strlcat dst src siz =
     (let dlen = min siz (length dst); n = siz - dlen in
      if n = 0 then (dst, dlen + length src)
      else (dst @ strlcat_copy src n, dlen + length src))"

text \<open>The decimal digits that \<open>%zu\<close> prints.\<close>

fun decimal :: "nat \<Rightarrow> string" where
  "decimal n = (if n < 10 then [char_of (48 + n)] else decimal (n div 10) @ [char_of (48 + n mod 10)])"

declare decimal.simps [simp del]

text \<open>
  \<open>format_noun\<close>. \<open>name[0]\<close> of an empty name is the NUL; \<open>name + 1\<close> then points behind the
  string. \<open>char tmp[2]\<close> holding the NUL is the empty string.
\<close>

definition format_noun ::
  "nat \<Rightarrow> string \<Rightarrow> nat \<Rightarrow> bool \<Rightarrow> bool \<Rightarrow> string res" where
  "format_noun len name count default_article capitalize =
     (if \<not> 1 < len then Inl Assert_Failed
      else
        let cat = (\<lambda>buf s. fst (strlcat buf s len)) in
        if count = 1 then
          if default_article then
            let vowel = (case name of [] \<Rightarrow> False | c # _ \<Rightarrow> is_vowel c);
                article = (if capitalize then (if vowel then ''An'' else ''A'')
                           else (if vowel then ''an'' else ''a'')) in
            Inr (cat (cat (cat [] article) '' '') name)
          else
            (case name of
               [] \<Rightarrow> Inl Out_Of_Bounds
             | c # cs \<Rightarrow> Inr (cat (cat [] [toupper c]) cs))
        else Inr (cat (cat (cat (cat [] (take 31 (decimal count))) '' '') name) ''s''))"

section \<open>Reading and writing\<close>

fun le_bytes :: "nat \<Rightarrow> nat \<Rightarrow> string" where
  "le_bytes 0 v = []"
| "le_bytes (Suc n) v = char_of (v mod 256) # le_bytes n (v div 256)"

fun le_val :: "string \<Rightarrow> nat" where
  "le_val [] = 0"
| "le_val (c # cs) = code c + 256 * le_val cs"

text \<open>\<open>read(fd, buf, n)\<close> on a regular file: up to \<open>n\<close> bytes, fewer only at its end.\<close>

definition file_read :: "nat \<Rightarrow> string \<Rightarrow> string \<times> string" where
  "file_read n fd = (take n fd, drop n fd)"

text \<open>Reading exactly \<open>n\<close> bytes or stopping with the given error.\<close>

definition read_exact :: "string \<Rightarrow> nat \<Rightarrow> string \<Rightarrow> (string \<times> string) res" where
  "read_exact msg n fd =
     (let (buf, fd) = file_read n fd in if length buf \<noteq> n then Inl (Error msg) else Inr (buf, fd))"

text \<open>Writing never fails here: what the code does when a \<open>write\<close> falls short, \<open>error("write failed")\<close>, is left out.\<close>

definition write_string :: "string \<Rightarrow> string" where
  "write_string str = le_bytes 8 (length str) @ str"

text \<open>The C string read is the bytes before the first NUL.\<close>

definition c_str :: "string \<Rightarrow> string" where
  "c_str buf = takeWhile (\<lambda>c. code c \<noteq> 0) buf"

definition read_string :: "string \<Rightarrow> (string \<times> string) res" where
  "read_string fd =
     res_bind (read_exact ''read_string: EOF'' 8 fd) (\<lambda>(sz, fd).
     res_bind (read_exact ''read_string: EOF'' (le_val sz) fd) (\<lambda>(ret, fd).
     Inr (c_str ret, fd)))"

definition write_bool :: "bool \<Rightarrow> string" where
  "write_bool b = le_bytes 1 (if b then 1 else 0)"

definition read_bool :: "string \<Rightarrow> (bool \<times> string) res" where
  "read_bool fd = res_bind (read_exact ''unexpected EOF'' 1 fd) (\<lambda>(ret, fd). Inr (le_val ret \<noteq> 0, fd))"

definition write_uint32 :: "u32 \<Rightarrow> string" where
  "write_uint32 b = le_bytes 4 (unat b)"

definition read_uint32 :: "string \<Rightarrow> (u32 \<times> string) res" where
  "read_uint32 fd = res_bind (read_exact ''unexpected EOF'' 4 fd) (\<lambda>(ret, fd). Inr (of_nat (le_val ret), fd))"

definition write_uint64 :: "u64 \<Rightarrow> string" where
  "write_uint64 b = le_bytes 8 (unat b)"

definition read_uint64 :: "string \<Rightarrow> (u64 \<times> string) res" where
  "read_uint64 fd = res_bind (read_exact ''unexpected EOF'' 8 fd) (\<lambda>(ret, fd). Inr (of_nat (le_val ret), fd))"

definition write_size :: "u64 \<Rightarrow> string" where
  "write_size b = le_bytes 8 (unat b)"

definition read_size :: "string \<Rightarrow> (u64 \<times> string) res" where
  "read_size fd = res_bind (read_exact ''unexpected EOF'' 8 fd) (\<lambda>(ret, fd). Inr (of_nat (le_val ret), fd))"

text \<open>An \<open>int\<close> is stored in two's complement.\<close>

type_synonym room_id = int

definition int_bytes :: "int \<Rightarrow> string" where
  "int_bytes b = le_bytes 4 (unat (word_of_int b :: u32))"

definition int_val :: "string \<Rightarrow> int" where
  "int_val buf = sint (of_nat (le_val buf) :: u32)"

definition write_int :: "int \<Rightarrow> string" where
  "write_int b = int_bytes b"

definition read_int :: "string \<Rightarrow> (int \<times> string) res" where
  "read_int fd = res_bind (read_exact ''unexpected EOF'' 4 fd) (\<lambda>(ret, fd). Inr (int_val ret, fd))"

text \<open>
  \<open>read_roomid\<close> only checks for a read error, which a regular file does not have (it would give \<open>ROOM_NONE\<close>): at the end of the file the bytes not read
  keep their old stack contents, which the parameter \<open>junk\<close> stands for.
\<close>

definition write_roomid :: "room_id \<Rightarrow> string" where
  "write_roomid rid = int_bytes rid"

definition read_roomid :: "string \<Rightarrow> string \<Rightarrow> room_id \<times> string" where
  "read_roomid junk fd =
     (let (buf, fd) = file_read 4 fd in (int_val (buf @ drop (length buf) (take 4 junk)), fd))"

section \<open>Lemmas\<close>

lemma length_le_bytes [simp]: "length (le_bytes n v) = n"
  by (induction n arbitrary: v) simp_all

lemma le_val_le_bytes: "le_val (le_bytes n v) = v mod 256 ^ n"
  by (induction n arbitrary: v) (simp_all add: mod_mult2_eq add.commute)

lemma read_exact_append [simp]: "length buf = n \<Longrightarrow> read_exact msg n (buf @ rest) = Inr (buf, rest)"
  by (simp add: read_exact_def file_read_def)

lemma read_exact_short: "length fd < n \<Longrightarrow> read_exact msg n fd = Inl (Error msg)"
  by (simp add: read_exact_def file_read_def)

lemma c_str_id: "(\<forall>c\<in>set s. code c \<noteq> 0) \<Longrightarrow> c_str s = s"
  by (simp add: c_str_def)

lemma unat_mod_size [simp]:
  "unat (w :: 32 word) mod 4294967296 = unat w" "unat (x :: 64 word) mod 18446744073709551616 = unat x"
proof -
  have "unat w < 2 ^ 32" "unat x < 2 ^ 64" using unsigned_less[of w] unsigned_less[of x] by simp_all
  then show "unat w mod 4294967296 = unat w" "unat x mod 18446744073709551616 = unat x" by simp_all
qed

text \<open>Strings that survive a trip through a file: no NUL, and a length that fits \<open>size_t\<close>.\<close>

definition storable :: "string \<Rightarrow> bool" where
  "storable s \<longleftrightarrow> (\<forall>c\<in>set s. code c \<noteq> 0) \<and> length s < 2 ^ 64"

lemma read_string_append [simp]: "storable s \<Longrightarrow> read_string (write_string s @ rest) = Inr (s, rest)"
  by (simp add: read_string_def write_string_def storable_def le_val_le_bytes c_str_id)

definition fits_int :: "int \<Rightarrow> bool" where
  "fits_int i \<longleftrightarrow> - (2 ^ 31) \<le> i \<and> i < 2 ^ 31"

lemma int_val_bytes [simp]: "fits_int i \<Longrightarrow> int_val (int_bytes i) = i"
  by (simp add: int_val_def int_bytes_def le_val_le_bytes fits_int_def signed_take_bit_int_eq_self sint_sbintrunc')

lemma length_int_bytes [simp]: "length (int_bytes i) = 4"
  by (simp add: int_bytes_def)

lemma read_scalars_append [simp]:
  "read_bool (write_bool b @ rest) = Inr (b, rest)"
  "read_uint32 (write_uint32 w @ rest) = Inr (w, rest)"
  "read_uint64 (write_uint64 x @ rest) = Inr (x, rest)"
  "read_size (write_size x @ rest) = Inr (x, rest)"
  by (simp_all add: read_bool_def write_bool_def read_uint32_def write_uint32_def read_uint64_def write_uint64_def
      read_size_def write_size_def le_val_le_bytes read_exact_def file_read_def Let_def)

lemma read_ints_append [simp]:
  assumes "fits_int i"
  shows "read_int (write_int i @ rest) = Inr (i, rest)" "read_roomid junk (write_roomid i @ rest) = (i, rest)"
  using assms by (simp_all add: read_int_def write_int_def read_roomid_def write_roomid_def read_exact_def file_read_def Let_def)

lemma all_upper_map: "all_upper s = map toupper s"
  by (induction s) simp_all

lemma all_lower_map: "all_lower s = map tolower s"
  by (induction s) simp_all

lemma strlcat_copy_take: "0 < n \<Longrightarrow> strlcat_copy s n = take (n - 1) s"
proof (induction s arbitrary: n)
  case (Cons c s)
  show ?case
  proof (cases "n = 1")
    case True
    then show ?thesis using Cons.IH[of 1] by simp
  next
    case False
    then show ?thesis using Cons by (cases "n - 1") (auto simp: numeral_eq_Suc Suc_diff_Suc)
  qed
qed simp

lemma strlcat_take: "length dst < siz \<Longrightarrow> fst (strlcat dst src siz) = take (siz - 1) (dst @ src)"
  by (simp add: strlcat_def Let_def strlcat_copy_take)

text \<open>A buffer built by appending pieces with \<open>strlcat\<close> holds a prefix of their concatenation.\<close>

lemma strlcat_bounded: "length dst < siz \<Longrightarrow> length (fst (strlcat dst src siz)) < siz"
  by (auto simp: strlcat_take)

lemma strlcat_chain:
  "length dst < siz \<Longrightarrow> dst = take (siz - 1) whole \<Longrightarrow>
   fst (strlcat dst src siz) = take (siz - 1) (whole @ src)"
  by (auto simp: strlcat_take min_def)

section \<open>Properties\<close>

text \<open>\<open>strlcat\<close> never writes past the buffer: the result with its NUL fits \<open>siz\<close>
  bytes, it is the longest prefix of the concatenation that does, and the return value
  reaches \<open>siz\<close> exactly when something was cut off.\<close>

theorem strlcat_correct:
  assumes "length dst < siz"
  shows "length (fst (strlcat dst src siz)) < siz \<and>
    fst (strlcat dst src siz) = take (siz - 1) (dst @ src) \<and>
    (snd (strlcat dst src siz) < siz \<longleftrightarrow> fst (strlcat dst src siz) = dst @ src)"
proof -
  have "snd (strlcat dst src siz) = length (dst @ src)"
    using assms by (simp add: strlcat_def Let_def)
  moreover have "take (siz - 1) (dst @ src) = dst @ src \<longleftrightarrow> length (dst @ src) \<le> siz - 1"
    by (metis length_take min.absorb_iff2 min.cobounded2 take_all)
  ultimately show ?thesis
    using strlcat_take[OF assms, of src] assms by (auto simp del: take_append)
qed

theorem strlcat_correct_witness:
  "fst (strlcat ''ab'' ''cde'' 5) = ''abcd'' \<and> \<not> snd (strlcat ''ab'' ''cde'' 5) < 5"
  using strlcat_correct[of "''ab''" 5 "''cde''"] by simp

text \<open>\<open>format_noun\<close> puts the phrase it builds, cut to the buffer, into the buffer: a
  counted plural, the article that fits the first letter, or the capitalised name.\<close>

theorem format_noun_correct:
  assumes "1 < len" "name \<noteq> []"
  shows "format_noun len name count da cap = Inr (take (len - 1)
    (if count = 1 then
       if da then
         (if is_vowel (hd name) then (if cap then ''An '' else ''an '') else (if cap then ''A '' else ''a '')) @ name
       else toupper (hd name) # tl name
     else take 31 (decimal count) @ '' '' @ name @ ''s''))"
proof -
  have cat: "fst (strlcat (take (len - 1) whole) src len) = take (len - 1) (whole @ src)" for whole src
    using assms(1) by (intro strlcat_chain) auto
  have start: "fst (strlcat [] src len) = take (len - 1) src" for src
    using cat[of "[]"] by simp
  note steps = start cat append_assoc
  have pieces: "fst (strlcat (fst (strlcat [] a len)) b len) = take (len - 1) (a @ b)"
    "fst (strlcat (take (len - 1) (a @ b)) c len) = take (len - 1) (a @ b @ c)"
    "fst (strlcat (take (len - 1) (a @ b @ c)) d len) = take (len - 1) (a @ b @ c @ d)" for a b c d
    by (simp_all only: steps)
  show ?thesis
    unfolding format_noun_def Let_def pieces using assms by (cases name) (simp_all del: take_append)
qed

theorem format_noun_correct_witness:
  "format_noun 64 ''emerald'' 1 True True = Inr ''An emerald'' \<and> format_noun 8 ''lamp'' 12 True True = Inr ''12 lamp''"
proof -
  have "is_vowel CHR ''e''" by code_simp
  moreover have "decimal 12 = ''12''" by code_simp
  ultimately show ?thesis
    using format_noun_correct[of 64 "''emerald''" 1 True True] format_noun_correct[of 8 "''lamp''" 12 True True] by simp
qed

text \<open>Everything written by the \<open>write_\<close> functions is read back by the \<open>read_\<close>
  functions, whatever follows in the file; strings must not hold a NUL.\<close>

theorem file_round_trip:
  assumes "\<forall>c\<in>set str. code c \<noteq> 0" "length str < 2 ^ 64" "- (2 ^ 31) \<le> i" "i < 2 ^ 31"
  shows "read_string (write_string str @ rest) = Inr (str, rest) \<and>
    read_bool (write_bool b @ rest) = Inr (b, rest) \<and>
    read_uint32 (write_uint32 w @ rest) = Inr (w, rest) \<and>
    read_uint64 (write_uint64 x @ rest) = Inr (x, rest) \<and>
    read_size (write_size x @ rest) = Inr (x, rest) \<and>
    read_int (write_int i @ rest) = Inr (i, rest) \<and>
    read_roomid junk (write_roomid i @ rest) = (i, rest)"
  using assms by (simp add: storable_def fits_int_def)

theorem file_round_trip_witness:
  "read_string (write_string ''lamp'' @ ''x'') = Inr (''lamp'', ''x'') \<and> read_int (write_int (-1) @ ''x'') = Inr (-1, ''x'')"
  using file_round_trip[of "''lamp''" "-1" "''x''"] by (simp add: code_def)

text \<open>A file cut off inside a string stops the program with ``EOF'', never with a
  shorter string.\<close>

theorem read_string_truncated:
  assumes "length str < 2 ^ 64" "n < length (write_string str)"
  shows "read_string (take n (write_string str)) = Inl (Error ''read_string: EOF'')"
proof (cases "n < 8")
  case True
  then show ?thesis by (simp add: read_string_def read_exact_short write_string_def)
next
  case False
  then have "take n (write_string str) = le_bytes 8 (length str) @ take (n - 8) str"
    by (simp add: write_string_def)
  moreover have "n - 8 < length str" using assms(2) False by (simp add: write_string_def)
  ultimately show ?thesis
    using assms(1) by (simp add: read_string_def le_val_le_bytes read_exact_short)
qed

theorem read_string_truncated_witness:
  "read_string (take 10 (write_string ''lamp'')) = Inl (Error ''read_string: EOF'')"
  by (rule read_string_truncated) (simp_all add: write_string_def)

end
