(* ===== verification/Nc_Obj.thy ===== *)
theory Nc_Obj
  imports Nc_Multimap Nc_Util
begin

text \<open>
  Objects and object classes (\<open>src/obj.c\<close>, \<open>src/obj.h\<close>).

  Objects live on a heap: a pointer is a number, \<open>os_heap\<close> maps the live ones to their
  \<open>struct object_t\<close>, and \<open>obj_new\<close> allocates at \<open>os_next\<close>, so a freed pointer is never
  reused and every access to one is the crash \<open>Use_After_Free\<close>. The object classes are the
  array \<open>netcosm_obj_classes\<close> of the world module, a parameter of every operation that uses
  it; \<open>obj->class\<close> points into it and is an index. The hooks of a class are functions of the
  world module: serialising writes bytes, deserialising reads some back into
  \<open>userdata\<close>, \<open>hook_take\<close>, \<open>hook_drop\<close> and \<open>hook_desc\<close> may read and change the whole
  server state \<open>'w\<close>. \<open>hook_destroy\<close> frees what the module itself allocated, which the
  model does not hold. The static variables of the file are the fields of \<open>obj_state\<close>.
\<close>

section \<open>Data\<close>

type_synonym obj_ptr = nat
type_synonym user_ptr = nat

record 'u object_t =
  obj_id :: u64
  obj_name :: string
  obj_class :: nat
  obj_n_alias :: nat
  obj_alias_list :: "string list"
  obj_hidden :: bool
  obj_default_article :: bool
  obj_userdata :: "'u option"
  obj_refcount :: u32

record ('u, 'w) obj_class_t =
  oc_class_name :: string
  oc_hook_serialize :: "('u object_t \<Rightarrow> string) option"
  oc_hook_deserialize :: "(string \<Rightarrow> 'u object_t \<Rightarrow> ('u option \<times> string) res) option"
  oc_hook_take :: "(obj_ptr \<Rightarrow> user_ptr \<Rightarrow> 'w \<Rightarrow> (bool \<times> 'w) res) option"
  oc_hook_drop :: "(obj_ptr \<Rightarrow> user_ptr \<Rightarrow> 'w \<Rightarrow> (bool \<times> 'w) res) option"
  oc_hook_desc :: "(obj_ptr \<Rightarrow> user_ptr \<Rightarrow> 'w \<Rightarrow> (string \<times> 'w) res) option"
  oc_hook_dupdata :: "('u object_t \<Rightarrow> 'u option) option"

record 'u obj_state =
  os_heap :: "obj_ptr \<rightharpoonup> 'u object_t"
  os_next :: obj_ptr
  os_idcounter :: u64
  os_class_map :: "(string, nat, unit) hash_map option"

definition obj_state_init :: "'u obj_state" where
  "obj_state_init = \<lparr>os_heap = Map.empty, os_next = 0, os_idcounter = 1, os_class_map = None\<rparr>"

definition obj_get_idcounter :: "'u obj_state \<Rightarrow> u64" where
  "obj_get_idcounter st = os_idcounter st"

definition obj_set_idcounter :: "u64 \<Rightarrow> 'u obj_state \<Rightarrow> 'u obj_state" where
  "obj_set_idcounter c st = st\<lparr>os_idcounter := c\<rparr>"

text \<open>Reading and writing through an object pointer.\<close>

definition obj_deref :: "obj_ptr \<Rightarrow> 'u obj_state \<Rightarrow> 'u object_t res" where
  "obj_deref p st = (case os_heap st p of None \<Rightarrow> Inl Use_After_Free | Some obj \<Rightarrow> Inr obj)"

definition obj_store :: "obj_ptr \<Rightarrow> 'u object_t \<Rightarrow> 'u obj_state \<Rightarrow> 'u obj_state" where
  "obj_store p obj st = st\<lparr>os_heap := (os_heap st)(p \<mapsto> obj)\<rparr>"

section \<open>Operations\<close>

text \<open>The first call fills the map of class names.\<close>

definition obj_class_table ::
  "('u, 'w) obj_class_t list \<Rightarrow> 'u obj_state \<Rightarrow> (string, nat, unit) hash_map res" where
  "obj_class_table classes st =
     (case os_class_map st of
        Some tab \<Rightarrow> Inr tab
      | None \<Rightarrow>
          insert_distinct hash_insert (\<lambda>name. Error (''duplicate object class name '' @ name))
            (hash_init (length classes div 2 + 1) hash_djb compare_strings)
            (zip (map oc_class_name classes) [0..<length classes]))"

definition obj_new ::
  "('u, 'w) obj_class_t list \<Rightarrow> string \<Rightarrow> 'u obj_state \<Rightarrow> (obj_ptr \<times> 'u obj_state) res" where
  "obj_new classes class_name st =
     res_bind (obj_class_table classes st) (\<lambda>tab.
       case hash_lookup tab class_name of
         None \<Rightarrow> Inl (Error (''unknown object class '' @ class_name))
       | Some cls \<Rightarrow>
           let obj = \<lparr>obj_id = os_idcounter st, obj_name = [], obj_class = cls, obj_n_alias = 0,
                      obj_alias_list = [], obj_hidden = False, obj_default_article = True,
                      obj_userdata = None, obj_refcount = 1\<rparr>;
               p = os_next st in
           Inr (p, st\<lparr>os_heap := (os_heap st)(p \<mapsto> obj), os_next := Suc p,
                      os_idcounter := os_idcounter st + 1, os_class_map := Some tab\<rparr>))"

fun write_aliases :: "string list \<Rightarrow> string" where
  "write_aliases [] = write_string []"
| "write_aliases (alias # rest) = write_string alias @ write_aliases rest"

definition obj_write :: "('u, 'w) obj_class_t list \<Rightarrow> 'u object_t \<Rightarrow> string" where
  "obj_write classes obj =
     write_string (oc_class_name (classes ! obj_class obj)) @
     write_uint64 (obj_id obj) @
     write_string (obj_name obj) @
     write_bool (obj_hidden obj) @
     write_bool (obj_default_article obj) @
     write_aliases (obj_alias_list obj) @
     (case oc_hook_serialize (classes ! obj_class obj) of None \<Rightarrow> [] | Some f \<Rightarrow> f obj)"

text \<open>The loop reading aliases up to the empty string; every round consumes eight bytes or more.\<close>

lemma read_string_shorter:
  assumes "read_string fd = Inr (s, fd')"
  shows "length fd' < length fd"
proof -
  obtain sz fd1 buf where "read_exact ''read_string: EOF'' 8 fd = Inr (sz, fd1)"
    "read_exact ''read_string: EOF'' (le_val sz) fd1 = Inr (buf, fd')"
    using assms by (auto simp: read_string_def res_bind_eq_Inr)
  then show ?thesis
    by (auto simp: read_exact_def file_read_def Let_def split: if_splits)
qed

function read_aliases :: "string \<Rightarrow> (string list \<times> string) res" where
  "read_aliases fd =
     res_bind (read_string fd) (\<lambda>(alias, fd').
       if alias = [] then Inr ([], fd')
       else res_bind (read_aliases fd') (\<lambda>(rest, fd''). Inr (alias # rest, fd'')))"
  by pat_completeness auto
termination
  by (relation "measure length") (auto dest: read_string_shorter)

declare read_aliases.simps [simp del]

definition obj_read ::
  "('u, 'w) obj_class_t list \<Rightarrow> string \<Rightarrow> 'u obj_state \<Rightarrow> (obj_ptr \<times> string \<times> 'u obj_state) res" where
  "obj_read classes fd st =
     res_bind (read_string fd) (\<lambda>(class_name, fd).
     res_bind (obj_new classes class_name st) (\<lambda>(p, st).
     res_bind (obj_deref p st) (\<lambda>obj.
     res_bind (read_uint64 fd) (\<lambda>(id', fd).
     res_bind (read_string fd) (\<lambda>(name, fd).
     res_bind (read_bool fd) (\<lambda>(hidden, fd).
     res_bind (read_bool fd) (\<lambda>(default_article, fd).
     res_bind (read_aliases fd) (\<lambda>(aliases, fd).
       let obj = obj\<lparr>obj_id := id', obj_name := name, obj_hidden := hidden,
                     obj_default_article := default_article, obj_alias_list := aliases\<rparr> in
       case oc_hook_deserialize (classes ! obj_class obj) of
         None \<Rightarrow> Inr (p, fd, obj_store p obj st)
       | Some f \<Rightarrow>
           res_bind (f fd obj) (\<lambda>(userdata, fd).
             Inr (p, fd, obj_store p (obj\<lparr>obj_userdata := userdata\<rparr>) st))))))))))"

definition obj_copy ::
  "('u, 'w) obj_class_t list \<Rightarrow> obj_ptr \<Rightarrow> 'u obj_state \<Rightarrow> (obj_ptr \<times> 'u obj_state) res" where
  "obj_copy classes p st =
     res_bind (obj_deref p st) (\<lambda>obj.
     res_bind (obj_new classes (oc_class_name (classes ! obj_class obj)) st) (\<lambda>(q, st).
     res_bind (obj_deref q st) (\<lambda>ret.
       let ret = ret\<lparr>obj_name := obj_name obj, obj_hidden := obj_hidden obj\<rparr>;
           ret = (case oc_hook_dupdata (classes ! obj_class obj) of
                    None \<Rightarrow> ret | Some f \<Rightarrow> ret\<lparr>obj_userdata := f obj\<rparr>) in
       Inr (q, obj_store q ret st))))"

definition obj_dup :: "obj_ptr \<Rightarrow> 'u obj_state \<Rightarrow> (obj_ptr \<times> 'u obj_state) res" where
  "obj_dup p st =
     res_bind (obj_deref p st) (\<lambda>obj.
       Inr (p, obj_store p (obj\<lparr>obj_refcount := obj_refcount obj + 1\<rparr>) st))"

definition obj_free :: "obj_ptr \<Rightarrow> 'u obj_state \<Rightarrow> 'u obj_state res" where
  "obj_free p st =
     res_bind (obj_deref p st) (\<lambda>obj.
       let obj = obj\<lparr>obj_refcount := obj_refcount obj - 1\<rparr> in
       if obj_refcount obj = 0 then Inr (st\<lparr>os_heap := (os_heap st)(p := None)\<rparr>)
       else Inr (obj_store p obj st))"

definition obj_shutdown :: "'u obj_state \<Rightarrow> 'u obj_state" where
  "obj_shutdown st = st\<lparr>os_class_map := None\<rparr>"

definition obj_compare :: "'u object_t \<Rightarrow> 'u object_t \<Rightarrow> int" where
  "obj_compare a b = (if obj_id a = obj_id b then 0 else 1)"

subsection \<open>Maps of objects\<close>

text \<open>
  The rooms and the users keep their objects in a multimap from names to object pointers,
  compared with \<open>obj_compare\<close> and freed with \<open>obj_free\<close>. The value searched for in
  \<open>multimap_delete\<close> is a temporary object on the stack of which only the id is set.
\<close>

type_synonym 'u obj_map = "(string, obj_ptr, u64, 'u obj_state) multimap"

definition obj_compare_cb :: "u64 \<Rightarrow> obj_ptr \<Rightarrow> 'u obj_state \<Rightarrow> int res" where
  "obj_compare_cb tmp_id p st = res_bind (obj_deref p st) (\<lambda>obj. Inr (if tmp_id = obj_id obj then 0 else 1))"

definition obj_map_init :: "nat \<Rightarrow> 'u obj_map" where
  "obj_map_init n =
     multimap_setfreedata_cb (multimap_init n hash_djb compare_strings_nocase obj_compare_cb) (Some obj_free)"

text \<open>The pairs of a map in iteration order, list by list.\<close>

definition obj_map_pairs :: "'u obj_map \<Rightarrow> (string \<times> obj_ptr) list" where
  "obj_map_pairs m = concat (map fst (multimap_lists m))"

definition obj_count_noalias :: "'u obj_map \<Rightarrow> 'u obj_state \<Rightarrow> nat res" where
  "obj_count_noalias m st =
     res_fold (\<lambda>(key, p) ret.
         res_bind (obj_deref p st) (\<lambda>obj. Inr (if strcmp key (obj_name obj) = 0 then Suc ret else ret)))
       (obj_map_pairs m) 0"

section \<open>Lemmas\<close>

lemma obj_deref_store [simp]:
  "obj_deref p (obj_store q obj st) = (if p = q then Inr obj else obj_deref p st)"
  by (simp add: obj_deref_def obj_store_def)

lemma obj_store_simps [simp]:
  "os_heap (obj_store p obj st) = (os_heap st)(p \<mapsto> obj)" "os_next (obj_store p obj st) = os_next st"
  "os_idcounter (obj_store p obj st) = os_idcounter st" "os_class_map (obj_store p obj st) = os_class_map st"
  by (simp_all add: obj_store_def)

lemma obj_deref_Inr [simp]: "obj_deref p st = Inr obj \<longleftrightarrow> os_heap st p = Some obj"
  by (simp add: obj_deref_def split: option.splits)

text \<open>The class map, once there, maps every class name to its position.\<close>

definition classes_ok :: "('u, 'w) obj_class_t list \<Rightarrow> 'u obj_state \<Rightarrow> bool" where
  "classes_ok classes st \<longleftrightarrow> distinct (map oc_class_name classes) \<and>
     (\<forall>tab. os_class_map st = Some tab \<longrightarrow>
        hash_lookup tab = map_of (zip (map oc_class_name classes) [0..<length classes]))"

lemma obj_class_table_ok:
  assumes "classes_ok classes st"
  obtains tab where "obj_class_table classes st = Inr tab"
    "hash_lookup tab = map_of (zip (map oc_class_name classes) [0..<length classes])"
proof (cases "os_class_map st")
  case None
  then show thesis
    using that registry_filled[of "map oc_class_name classes"] assms
    by (fastforce simp: obj_class_table_def classes_ok_def)
qed (use assms that in \<open>auto simp: obj_class_table_def classes_ok_def\<close>)

lemma obj_new_eq:
  assumes "classes_ok classes st" "cls < length classes"
  obtains tab where "obj_new classes (oc_class_name (classes ! cls)) st =
      Inr (os_next st, st\<lparr>os_heap := (os_heap st)(os_next st \<mapsto>
          \<lparr>obj_id = os_idcounter st, obj_name = [], obj_class = cls, obj_n_alias = 0,
           obj_alias_list = [], obj_hidden = False, obj_default_article = True,
           obj_userdata = None, obj_refcount = 1\<rparr>), os_next := Suc (os_next st),
         os_idcounter := os_idcounter st + 1, os_class_map := Some tab\<rparr>)"
    "\<And>st'. os_class_map st' = Some tab \<Longrightarrow> classes_ok classes st'"
proof -
  obtain tab where tab: "obj_class_table classes st = Inr tab"
    "hash_lookup tab = map_of (zip (map oc_class_name classes) [0..<length classes])"
    using obj_class_table_ok[OF assms(1)] by blast
  have "hash_lookup tab (oc_class_name (classes ! cls)) = Some cls"
    using registry_position[of "map oc_class_name classes" cls] assms by (simp add: tab(2) classes_ok_def)
  then show thesis
    using that[of tab] assms(1) tab by (simp add: obj_new_def Let_def classes_ok_def)
qed

text \<open>Objects that survive a trip through a file.\<close>

definition obj_storable :: "('u, 'w) obj_class_t list \<Rightarrow> 'u object_t \<Rightarrow> bool" where
  "obj_storable classes obj \<longleftrightarrow> obj_class obj < length classes \<and>
     storable (oc_class_name (classes ! obj_class obj)) \<and> storable (obj_name obj) \<and>
     (\<forall>a\<in>set (obj_alias_list obj). storable a \<and> a \<noteq> [])"

lemma read_write_aliases:
  "\<forall>a\<in>set as. storable a \<and> a \<noteq> [] \<Longrightarrow> read_aliases (write_aliases as @ rest) = Inr (as, rest)"
proof (induction as)
  case Nil
  have "storable []" by (simp add: storable_def)
  then show ?case by (subst read_aliases.simps) simp
next
  case (Cons a as)
  then show ?case by (subst read_aliases.simps) simp
qed

text \<open>
  What a class promises of its serialisation hooks: what \<open>hook_serialize\<close> writes,
  \<open>hook_deserialize\<close> reads back to the same user data, whatever follows in the file. A class
  without hooks has no user data to keep.
\<close>

definition class_round_trips :: "('u, 'w) obj_class_t \<Rightarrow> 'u object_t \<Rightarrow> bool" where
  "class_round_trips c obj \<longleftrightarrow>
     (case (oc_hook_serialize c, oc_hook_deserialize c) of
        (None, None) \<Rightarrow> obj_userdata obj = None
      | (Some ser, Some des) \<Rightarrow>
          (\<forall>obj' rest. obj_class obj' = obj_class obj \<longrightarrow> des (ser obj @ rest) obj' = Inr (obj_userdata obj, rest))
      | _ \<Rightarrow> False)"

lemma obj_read_write:
  assumes "classes_ok classes st" "obj_storable classes obj" "class_round_trips (classes ! obj_class obj) obj"
  shows "\<exists>p st'. obj_read classes (obj_write classes obj @ rest) st = Inr (p, rest, st') \<and>
    os_heap st' = (os_heap st)(p \<mapsto> obj\<lparr>obj_n_alias := 0, obj_refcount := 1\<rparr>) \<and>
    p = os_next st \<and> os_next st' = Suc (os_next st) \<and> os_idcounter st' = os_idcounter st + 1 \<and> classes_ok classes st'"
proof -
  let ?c = "classes ! obj_class obj"
  have s: "obj_class obj < length classes" "storable (oc_class_name ?c)" "storable (obj_name obj)"
    "\<forall>a\<in>set (obj_alias_list obj). storable a \<and> a \<noteq> []"
    using assms(2) by (simp_all add: obj_storable_def)
  obtain tab where new: "obj_new classes (oc_class_name ?c) st =
      Inr (os_next st, st\<lparr>os_heap := (os_heap st)(os_next st \<mapsto>
          \<lparr>obj_id = os_idcounter st, obj_name = [], obj_class = obj_class obj, obj_n_alias = 0,
           obj_alias_list = [], obj_hidden = False, obj_default_article = True,
           obj_userdata = None, obj_refcount = 1\<rparr>), os_next := Suc (os_next st),
         os_idcounter := os_idcounter st + 1, os_class_map := Some tab\<rparr>)"
    "\<And>st'. os_class_map st' = Some tab \<Longrightarrow> classes_ok classes st'"
    using obj_new_eq[OF assms(1) s(1)] by metis
  consider "oc_hook_serialize ?c = None" "oc_hook_deserialize ?c = None" "obj_userdata obj = None"
    | ser des where "oc_hook_serialize ?c = Some ser" "oc_hook_deserialize ?c = Some des"
      "\<And>obj' rest. obj_class obj' = obj_class obj \<Longrightarrow> des (ser obj @ rest) obj' = Inr (obj_userdata obj, rest)"
    using assms(3) unfolding class_round_trips_def by (auto split: option.splits)
  then show ?thesis
    by cases (auto simp: obj_read_def obj_write_def s new(1) read_write_aliases obj_deref_def Let_def intro!: new(2))
qed

section \<open>Properties\<close>

text \<open>\<open>obj_new\<close> of a class the world module defines returns a pointer that was not in
  use, to an object of that class with the next id, one reference and the documented
  defaults, and changes no other object; a class it does not define kills the server.\<close>

theorem obj_new_correct:
  assumes "classes_ok classes st" "os_heap st (os_next st) = None"
  shows "if class_name \<in> oc_class_name ` set classes then
      \<exists>p st' obj. obj_new classes class_name st = Inr (p, st') \<and> os_heap st p = None \<and>
        os_heap st' = (os_heap st)(p \<mapsto> obj) \<and> oc_class_name (classes ! obj_class obj) = class_name \<and>
        obj_id obj = os_idcounter st \<and> os_idcounter st' = os_idcounter st + 1 \<and> obj_refcount obj = 1 \<and>
        \<not> obj_hidden obj \<and> obj_default_article obj \<and> obj_alias_list obj = [] \<and> classes_ok classes st'
    else obj_new classes class_name st = Inl (Error (''unknown object class '' @ class_name))"
proof (cases "class_name \<in> oc_class_name ` set classes")
  case True
  then obtain cls where cls: "cls < length classes" "class_name = oc_class_name (classes ! cls)"
    by (auto simp: in_set_conv_nth)
  obtain tab where tab: "obj_new classes class_name st =
      Inr (os_next st, st\<lparr>os_heap := (os_heap st)(os_next st \<mapsto>
          \<lparr>obj_id = os_idcounter st, obj_name = [], obj_class = cls, obj_n_alias = 0,
           obj_alias_list = [], obj_hidden = False, obj_default_article = True,
           obj_userdata = None, obj_refcount = 1\<rparr>), os_next := Suc (os_next st),
         os_idcounter := os_idcounter st + 1, os_class_map := Some tab\<rparr>)"
    "\<And>st'. os_class_map st' = Some tab \<Longrightarrow> classes_ok classes st'"
    using obj_new_eq[OF assms(1) cls(1)] cls(2) by metis
  then show ?thesis using True assms(2) cls(2) by (auto intro!: exI)
next
  case False
  obtain tab where tab: "obj_class_table classes st = Inr tab"
    "hash_lookup tab = map_of (zip (map oc_class_name classes) [0..<length classes])"
    using obj_class_table_ok[OF assms(1)] by blast
  have "hash_lookup tab class_name = None"
    using False registry_None[of "map oc_class_name classes" class_name] by (simp add: tab(2))
  then show ?thesis using False tab(1) by (simp add: obj_new_def)
qed

definition plain_class :: "string \<Rightarrow> ('u, 'w) obj_class_t" where
  "plain_class name = \<lparr>oc_class_name = name, oc_hook_serialize = None, oc_hook_deserialize = None,
     oc_hook_take = None, oc_hook_drop = None, oc_hook_desc = None, oc_hook_dupdata = None\<rparr>"

definition sample_classes :: "(unit, unit) obj_class_t list" where
  "sample_classes = [plain_class ''lamp'', plain_class ''food'']"

lemma sample_classes_ok: "os_class_map st = None \<Longrightarrow> classes_ok sample_classes st"
  by (simp add: classes_ok_def plain_class_def sample_classes_def)

theorem obj_new_correct_witness:
  "obj_new sample_classes ''key'' (obj_state_init :: unit obj_state)
     = Inl (Error ''unknown object class key'') \<and>
   (\<exists>p st' obj. obj_new sample_classes ''food'' (obj_state_init :: unit obj_state) = Inr (p, st') \<and>
      os_heap st' p = Some obj \<and> obj_id obj = 1)"
proof -
  have ok: "classes_ok sample_classes obj_state_init" by (rule sample_classes_ok) (simp add: obj_state_init_def)
  have h: "os_heap obj_state_init (os_next obj_state_init) = None" "os_idcounter obj_state_init = 1"
    by (simp_all add: obj_state_init_def)
  have cn: "oc_class_name ` set sample_classes = {''lamp'', ''food''}"
    by (simp add: plain_class_def sample_classes_def)
  have "''key'' \<notin> oc_class_name ` set sample_classes"
    "''food'' \<in> oc_class_name ` set sample_classes" by (simp_all only: cn) simp_all
  note new = this[THEN eqTrueI] 
  obtain p st' obj where "obj_new sample_classes ''food'' (obj_state_init :: unit obj_state) = Inr (p, st')"
    "os_heap st' = (os_heap obj_state_init)(p \<mapsto> obj)" "obj_id obj = os_idcounter (obj_state_init :: unit obj_state)"
    using obj_new_correct[OF ok h(1), of "''food''"] unfolding new(2) if_True by metis
  moreover have "obj_new sample_classes ''key'' (obj_state_init :: unit obj_state)
     = Inl (Error (''unknown object class '' @ ''key''))"
    using obj_new_correct[OF ok h(1), of "''key''"] \<open>''key'' \<notin> _\<close> by presburger
  ultimately show ?thesis using h(2) by auto
qed

text \<open>C33: what \<open>obj_write\<close> writes, \<open>obj_read\<close> reads back: a new object with the same id,
  class, name, flags, aliases in order and user data, leaving the rest of the file; every other
  object stays as it is. The names and aliases must be C strings, the aliases not
  empty.\<close>

theorem obj_round_trip:
  assumes "classes_ok classes st" "obj_storable classes obj" "class_round_trips (classes ! obj_class obj) obj"
  shows "\<exists>p st'. obj_read classes (obj_write classes obj @ rest) st = Inr (p, rest, st') \<and>
    os_heap st' = (os_heap st)(p \<mapsto> obj\<lparr>obj_n_alias := 0, obj_refcount := 1\<rparr>) \<and>
    p = os_next st \<and> os_idcounter st' = os_idcounter st + 1 \<and> classes_ok classes st'"
  using obj_read_write[OF assms, of rest] by blast

theorem obj_round_trip_witness:
  "\<exists>p st'. obj_read sample_classes (obj_write sample_classes
       \<lparr>obj_id = 7, obj_name = ''brass lamp'', obj_class = 0, obj_n_alias = 1, obj_alias_list = [''lamp''],
        obj_hidden = True, obj_default_article = True, obj_userdata = None, obj_refcount = 2\<rparr> @ ''x'')
     (obj_state_init :: unit obj_state) = Inr (p, ''x'', st') \<and>
     (\<exists>obj. os_heap st' p = Some obj \<and> obj_name obj = ''brass lamp'' \<and> obj_id obj = 7)"
proof -
  let ?o = "\<lparr>obj_id = 7, obj_name = ''brass lamp'', obj_class = 0, obj_n_alias = 1, obj_alias_list = [''lamp''],
    obj_hidden = True, obj_default_article = True, obj_userdata = None :: unit option, obj_refcount = 2\<rparr>"
  have "obj_storable sample_classes ?o" "class_round_trips (sample_classes ! obj_class ?o) ?o"
    by (simp_all add: obj_storable_def storable_def plain_class_def class_round_trips_def code_def sample_classes_def)
  moreover have "classes_ok sample_classes (obj_state_init :: unit obj_state)"
    by (rule sample_classes_ok) (simp add: obj_state_init_def)
  ultimately obtain p st' where "obj_read sample_classes (obj_write sample_classes ?o @ ''x'')
      obj_state_init = Inr (p, ''x'', st')"
    "os_heap st' = (os_heap obj_state_init)(p \<mapsto> ?o\<lparr>obj_n_alias := 0, obj_refcount := 1\<rparr>)"
    using obj_round_trip[of sample_classes "obj_state_init :: unit obj_state" ?o "''x''"] by blast
  then show ?thesis by (intro exI[of _ p] exI[of _ st']) simp
qed

text \<open>\<open>obj_copy\<close> makes a new object with a fresh id and the class, name, visibility and
  duplicated user data of the original, but neither its aliases nor its article setting.\<close>

theorem obj_copy_correct:
  assumes "classes_ok classes st" "os_heap st p = Some obj" "obj_class obj < length classes"
    and "os_heap st (os_next st) = None"
  shows "\<exists>q st' new. obj_copy classes p st = Inr (q, st') \<and> q \<noteq> p \<and> os_heap st' = (os_heap st)(q \<mapsto> new) \<and>
    obj_id new = os_idcounter st \<and> obj_class new = obj_class obj \<and> obj_name new = obj_name obj \<and>
    obj_hidden new = obj_hidden obj \<and> obj_refcount new = 1 \<and>
    obj_userdata new = (case oc_hook_dupdata (classes ! obj_class obj) of None \<Rightarrow> None | Some f \<Rightarrow> f obj) \<and>
    obj_alias_list new = [] \<and> obj_default_article new"
proof -
  obtain tab where new: "obj_new classes (oc_class_name (classes ! obj_class obj)) st =
      Inr (os_next st, st\<lparr>os_heap := (os_heap st)(os_next st \<mapsto>
          \<lparr>obj_id = os_idcounter st, obj_name = [], obj_class = obj_class obj, obj_n_alias = 0,
           obj_alias_list = [], obj_hidden = False, obj_default_article = True,
           obj_userdata = None, obj_refcount = 1\<rparr>), os_next := Suc (os_next st),
         os_idcounter := os_idcounter st + 1, os_class_map := Some tab\<rparr>)"
    using obj_new_eq[OF assms(1,3)] by metis
  have "os_next st \<noteq> p" using assms(2,4) by auto
  then show ?thesis
    using assms(2) by (cases "oc_hook_dupdata (classes ! obj_class obj)")
      (auto simp: obj_copy_def obj_deref_def new Let_def intro!: exI)
qed

theorem obj_copy_correct_witness:
  "\<exists>q st' new. obj_copy sample_classes 0 (obj_state_init\<lparr>os_next := 1, os_idcounter := 9,
       os_heap := [0 \<mapsto> \<lparr>obj_id = 7, obj_name = ''lamp'', obj_class = 0, obj_n_alias = 0, obj_alias_list = [''light''],
        obj_hidden = False, obj_default_article = False, obj_userdata = None :: unit option, obj_refcount = 1\<rparr>]\<rparr>)
     = Inr (q, st') \<and> os_heap st' q = Some new \<and> obj_id new = 9 \<and> obj_name new = ''lamp'' \<and> obj_alias_list new = []"
proof -
  let ?o = "\<lparr>obj_id = 7, obj_name = ''lamp'', obj_class = 0, obj_n_alias = 0, obj_alias_list = [''light''],
    obj_hidden = False, obj_default_article = False, obj_userdata = None :: unit option, obj_refcount = 1\<rparr>"
  let ?st = "obj_state_init\<lparr>os_next := 1, os_idcounter := 9, os_heap := [0 \<mapsto> ?o]\<rparr>"
  have "classes_ok sample_classes ?st"
    by (rule sample_classes_ok) (simp add: obj_state_init_def)
  moreover have "os_heap ?st 0 = Some ?o" "obj_class ?o < length sample_classes"
    "os_heap ?st (os_next ?st) = None" "os_idcounter ?st = 9" by (simp_all add: sample_classes_def)
  ultimately show ?thesis
    using obj_copy_correct[of sample_classes ?st 0 ?o] by fastforce
qed

text \<open>\<open>obj_read\<close> takes the id from the file but only counts the object, so reading an
  object whose id the counter has not reached yet lets a later \<open>obj_new\<close> hand out the same
  id: with the counter at \<open>c\<close>, the object \<open>c + 1\<close> is read and the next new object is
  \<open>c + 1\<close> as well, which \<open>obj_compare\<close> takes for the same object.\<close>

theorem obj_read_id_collision:
  assumes "classes_ok classes st" "obj_storable classes obj" "class_round_trips (classes ! obj_class obj) obj"
    and "obj_id obj = os_idcounter st + 1" "class_name \<in> oc_class_name ` set classes"
    and "os_heap st (Suc (os_next st)) = None"
  shows "\<exists>p q st1 st2 a b. obj_read classes (obj_write classes obj) st = Inr (p, [], st1) \<and>
    obj_new classes class_name st1 = Inr (q, st2) \<and> p \<noteq> q \<and>
    os_heap st2 p = Some a \<and> os_heap st2 q = Some b \<and> obj_compare a b = 0"
proof -
  obtain st1 where st1: "obj_read classes (obj_write classes obj) st = Inr (os_next st, [], st1)"
    "os_heap st1 = (os_heap st)(os_next st \<mapsto> obj\<lparr>obj_n_alias := 0, obj_refcount := 1\<rparr>)"
    "os_next st1 = Suc (os_next st)" "os_idcounter st1 = os_idcounter st + 1" "classes_ok classes st1"
    using obj_read_write[OF assms(1-3), of "[]"] by auto
  obtain cls where cls: "cls < length classes" "class_name = oc_class_name (classes ! cls)"
    using assms(5) by (auto simp: in_set_conv_nth)
  obtain tab where new: "obj_new classes class_name st1 =
      Inr (os_next st1, st1\<lparr>os_heap := (os_heap st1)(os_next st1 \<mapsto>
          \<lparr>obj_id = os_idcounter st1, obj_name = [], obj_class = cls, obj_n_alias = 0,
           obj_alias_list = [], obj_hidden = False, obj_default_article = True,
           obj_userdata = None, obj_refcount = 1\<rparr>), os_next := Suc (os_next st1),
         os_idcounter := os_idcounter st1 + 1, os_class_map := Some tab\<rparr>)"
    using obj_new_eq[OF st1(5) cls(1)] unfolding cls(2) by metis
  show ?thesis
    using st1(1) new by (rule_tac exI[of _ "os_next st"], rule_tac exI[of _ "os_next st1"])
      (auto simp: st1(2,3,4) obj_compare_def assms(4))
qed

theorem obj_read_id_collision_witness:
  "\<exists>p q st1 st2 a b. obj_read sample_classes (obj_write sample_classes
       \<lparr>obj_id = 2, obj_name = ''lamp'', obj_class = 0, obj_n_alias = 0, obj_alias_list = [],
        obj_hidden = False, obj_default_article = True, obj_userdata = None, obj_refcount = 1\<rparr>)
       (obj_state_init :: unit obj_state) = Inr (p, [], st1) \<and>
    obj_new sample_classes ''lamp'' st1 = Inr (q, st2) \<and> p \<noteq> q \<and>
    os_heap st2 p = Some a \<and> os_heap st2 q = Some b \<and> obj_compare a b = 0"
proof -
  let ?o = "\<lparr>obj_id = 2, obj_name = ''lamp'', obj_class = 0, obj_n_alias = 0, obj_alias_list = [],
    obj_hidden = False, obj_default_article = True, obj_userdata = None :: unit option, obj_refcount = 1\<rparr>"
  have h: "obj_storable sample_classes ?o" "class_round_trips (sample_classes ! obj_class ?o) ?o"
    "classes_ok sample_classes (obj_state_init :: unit obj_state)"
    "''lamp'' \<in> oc_class_name ` set sample_classes"
    by (simp_all add: obj_storable_def storable_def plain_class_def class_round_trips_def code_def
        classes_ok_def obj_state_init_def sample_classes_def)
  show ?thesis
    by (rule obj_read_id_collision[OF h(3,1,2) _ h(4)]) (simp_all add: obj_state_init_def)
qed

end
