(* ===== verification/Nc_Verb.thy ===== *)
theory Nc_Verb
  imports Nc_Obj
begin

text \<open>
  Verbs and verb classes (\<open>src/verb.c\<close>, \<open>src/verb.h\<close>). A verb is owned by the one map it
  is stored in, so it is a value; its class is a position in the world module's array
  \<open>netcosm_verb_classes\<close>. \<open>hook_exec\<close> may change the whole server state \<open>'w\<close>; its argument
  string is NULL when the command had none.
\<close>

record verb_t =
  vb_name :: string
  vb_class :: nat

record 'w verb_class_t =
  vc_class_name :: string
  vc_hook_exec :: "verb_t \<Rightarrow> string option \<Rightarrow> user_ptr \<Rightarrow> 'w \<Rightarrow> 'w res"

text \<open>The static class map of the file; \<open>None\<close> before the first use.\<close>

type_synonym verb_state = "(string, nat, unit) hash_map option"

type_synonym verb_map = "(string, verb_t, unit) hash_map"

definition verb_class_table :: "'w verb_class_t list \<Rightarrow> verb_state \<Rightarrow> (string, nat, unit) hash_map res" where
  "verb_class_table classes st =
     (case st of
        Some tab \<Rightarrow> Inr tab
      | None \<Rightarrow>
          insert_distinct hash_insert (\<lambda>name. Error (''duplicate verb class '' @ name))
            (hash_init (length classes) hash_djb compare_strings)
            (zip (map vc_class_name classes) [0..<length classes]))"

definition verb_new :: "'w verb_class_t list \<Rightarrow> string \<Rightarrow> verb_state \<Rightarrow> (verb_t \<times> verb_state) res" where
  "verb_new classes class_name st =
     res_bind (verb_class_table classes st) (\<lambda>tab.
       case hash_lookup tab class_name of
         None \<Rightarrow> Inl (Error (''world module attempted to instantiate a verb of unknown class '' @ class_name))
       | Some cls \<Rightarrow> Inr (\<lparr>vb_name = [], vb_class = cls\<rparr>, Some tab))"

definition verb_write :: "'w verb_class_t list \<Rightarrow> verb_t \<Rightarrow> string" where
  "verb_write classes verb =
     write_string (vc_class_name (classes ! vb_class verb)) @ write_string (vb_name verb)"

definition verb_read :: "'w verb_class_t list \<Rightarrow> string \<Rightarrow> verb_state \<Rightarrow> (verb_t \<times> string \<times> verb_state) res" where
  "verb_read classes fd st =
     res_bind (read_string fd) (\<lambda>(class_name, fd).
     res_bind (verb_new classes class_name st) (\<lambda>(ret, st).
     res_bind (read_string fd) (\<lambda>(name, fd).
     Inr (ret\<lparr>vb_name := name\<rparr>, fd, st))))"

text \<open>The free callback of verb maps: a verb's memory is the verb itself.\<close>

definition verb_free :: "verb_t \<Rightarrow> unit \<Rightarrow> unit res" where
  "verb_free verb s = Inr s"

definition verb_shutdown :: "verb_state \<Rightarrow> verb_state" where
  "verb_shutdown st = None"

section \<open>Lemmas\<close>

definition verb_classes_ok :: "'w verb_class_t list \<Rightarrow> verb_state \<Rightarrow> bool" where
  "verb_classes_ok classes st \<longleftrightarrow> distinct (map vc_class_name classes) \<and>
     (\<forall>tab. st = Some tab \<longrightarrow> hash_lookup tab = map_of (zip (map vc_class_name classes) [0..<length classes]))"

lemma verb_class_table_ok:
  assumes "verb_classes_ok classes st"
  obtains tab where "verb_class_table classes st = Inr tab"
    "hash_lookup tab = map_of (zip (map vc_class_name classes) [0..<length classes])"
proof (cases st)
  case None
  then show thesis
    using that registry_filled[of "map vc_class_name classes"] assms
    by (fastforce simp: verb_class_table_def verb_classes_ok_def)
qed (use assms that in \<open>auto simp: verb_class_table_def verb_classes_ok_def\<close>)

definition verb_storable :: "'w verb_class_t list \<Rightarrow> verb_t \<Rightarrow> bool" where
  "verb_storable classes v \<longleftrightarrow> vb_class v < length classes \<and>
     storable (vc_class_name (classes ! vb_class v)) \<and> storable (vb_name v)"

lemma verb_read_write:
  assumes "verb_classes_ok classes st" "verb_storable classes v"
  shows "\<exists>st'. verb_read classes (verb_write classes v @ rest) st = Inr (v, rest, st') \<and> verb_classes_ok classes st'"
proof -
  obtain tab where tab: "verb_class_table classes st = Inr tab"
    "hash_lookup tab = map_of (zip (map vc_class_name classes) [0..<length classes])"
    using verb_class_table_ok[OF assms(1)] by blast
  have "hash_lookup tab (vc_class_name (classes ! vb_class v)) = Some (vb_class v)"
    using registry_position[of "map vc_class_name classes" "vb_class v"] assms
    by (simp add: tab(2) verb_classes_ok_def verb_storable_def)
  then show ?thesis
    using assms tab by (simp add: verb_read_def verb_write_def verb_new_def verb_storable_def verb_classes_ok_def)
qed

section \<open>Properties\<close>

text \<open>\<open>verb_read\<close> reads back what \<open>verb_write\<close> wrote, class and name, and leaves the
  rest of the file.\<close>

theorem verb_round_trip:
  assumes "verb_classes_ok classes st" "verb_storable classes v"
  shows "\<exists>st'. verb_read classes (verb_write classes v @ rest) st = Inr (v, rest, st')"
  using verb_read_write[OF assms] by blast

theorem verb_round_trip_witness:
  "\<exists>st'. verb_read [\<lparr>vc_class_name = ''dig'', vc_hook_exec = (\<lambda>v a u (w :: unit). Inr w)\<rparr>]
     (verb_write [\<lparr>vc_class_name = ''dig'', vc_hook_exec = (\<lambda>v a u (w :: unit). Inr w)\<rparr>]
        \<lparr>vb_name = ''dig'', vb_class = 0\<rparr> @ ''x'') None = Inr (\<lparr>vb_name = ''dig'', vb_class = 0\<rparr>, ''x'', st')"
  by (rule verb_round_trip) (simp_all add: verb_classes_ok_def verb_storable_def storable_def code_def)

end
