(* ===== verification/Nc_State.thy ===== *)
theory Nc_State
  imports Nc_Verb
begin

text \<open>
  The data the master process keeps: the children (\<open>src/server.h\<close>), the rooms
  (\<open>src/room.h\<close>), the users (\<open>src/userdb.h\<close>), the world module's tables, and the static
  variables of \<open>world.c\<close>, \<open>userdb.c\<close>, \<open>server.c\<close> and \<open>obj.c\<close> in one record, which the
  operations of the other theories read and return updated.

  Children and the users' object maps are reached through pointers, which are numbers;
  the maps from pointers to contents hold the live ones. A room pointer is its position in
  the array \<open>world\<close>. The world module is a parameter (\<open>world_module\<close>): its hooks are functions
  on the whole state, in which \<open>sv_module\<close> is whatever the module keeps for itself.
\<close>

section \<open>Children\<close>

definition STATE_INIT :: int where "STATE_INIT = 0"
definition STATE_AUTH :: int where "STATE_AUTH = 1"
definition STATE_CHECKING :: int where "STATE_CHECKING = 2"
definition STATE_LOGGEDIN :: int where "STATE_LOGGEDIN = 3"
definition STATE_ADMIN :: int where "STATE_ADMIN = 4"
definition STATE_FAILED :: int where "STATE_FAILED = 5"

text \<open>
  \<open>cd_outpipe\<close> holds the packets written to the child and not yet read; \<open>cd_raw_mode_cb\<close>
  is the address of a callback of the world module.
\<close>

record child_data =
  cd_pid :: int
  cd_outpipe :: "string list"
  cd_state :: int
  cd_room :: room_id
  cd_user :: "string option"
  cd_raw_mode_cb :: "nat option"
  cd_addr :: string

section \<open>Rooms\<close>

definition ROOM_NONE :: room_id where "ROOM_NONE = -1"

datatype direction_t = DIR_N | DIR_NE | DIR_E | DIR_SE | DIR_S | DIR_SW | DIR_W | DIR_NW
  | DIR_UP | DIR_DN | DIR_IN | DIR_OT

text \<open>The enumeration in order; a direction is stored and sent as its position.\<close>

definition directions :: "direction_t list" where
  "directions = [DIR_N, DIR_NE, DIR_E, DIR_SE, DIR_S, DIR_SW, DIR_W, DIR_NW, DIR_UP, DIR_DN, DIR_IN, DIR_OT]"

fun dir_num :: "direction_t \<Rightarrow> nat" where
  "dir_num DIR_N = 0"
| "dir_num DIR_NE = 1"
| "dir_num DIR_E = 2"
| "dir_num DIR_SE = 3"
| "dir_num DIR_S = 4"
| "dir_num DIR_SW = 5"
| "dir_num DIR_W = 6"
| "dir_num DIR_NW = 7"
| "dir_num DIR_UP = 8"
| "dir_num DIR_DN = 9"
| "dir_num DIR_IN = 10"
| "dir_num DIR_OT = 11"

definition NUM_DIRECTIONS :: nat where "NUM_DIRECTIONS = 12"

instantiation direction_t :: linorder
begin

definition less_eq_direction_t :: "direction_t \<Rightarrow> direction_t \<Rightarrow> bool" where
  "less_eq_direction_t a b \<longleftrightarrow> dir_num a \<le> dir_num b"

definition less_direction_t :: "direction_t \<Rightarrow> direction_t \<Rightarrow> bool" where
  "less_direction_t a b \<longleftrightarrow> dir_num a < dir_num b"

instance
proof
  fix a b :: direction_t
  show "a \<le> b \<Longrightarrow> b \<le> a \<Longrightarrow> a = b"
    by (cases a; cases b; simp add: less_eq_direction_t_def)
qed (auto simp: less_eq_direction_t_def less_direction_t_def)

end

text \<open>
  The mutable part of \<open>struct room_t\<close>. Of \<open>room->data\<close> only the name and the description
  can change; the rest is the row of the world module's array \<open>netcosm_world\<close> at the same
  position.
\<close>

record 'u room_t =
  rm_id :: room_id
  rm_name :: string
  rm_desc :: string
  rm_adjacent :: "room_id list"
  rm_objects :: "'u obj_map"
  rm_verbs :: verb_map
  rm_users :: "(string, user_ptr, unit) hash_map"

section \<open>Users\<close>

definition MAX_NAME_LEN :: nat where "MAX_NAME_LEN = 32"
definition SALT_LEN :: nat where "SALT_LEN = 16"
definition AUTH_HASHLEN :: nat where "AUTH_HASHLEN = 64"

definition PRIV_NONE :: int where "PRIV_NONE = -1"
definition PRIV_USER :: int where "PRIV_USER = 0"
definition PRIV_ADMIN :: int where "PRIV_ADMIN = 1337"

text \<open>\<open>ud_objects\<close> points to a multimap; \<open>ud_userdata\<close> is a pointer of the world module.\<close>

type_synonym map_ptr = nat

record userdata_t =
  ud_username :: string
  ud_salt :: string
  ud_passhash :: string
  ud_priv :: int
  ud_last_login :: int
  ud_objects :: "map_ptr option"
  ud_userdata :: nat

text \<open>What the free callback of the user map acts on: the objects and the users' maps.\<close>

record 'u db_heap =
  dh_obj :: "'u obj_state"
  dh_maps :: "map_ptr \<rightharpoonup> 'u obj_map"
  dh_next :: map_ptr

section \<open>The state of the master process\<close>

record ('u, 'm) server_state =
  sv_heap :: "'u db_heap"
  sv_verb_classes :: verb_state
  sv_world :: "'u room_t list"
  sv_world_name :: string
  sv_world_map :: "(string, nat, unit) hash_map"
  sv_global_verbs :: "verb_map option"
  sv_db_map :: "(string, userdata_t, 'u db_heap) hash_map"
  sv_children :: "user_ptr \<rightharpoonup> child_data"
  sv_next_child :: user_ptr
  sv_child_map :: "(int, user_ptr, user_ptr \<rightharpoonup> child_data) hash_map"
  sv_num_clients :: int
  sv_save_n :: int
  sv_worldfile :: "string option"
  sv_userfile :: "string option"
  sv_module :: 'm

abbreviation sv_obj :: "('u, 'm) server_state \<Rightarrow> 'u obj_state" where
  "sv_obj st \<equiv> dh_obj (sv_heap st)"

definition sv_set_obj :: "'u obj_state \<Rightarrow> ('u, 'm) server_state \<Rightarrow> ('u, 'm) server_state" where
  "sv_set_obj os st = st\<lparr>sv_heap := (sv_heap st)\<lparr>dh_obj := os\<rparr>\<rparr>"

section \<open>World modules\<close>

record ('u, 'm) roomdata_t =
  rd_uniq_id :: string
  rd_name :: string
  rd_desc :: string
  rd_adjacent :: "string option list"
  rd_hook_init :: "(room_id \<Rightarrow> ('u, 'm) server_state \<Rightarrow> ('u, 'm) server_state res) option"
  rd_hook_enter :: "(room_id \<Rightarrow> user_ptr \<Rightarrow> ('u, 'm) server_state \<Rightarrow> (bool \<times> ('u, 'm) server_state) res) option"
  rd_hook_leave :: "(room_id \<Rightarrow> user_ptr \<Rightarrow> ('u, 'm) server_state \<Rightarrow> (bool \<times> ('u, 'm) server_state) res) option"
  rd_hook_serialize :: "(room_id \<Rightarrow> ('u, 'm) server_state \<Rightarrow> string) option"
  rd_hook_deserialize :: "(room_id \<Rightarrow> string \<Rightarrow> ('u, 'm) server_state \<Rightarrow> (string \<times> ('u, 'm) server_state) res) option"
  rd_hook_destroy :: "(room_id \<Rightarrow> ('u, 'm) server_state \<Rightarrow> ('u, 'm) server_state res) option"

record ('u, 'm) world_module =
  wm_verb_classes :: "('u, 'm) server_state verb_class_t list"
  wm_obj_classes :: "('u, ('u, 'm) server_state) obj_class_t list"
  wm_world :: "('u, 'm) roomdata_t list"
  wm_world_name :: string
  wm_write_userdata_cb :: "(nat \<Rightarrow> ('u, 'm) server_state \<Rightarrow> string) option"
  wm_read_userdata_cb :: "(string \<Rightarrow> ('u, 'm) server_state \<Rightarrow> (nat \<times> string \<times> ('u, 'm) server_state) res) option"
  wm_raw_mode_cb :: "nat \<Rightarrow> user_ptr \<Rightarrow> string \<Rightarrow> ('u, 'm) server_state \<Rightarrow> ('u, 'm) server_state res"
  wm_simulation_cb :: "(('u, 'm) server_state \<Rightarrow> ('u, 'm) server_state res) option"
  wm_simulation_interval :: u32

section \<open>Access through pointers\<close>

definition child_get :: "user_ptr \<Rightarrow> ('u, 'm) server_state \<Rightarrow> child_data res" where
  "child_get c st = (case sv_children st c of None \<Rightarrow> Inl Use_After_Free | Some child \<Rightarrow> Inr child)"

definition child_set :: "user_ptr \<Rightarrow> child_data \<Rightarrow> ('u, 'm) server_state \<Rightarrow> ('u, 'm) server_state" where
  "child_set c child st = st\<lparr>sv_children := (sv_children st)(c \<mapsto> child)\<rparr>"

text \<open>\<open>room_get\<close> is pointer arithmetic: outside the array, the room is not one.\<close>

definition room_get :: "room_id \<Rightarrow> ('u, 'm) server_state \<Rightarrow> 'u room_t res" where
  "room_get rid st =
     (if 0 \<le> rid \<and> nat rid < length (sv_world st) then Inr (sv_world st ! nat rid) else Inl Out_Of_Bounds)"

definition room_set :: "room_id \<Rightarrow> 'u room_t \<Rightarrow> ('u, 'm) server_state \<Rightarrow> ('u, 'm) server_state" where
  "room_set rid room st = st\<lparr>sv_world := (sv_world st)[nat rid := room]\<rparr>"

section \<open>The static variables before anything has run\<close>

text \<open>A NULL hash table answers every lookup with NULL, as the empty one does.\<close>

definition room_zero :: "'u room_t" where
  "room_zero = \<lparr>rm_id = 0, rm_name = [], rm_desc = [], rm_adjacent = replicate NUM_DIRECTIONS 0,
     rm_objects = obj_map_init 1, rm_verbs = hash_init 1 hash_djb compare_strings,
     rm_users = hash_init 1 hash_djb compare_strings\<rparr>"

definition initial_state :: "'m \<Rightarrow> ('u, 'm) server_state" where
  "initial_state m =
     \<lparr>sv_heap = \<lparr>dh_obj = obj_state_init, dh_maps = Map.empty, dh_next = 0\<rparr>, sv_verb_classes = None,
      sv_world = [], sv_world_name = [], sv_world_map = hash_init 1 hash_djb compare_strings,
      sv_global_verbs = None, sv_db_map = hash_init 1 hash_djb compare_strings,
      sv_children = Map.empty, sv_next_child = 0, sv_child_map = hash_init 1 simp_hash simp_equal,
      sv_num_clients = 0, sv_save_n = 0, sv_worldfile = None, sv_userfile = None, sv_module = m\<rparr>"

lemma child_get_Inr [simp]: "child_get c st = Inr child \<longleftrightarrow> sv_children st c = Some child"
  by (simp add: child_get_def split: option.splits)

lemma child_get_set [simp]:
  "child_get c (child_set d child st) = (if c = d then Inr child else child_get c st)"
  by (simp add: child_get_def child_set_def)

lemma room_get_Inr: "room_get rid st = Inr room \<longleftrightarrow> 0 \<le> rid \<and> nat rid < length (sv_world st) \<and> room = sv_world st ! nat rid"
  by (auto simp: room_get_def)

lemma room_get_set:
  "room_get rid st = Inr room \<Longrightarrow> room_get rid' (room_set rid room' st) = (if rid' = rid then Inr room' else room_get rid' st)"
  by (auto simp: room_get_def room_set_def nth_list_update split: if_splits)

lemma sv_set_obj_simps [simp]:
  "sv_obj (sv_set_obj os st) = os" "dh_maps (sv_heap (sv_set_obj os st)) = dh_maps (sv_heap st)"
  "sv_world (sv_set_obj os st) = sv_world st" "sv_children (sv_set_obj os st) = sv_children st"
  "sv_db_map (sv_set_obj os st) = sv_db_map st" "room_get rid (sv_set_obj os st) = room_get rid st"
  "child_get c (sv_set_obj os st) = child_get c st"
  by (simp_all add: sv_set_obj_def room_get_def child_get_def)

lemma room_set_simps [simp]:
  "sv_heap (room_set rid room st) = sv_heap st" "sv_children (room_set rid room st) = sv_children st"
  "sv_db_map (room_set rid room st) = sv_db_map st" "child_get c (room_set rid room st) = child_get c st"
  "length (sv_world (room_set rid room st)) = length (sv_world st)"
  by (simp_all add: room_set_def child_get_def)

lemma child_set_simps [simp]:
  "sv_heap (child_set c child st) = sv_heap st" "sv_world (child_set c child st) = sv_world st"
  "sv_db_map (child_set c child st) = sv_db_map st" "room_get rid (child_set c child st) = room_get rid st"
  "sv_children (child_set c child st) = (sv_children st)(c \<mapsto> child)"
  by (simp_all add: child_set_def room_get_def)

end
