(* ===== verification/Nc_Objmap.thy ===== *)
theory Nc_Objmap
  imports Nc_State
begin

text \<open>
  What \<open>src/room.c\<close> and \<open>src/userdb.c\<close> do with a map of objects: an object is stored under its
  name and under each of its aliases, and every stored pair owns one reference. The
  operations act on a map and the object heap together. A cell of a list is freed exactly
  when its pair leaves the map, so a loop that goes on to a freed cell is
  \<open>Use_After_Free\<close>. The lemmas show which pairs and which references each operation adds or
  takes away, among them what \<open>multimap_delete\<close> does to such a map, and that the counts of
  \<open>obj_dup\<close> and \<open>obj_free\<close> stay right over any series of calls.
\<close>

section \<open>Operations\<close>

type_synonym 'u om = "'u obj_map \<times> 'u obj_state"

definition om_insert :: "string \<Rightarrow> obj_ptr \<Rightarrow> 'u om \<Rightarrow> (bool \<times> 'u om) res" where
  "om_insert key p mo = res_bind (multimap_insert (fst mo) key p) (\<lambda>(fresh, m). Inr (fresh, (m, snd mo)))"

definition om_insert_dup :: "string \<Rightarrow> obj_ptr \<Rightarrow> 'u om \<Rightarrow> (bool \<times> 'u om) res" where
  "om_insert_dup key p mo = res_bind (obj_dup p (snd mo)) (\<lambda>(p, os). om_insert key p (fst mo, os))"

text \<open>The loop over \<open>obj->alias_list\<close> that stores a new reference under each alias.\<close>

fun om_insert_aliases :: "obj_ptr \<Rightarrow> string list \<Rightarrow> bool \<Rightarrow> 'u om \<Rightarrow> (bool \<times> 'u om) res" where
  "om_insert_aliases p [] status mo = Inr (status, mo)"
| "om_insert_aliases p (alias # rest) status mo =
     res_bind (om_insert_dup alias p mo) (\<lambda>(fresh, mo).
       om_insert_aliases p rest (if fresh then status else False) mo)"

definition om_delete :: "string \<Rightarrow> u64 \<Rightarrow> 'u om \<Rightarrow> (nat \<times> 'u om) res" where
  "om_delete key tmp_id mo =
     res_bind (multimap_delete (fst mo) key tmp_id (snd mo)) (\<lambda>(n, m, os). Inr (n, (m, os)))"

text \<open>
  The loop over \<open>obj->alias_list\<close> that deletes the object under each alias; the next alias is
  read from the object after the deletion.
\<close>

fun om_delete_aliases :: "obj_ptr \<Rightarrow> u64 \<Rightarrow> string list \<Rightarrow> 'u om \<Rightarrow> 'u om res" where
  "om_delete_aliases p tmp_id [] mo = Inr mo"
| "om_delete_aliases p tmp_id (alias # rest) mo =
     res_bind (om_delete alias tmp_id mo) (\<lambda>(_, mo).
     res_bind (obj_deref p (snd mo)) (\<lambda>_.
       om_delete_aliases p tmp_id rest mo))"

definition om_del_by_ptr :: "obj_ptr \<Rightarrow> 'u om \<Rightarrow> (bool \<times> 'u om) res" where
  "om_del_by_ptr p mo =
     res_bind (obj_deref p (snd mo)) (\<lambda>obj.
     res_bind (om_delete_aliases p (obj_id obj) (obj_alias_list obj) mo) (\<lambda>mo.
     res_bind (obj_deref p (snd mo)) (\<lambda>obj.
     res_bind (om_delete (obj_name obj) (obj_id obj) mo) (\<lambda>(n, mo). Inr (n \<noteq> 0, mo)))))"

text \<open>The loop over the cells of one name, deleting each object found.\<close>

definition om_cell_live :: "string \<Rightarrow> string \<times> obj_ptr \<Rightarrow> 'u obj_map \<Rightarrow> bool" where
  "om_cell_live name cell m \<longleftrightarrow>
     (case multimap_lookup m name of None \<Rightarrow> False | Some (l, _) \<Rightarrow> cell \<in> set l)"

fun om_del_cells :: "string \<Rightarrow> (string \<times> obj_ptr) list \<Rightarrow> 'u om \<Rightarrow> 'u om res" where
  "om_del_cells name [] mo = Inr mo"
| "om_del_cells name (cell # rest) mo =
     (if om_cell_live name cell (fst mo) then
        res_bind (om_del_by_ptr (snd cell) mo) (\<lambda>(_, mo). om_del_cells name rest mo)
      else Inl Use_After_Free)"

section \<open>Reference counts\<close>

text \<open>
  \<open>om_refs m p\<close> is the number of pairs of the map that hold \<open>p\<close>. The counts of the heap are
  right when each live object has as many references as there are pairs in the map, plus
  \<open>R p\<close> held elsewhere (other maps, local variables), and whatever is referenced is live.
\<close>

definition pair_refs :: "(string \<times> obj_ptr) multiset \<Rightarrow> obj_ptr \<Rightarrow> nat" where
  "pair_refs M p = size (filter_mset (\<lambda>e. snd e = p) M)"

definition om_refs :: "'u obj_map \<Rightarrow> obj_ptr \<Rightarrow> nat" where
  "om_refs m = pair_refs (mset (mm_pairs m))"

definition refs_exact :: "(obj_ptr \<Rightarrow> nat) \<Rightarrow> 'u obj_state \<Rightarrow> bool" where
  "refs_exact R os \<longleftrightarrow>
     (\<forall>p. case os_heap os p of None \<Rightarrow> R p = 0 | Some obj \<Rightarrow> 0 < R p \<and> unat (obj_refcount obj) = R p)"

text \<open>Only reference counts and liveness may change.\<close>

definition same_objs :: "'u obj_state \<Rightarrow> 'u obj_state \<Rightarrow> bool" where
  "same_objs os os' \<longleftrightarrow> os_next os' = os_next os \<and> os_idcounter os' = os_idcounter os \<and>
     os_class_map os' = os_class_map os \<and>
     (\<forall>p obj'. os_heap os' p = Some obj' \<longrightarrow>
        (\<exists>obj. os_heap os p = Some obj \<and> obj'\<lparr>obj_refcount := 0\<rparr> = obj\<lparr>obj_refcount := 0\<rparr>))"

lemma same_objs_refl [simp]: "same_objs os os"
  by (simp add: same_objs_def)

lemma same_objs_trans: "same_objs a b \<Longrightarrow> same_objs b c \<Longrightarrow> same_objs a c"
  unfolding same_objs_def by metis

lemma same_objs_fields:
  assumes "same_objs os os'" "os_heap os' p = Some obj'"
  obtains obj where "os_heap os p = Some obj" "obj_id obj' = obj_id obj" "obj_name obj' = obj_name obj"
    "obj_alias_list obj' = obj_alias_list obj"
proof -
  obtain obj where obj: "os_heap os p = Some obj" "obj'\<lparr>obj_refcount := 0\<rparr> = obj\<lparr>obj_refcount := 0\<rparr>"
    using assms unfolding same_objs_def by blast
  show thesis
    using that[OF obj(1)] arg_cong[OF obj(2), of obj_id] arg_cong[OF obj(2), of obj_name]
      arg_cong[OF obj(2), of obj_alias_list] by simp
qed

lemma pair_refs_simps [simp]:
  "pair_refs {#} p = 0" "pair_refs (add_mset e M) p = (if snd e = p then 1 else 0) + pair_refs M p"
  "pair_refs (M + N) p = pair_refs M p + pair_refs N p"
  by (simp_all add: pair_refs_def)

definition refs_ok :: "nat \<Rightarrow> 'u object_t option \<Rightarrow> bool" where
  "refs_ok n x \<longleftrightarrow> (case x of None \<Rightarrow> n = 0 | Some obj \<Rightarrow> 0 < n \<and> unat (obj_refcount obj) = n)"

lemma refs_exact_ok: "refs_exact R os \<longleftrightarrow> (\<forall>p. refs_ok (R p) (os_heap os p))"
  by (simp add: refs_exact_def refs_ok_def)

lemma refs_exact_upd:
  "refs_exact R os \<Longrightarrow> refs_ok n x \<Longrightarrow> os_heap os' = (os_heap os)(p := x) \<Longrightarrow> refs_exact (R(p := n)) os'"
  by (simp add: refs_exact_ok)

lemma refs_exact_live: "refs_exact R os \<Longrightarrow> 0 < R p \<Longrightarrow> \<exists>obj. os_heap os p = Some obj \<and> unat (obj_refcount obj) = R p"
  unfolding refs_exact_ok refs_ok_def by (metis (mono_tags, lifting) not_gr_zero option.case_eq_if option.collapse)

lemma obj_dup_refs:
  assumes "refs_exact R os" "0 < R p" "R p + 1 < 2 ^ 32"
  shows "\<exists>os'. obj_dup p os = Inr (p, os') \<and> refs_exact (R(p := R p + 1)) os' \<and> same_objs os os'"
proof -
  obtain obj where obj: "os_heap os p = Some obj" "unat (obj_refcount obj) = R p"
    using refs_exact_live[OF assms(1,2)] by blast
  let ?os = "obj_store p (obj\<lparr>obj_refcount := obj_refcount obj + 1\<rparr>) os"
  have "unat (obj_refcount obj + 1) = R p + 1"
    using assms(3) obj(2) by (simp add: unat_word_ariths(1))
  then have "refs_exact (R(p := R p + 1)) ?os"
    by (intro refs_exact_upd[OF assms(1), of _ "Some (obj\<lparr>obj_refcount := obj_refcount obj + 1\<rparr>)"])
      (simp_all add: refs_ok_def)
  moreover have "same_objs os ?os" using obj(1) by (simp add: same_objs_def)
  ultimately show ?thesis using obj(1) by (auto simp: obj_dup_def obj_deref_def)
qed

lemma obj_free_refs:
  assumes "refs_exact R os" "0 < R p"
  shows "\<exists>os'. obj_free p os = Inr os' \<and> refs_exact (R(p := R p - 1)) os' \<and> same_objs os os'"
proof -
  obtain obj where obj: "os_heap os p = Some obj" "unat (obj_refcount obj) = R p"
    using refs_exact_live[OF assms] by blast
  have dec: "unat (obj_refcount obj - 1) = R p - 1"
    using assms(2) obj(2) by (metis unat_minus_one unat_eq_0 less_numeral_extra(3))
  let ?x = "if obj_refcount obj - 1 = 0 then None else Some (obj\<lparr>obj_refcount := obj_refcount obj - 1\<rparr>)"
  let ?os = "os\<lparr>os_heap := (os_heap os)(p := ?x)\<rparr>"
  have "obj_refcount obj = 1 \<longleftrightarrow> R p = 1" using obj(2) by (simp add: word_unat_eq_iff)
  then have "refs_ok (R p - 1) ?x" using dec assms(2) by (auto simp: refs_ok_def)
  then have "refs_exact (R(p := R p - 1)) ?os" by (intro refs_exact_upd[OF assms(1), of _ ?x]) simp_all
  moreover have "same_objs os ?os" using obj(1) by (simp add: same_objs_def)
  moreover have "obj_free p os = Inr ?os" using obj(1) by (simp add: obj_free_def obj_deref_def obj_store_def Let_def)
  ultimately show ?thesis by blast
qed

section \<open>The operations and the reference counts\<close>

text \<open>
  Maps keyed by name: well-formed, compared case-insensitively, with the object callbacks, and
  at a size \<open>hash_djb\<close> is fit for. The map can double, so the size is watched at the end.
\<close>

definition om_ok :: "'u obj_map \<Rightarrow> bool" where
  "om_ok m \<longleftrightarrow> mm_wf m \<and> mm_sz m dvd 32 \<and>
     hm_hash (mm_hash_tab m) = hash_djb \<and> hm_compare (mm_hash_tab m) = compare_strings_nocase \<and>
     mm_compare_val m = obj_compare_cb \<and> mm_free_data m = Some obj_free \<and> mm_free_key m = None"

lemma om_ok_same: "om_ok m \<Longrightarrow> mm_same m m' \<Longrightarrow> mm_wf m' \<Longrightarrow> mm_sz m' dvd 32 \<Longrightarrow> om_ok m'"
  by (simp add: om_ok_def mm_same_def)

lemma obj_map_init_ok: "n dvd 32 \<Longrightarrow> om_ok (obj_map_init n)" "om_refs (obj_map_init n) = (\<lambda>_. 0)"
  "n dvd 32 \<Longrightarrow> mm_counted (obj_map_init n)"
proof -
  have nz: "n \<noteq> 0" if "n dvd 32" using that by (rule contrapos_pn) simp
  have same: "mm_hash_tab (obj_map_init n) = mm_hash_tab (multimap_init n hash_djb compare_strings_nocase obj_compare_cb)"
    "mm_total_pairs (obj_map_init n) = 0" "mm_pairs (obj_map_init n) = []"
    by (simp_all add: obj_map_init_def multimap_setfreedata_cb_def multimap_init_def mm_pairs_def)
  show "om_refs (obj_map_init n) = (\<lambda>_. 0)" by (rule ext) (simp add: om_refs_def same)
  assume n: "n dvd 32"
  have "key_compat hash_djb compare_strings_nocase n" using n by (rule djb_nocase_compat)
  then show "om_ok (obj_map_init n)" "mm_counted (obj_map_init n)"
    using n nz[OF n]
    by (simp_all add: om_ok_def mm_wf_def mm_counted_def same mm_compat_def)
      (simp_all add: multimap_init_def obj_map_init_def multimap_setfreedata_cb_def)
qed

text \<open>One insertion, for a reference the caller holds and gives to the map.\<close>

definition om_grows :: "'u obj_map \<Rightarrow> 'u obj_map \<Rightarrow> bool" where
  "om_grows m m' \<longleftrightarrow> mm_sz m dvd mm_sz m' \<and> (om_ok m \<longrightarrow> mm_sz m' dvd 32 \<longrightarrow> om_ok m')"

lemma om_insert_ok:
  assumes "om_ok m" "om_insert key p (m, os) = Inr (fresh, (m', os'))"
  shows "os' = os" "om_refs m' = (om_refs m)(p := om_refs m p + 1)" "fresh \<longleftrightarrow> mm_list m key = []"
    "mm_sz m dvd mm_sz m'"
    "mm_sz m' dvd 32 \<Longrightarrow> om_ok m' \<and>
       (\<forall>q. mm_list m' q = (if compare_strings_nocase q key = 0 then (key, p) # mm_list m q else mm_list m q))"
proof -
  have wf: "mm_wf m" using assms(1) by (simp add: om_ok_def)
  have "multimap_insert m key p = Inr (fresh, m')" and os: "os' = os"
    using assms(2) by (auto simp: om_insert_def res_bind_eq_Inr)
  then have a: "adds_pair m key p m'" "fresh = (mm_list m key = [])"
    using multimap_insert_spec[OF wf, of key p] by auto
  show "os' = os" "fresh \<longleftrightarrow> mm_list m key = []" using os a(2) by simp_all
  show "om_refs m' = (om_refs m)(p := om_refs m p + 1)"
    using a(1) by (auto simp: om_refs_def adds_pair_def)
  show "mm_sz m dvd mm_sz m'" using a(1) by (auto simp: adds_pair_def)
  assume sz: "mm_sz m' dvd 32"
  then have "mm_compat m (mm_sz m')" using assms(1) by (intro mm_compat_nocase) (simp_all add: om_ok_def)
  then show "om_ok m' \<and>
       (\<forall>q. mm_list m' q = (if compare_strings_nocase q key = 0 then (key, p) # mm_list m q else mm_list m q))"
    using a(1) om_ok_same[OF assms(1) _ _ sz] assms(1) by (auto simp: adds_pair_def om_ok_def simp del: compare_strings_nocase_eq_0)
qed

lemma rehash_fold_sz: "hm_table_sz (fold (\<lambda>node acc. rehash_node acc node) ns t) = hm_table_sz t"
  by (induction ns arbitrary: t) simp_all

lemma hash_insert_sz: "hash_insert t k v = Inr (old, t') \<Longrightarrow> hm_table_sz t dvd hm_table_sz t'"
  by (auto simp: hash_insert_def hash_internal_insert_new_def hash_resize_def Let_def rehash_fold_sz res_bind_eq_Inr
      split: option.splits if_splits)

lemma om_insert_grows: "om_insert key p mo = Inr (fresh, mo') \<Longrightarrow> mm_sz (fst mo) dvd mm_sz (fst mo')"
  by (auto simp: om_insert_def multimap_insert_def res_bind_eq_Inr node_write_def Let_def
      split: option.splits dest!: hash_insert_sz)

lemma om_aliases_grow: "om_insert_aliases p as b mo = Inr (b', mo') \<Longrightarrow> mm_sz (fst mo) dvd mm_sz (fst mo')"
proof (induction as arbitrary: b mo)
  case (Cons a as)
  obtain fresh mo1 where mo1: "om_insert_dup a p mo = Inr (fresh, mo1)"
    "om_insert_aliases p as (if fresh then b else False) mo1 = Inr (b', mo')"
    using Cons.prems by (auto simp: res_bind_eq_Inr)
  have "mm_sz (fst mo) dvd mm_sz (fst mo1)"
    using mo1(1) by (auto simp: om_insert_dup_def res_bind_eq_Inr dest!: om_insert_grows)
  then show ?case using Cons.IH[OF mo1(2)] dvd_trans by blast
qed simp

lemma om_insert_dup_refs:
  assumes "om_ok m" "refs_exact (\<lambda>q. R q + om_refs m q) os" "0 < R p + om_refs m p" "R p + om_refs m p + 1 < 2 ^ 32"
    and "om_insert_dup key p (m, os) = Inr (fresh, (m', os'))"
  shows "refs_exact (\<lambda>q. R q + om_refs m' q) os' \<and> same_objs os os' \<and>
    om_refs m' = (om_refs m)(p := om_refs m p + 1) \<and> mm_sz m dvd mm_sz m' \<and> (mm_sz m' dvd 32 \<longrightarrow> om_ok m')"
proof -
  obtain os1 where os1: "obj_dup p os = Inr (p, os1)" "same_objs os os1"
    "refs_exact ((\<lambda>q. R q + om_refs m q)(p := R p + om_refs m p + 1)) os1"
    using obj_dup_refs[OF assms(2-4)] by blast
  have "om_insert key p (m, os1) = Inr (fresh, (m', os'))" using assms(5) os1(1) by (simp add: om_insert_dup_def)
  note ins = om_insert_ok[OF assms(1) this]
  have "(\<lambda>q. R q + om_refs m q)(p := R p + om_refs m p + 1) = (\<lambda>q. R q + om_refs m' q)"
    by (auto simp: ins(2))
  then show ?thesis using os1 ins by simp
qed

lemma om_insert_aliases_refs:
  assumes "om_ok m" "refs_exact (\<lambda>q. R q + om_refs m q) os" "0 < R p + om_refs m p"
    and "R p + om_refs m p + length as < 2 ^ 32"
    and "om_insert_aliases p as b (m, os) = Inr (b', (m', os'))" "mm_sz m' dvd 32"
  shows "refs_exact (\<lambda>q. R q + om_refs m' q) os' \<and> same_objs os os' \<and> om_ok m' \<and>
    om_refs m' = (om_refs m)(p := om_refs m p + length as) \<and> mm_sz m dvd mm_sz m'"
  using assms
proof (induction as arbitrary: m os b)
  case (Cons a as)
  obtain fresh m1 os1 where ins: "om_insert_dup a p (m, os) = Inr (fresh, (m1, os1))"
    and rest: "om_insert_aliases p as (if fresh then b else False) (m1, os1) = Inr (b', (m', os'))"
    using Cons.prems(5) by (auto simp: res_bind_eq_Inr)
  have one: "refs_exact (\<lambda>q. R q + om_refs m1 q) os1" "same_objs os os1"
    "om_refs m1 = (om_refs m)(p := om_refs m p + 1)" "mm_sz m dvd mm_sz m1" "mm_sz m1 dvd 32 \<longrightarrow> om_ok m1"
  proof -
    have "R p + om_refs m p + 1 < 2 ^ 32" using Cons.prems(4) by simp
    from om_insert_dup_refs[OF Cons.prems(1-3) this ins]
    show "refs_exact (\<lambda>q. R q + om_refs m1 q) os1" "same_objs os os1"
      "om_refs m1 = (om_refs m)(p := om_refs m p + 1)" "mm_sz m dvd mm_sz m1" "mm_sz m1 dvd 32 \<longrightarrow> om_ok m1"
      by blast+
  qed
  have grow: "mm_sz m1 dvd mm_sz m'"
    using om_aliases_grow[OF rest] by simp
  then have ok1: "om_ok m1" using one(5) Cons.prems(6) dvd_trans by blast
  have "refs_exact (\<lambda>q. R q + om_refs m' q) os' \<and> same_objs os1 os' \<and> om_ok m' \<and>
    om_refs m' = (om_refs m1)(p := om_refs m1 p + length as) \<and> mm_sz m1 dvd mm_sz m'"
    by (rule Cons.IH[OF ok1 one(1) _ _ rest Cons.prems(6)]) (use Cons.prems(3,4) one(3) in simp_all)
  then show ?case
    using one(2-4) same_objs_trans[OF one(2)] dvd_trans[OF one(4)] by auto
qed simp

subsection \<open>Deletion\<close>

lemma mm_list_submset:
  assumes "mm_wf m" shows "mset (mm_list m k) \<subseteq># mset (mm_pairs m)"
proof (cases "hash_lookup (mm_hash_tab m) k")
  case (Some node)
  obtain k' where "(k', node) \<in> set (hash_entries (mm_hash_tab m))"
    using mm_node_ok[OF assms Some] by blast
  then obtain M where "mset (hash_entries (mm_hash_tab m)) = add_mset (k', node) M"
    by (metis in_multiset_in_set mset_add)
  then show ?thesis by (simp add: mm_pairs_mset mm_list_lookup Some)
qed (simp add: mm_list_lookup)

definition has_id :: "'u obj_state \<Rightarrow> u64 \<Rightarrow> string \<times> obj_ptr \<Rightarrow> bool" where
  "has_id os i e \<longleftrightarrow> (\<exists>obj. os_heap os (snd e) = Some obj \<and> obj_id obj = i)"

lemma multimap_delete_refs:
  assumes "om_ok m" "refs_exact (\<lambda>q. R q + om_refs m q) os"
  shows "\<exists>m' os'. multimap_delete m key i os = Inr (length (filter (has_id os i) (mm_list m key)), m', os') \<and>
    refs_exact (\<lambda>q. R q + om_refs m' q) os' \<and> same_objs os os' \<and> om_ok m' \<and> mm_sz m' = mm_sz m \<and>
    deletes_pairs m key (has_id os i) m' \<and> res_fold (\<lambda>e. obj_free (snd e)) (filter (has_id os i) (mm_list m key)) os = Inr os'"
proof -
  have wf: "mm_wf m" and cb: "mm_compare_val m = obj_compare_cb" "mm_free_data m = Some obj_free" "mm_free_key m = None"
    using assms(1) by (simp_all add: om_ok_def)
  let ?L = "mm_list m key" let ?D = "has_id os i"
  let ?F = "mset (mm_pairs m) - mset (filter ?D ?L)"
  have sub: "mset (filter ?D ?L) \<subseteq># mset (mm_pairs m)"
    unfolding mset_filter using mm_list_submset[OF wf, of key] multiset_filter_subset[of ?D "mset ?L"]
    by (rule subset_mset.order_trans[rotated])
  have kept: "mset (filter (\<lambda>e. \<not> ?D e) ?L) \<subseteq># ?F"
  proof -
    have "mset (filter (\<lambda>e. \<not> ?D e) ?L) + mset (filter ?D ?L) \<subseteq># mset (mm_pairs m)"
      unfolding mset_filter add.commute[of "filter_mset (\<lambda>e. \<not> ?D e) (mset ?L)"] multiset_partition[symmetric]
      by (rule mm_list_submset[OF wf])
    then show ?thesis using subset_mset.le_diff_conv2[OF sub] by blast
  qed
  define P where "P = (\<lambda>ps s. set ps \<subseteq> set ?L \<and> same_objs os s \<and>
    refs_exact (\<lambda>q. R q + pair_refs ?F q + pair_refs (mset (filter ?D ps)) q) s)"
  have pos: "0 < R (snd p) + pair_refs ?F (snd p) + pair_refs (mset (filter ?D (p # ps))) (snd p)" if "P (p # ps) s" for p ps s
  proof (cases "?D p")
    case False
    then have "p \<in># mset (filter (\<lambda>e. \<not> ?D e) ?L)" using that by (simp add: P_def)
    then have "p \<in># ?F" using kept by (rule mset_subset_eqD[rotated])
    then obtain F' where "?F = add_mset p F'" by (metis mset_add)
    then show ?thesis by simp
  qed simp
  have live: "\<exists>obj. os_heap s (snd p) = Some obj \<and> (obj_id obj = i \<longleftrightarrow> ?D p)" if pps: "P (p # ps) s" for p ps s
  proof -
    have r: "refs_exact (\<lambda>q. R q + pair_refs ?F q + pair_refs (mset (filter ?D (p # ps))) q) s" "same_objs os s"
      using pps unfolding P_def by blast+
    obtain obj where obj: "os_heap s (snd p) = Some obj" using refs_exact_live[OF r(1) pos[OF pps]] by blast
    obtain obj0 where "os_heap os (snd p) = Some obj0" "obj_id obj = obj_id obj0"
      using same_objs_fields[OF r(2) obj] by blast
    then show ?thesis using obj by (simp add: has_id_def)
  qed
  have "\<exists>m' s'. multimap_delete m key i os = Inr (length (filter ?D ?L), m', s') \<and>
    deletes_pairs m key ?D m' \<and> P [] s' \<and> res_fold (free_pair m) (filter ?D ?L) os = Inr s' \<and>
    (if filter (\<lambda>p. \<not> ?D p) ?L \<noteq> [] \<or> ?L = [] then mm_counted m' = mm_counted m
     else mm_counted m \<longrightarrow> \<not> mm_counted m')"
  proof (rule multimap_delete_spec[OF wf])
    show "\<exists>r. mm_compare_val m i (snd p) s = Inr r \<and> (r = 0 \<longleftrightarrow> ?D p)" if "P (p # ps) s" for p ps s
      using live[OF that] by (auto simp: cb obj_compare_cb_def obj_deref_def)
    show "\<exists>s'. free_pair m p s = Inr s' \<and> P ps s'" if pps: "P (p # ps) s" "?D p" for p ps s
    proof -
      let ?R = "\<lambda>q. R q + pair_refs ?F q + pair_refs (mset (filter ?D (p # ps))) q"
      have r: "refs_exact ?R s" "same_objs os s" "set ps \<subseteq> set ?L" using pps(1) unfolding P_def by auto
      obtain s' where s': "obj_free (snd p) s = Inr s'" "refs_exact (?R(snd p := ?R (snd p) - 1)) s'" "same_objs s s'"
        using obj_free_refs[OF r(1) pos[OF pps(1)]] by blast
      have "?R(snd p := ?R (snd p) - 1) = (\<lambda>q. R q + pair_refs ?F q + pair_refs (mset (filter ?D ps)) q)"
        using pps(2) by auto
      then have "refs_exact (\<lambda>q. R q + pair_refs ?F q + pair_refs (mset (filter ?D ps)) q) s'" using s'(2) by argo
      then have "P ps s'" unfolding P_def using r(3) same_objs_trans[OF r(2) s'(3)] by blast
      then show ?thesis using s'(1) by (simp add: free_pair_def call_free_def cb)
    qed
    show "P ps s" if "P (p # ps) s" "\<not> ?D p" for p ps s
    proof -
      have "filter ?D (p # ps) = filter ?D ps" using that(2) by simp
      then show ?thesis using that(1) unfolding P_def by auto
    qed
    have "(\<lambda>q. R q + pair_refs ?F q + pair_refs (mset (filter ?D ?L)) q) = (\<lambda>q. R q + om_refs m q)"
      using subset_mset.diff_add[OF sub] by (metis (no_types, opaque_lifting) om_refs_def add.assoc pair_refs_simps(3))
    then show "P ?L os" using assms(2) by (simp add: P_def)
  qed
  then obtain m' os' where d: "multimap_delete m key i os = Inr (length (filter ?D ?L), m', os')"
    "deletes_pairs m key ?D m'" "P [] os'" "res_fold (free_pair m) (filter ?D ?L) os = Inr os'" by blast
  have "free_pair m = (\<lambda>e. obj_free (snd e))" by (auto simp: fun_eq_iff free_pair_def call_free_def cb res_bind_def split: sum.split)
  then have frees: "res_fold (\<lambda>e. obj_free (snd e)) (filter ?D ?L) os = Inr os'" using d(4) by simp
  have "mset (mm_pairs m') = ?F" using d(2) by (simp add: deletes_pairs_def flip: mset_filter) (metis add_diff_cancel_right')
  then have "refs_exact (\<lambda>q. R q + om_refs m' q) os'" "same_objs os os'"
    using d(3) by (simp_all add: P_def om_refs_def)
  moreover have "om_ok m'" "mm_sz m' = mm_sz m"
    using d(2) om_ok_same[OF assms(1), of m'] assms(1) by (simp_all add: deletes_pairs_def om_ok_def)
  ultimately show ?thesis using d(1,2) frees by blast
qed

lemma om_delete_refs:
  assumes "om_ok m" "refs_exact (\<lambda>q. R q + om_refs m q) os"
  shows "\<exists>m' os'. om_delete key i (m, os) = Inr (length (filter (has_id os i) (mm_list m key)), (m', os')) \<and>
    refs_exact (\<lambda>q. R q + om_refs m' q) os' \<and> same_objs os os' \<and> om_ok m' \<and> mm_sz m' = mm_sz m \<and>
    deletes_pairs m key (has_id os i) m'"
  using multimap_delete_refs[OF assms, of key i] by (auto simp: om_delete_def)

text \<open>What the map refers to keeps its id while others are freed.\<close>

lemma mm_list_pairs: "mm_wf m \<Longrightarrow> e \<in> set (mm_list m k) \<Longrightarrow> e \<in> set (mm_pairs m)"
  using mset_subset_eqD[OF mm_list_submset[of m k]] by simp

lemma has_id_later:
  assumes "same_objs os os'" "refs_exact (\<lambda>q. R q + om_refs m q) os'" "e \<in> set (mm_pairs m)"
  shows "has_id os' i e \<longleftrightarrow> has_id os i e"
proof -
  have "e \<in># mset (mm_pairs m)" using assms(3) by simp
  then obtain M where "mset (mm_pairs m) = add_mset e M" by (metis mset_add)
  then have "0 < R (snd e) + om_refs m (snd e)" by (simp add: om_refs_def)
  then obtain obj' where obj': "os_heap os' (snd e) = Some obj'" using refs_exact_live[OF assms(2)] by auto
  then obtain obj where "os_heap os (snd e) = Some obj" "obj_id obj' = obj_id obj" using same_objs_fields[OF assms(1)] by blast
  then show ?thesis using obj' by (simp add: has_id_def)
qed

text \<open>Deleting an object that someone else holds as well: afterwards no list of its names has it.\<close>

definition gone :: "obj_ptr \<Rightarrow> 'u obj_map \<Rightarrow> string \<Rightarrow> bool" where
  "gone p m key \<longleftrightarrow> p \<notin> snd ` set (mm_list m key)"

text \<open>
  What a deletion of \<open>p\<close>, held elsewhere as well, under the keys \<open>K\<close> leaves of everything else: the lists of those keys,
  whatever the case of their letters, lose the pairs with the id of the object, no other list changes.
\<close>

definition removing ::
  "(obj_ptr \<Rightarrow> nat) \<Rightarrow> obj_ptr \<Rightarrow> string set \<Rightarrow> 'u om \<Rightarrow> 'u object_t \<Rightarrow> 'u om \<Rightarrow> 'u object_t \<Rightarrow> bool" where
  "removing R p K mo obj mo' obj' \<longleftrightarrow>
     refs_exact (\<lambda>q. R q + om_refs (fst mo') q) (snd mo') \<and> same_objs (snd mo) (snd mo') \<and> om_ok (fst mo') \<and>
     mm_sz (fst mo') = mm_sz (fst mo) \<and> os_heap (snd mo') p = Some obj' \<and>
     obj'\<lparr>obj_refcount := 0\<rparr> = obj\<lparr>obj_refcount := 0\<rparr> \<and>
     (\<forall>k. gone p (fst mo) k \<longrightarrow> gone p (fst mo') k) \<and> mset (mm_pairs (fst mo')) \<subseteq># mset (mm_pairs (fst mo)) \<and>
     (\<forall>q. mm_list (fst mo') q = (if \<exists>k\<in>K. compare_strings_nocase q k = 0
        then filter (\<lambda>e. \<not> has_id (snd mo) (obj_id obj) e) (mm_list (fst mo) q) else mm_list (fst mo) q))"

lemma obj_same_fields:
  assumes "a\<lparr>obj_refcount := 0\<rparr> = b\<lparr>obj_refcount := 0\<rparr>"
  shows "obj_id a = obj_id b" "obj_name a = obj_name b" "obj_alias_list a = obj_alias_list b"
  using arg_cong[OF assms, of obj_id] arg_cong[OF assms, of obj_name] arg_cong[OF assms, of obj_alias_list] by simp_all

lemma removing_trans:
  assumes "removing R p K a obj b obj1" "removing R p L b obj1 c obj'"
  shows "removing R p (K \<union> L) a obj c obj'"
proof -
  have "obj1\<lparr>obj_refcount := 0\<rparr> = obj\<lparr>obj_refcount := 0\<rparr>" using assms(1) unfolding removing_def by (elim conjE)
  then have id: "obj_id obj1 = obj_id obj" by (rule obj_same_fields)
  have wf: "mm_wf (fst b)" using assms(1) by (simp add: removing_def om_ok_def)
  have "filter (\<lambda>e. \<not> has_id (snd b) (obj_id obj1) e) (mm_list (fst b) q) = filter (\<lambda>e. \<not> has_id (snd a) (obj_id obj) e) (mm_list (fst b) q)" for q
    using has_id_later[of "snd a" "snd b" R "fst b"] mm_list_pairs[OF wf] assms(1) by (intro filter_cong) (auto simp: id removing_def)
  then have c: "mm_list (fst c) q = (if \<exists>k\<in>L. compare_strings_nocase q k = 0
      then filter (\<lambda>e. \<not> has_id (snd a) (obj_id obj) e) (mm_list (fst b) q) else mm_list (fst b) q)" for q
    using assms(2) unfolding removing_def by presburger
  have b: "mm_list (fst b) q = (if \<exists>k\<in>K. compare_strings_nocase q k = 0
      then filter (\<lambda>e. \<not> has_id (snd a) (obj_id obj) e) (mm_list (fst a) q) else mm_list (fst a) q)" for q
    using assms(1) unfolding removing_def by presburger
  have lists: "mm_list (fst c) q = (if \<exists>k\<in>K \<union> L. compare_strings_nocase q k = 0
      then filter (\<lambda>e. \<not> has_id (snd a) (obj_id obj) e) (mm_list (fst a) q) else mm_list (fst a) q)" for q
    unfolding c b bex_Un by (simp add: filter_id_conv del: compare_strings_nocase_eq_0)
  then show ?thesis
    using assms same_objs_trans[of "snd a" "snd b" "snd c"]
      subset_mset.order_trans[of "mset (mm_pairs (fst c))" "mset (mm_pairs (fst b))" "mset (mm_pairs (fst a))"]
    unfolding removing_def by (intro conjI allI impI lists) (elim conjE; (assumption | simp))+
qed

lemma removingD:
  assumes "removing R p K mo obj (m', os') obj'"
  shows "om_ok m'" "refs_exact (\<lambda>q. R q + om_refs m' q) os'" "os_heap os' p = Some obj'"
    "obj'\<lparr>obj_refcount := 0\<rparr> = obj\<lparr>obj_refcount := 0\<rparr>" "gone p (fst mo) k \<Longrightarrow> gone p m' k"
  using assms by (simp_all add: removing_def)

lemma om_delete_gone:
  assumes ok: "om_ok m" "refs_exact (\<lambda>q. R q + om_refs m q) os" and p: "os_heap os p = Some obj" "0 < R p"
  shows "\<exists>m' os' obj'. om_delete key (obj_id obj) (m, os) = Inr (length (filter (has_id os (obj_id obj)) (mm_list m key)), (m', os')) \<and>
    removing R p {key} (m, os) obj (m', os') obj' \<and> gone p m' key"
proof -
  obtain m' os' where d: "om_delete key (obj_id obj) (m, os) = Inr (length (filter (has_id os (obj_id obj)) (mm_list m key)), (m', os'))"
    "refs_exact (\<lambda>q. R q + om_refs m' q) os'" "same_objs os os'" "om_ok m'" "mm_sz m' = mm_sz m"
    "deletes_pairs m key (has_id os (obj_id obj)) m'"
    using om_delete_refs[OF ok, of key "obj_id obj"] by blast
  have "0 < R p + om_refs m' p" using p(2) by simp
  then obtain obj' where obj': "os_heap os' p = Some obj'"
    using refs_exact_live[OF d(2), of p] by auto
  have eq: "obj'\<lparr>obj_refcount := 0\<rparr> = obj\<lparr>obj_refcount := 0\<rparr>"
    using d(3) p(1) obj' unfolding same_objs_def by fastforce
  have l: "mm_list m' q = (if mm_eq m q key then filter (\<lambda>e. \<not> has_id os (obj_id obj) e) (mm_list m key) else mm_list m q)" for q
    using d(6) by (simp add: deletes_pairs_def)
  have wf: "mm_wf m" using ok(1) by (simp add: om_ok_def)
  have g: "gone p m' key"
    using key_equiv_refl[OF mm_wf_tab(3)[OF wf]] p(1) by (auto simp: gone_def l has_id_def)
  have mono: "gone p m' k" if "gone p m k" for k
    using that mm_list_cong[OF wf, of k key] by (auto simp: gone_def l)
  have sub: "mset (mm_pairs m') \<subseteq># mset (mm_pairs m)"
  proof -
    have "mset (mm_pairs m) = mset (mm_pairs m') + mset (filter (has_id os (obj_id obj)) (mm_list m key))"
      using d(6) unfolding deletes_pairs_def by simp
    then show ?thesis by (simp del: mset_filter)
  qed
  have lists: "mm_list m' q = (if \<exists>k\<in>{key}. compare_strings_nocase q k = 0
      then filter (\<lambda>e. \<not> has_id os (obj_id obj) e) (mm_list m q) else mm_list m q)" for q
    using l[of q] mm_list_cong[OF wf, of q key] ok(1) by (simp add: om_ok_def del: compare_strings_nocase_eq_0)
  have "removing R p {key} (m, os) obj (m', os') obj'"
    unfolding removing_def fst_conv snd_conv by (intro conjI allI impI d(2-5) obj' eq sub mono lists)
  with d(1) g show ?thesis by (intro exI conjI)
qed

lemma om_delete_aliases_gone:
  assumes "om_ok m" "refs_exact (\<lambda>q. R q + om_refs m q) os" "os_heap os p = Some obj" "0 < R p"
  shows "\<exists>m' os' obj'. om_delete_aliases p (obj_id obj) as (m, os) = Inr (m', os') \<and>
    removing R p (set as) (m, os) obj (m', os') obj' \<and> (\<forall>k\<in>set as. gone p m' k)"
  using assms
proof (induction as arbitrary: m os obj)
  case Nil
  then have "removing R p (set []) (m, os) obj (m, os) obj" by (simp add: removing_def)
  then show ?case by fastforce
next
  case (Cons a as)
  obtain n m1 os1 obj1 where one: "om_delete a (obj_id obj) (m, os) = Inr (n, (m1, os1))"
    "removing R p {a} (m, os) obj (m1, os1) obj1" "gone p m1 a"
    using om_delete_gone[OF Cons.prems, of a] by blast
  note r1 = removingD[OF one(2)]
  obtain m' os' obj' where rest: "om_delete_aliases p (obj_id obj1) as (m1, os1) = Inr (m', os')"
    "removing R p (set as) (m1, os1) obj1 (m', os') obj'" "\<forall>k\<in>set as. gone p m' k"
    using Cons.IH[OF r1(1,2,3) Cons.prems(4)] by blast
  have "om_delete_aliases p (obj_id obj) (a # as) (m, os) = Inr (m', os')"
    using one(1) rest(1) r1(3) obj_same_fields(1)[OF r1(4)] by (simp add: obj_deref_def)
  moreover have "\<forall>k\<in>set (a # as). gone p m' k" using one(3) rest(3) removingD(5)[OF rest(2)] by simp
  moreover have "removing R p (set (a # as)) (m, os) obj (m', os') obj'" using removing_trans[OF one(2) rest(2)] by simp
  ultimately show ?case by blast
qed

definition obj_names :: "'u object_t \<Rightarrow> string list" where
  "obj_names obj = obj_name obj # obj_alias_list obj"

lemma om_del_by_ptr_gone:
  assumes ok: "om_ok m" "refs_exact (\<lambda>q. R q + om_refs m q) os" "os_heap os p = Some obj" "0 < R p"
  shows "\<exists>m' os' obj'. om_del_by_ptr p (m, os) =
      Inr (\<not> (\<exists>a\<in>set (obj_alias_list obj). compare_strings_nocase (obj_name obj) a = 0) \<and>
        (\<exists>e\<in>set (mm_list m (obj_name obj)). has_id os (obj_id obj) e), (m', os')) \<and>
    removing R p (set (obj_names obj)) (m, os) obj (m', os') obj' \<and> (\<forall>k\<in>set (obj_names obj). gone p m' k)"
proof -
  obtain m1 os1 obj1 where one: "om_delete_aliases p (obj_id obj) (obj_alias_list obj) (m, os) = Inr (m1, os1)"
    "removing R p (set (obj_alias_list obj)) (m, os) obj (m1, os1) obj1" "\<forall>k\<in>set (obj_alias_list obj). gone p m1 k"
    using om_delete_aliases_gone[OF ok, of "obj_alias_list obj"] by blast
  note r1 = removingD[OF one(2)]
  let ?n = "length (filter (has_id os1 (obj_id obj1)) (mm_list m1 (obj_name obj1)))"
  obtain m' os' obj' where two: "om_delete (obj_name obj1) (obj_id obj1) (m1, os1) = Inr (?n, (m', os'))"
    "removing R p {obj_name obj1} (m1, os1) obj1 (m', os') obj'" "gone p m' (obj_name obj1)"
    using om_delete_gone[OF r1(1,2,3) ok(4), of "obj_name obj1"] by blast
  have run: "om_del_by_ptr p (m, os) = Inr (?n \<noteq> 0, (m', os'))"
    using ok(3) one(1) r1(3) two(1) by (simp add: om_del_by_ptr_def obj_deref_def)
  have same: "obj_name obj1 = obj_name obj" "obj_id obj1 = obj_id obj" using obj_same_fields[OF r1(4)] by simp_all
  have wf1: "mm_wf m1" using r1(1) by (simp add: om_ok_def)
  have "same_objs os os1" using one(2) by (simp add: removing_def)
  note later = has_id_later[OF this r1(2) mm_list_pairs[OF wf1]]
  have l: "mm_list m1 (obj_name obj) = (if \<exists>a\<in>set (obj_alias_list obj). compare_strings_nocase (obj_name obj) a = 0
      then filter (\<lambda>e. \<not> has_id os (obj_id obj) e) (mm_list m (obj_name obj)) else mm_list m (obj_name obj))"
    using one(2) by (simp add: removing_def del: compare_strings_nocase_eq_0)
  have "?n \<noteq> 0 \<longleftrightarrow> (\<exists>e\<in>set (mm_list m1 (obj_name obj)). has_id os (obj_id obj) e)"
    using later by (auto simp: same filter_empty_conv)
  also have "\<dots> \<longleftrightarrow> \<not> (\<exists>a\<in>set (obj_alias_list obj). compare_strings_nocase (obj_name obj) a = 0) \<and>
        (\<exists>e\<in>set (mm_list m (obj_name obj)). has_id os (obj_id obj) e)"
    unfolding l by (auto simp del: compare_strings_nocase_eq_0)
  finally have del: "om_del_by_ptr p (m, os) = Inr (\<not> (\<exists>a\<in>set (obj_alias_list obj). compare_strings_nocase (obj_name obj) a = 0) \<and>
        (\<exists>e\<in>set (mm_list m (obj_name obj)). has_id os (obj_id obj) e), (m', os'))" unfolding run by simp
  have gone: "\<forall>k\<in>set (obj_names obj). gone p m' k"
    using two(3) one(3) removingD(5)[OF two(2)] obj_same_fields(2)[OF r1(4)] by (auto simp: obj_names_def)
  have "set (obj_alias_list obj) \<union> {obj_name obj1} = set (obj_names obj)" using same(1) by (auto simp: obj_names_def)
  then have "removing R p (set (obj_names obj)) (m, os) obj (m', os') obj'" using removing_trans[OF one(2) two(2)] by simp
  with del gone show ?thesis by (intro exI conjI)
qed

text \<open>A pair stands in the list of its key, so an object gone from all its names is not referenced.\<close>

lemma mm_pair_listed:
  assumes wf: "mm_wf m" and e: "e \<in> set (mm_pairs m)"
  shows "e \<in> set (mm_list m (fst e))"
proof -
  note t = mm_wf_tab[OF wf]
  obtain k node where n: "(k, node) \<in> set (hash_entries (mm_hash_tab m))" "e \<in> set (mn_list node)"
    using e by (auto simp: mm_pairs_def)
  then have "node_ok (hm_compare (mm_hash_tab m)) (k, node)" using wf by (simp add: mm_wf_def)
  then have "mm_eq m (fst e) k" using n(2) key_equiv_sym[OF t(3)] by (fastforce simp: node_ok_def)
  then have "hash_lookup (mm_hash_tab m) (fst e) = Some node"
    unfolding hash_lookup_iff[OF t(1,2)] using n(1) by blast
  then show ?thesis using n(2) by (simp add: mm_list_lookup)
qed

lemma gone_unreferenced:
  assumes "mm_wf m" "\<And>e. e \<in> set (mm_pairs m) \<Longrightarrow> snd e = p \<Longrightarrow> gone p m (fst e)"
  shows "om_refs m p = 0"
proof -
  have "snd e \<noteq> p" if "e \<in> set (mm_pairs m)" for e
    using assms(2)[OF that] mm_pair_listed[OF assms(1) that] by (auto simp: gone_def)
  then show ?thesis by (auto simp: om_refs_def pair_refs_def)
qed

section \<open>Properties\<close>


text \<open>A lamp of which a map and the caller hold a reference each.\<close>

definition held_lamp :: "nat \<Rightarrow> unit obj_state" where
  "held_lamp n = \<lparr>os_heap = [0 \<mapsto> \<lparr>obj_id = 1, obj_name = ''lamp'', obj_class = 0, obj_n_alias = 0, obj_alias_list = [],
     obj_hidden = False, obj_default_article = True, obj_userdata = None, obj_refcount = of_nat n\<rparr>],
     os_next = 1, os_idcounter = 2, os_class_map = None\<rparr>"

lemma held_lamp_refs: "0 < n \<Longrightarrow> n < 2 ^ 32 \<Longrightarrow> refs_exact ((\<lambda>_. 0)(0 := n)) (held_lamp n)"
  by (simp add: refs_exact_def held_lamp_def unat_of_nat)

lemma lamp_map:
  obtains m :: "unit obj_map" where "multimap_insert (obj_map_init 8) ''lamp'' 0 = Inr (True, m)" "om_ok m"
    "\<And>q. mm_list m q = (if compare_strings_nocase q ''lamp'' = 0 then [(''lamp'', 0)] else [])" "om_refs m = (\<lambda>_. 0)(0 := 1)"
proof -
  have ok: "om_ok (obj_map_init 8 :: unit obj_map)" "mm_counted (obj_map_init 8 :: unit obj_map)" by (simp_all add: obj_map_init_ok)
  have e: "mm_list (obj_map_init 8 :: unit obj_map) q = []" for q
    by (simp add: obj_map_init_def multimap_setfreedata_cb_def multimap_init_def mm_list_lookup)
  obtain m where m: "multimap_insert (obj_map_init 8 :: unit obj_map) ''lamp'' 0 = Inr (True, m)" "adds_pair (obj_map_init 8) ''lamp'' 0 m"
    using multimap_insert_new[of "obj_map_init 8 :: unit obj_map" "''lamp''" 0] ok e by (auto simp: om_ok_def)
  have "mm_sz (obj_map_init 8 :: unit obj_map) = 8" by (simp add: obj_map_init_def multimap_setfreedata_cb_def multimap_init_def)
  then have sz: "mm_sz m dvd 32" using m(2) by (auto simp: adds_pair_def)
  have "om_insert ''lamp'' 0 (obj_map_init 8, held_lamp 1) = Inr (True, (m, held_lamp 1))" using m(1) by (simp add: om_insert_def)
  note i = om_insert_ok[OF ok(1) this]
  show thesis
    using that[OF m(1)] i(2) i(5)[OF sz] by (simp add: e obj_map_init_ok(2) del: compare_strings_nocase_eq_0)
qed


text \<open>A program that takes and drops references of objects, and what it owes after that; it is at fault when it
  uses an object of which there is no reference.\<close>

datatype ref_op = Take_Ref obj_ptr | Drop_Ref obj_ptr

fun run_refs :: "ref_op list \<Rightarrow> 'u obj_state \<Rightarrow> 'u obj_state res" where
  "run_refs [] os = Inr os"
| "run_refs (Take_Ref p # ops) os = res_bind (obj_dup p os) (\<lambda>(_, os). run_refs ops os)"
| "run_refs (Drop_Ref p # ops) os = res_bind (obj_free p os) (run_refs ops)"

fun owed :: "ref_op list \<Rightarrow> (obj_ptr \<Rightarrow> nat) \<Rightarrow> (obj_ptr \<Rightarrow> nat) option" where
  "owed [] R = Some R"
| "owed (Take_Ref p # ops) R = (if R p = 0 then None else owed ops (R(p := R p + 1)))"
| "owed (Drop_Ref p # ops) R = (if R p = 0 then None else owed ops (R(p := R p - 1)))"

text \<open>The heap when there are \<open>R p\<close> references of each object \<open>p\<close>.\<close>

definition counts_set :: "(obj_ptr \<Rightarrow> nat) \<Rightarrow> 'u obj_state \<Rightarrow> 'u obj_state" where
  "counts_set R os = os\<lparr>os_heap := (\<lambda>p. if R p = 0 then None else map_option (\<lambda>obj. obj\<lparr>obj_refcount := of_nat (R p)\<rparr>) (os_heap os p))\<rparr>"

lemma counts_set_refs:
  "\<forall>q. R q \<noteq> 0 \<longrightarrow> R q < 2 ^ 32 \<and> os_heap os q \<noteq> None \<Longrightarrow> refs_exact R (counts_set R os)"
  unfolding refs_exact_def counts_set_def by (auto simp: unat_of_nat split: option.split)

lemma u32_bound: "unat (w :: u32) < 2 ^ 32"
  using unsigned_less[of w] by simp

lemma unat_of_u32: "of_nat (unat w) = (w :: u32)"
  by simp

lemma counts_at:
  assumes "refs_exact R os"
  shows "(if R q = 0 then None else map_option (\<lambda>obj. obj\<lparr>obj_refcount := of_nat (R q)\<rparr>) (os_heap os q)) = os_heap os q"
proof (cases "os_heap os q")
  case (Some obj)
  then have "0 < R q" "unat (obj_refcount obj) = R q" using assms[unfolded refs_exact_def, rule_format, of q] by simp_all
  then have "obj_refcount obj = of_nat (R q)" using unat_of_u32[of "obj_refcount obj"] by metis
  then show ?thesis using Some \<open>0 < R q\<close> by simp
qed simp

lemma counts_set_self: "refs_exact R os \<Longrightarrow> counts_set R os = os"
  by (simp only: counts_set_def counts_at) simp

lemma counts_set_twice: "(\<And>q. R q = 0 \<Longrightarrow> R' q = 0) \<Longrightarrow> counts_set R' (counts_set R os) = counts_set R' os"
  by (auto simp: counts_set_def fun_eq_iff option.map_comp comp_def)

lemma counts_set_one:
  assumes "refs_exact R os" "R p \<noteq> 0" "n < 2 ^ 32"
  obtains obj where "os_heap os p = Some obj" "obj_refcount obj = of_nat (R p)"
    "counts_set (R(p := n)) os = os\<lparr>os_heap := (os_heap os)(p := if n = 0 then None else Some (obj\<lparr>obj_refcount := of_nat n\<rparr>))\<rparr>"
    "refs_exact (R(p := n)) (counts_set (R(p := n)) os)"
proof -
  obtain obj where obj: "os_heap os p = Some obj" "unat (obj_refcount obj) = R p"
    using refs_exact_live[OF assms(1)] assms(2) by blast
  have at: "(if (R(p := n)) q = 0 then None else map_option (\<lambda>obj. obj\<lparr>obj_refcount := of_nat ((R(p := n)) q)\<rparr>) (os_heap os q)) =
      ((os_heap os)(p := if n = 0 then None else Some (obj\<lparr>obj_refcount := of_nat n\<rparr>))) q" for q
    using counts_at[OF assms(1), of q] obj(1) by (cases "q = p") (auto split: if_splits)
  have "R q < 2 ^ 32 \<and> os_heap os q \<noteq> None" if "R q \<noteq> 0" for q
  proof -
    have "0 < R q" using that by simp
    from refs_exact_live[OF assms(1) this] obtain b where "os_heap os q = Some b" "unat (obj_refcount b) = R q" by blast
    then show ?thesis using u32_bound[of "obj_refcount b"] by simp
  qed
  then have "refs_exact (R(p := n)) (counts_set (R(p := n)) os)"
    using assms(3) obj(1) by (intro counts_set_refs) simp
  moreover have "obj_refcount obj = of_nat (R p)" using obj(2) unat_of_u32[of "obj_refcount obj"] by metis
  moreover have "counts_set (R(p := n)) os = os\<lparr>os_heap := (os_heap os)(p := if n = 0 then None else Some (obj\<lparr>obj_refcount := of_nat n\<rparr>))\<rparr>"
    unfolding counts_set_def at ..
  ultimately show thesis using that[OF obj(1)] by blast
qed

lemma owed_zero: "owed ops R = Some R' \<Longrightarrow> R p = 0 \<Longrightarrow> R' p = 0"
proof (induction ops R rule: owed.induct)
  case (2 q ops R)
  then have "R q \<noteq> 0" "owed ops (R(q := R q + 1)) = Some R'" "(R(q := R q + 1)) p = 0" by (auto split: if_splits)
  then show ?case by (rule 2(1))
next
  case (3 q ops R)
  then have "R q \<noteq> 0" "owed ops (R(q := R q - 1)) = Some R'" "(R(q := R q - 1)) p = 0" by (auto split: if_splits)
  then show ?case by (rule 3(1))
qed simp

text \<open>C35: reference counting over any series of \<open>obj_dup\<close> and \<open>obj_free\<close> on any objects, while the counts fit 32 bits. When the
  counts are right at the start, they are right after it: the heap is as it was, but every object that was referenced has the number
  of references that were taken and not given back, and those with none are freed, exactly when the last was given back. The series
  runs to its end if it never uses an object without a reference, and is a use after free if it does.\<close>

theorem obj_refcount_correct:
  assumes "refs_exact R os" "\<forall>p. R p + length (filter ((=) (Take_Ref p)) ops) < 2 ^ 32"
  shows "case owed ops R of
      None \<Rightarrow> run_refs ops os = Inl Use_After_Free
    | Some R' \<Rightarrow> (\<exists>os'. run_refs ops os = Inr os' \<and> refs_exact R' os' \<and>
        os' = os\<lparr>os_heap := (\<lambda>p. if R' p = 0 then None else map_option (\<lambda>obj. obj\<lparr>obj_refcount := of_nat (R' p)\<rparr>) (os_heap os p))\<rparr>) \<and>
        (\<forall>p. R' p + length (filter ((=) (Drop_Ref p)) ops) = R p + length (filter ((=) (Take_Ref p)) ops))"
proof -
  have "case owed ops R of
      None \<Rightarrow> run_refs ops os = Inl Use_After_Free
    | Some R' \<Rightarrow> run_refs ops os = Inr (counts_set R' os) \<and> refs_exact R' (counts_set R' os) \<and>
        (\<forall>p. R' p + length (filter ((=) (Drop_Ref p)) ops) = R p + length (filter ((=) (Take_Ref p)) ops))"
    using assms
  proof (induction ops R arbitrary: os rule: owed.induct)
    case (1 R)
    then show ?case by (simp add: counts_set_self)
  next
    case (2 p ops R)
    show ?case
    proof (cases "R p = 0")
      case True
      then have "os_heap os p = None" using counts_at[OF 2(2), of p] by simp
      then show ?thesis using True by (simp add: obj_dup_def obj_deref_def)
    next
      case False
      let ?R = "R(p := R p + 1)"
      have n: "R p + 1 < 2 ^ 32" using 2(3)[rule_format, of p] by simp
      obtain obj where o: "os_heap os p = Some obj" "obj_refcount obj = of_nat (R p)"
        "counts_set ?R os = os\<lparr>os_heap := (os_heap os)(p := if R p + 1 = 0 then None else Some (obj\<lparr>obj_refcount := of_nat (R p + 1)\<rparr>))\<rparr>"
        "refs_exact ?R (counts_set ?R os)" by (rule counts_set_one[OF 2(2) False n])
      have dup: "obj_dup p os = Inr (p, counts_set ?R os)"
        unfolding o(3) using o(1,2) by (simp add: obj_dup_def obj_deref_def obj_store_def add.commute)
      have "\<forall>q. ?R q + length (filter ((=) (Take_Ref q)) ops) < 2 ^ 32" using 2(3) by (auto split: if_splits)
      note ih = 2(1)[OF False o(4) this]
      show ?thesis
      proof (cases "owed ops ?R")
        case None
        from ih[unfolded this option.case] show ?thesis using False dup None by simp
      next
        case (Some R')
        have "counts_set R' (counts_set ?R os) = counts_set R' os" using owed_zero[OF Some] by (rule counts_set_twice)
        then show ?thesis using ih[unfolded Some option.case] False dup Some by (auto split: if_splits)
      qed
    qed
  next
    case (3 p ops R)
    show ?case
    proof (cases "R p = 0")
      case True
      then have "os_heap os p = None" using counts_at[OF 3(2), of p] by simp
      then show ?thesis using True by (simp add: obj_free_def obj_deref_def)
    next
      case False
      let ?R = "R(p := R p - 1)"
      have n: "R p - 1 < 2 ^ 32" using 3(3)[rule_format, of p] by simp
      obtain obj where o: "os_heap os p = Some obj" "obj_refcount obj = of_nat (R p)"
        "counts_set ?R os = os\<lparr>os_heap := (os_heap os)(p := if R p - 1 = 0 then None else Some (obj\<lparr>obj_refcount := of_nat (R p - 1)\<rparr>))\<rparr>"
        "refs_exact ?R (counts_set ?R os)" by (rule counts_set_one[OF 3(2) False n])
      have c: "obj_refcount obj - 1 = of_nat (R p - 1)" using o(2) False by (simp add: of_nat_diff Suc_le_eq)
      have "(of_nat (R p - 1) :: u32) = 0 \<longleftrightarrow> R p - 1 = 0" using n by (simp add: word_unat_eq_iff unat_of_nat)
      then have "obj_refcount obj - 1 = 0 \<longleftrightarrow> R p - 1 = 0" using c by argo
      then have free: "obj_free p os = Inr (counts_set ?R os)"
        unfolding o(3) using o(1,2) False by (simp add: obj_free_def obj_deref_def obj_store_def Let_def)
      have "\<forall>q. ?R q + length (filter ((=) (Take_Ref q)) ops) < 2 ^ 32"
      proof
        fix q show "?R q + length (filter ((=) (Take_Ref q)) ops) < 2 ^ 32"
          by (rule le_less_trans[OF _ 3(3)[rule_format, of q]]) auto
      qed
      note ih = 3(1)[OF False o(4) this]
      show ?thesis
      proof (cases "owed ops ?R")
        case None
        from ih[unfolded this option.case] show ?thesis using False free None by simp
      next
        case (Some R')
        have "counts_set R' (counts_set ?R os) = counts_set R' os" using owed_zero[OF Some] by (rule counts_set_twice)
        then show ?thesis using ih[unfolded Some option.case] False free Some by (auto split: if_splits)
      qed
    qed
  qed
  then show ?thesis unfolding counts_set_def by (auto split: option.splits)
qed

theorem obj_refcount_correct_witness:
  "(\<exists>os'. run_refs [Take_Ref 0, Drop_Ref 0, Drop_Ref 0] (held_lamp 1) = Inr os' \<and> os_heap os' 0 = None) \<and>
   run_refs [Take_Ref 0, Drop_Ref 0, Drop_Ref 0, Take_Ref 0] (held_lamp 1) = Inl Use_After_Free"
proof -
  have r: "refs_exact ((\<lambda>_. 0)(0 := 1)) (held_lamp 1)" by (rule held_lamp_refs) simp_all
  have b: "\<forall>p. ((\<lambda>_. 0)(0 := 1)) p + length (filter ((=) (Take_Ref p)) ops) < 2 ^ 32" if "length ops < 5" for ops
  proof
    fix p
    have "length (filter ((=) (Take_Ref p)) ops) < 5" using that length_filter_le[of "(=) (Take_Ref p)" ops] by linarith
    moreover have "((\<lambda>_. 0 :: nat)(0 := 1)) p \<le> 1" by simp
    ultimately have "((\<lambda>_. 0 :: nat)(0 := 1)) p + length (filter ((=) (Take_Ref p)) ops) < 6" by linarith
    also have "(6 :: nat) < 2 ^ 32" by simp
    finally show "((\<lambda>_. 0)(0 := 1)) p + length (filter ((=) (Take_Ref p)) ops) < 2 ^ 32" .
  qed
  show ?thesis
    using obj_refcount_correct[OF r b[of "[Take_Ref 0, Drop_Ref 0, Drop_Ref 0]"]]
      obj_refcount_correct[OF r b[of "[Take_Ref 0, Drop_Ref 0, Drop_Ref 0, Take_Ref 0]"]] by auto
qed

end
