(* ===== verification/Nc_Room.thy ===== *)
theory Nc_Room
  imports Nc_Objmap
begin

text \<open>
  Rooms (\<open>src/room.c\<close>): the users, objects and verbs of a room. Every function takes the
  room's id and goes through \<open>room_get\<close>. The hooks are those of the row of \<open>netcosm_world\<close> that
  the room was made from. The hash table of users is keyed by login name, like that of verbs
  by verb name; the objects are a multimap (\<open>Nc_Objmap\<close>).
\<close>

section \<open>Rooms and their maps\<close>

definition room_data :: "('u, 'm) world_module \<Rightarrow> room_id \<Rightarrow> ('u, 'm) roomdata_t res" where
  "room_data wm rid =
     (if 0 \<le> rid \<and> nat rid < length (wm_world wm) then Inr (wm_world wm ! nat rid) else Inl Out_Of_Bounds)"

text \<open>Running an operation on the objects of a room.\<close>

definition room_objects ::
  "room_id \<Rightarrow> ('u om \<Rightarrow> ('a \<times> 'u om) res) \<Rightarrow> ('u, 'm) server_state \<Rightarrow> ('a \<times> ('u, 'm) server_state) res" where
  "room_objects rid f st =
     res_bind (room_get rid st) (\<lambda>room.
     res_bind (f (rm_objects room, sv_obj st)) (\<lambda>(r, m, os).
       Inr (r, sv_set_obj os (room_set rid (room\<lparr>rm_objects := m\<rparr>) st))))"

definition OBJMAP_SIZE :: nat where "OBJMAP_SIZE = 8"
definition VERBMAP_SZ :: nat where "VERBMAP_SZ = 8"

text \<open>\<open>room_init_maps\<close>; the parameter is \<open>userdb_size()\<close>.\<close>

definition room_init_maps :: "u64 \<Rightarrow> 'u room_t \<Rightarrow> 'u room_t" where
  "room_init_maps n_users room =
     room\<lparr>rm_users := hash_init (unat (n_users div 2 + 1)) hash_djb compare_strings,
          rm_objects := obj_map_init OBJMAP_SIZE,
          rm_verbs := hash_setfreedata_cb (hash_init VERBMAP_SZ hash_djb compare_strings) (Some verb_free)\<rparr>"

section \<open>Users\<close>

text \<open>
  \<open>room_get\<close> never returns NULL, so the check for an unknown room cannot fail. The hooks run
  after the table is updated and their answer is ignored.
\<close>

definition call_hook ::
  "(room_id \<Rightarrow> user_ptr \<Rightarrow> ('u, 'm) server_state \<Rightarrow> (bool \<times> ('u, 'm) server_state) res) option \<Rightarrow>
   room_id \<Rightarrow> user_ptr \<Rightarrow> ('u, 'm) server_state \<Rightarrow> ('u, 'm) server_state res" where
  "call_hook hook rid c st =
     (case hook of None \<Rightarrow> Inr st | Some f \<Rightarrow> res_bind (f rid c st) (\<lambda>(_, st). Inr st))"

definition room_user_add ::
  "('u, 'm) world_module \<Rightarrow> room_id \<Rightarrow> user_ptr \<Rightarrow> ('u, 'm) server_state \<Rightarrow> (bool \<times> ('u, 'm) server_state) res" where
  "room_user_add wm rid c st =
     res_bind (room_get rid st) (\<lambda>room.
     res_bind (room_data wm rid) (\<lambda>data.
     res_bind (child_get c st) (\<lambda>child.
       case cd_user child of
         None \<Rightarrow> Inr (False, st)
       | Some user \<Rightarrow>
           res_bind (hash_insert (rm_users room) user c) (\<lambda>(old, users).
           res_bind (call_hook (rd_hook_enter data) rid c (room_set rid (room\<lparr>rm_users := users\<rparr>) st)) (\<lambda>st.
           Inr (old = None, st))))))"

definition room_user_del ::
  "('u, 'm) world_module \<Rightarrow> room_id \<Rightarrow> user_ptr \<Rightarrow> ('u, 'm) server_state \<Rightarrow> (bool \<times> ('u, 'm) server_state) res" where
  "room_user_del wm rid c st =
     res_bind (room_get rid st) (\<lambda>room.
     res_bind (room_data wm rid) (\<lambda>data.
     res_bind (child_get c st) (\<lambda>child.
       case cd_user child of
         None \<Rightarrow> Inr (False, st)
       | Some user \<Rightarrow>
           res_bind (hash_remove (rm_users room) user ()) (\<lambda>(ret, users, _).
           res_bind (call_hook (rd_hook_leave data) rid c (room_set rid (room\<lparr>rm_users := users\<rparr>) st)) (\<lambda>st.
           Inr (ret, st))))))"

definition room_user_teleport ::
  "('u, 'm) world_module \<Rightarrow> user_ptr \<Rightarrow> room_id \<Rightarrow> ('u, 'm) server_state \<Rightarrow> ('u, 'm) server_state res" where
  "room_user_teleport wm c rid st =
     res_bind (child_get c st) (\<lambda>child.
       if cd_room child \<noteq> rid then
         res_bind (room_user_del wm (cd_room child) c st) (\<lambda>(_, st).
         res_bind (room_user_add wm rid c st) (\<lambda>(_, st). Inr st))
       else Inr st)"

section \<open>Objects\<close>

text \<open>The map takes over the caller's reference for the name and a new one for each alias.\<close>

definition room_obj_add ::
  "room_id \<Rightarrow> obj_ptr \<Rightarrow> ('u, 'm) server_state \<Rightarrow> (bool \<times> ('u, 'm) server_state) res" where
  "room_obj_add rid p st =
     room_objects rid (\<lambda>mo.
       res_bind (obj_deref p (snd mo)) (\<lambda>obj.
       res_bind (om_insert (obj_name obj) p mo) (\<lambda>(fresh, mo).
       om_insert_aliases p (obj_alias_list obj) fresh mo))) st"

definition room_obj_get :: "room_id \<Rightarrow> string \<Rightarrow> ('u, 'm) server_state \<Rightarrow> (string \<times> obj_ptr) list option res" where
  "room_obj_get rid name st =
     res_bind (room_get rid st) (\<lambda>room. Inr (map_option fst (multimap_lookup (rm_objects room) name)))"

definition room_obj_get_size ::
  "room_id \<Rightarrow> string \<Rightarrow> ('u, 'm) server_state \<Rightarrow> ((string \<times> obj_ptr) list \<times> nat) option res" where
  "room_obj_get_size rid name st =
     res_bind (room_get rid st) (\<lambda>room. Inr (multimap_lookup (rm_objects room) name))"

definition room_obj_add_alias ::
  "room_id \<Rightarrow> obj_ptr \<Rightarrow> string \<Rightarrow> ('u, 'm) server_state \<Rightarrow> (bool \<times> ('u, 'm) server_state) res" where
  "room_obj_add_alias rid p alias st =
     res_bind (obj_deref p (sv_obj st)) (\<lambda>obj.
     res_bind (room_obj_get rid (obj_name obj) st) (\<lambda>found.
     res_bind (if found = None then res_bind (room_obj_add rid p st) (\<lambda>(_, st). Inr st) else Inr st) (\<lambda>st.
     res_bind (obj_deref p (sv_obj st)) (\<lambda>obj.
       if strcmp alias (obj_name obj) = 0 then Inr (False, st)
       else if \<exists>a\<in>set (obj_alias_list obj). strcasecmp a alias = 0 then Inr (False, st)
       else
         let obj = obj\<lparr>obj_alias_list := alias # obj_alias_list obj, obj_n_alias := obj_n_alias obj + 1\<rparr> in
         room_objects rid (om_insert_dup alias p) (sv_set_obj (obj_store p obj (sv_obj st)) st)))))"

text \<open>\<open>room_obj_iterate\<close>: one step; the map is that of the room given on the first call.\<close>

definition room_obj_iterate ::
  "room_id \<Rightarrow> iterstate \<Rightarrow> ('u, 'm) server_state \<Rightarrow> (((string \<times> obj_ptr) list \<times> nat) \<times> iterstate) option res" where
  "room_obj_iterate rid save st =
     res_bind (room_get rid st) (\<lambda>room. Inr (multimap_iterate (rm_objects room) save))"

definition room_obj_count :: "room_id \<Rightarrow> ('u, 'm) server_state \<Rightarrow> nat res" where
  "room_obj_count rid st = res_bind (room_get rid st) (\<lambda>room. Inr (multimap_size (rm_objects room)))"

definition room_obj_count_noalias :: "room_id \<Rightarrow> ('u, 'm) server_state \<Rightarrow> nat res" where
  "room_obj_count_noalias rid st =
     res_bind (room_get rid st) (\<lambda>room. obj_count_noalias (rm_objects room) (sv_obj st))"

definition room_obj_del_by_ptr ::
  "room_id \<Rightarrow> obj_ptr \<Rightarrow> ('u, 'm) server_state \<Rightarrow> (bool \<times> ('u, 'm) server_state) res" where
  "room_obj_del_by_ptr rid p st = room_objects rid (om_del_by_ptr p) st"

definition room_obj_del ::
  "room_id \<Rightarrow> string \<Rightarrow> ('u, 'm) server_state \<Rightarrow> (bool \<times> ('u, 'm) server_state) res" where
  "room_obj_del rid name st =
     room_objects rid (\<lambda>mo.
       case multimap_lookup (fst mo) name of
         None \<Rightarrow> Inr (False, mo)
       | Some (iter, _) \<Rightarrow> res_bind (om_del_cells name iter mo) (\<lambda>mo. Inr (True, mo))) st"

section \<open>Verbs\<close>

definition room_verb_map :: "room_id \<Rightarrow> ('u, 'm) server_state \<Rightarrow> verb_map res" where
  "room_verb_map rid st = res_bind (room_get rid st) (\<lambda>room. Inr (rm_verbs room))"

definition room_verb_add ::
  "room_id \<Rightarrow> verb_t \<Rightarrow> ('u, 'm) server_state \<Rightarrow> (bool \<times> ('u, 'm) server_state) res" where
  "room_verb_add rid verb st =
     res_bind (room_get rid st) (\<lambda>room.
     res_bind (hash_insert (rm_verbs room) (vb_name verb) verb) (\<lambda>(old, verbs).
       Inr (old = None, room_set rid (room\<lparr>rm_verbs := verbs\<rparr>) st)))"

text \<open>
  \<open>room_verb_del\<close> hands the room itself to \<open>hash_remove\<close>, which reads the first byte of the
  structure, the low byte of the room's id, as the sentinel of a hash map. If that byte happens
  to be the sentinel, the fields of the room are used as the functions and the table of the
  map.
\<close>

definition HASH_SENTINEL :: int where "HASH_SENTINEL = 16"

definition room_verb_del ::
  "room_id \<Rightarrow> string \<Rightarrow> ('u, 'm) server_state \<Rightarrow> (bool \<times> ('u, 'm) server_state) res" where
  "room_verb_del rid name st =
     res_bind (room_get rid st) (\<lambda>room.
       if rm_id room mod 256 \<noteq> HASH_SENTINEL then Inl (Error ''hash/multimap mixing'')
       else Inl Out_Of_Bounds)"

section \<open>Freeing\<close>

definition room_free ::
  "('u, 'm) world_module \<Rightarrow> room_id \<Rightarrow> ('u, 'm) server_state \<Rightarrow> ('u, 'm) server_state res" where
  "room_free wm rid st =
     res_bind (room_get rid st) (\<lambda>room.
     res_bind (room_data wm rid) (\<lambda>data.
     res_bind (case rd_hook_destroy data of None \<Rightarrow> Inr st | Some f \<Rightarrow> f (rm_id room) st) (\<lambda>st.
     res_bind (room_get rid st) (\<lambda>room.
     res_bind (hash_free (rm_users room) ()) (\<lambda>_.
     res_bind (multimap_free (rm_objects room) (sv_obj st)) (\<lambda>(_, os).
     res_bind (hash_free (rm_verbs room) ()) (\<lambda>_.
       Inr (sv_set_obj os st))))))))"

section \<open>Lemmas\<close>

lemma room_objectsE:
  assumes "room_objects rid f st = Inr (r, st')" "room_get rid st = Inr room"
  obtains m os where "f (rm_objects room, sv_obj st) = Inr (r, (m, os))"
    "room_get rid st' = Inr (room\<lparr>rm_objects := m\<rparr>)" "sv_obj st' = os"
    "st' = sv_set_obj os (room_set rid (room\<lparr>rm_objects := m\<rparr>) st)"
  using assms room_get_set[OF assms(2), of rid] by (auto simp: room_objects_def res_bind_eq_Inr)

lemma room_objects_Inr:
  "room_get rid st = Inr room \<Longrightarrow> f (rm_objects room, sv_obj st) = Inr (r, (m, os)) \<Longrightarrow>
   room_objects rid f st = Inr (r, sv_set_obj os (room_set rid (room\<lparr>rm_objects := m\<rparr>) st))"
  by (simp add: room_objects_def)

text \<open>The lists a run of insertions leaves: nothing is lost, and every alias finds the object.\<close>

definition om_has :: "'u obj_map \<Rightarrow> string \<Rightarrow> obj_ptr \<Rightarrow> bool" where
  "om_has m key p \<longleftrightarrow> (\<exists>l n. multimap_lookup m key = Some (l, n) \<and> p \<in> snd ` set l)"

lemma om_has_list: "mm_wf m \<Longrightarrow> om_has m key p \<longleftrightarrow> p \<in> snd ` set (mm_list m key)"
  by (auto simp: om_has_def multimap_lookup_list)

lemma om_insert_has:
  assumes "om_ok m" "om_insert key p (m, os) = Inr (fresh, (m', os'))" "mm_sz m' dvd 32"
  shows "om_has m' key p" "om_has m k q \<Longrightarrow> om_has m' k q"
proof -
  note i = om_insert_ok(5)[OF assms]
  have wf: "mm_wf m" "mm_wf m'" using i assms(1) by (simp_all add: om_ok_def)
  show "om_has m' key p" "om_has m k q \<Longrightarrow> om_has m' k q"
    using i by (auto simp: om_has_list wf)
qed

lemma om_insert_aliases_has:
  assumes "om_ok m" "om_insert_aliases p as b (m, os) = Inr (b', (m', os'))" "mm_sz m' dvd 32"
  shows "\<forall>a\<in>set as. om_has m' a p" "om_has m k q \<Longrightarrow> om_has m' k q"
proof -
  have "(\<forall>a\<in>set as. om_has m' a p) \<and> (\<forall>k q. om_has m k q \<longrightarrow> om_has m' k q)"
    using assms
  proof (induction as arbitrary: m os b)
    case (Cons a as)
    obtain os1 fresh m1 os2 where ins: "om_insert a p (m, os1) = Inr (fresh, (m1, os2))"
      and rest: "om_insert_aliases p as (if fresh then b else False) (m1, os2) = Inr (b', (m', os'))"
      using Cons.prems(2) by (auto simp: res_bind_eq_Inr om_insert_dup_def obj_dup_def)
    have "mm_sz m1 dvd mm_sz m'" using om_aliases_grow[OF rest] by simp
    then have sz: "mm_sz m1 dvd 32" using Cons.prems(3) dvd_trans by blast
    note one = om_insert_has[OF Cons.prems(1) ins sz] and ok1 = om_insert_ok(5)[OF Cons.prems(1) ins sz]
    show ?case using Cons.IH[OF conjunct1[OF ok1] rest Cons.prems(3)] one by simp
  qed simp
  then show "\<forall>a\<in>set as. om_has m' a p" "om_has m k q \<Longrightarrow> om_has m' k q" by blast+
qed

section \<open>A sample world\<close>

text \<open>Two rooms without hooks, a lamp that the caller holds, and a child logged in as ``ann''.\<close>

definition plain_room :: "string \<Rightarrow> ('u, 'm) roomdata_t" where
  "plain_room uid = \<lparr>rd_uniq_id = uid, rd_name = uid, rd_desc = ''A room.'',
     rd_adjacent = replicate NUM_DIRECTIONS None, rd_hook_init = None, rd_hook_enter = None,
     rd_hook_leave = None, rd_hook_serialize = None, rd_hook_deserialize = None, rd_hook_destroy = None\<rparr>"

definition sample_module :: "(unit, unit) world_module" where
  "sample_module = \<lparr>wm_verb_classes = [], wm_obj_classes = [plain_class ''lamp''],
     wm_world = [plain_room ''hall'', plain_room ''cave''], wm_world_name = ''sample'',
     wm_write_userdata_cb = None, wm_read_userdata_cb = None, wm_raw_mode_cb = (\<lambda>_ _ _ st. Inr st),
     wm_simulation_cb = None, wm_simulation_interval = 0\<rparr>"

definition sample_lamp :: "unit object_t" where
  "sample_lamp = \<lparr>obj_id = 1, obj_name = ''lamp'', obj_class = 0, obj_n_alias = 0, obj_alias_list = [],
     obj_hidden = False, obj_default_article = True, obj_userdata = None, obj_refcount = 1\<rparr>"

definition sample_child :: child_data where
  "sample_child = \<lparr>cd_pid = 77, cd_outpipe = [], cd_state = STATE_LOGGEDIN, cd_room = 0, cd_user = Some ''ann'',
     cd_raw_mode_cb = None, cd_addr = ''127.0.0.1''\<rparr>"

definition sample_rooms :: "unit room_t list" where
  "sample_rooms = [room_init_maps 1 room_zero\<lparr>rm_id := 0\<rparr>, room_init_maps 1 room_zero\<lparr>rm_id := 1\<rparr>]"

definition sample_state :: "(unit, unit) server_state" where
  "sample_state = (initial_state ())\<lparr>sv_world := sample_rooms, sv_children := [0 \<mapsto> sample_child],
     sv_heap := \<lparr>dh_obj = \<lparr>os_heap = [0 \<mapsto> sample_lamp], os_next = 1, os_idcounter = 2, os_class_map = None\<rparr>,
       dh_maps = Map.empty, dh_next = 0\<rparr>\<rparr>"

definition lamp_held :: "obj_ptr \<Rightarrow> nat" where
  "lamp_held = (\<lambda>_. 0)(0 := 1)"

lemma sample_simps:
  "room_get 0 sample_state = Inr (sample_rooms ! 0)" "room_get 1 sample_state = Inr (sample_rooms ! 1)"
  "room_data sample_module 0 = Inr (plain_room ''hall'')" "room_data sample_module 1 = Inr (plain_room ''cave'')"
  "os_heap (sv_obj sample_state) 0 = Some sample_lamp" "sv_children sample_state 0 = Some sample_child"
  "rm_objects (sample_rooms ! 0) = obj_map_init 8"
  "cd_user sample_child = Some ''ann''" "cd_room sample_child = 0"
  "rd_hook_enter (plain_room uid) = None" "rd_hook_leave (plain_room uid) = None"
  by (simp_all add: room_get_def room_data_def sample_state_def sample_rooms_def sample_module_def initial_state_def
      room_init_maps_def OBJMAP_SIZE_def sample_child_def plain_room_def)

lemma sample_tables: "str_table (rm_users (sample_rooms ! 0))" "str_table (rm_users (sample_rooms ! 1))"
  "hash_lookup (rm_users (sample_rooms ! 0)) = Map.empty" "hash_lookup (rm_users (sample_rooms ! 1)) = Map.empty"
  by (simp_all add: sample_rooms_def room_init_maps_def exact_table_init)

lemma sample_objects: "om_ok (rm_objects (sample_rooms ! 0))" "mm_counted (rm_objects (sample_rooms ! 0))"
  "refs_exact (\<lambda>q. lamp_held q + om_refs (rm_objects (sample_rooms ! 0)) q) (sv_obj sample_state)"
  "om_refs (rm_objects (sample_rooms ! 0)) q = 0" "mm_list (rm_objects (sample_rooms ! 0)) key = []"
proof -
  show "om_ok (rm_objects (sample_rooms ! 0))" "mm_counted (rm_objects (sample_rooms ! 0))"
    "om_refs (rm_objects (sample_rooms ! 0)) q = 0"
    by (simp_all add: sample_simps obj_map_init_ok)
  show "refs_exact (\<lambda>q. lamp_held q + om_refs (rm_objects (sample_rooms ! 0)) q) (sv_obj sample_state)"
    by (simp add: obj_map_init_ok sample_simps refs_exact_def lamp_held_def sample_state_def sample_lamp_def)
  show "mm_list (rm_objects (sample_rooms ! 0)) key = []"
    by (simp add: sample_simps obj_map_init_def multimap_setfreedata_cb_def multimap_init_def mm_list_lookup)
qed

section \<open>Properties\<close>


text \<open>A room with the lamp, of which the caller holds a reference as well.\<close>

definition lamp_room :: "unit obj_map \<Rightarrow> (unit, unit) server_state" where
  "lamp_room m = sv_set_obj (held_lamp 2) (room_set 0 ((sample_rooms ! 0)\<lparr>rm_objects := m\<rparr>) sample_state)"


text \<open>Entering and leaving a room without hooks keeps its table of users right: adding
  reports whether the name was new and maps it to the child, removing reports whether it was there
  and forgets it; a child that is not logged in changes nothing.\<close>

theorem room_user_correct:
  assumes "room_get rid st = Inr room" "room_data wm rid = Inr data" "rd_hook_enter data = None" "rd_hook_leave data = None"
    and "sv_children st c = Some child" "cd_user child = Some user" "str_table (rm_users room)"
  shows "(\<exists>st' room'. room_user_add wm rid c st = Inr (hash_lookup (rm_users room) user = None, st') \<and>
      room_get rid st' = Inr room' \<and> str_table (rm_users room') \<and>
      hash_lookup (rm_users room') user = Some (case hash_lookup (rm_users room) user of None \<Rightarrow> c | Some d \<Rightarrow> d)) \<and>
    (\<exists>st' room'. room_user_del wm rid c st = Inr (hash_lookup (rm_users room) user \<noteq> None, st') \<and>
      room_get rid st' = Inr room' \<and> str_table (rm_users room') \<and>
      hash_lookup (rm_users room') = (hash_lookup (rm_users room))(user := None))"
proof
  note defs = room_user_add_def room_user_del_def child_get_def call_hook_def
  show "\<exists>st' room'. room_user_add wm rid c st = Inr (hash_lookup (rm_users room) user = None, st') \<and>
      room_get rid st' = Inr room' \<and> str_table (rm_users room') \<and>
      hash_lookup (rm_users room') user = Some (case hash_lookup (rm_users room) user of None \<Rightarrow> c | Some d \<Rightarrow> d)"
  proof (cases "hash_lookup (rm_users room) user")
    case None
    obtain users where "hash_insert (rm_users room) user c = Inr (None, users)" "str_table users"
      "hash_lookup users = (hash_lookup (rm_users room))(user \<mapsto> c)"
      using str_map.insert_absent[OF assms(7) None] by blast
    then show ?thesis using assms(1-6) None room_get_set[OF assms(1), of rid] by (simp add: defs)
  next
    case (Some d)
    then show ?thesis
      using assms str_map.insert_present[OF assms(7) Some, of c] room_get_set[OF assms(1), of rid] by (simp add: defs)
  qed
  show "\<exists>st' room'. room_user_del wm rid c st = Inr (hash_lookup (rm_users room) user \<noteq> None, st') \<and>
      room_get rid st' = Inr room' \<and> str_table (rm_users room') \<and>
      hash_lookup (rm_users room') = (hash_lookup (rm_users room))(user := None)"
  proof (cases "hash_lookup (rm_users room) user")
    case None
    then show ?thesis
      using assms str_map.remove_absent[OF assms(7) None, of "()"] room_get_set[OF assms(1), of rid]
      by (simp add: defs fun_upd_idem)
  next
    case (Some d)
    obtain users where "hash_remove (rm_users room) user () = Inr (True, users, ())" "str_table users"
      "hash_lookup users = (hash_lookup (rm_users room))(user := None)"
      using str_map.remove_present[OF assms(7) Some, of "()"] by auto
    then show ?thesis using assms(1-6) Some room_get_set[OF assms(1), of rid] by (simp add: defs)
  qed
qed

theorem room_user_correct_witness:
  "\<exists>st' room'. room_user_add sample_module 0 0 sample_state = Inr (True, st') \<and> room_get 0 st' = Inr room' \<and>
     hash_lookup (rm_users room') ''ann'' = Some 0"
  using room_user_correct[OF sample_simps(1,3,10,11,6,8) sample_tables(1)] by (auto simp: sample_tables)

text \<open>\<open>room_user_teleport\<close> moves the user from the table of one room to that of another
  but never changes \<open>child->room\<close>, so the server goes on treating the child as being where it
  was: every later request looks at the old room, and a second teleport removes it from the
  wrong one.\<close>

theorem room_user_teleport_keeps_child_room:
  assumes "\<And>data f rid c st b st'. data \<in> set (wm_world wm) \<Longrightarrow> rd_hook_enter data = Some f \<or> rd_hook_leave data = Some f \<Longrightarrow>
      f rid c st = Inr (b, st') \<Longrightarrow> sv_children st' = sv_children st"
    and "room_user_teleport wm c rid st = Inr st'"
  shows "sv_children st' = sv_children st"
proof -
  have hooks: "sv_children st2 = sv_children st1"
    if "room_data wm r = Inr data" "hook = rd_hook_enter data \<or> hook = rd_hook_leave data" "call_hook hook r c st1 = Inr st2"
    for r data hook st1 st2
  proof -
    have "data \<in> set (wm_world wm)" using that(1) by (auto simp: room_data_def split: if_splits)
    show ?thesis
    proof (cases hook)
      case (Some f)
      then have "rd_hook_enter data = Some f \<or> rd_hook_leave data = Some f" using that(2) by auto
      with assms(1)[OF \<open>data \<in> set (wm_world wm)\<close> this] that(3) Some show ?thesis
        by (auto simp: call_hook_def res_bind_eq_Inr)
    qed (use that(3) in \<open>simp add: call_hook_def\<close>)
  qed
  have add: "sv_children st2 = sv_children st1" if "room_user_add wm r c st1 = Inr (b, st2)" for r st1 st2 b
    using that hooks by (fastforce simp: room_user_add_def res_bind_eq_Inr split: option.splits)
  have del: "sv_children st2 = sv_children st1" if "room_user_del wm r c st1 = Inr (b, st2)" for r st1 st2 b
    using that hooks by (fastforce simp: room_user_del_def res_bind_eq_Inr split: option.splits)
  show ?thesis
    using assms(2) add del by (fastforce simp: room_user_teleport_def res_bind_eq_Inr split: if_splits)
qed

theorem room_user_teleport_keeps_child_room_witness:
  "\<exists>st'. room_user_teleport sample_module 0 1 sample_state = Inr st' \<and> sv_children st' 0 = Some sample_child \<and>
     cd_room sample_child = 0 \<and> hash_lookup (rm_users (sv_world st' ! 1)) ''ann'' = Some 0"
proof -
  obtain users where u: "hash_insert (rm_users (sample_rooms ! 1)) ''ann'' 0 = Inr (None, users)"
    "hash_lookup users = [''ann'' \<mapsto> 0]"
    using str_map.insert_absent[OF sample_tables(2), of "''ann''" 0] sample_tables(4) by auto
  let ?r0 = "sample_rooms ! 0" let ?r1 = "(sample_rooms ! 1)\<lparr>rm_users := users\<rparr>"
  let ?st1 = "room_set 0 ?r0 sample_state" let ?st = "room_set 1 ?r1 ?st1"
  have rm: "hash_remove (rm_users ?r0) ''ann'' () = Inr (False, rm_users ?r0, ())"
    using str_map.remove_absent[OF sample_tables(1)] sample_tables(3) by simp
  have del: "room_user_del sample_module 0 0 sample_state = Inr (False, ?st1)"
    using rm by (simp add: room_user_del_def sample_simps child_get_def call_hook_def)
  have get: "room_get 1 ?st1 = Inr (sample_rooms ! 1)" "sv_children ?st1 0 = Some sample_child"
    using room_get_set[OF sample_simps(1), of 1] by (simp_all add: sample_simps)
  have add: "room_user_add sample_module 1 0 ?st1 = Inr (True, ?st)"
    using get u(1) by (simp add: room_user_add_def sample_simps child_get_def call_hook_def)
  have tp: "room_user_teleport sample_module 0 1 sample_state = Inr ?st"
    by (simp add: room_user_teleport_def child_get_def sample_simps del add)
  have no: "\<And>data f rid c st b st'. data \<in> set (wm_world sample_module) \<Longrightarrow>
      rd_hook_enter data = Some f \<or> rd_hook_leave data = Some f \<Longrightarrow> f rid c st = Inr (b, st') \<Longrightarrow> sv_children st' = sv_children st"
    by (auto simp: sample_module_def plain_room_def)
  have "sv_children ?st = sv_children sample_state"
    by (rule room_user_teleport_keeps_child_room[OF no tp])
  moreover have "sv_world ?st ! 1 = ?r1"
    by (simp add: room_set_def sample_state_def sample_rooms_def)
  ultimately show ?thesis using tp u(2) by (simp add: sample_simps)
qed

text \<open>\<open>room_verb_del\<close> can never succeed: with any room of which it is called, the server
  dies.\<close>

theorem room_verb_del_crashes:
  "\<exists>e. room_verb_del rid name st = Inl e"
  by (auto simp: room_verb_del_def res_bind_def split: sum.splits)

end
