(* ===== verification/Nc_World.thy ===== *)
theory Nc_World
  imports Nc_Room
begin

text \<open>
  The world (\<open>src/world.c\<close>): building the rooms from the world module's array, saving them to
  a file and loading them from one, the global verbs, and the map of room names. The
  simulation timer is libev's and is not modelled. \<open>world == NULL\<close> is the empty list of
  rooms. Debug output is dropped, except the warnings about one-way doors, which
  \<open>world_init\<close> returns.
\<close>

section \<open>Global verbs\<close>

definition GLOBAL_VERBMAP_SZ :: nat where "GLOBAL_VERBMAP_SZ = 32"

definition init_map :: "('u, 'm) server_state \<Rightarrow> verb_map \<times> ('u, 'm) server_state" where
  "init_map st =
     (case sv_global_verbs st of
        Some tab \<Rightarrow> (tab, st)
      | None \<Rightarrow>
          let tab = hash_setfreedata_cb (hash_init GLOBAL_VERBMAP_SZ hash_djb compare_strings) (Some verb_free)
          in (tab, st\<lparr>sv_global_verbs := Some tab\<rparr>))"

definition world_verb_add :: "verb_t \<Rightarrow> ('u, 'm) server_state \<Rightarrow> (bool \<times> ('u, 'm) server_state) res" where
  "world_verb_add verb st =
     (let (tab, st) = init_map st in
      res_bind (hash_insert tab (vb_name verb) verb) (\<lambda>(old, tab).
        Inr (old = None, st\<lparr>sv_global_verbs := Some tab\<rparr>)))"

definition world_verb_del :: "verb_t \<Rightarrow> ('u, 'm) server_state \<Rightarrow> (bool \<times> ('u, 'm) server_state) res" where
  "world_verb_del verb st =
     (let (tab, st) = init_map st in
      res_bind (hash_remove tab (vb_name verb) ()) (\<lambda>(found, tab, _).
        Inr (found, st\<lparr>sv_global_verbs := Some tab\<rparr>)))"

definition world_verb_map :: "('u, 'm) server_state \<Rightarrow> verb_map \<times> ('u, 'm) server_state" where
  "world_verb_map st = init_map st"

definition room_get_id :: "string \<Rightarrow> ('u, 'm) server_state \<Rightarrow> room_id" where
  "room_get_id uniq_id st =
     (case hash_lookup (sv_world_map st) uniq_id of None \<Rightarrow> ROOM_NONE | Some i \<Rightarrow> rm_id (sv_world st ! i))"

definition userdb_size :: "('u, 'm) server_state \<Rightarrow> u64" where
  "userdb_size st = hash_size (sv_db_map st)"

section \<open>Building the world\<close>

text \<open>One adjacent room of the first pass: names not known yet leave the entry alone.\<close>

definition link_known :: "(string, nat, unit) hash_map \<Rightarrow> 'u room_t list \<Rightarrow> string option \<Rightarrow> room_id \<Rightarrow> room_id" where
  "link_known tab rooms adj old =
     (case adj of
        None \<Rightarrow> old
      | Some name \<Rightarrow> (case hash_lookup tab name of None \<Rightarrow> old | Some i \<Rightarrow> rm_id (rooms ! i)))"

text \<open>Round \<open>i\<close> of the first loop of \<open>world_init\<close>.\<close>

definition init_room ::
  "u64 \<Rightarrow> ('u, 'm) roomdata_t \<Rightarrow> nat \<Rightarrow> (string, nat, unit) hash_map \<times> 'u room_t list \<Rightarrow>
   ((string, nat, unit) hash_map \<times> 'u room_t list) res" where
  "init_room n_users data i = (\<lambda>(tab, rooms).
     let room = (rooms ! i)\<lparr>rm_id := int i, rm_name := rd_name data, rm_desc := rd_desc data\<rparr>;
         rooms = rooms[i := room] in
     res_bind (hash_insert tab (rd_uniq_id data) i) (\<lambda>(old, tab).
       if old \<noteq> None then Inl (Error (''Duplicate room ID '' @ rd_uniq_id data))
       else
         let room = room\<lparr>rm_adjacent := map2 (link_known tab rooms) (rd_adjacent data) (rm_adjacent room)\<rparr> in
         Inr (tab, rooms[i := room_init_maps n_users room])))"

text \<open>The second loop: every name must be known now.\<close>

definition link_room :: "(string, nat, unit) hash_map \<Rightarrow> 'u room_t list \<Rightarrow> string \<Rightarrow> string option \<Rightarrow> room_id res" where
  "link_room tab rooms uid adj =
     (case adj of
        None \<Rightarrow> Inr ROOM_NONE
      | Some name \<Rightarrow>
          (case hash_lookup tab name of
             None \<Rightarrow> Inl (Error (''unknown room '' @ name @ '' referenced from '' @ uid))
           | Some i \<Rightarrow> Inr (rm_id (rooms ! i))))"

fun res_map :: "('a \<Rightarrow> 'b res) \<Rightarrow> 'a list \<Rightarrow> 'b list res" where
  "res_map f [] = Inr []"
| "res_map f (x # xs) = res_bind (f x) (\<lambda>y. res_bind (res_map f xs) (\<lambda>ys. Inr (y # ys)))"

definition link_rooms ::
  "(string, nat, unit) hash_map \<Rightarrow> ('u, 'm) roomdata_t \<Rightarrow> nat \<Rightarrow> 'u room_t list \<Rightarrow> 'u room_t list res" where
  "link_rooms tab data i rooms =
     res_bind (res_map (link_room tab rooms (rd_uniq_id data)) (rd_adjacent data)) (\<lambda>adj.
       Inr (rooms[i := (rooms ! i)\<lparr>rm_adjacent := adj\<rparr>]))"

definition direction_pairs :: "(direction_t \<times> direction_t) list" where
  "direction_pairs = [(DIR_N, DIR_S), (DIR_NE, DIR_SW), (DIR_E, DIR_W), (DIR_SE, DIR_NW), (DIR_UP, DIR_DN), (DIR_IN, DIR_OT)]"

text \<open>The map of opposite directions: first every pair, then every pair turned round.\<close>

definition opposite_map :: "(int, nat, unit) hash_map res" where
  "opposite_map =
     insert_skipping hash_insert (hash_init (length direction_pairs * 2) simp_hash simp_equal)
       (map (\<lambda>(d, opp). (int (dir_num d), dir_num opp)) direction_pairs @
        map (\<lambda>(d, opp). (int (dir_num opp), dir_num d)) direction_pairs)"

text \<open>The directions of room \<open>i\<close> whose way back does not return: \<open>*opp\<close> of an unknown
  direction would be a NULL dereference.\<close>

fun one_way_doors ::
  "(int, nat, unit) hash_map \<Rightarrow> 'u room_t list \<Rightarrow> nat \<Rightarrow> nat list \<Rightarrow> (nat \<times> nat) list res" where
  "one_way_doors dir_map rooms i [] = Inr []"
| "one_way_doors dir_map rooms i (j # js) =
     (let a = rm_adjacent (rooms ! i) ! j in
      if a = ROOM_NONE then one_way_doors dir_map rooms i js
      else
        (case hash_lookup dir_map (int j) of
           None \<Rightarrow> Inl Null_Deref
         | Some opp \<Rightarrow>
             if nat a \<ge> length rooms then Inl Out_Of_Bounds
             else
               res_bind (one_way_doors dir_map rooms i js) (\<lambda>rest.
                 Inr (if rm_adjacent (rooms ! nat a) ! opp \<noteq> int i then (i, j) # rest else rest))))"

text \<open>The third loop: the init hook of each room, then its doors.\<close>

fun init_hooks ::
  "('u, 'm) world_module \<Rightarrow> (int, nat, unit) hash_map \<Rightarrow> nat list \<Rightarrow> ('u, 'm) server_state \<Rightarrow>
   ((nat \<times> nat) list \<times> ('u, 'm) server_state) res" where
  "init_hooks wm dir_map [] st = Inr ([], st)"
| "init_hooks wm dir_map (i # is) st =
     res_bind (case rd_hook_init (wm_world wm ! i) of None \<Rightarrow> Inr st | Some f \<Rightarrow> f (rm_id (sv_world st ! i)) st) (\<lambda>st.
     res_bind (one_way_doors dir_map (sv_world st) i [0..<NUM_DIRECTIONS]) (\<lambda>doors.
     res_bind (init_hooks wm dir_map is st) (\<lambda>(rest, st). Inr (doors @ rest, st))))"

definition world_init ::
  "('u, 'm) world_module \<Rightarrow> ('u, 'm) server_state \<Rightarrow> ((nat \<times> nat) list \<times> ('u, 'm) server_state) res" where
  "world_init wm st =
     (let data = wm_world wm; sz = length data; is = [0..<sz] in
      res_bind (res_fold (\<lambda>i. init_room (userdb_size st) (data ! i) i) is
          (hash_init (sz * 2) hash_djb compare_strings, replicate sz room_zero)) (\<lambda>(tab, rooms).
      res_bind (res_fold (\<lambda>i. link_rooms tab (data ! i) i) is rooms) (\<lambda>rooms.
      res_bind opposite_map (\<lambda>dir_map.
        init_hooks wm dir_map is
          (st\<lparr>sv_world := rooms, sv_world_name := wm_world_name wm, sv_world_map := tab\<rparr>)))))"

section \<open>Freeing the world\<close>

text \<open>\<open>hash_free(world_verb_map())\<close> leaves the static \<open>verb_map\<close> pointing to freed memory. In the model the
  field keeps its old value, since nothing uses the map after that: \<open>world_free\<close> runs at the exit of the server, and in
  \<open>world_load\<close> before there is a world, when it does nothing.\<close>

definition world_free :: "('u, 'm) world_module \<Rightarrow> ('u, 'm) server_state \<Rightarrow> ('u, 'm) server_state res" where
  "world_free wm st =
     (if sv_world st = [] then Inr st
      else
        res_bind (res_fold (\<lambda>i. room_free wm (int i)) [0..<length (sv_world st)] st) (\<lambda>st.
        let (tab, st) = world_verb_map st in
        res_bind (hash_free tab ()) (\<lambda>_.
        res_bind (hash_free (sv_world_map st) ()) (\<lambda>_.
          Inr (st\<lparr>sv_world := [], sv_world_name := []\<rparr>)))))"

section \<open>The simulation\<close>

text \<open>
  \<open>world_init\<close> and \<open>world_load\<close> end by starting a timer for the module's callback, if it has one
  and an interval. The value is what \<open>sim_cb\<close> calls each time the timer expires.
\<close>

definition start_sim_callback ::
  "('u, 'm) world_module \<Rightarrow> (('u, 'm) server_state \<Rightarrow> ('u, 'm) server_state res) option" where
  "start_sim_callback wm =
     (case wm_simulation_cb wm of
        None \<Rightarrow> None
      | Some sim_cb \<Rightarrow> if wm_simulation_interval wm \<noteq> 0 then Some sim_cb else None)"

section \<open>Saving\<close>

definition WORLD_MAGIC :: u32 where "WORLD_MAGIC = 0x31415926"

text \<open>The objects of a map, each written where its own name is the key of the pair.\<close>

definition write_objects ::
  "('u, 'w) obj_class_t list \<Rightarrow> 'u obj_map \<Rightarrow> 'u obj_state \<Rightarrow> string res" where
  "write_objects classes m os =
     res_fold (\<lambda>(key, p) out.
         res_bind (obj_deref p os) (\<lambda>obj.
           Inr (if strcmp key (obj_name obj) = 0 then out @ obj_write classes obj else out)))
       (obj_map_pairs m) []"

definition write_verbs :: "'w verb_class_t list \<Rightarrow> verb_map \<Rightarrow> string" where
  "write_verbs classes tab = concat (map (\<lambda>(_, verb). verb_write classes verb) (hash_iter_loop tab iter_start))"

definition write_room ::
  "('u, 'm) world_module \<Rightarrow> ('u, 'm) server_state \<Rightarrow> nat \<Rightarrow> string \<Rightarrow> string res" where
  "write_room wm st i out =
     (let room = sv_world st ! i in
      res_bind (obj_count_noalias (rm_objects room) (sv_obj st)) (\<lambda>n_objects.
      res_bind (write_objects (wm_obj_classes wm) (rm_objects room) (sv_obj st)) (\<lambda>objects.
        Inr (out @ write_roomid (rm_id room) @ write_string (rm_name room) @ write_string (rm_desc room) @
          concat (map int_bytes (rm_adjacent room)) @
          write_size (of_nat n_objects) @ objects @
          write_size (hash_size (rm_verbs room)) @ write_verbs (wm_verb_classes wm) (rm_verbs room) @
          (case rd_hook_serialize (wm_world wm ! i) of None \<Rightarrow> [] | Some f \<Rightarrow> f (int i) st)))))"

text \<open>\<open>world_save\<close> does not truncate the file: what it does not overwrite stays.\<close>

definition file_overwrite :: "string option \<Rightarrow> string \<Rightarrow> string" where
  "file_overwrite old out = out @ drop (length out) (case old of None \<Rightarrow> [] | Some f \<Rightarrow> f)"

definition world_save :: "('u, 'm) world_module \<Rightarrow> ('u, 'm) server_state \<Rightarrow> ('u, 'm) server_state res" where
  "world_save wm st =
     (let (global_verbs, st) = world_verb_map st in
      res_bind (res_fold (write_room wm st) [0..<length (sv_world st)]
          (write_uint32 WORLD_MAGIC @ write_size (of_nat (length (sv_world st))) @ write_string (sv_world_name st) @
           write_size (hash_size global_verbs) @
           (if hash_size global_verbs \<noteq> 0 then write_verbs (wm_verb_classes wm) global_verbs else []))) (\<lambda>out.
        let out = out @ write_uint64 (obj_get_idcounter (sv_obj st)) @
              concat (map (\<lambda>(key, i). write_string key @ write_roomid (rm_id (sv_world st ! i)))
                (hash_iter_loop (sv_world_map st) iter_start)) in
        Inr (st\<lparr>sv_worldfile := Some (file_overwrite (sv_worldfile st) out)\<rparr>)))"

section \<open>Loading\<close>

text \<open>Reads without a check of the length: bytes missing at the end of the file keep what the
  variable held.\<close>

definition read_unchecked :: "string \<Rightarrow> string \<Rightarrow> string \<times> string" where
  "read_unchecked old fd =
     (let (buf, fd) = file_read (length old) fd in (buf @ drop (length buf) old, fd))"

fun load_global_verbs ::
  "('u, 'm) world_module \<Rightarrow> nat \<Rightarrow> string \<Rightarrow> ('u, 'm) server_state \<Rightarrow> (string \<times> ('u, 'm) server_state) res" where
  "load_global_verbs wm 0 fd st = Inr (fd, st)"
| "load_global_verbs wm (Suc n) fd st =
     res_bind (verb_read (wm_verb_classes wm) fd (sv_verb_classes st)) (\<lambda>(verb, fd, vst).
     res_bind (world_verb_add verb (st\<lparr>sv_verb_classes := vst\<rparr>)) (\<lambda>(fresh, st).
       if \<not> fresh then Inl (Error (''read duplicate global verb '' @ vb_name verb))
       else load_global_verbs wm n fd st))"

fun load_objects ::
  "('u, 'm) world_module \<Rightarrow> room_id \<Rightarrow> nat \<Rightarrow> string \<Rightarrow> ('u, 'm) server_state \<Rightarrow> (string \<times> ('u, 'm) server_state) res" where
  "load_objects wm rid 0 fd st = Inr (fd, st)"
| "load_objects wm rid (Suc n) fd st =
     res_bind (obj_read (wm_obj_classes wm) fd (sv_obj st)) (\<lambda>(p, fd, os).
     res_bind (room_obj_add rid p (sv_set_obj os st)) (\<lambda>(_, st).
       load_objects wm rid n fd st))"

fun load_verbs ::
  "('u, 'm) world_module \<Rightarrow> room_id \<Rightarrow> nat \<Rightarrow> string \<Rightarrow> ('u, 'm) server_state \<Rightarrow> (string \<times> ('u, 'm) server_state) res" where
  "load_verbs wm rid 0 fd st = Inr (fd, st)"
| "load_verbs wm rid (Suc n) fd st =
     res_bind (verb_read (wm_verb_classes wm) fd (sv_verb_classes st)) (\<lambda>(verb, fd, vst).
     res_bind (room_verb_add rid verb (st\<lparr>sv_verb_classes := vst\<rparr>)) (\<lambda>(fresh, st).
       if \<not> fresh then Inl (Error (''duplicate verb '' @ vb_name verb))
       else load_verbs wm rid n fd st))"

text \<open>\<open>NUM_DIRECTIONS\<close> ints, four bytes each.\<close>

fun split_ints :: "nat \<Rightarrow> string \<Rightarrow> int list" where
  "split_ints 0 buf = []"
| "split_ints (Suc n) buf = int_val (take 4 buf) # split_ints n (drop 4 buf)"

definition load_room ::
  "('u, 'm) world_module \<Rightarrow> nat \<Rightarrow> string \<Rightarrow> ('u, 'm) server_state \<Rightarrow> (string \<times> ('u, 'm) server_state) res" where
  "load_room wm i fd st =
     (let room = room_init_maps (userdb_size st) (sv_world st ! i);
          (rid, fd) = read_roomid [] fd in
      res_bind (read_string fd) (\<lambda>(name, fd).
      res_bind (read_string fd) (\<lambda>(desc, fd).
      let (adj, fd) = read_unchecked (concat (map int_bytes (rm_adjacent room))) fd;
          st = room_set (int i) (room\<lparr>rm_id := rid, rm_name := name, rm_desc := desc,
                 rm_adjacent := split_ints NUM_DIRECTIONS adj\<rparr>) st in
      res_bind (read_exact ''world file corrupt'' 8 fd) (\<lambda>(n_objects, fd).
      res_bind (load_objects wm (int i) (le_val n_objects) fd st) (\<lambda>(fd, st).
      res_bind (read_size fd) (\<lambda>(n_verbs, fd).
      res_bind (load_verbs wm (int i) (unat n_verbs) fd st) (\<lambda>(fd, st).
        case rd_hook_deserialize (wm_world wm ! i) of
          None \<Rightarrow> Inr (fd, st)
        | Some f \<Rightarrow> f (int i) fd st)))))))"

fun load_rooms ::
  "('u, 'm) world_module \<Rightarrow> nat list \<Rightarrow> string \<Rightarrow> ('u, 'm) server_state \<Rightarrow> (string \<times> ('u, 'm) server_state) res" where
  "load_rooms wm [] fd st = Inr (fd, st)"
| "load_rooms wm (i # is) fd st = res_bind (load_room wm i fd st) (\<lambda>(fd, st). load_rooms wm is fd st)"

text \<open>The map of room names; \<open>world + id\<close> is only used later.\<close>

fun load_room_map ::
  "nat \<Rightarrow> string \<Rightarrow> (string, nat, unit) hash_map \<Rightarrow> (string \<times> (string, nat, unit) hash_map) res" where
  "load_room_map 0 fd tab = Inr (fd, tab)"
| "load_room_map (Suc n) fd tab =
     res_bind (read_string fd) (\<lambda>(key, fd).
     let (rid, fd) = read_roomid [] fd in
     res_bind (hash_insert tab key (nat rid)) (\<lambda>(_, tab). load_room_map n fd tab))"

definition world_load :: "('u, 'm) world_module \<Rightarrow> ('u, 'm) server_state \<Rightarrow> (bool \<times> ('u, 'm) server_state) res" where
  "world_load wm st =
     (case sv_worldfile st of
        None \<Rightarrow> Inr (False, st)
      | Some fd \<Rightarrow>
          res_bind (read_uint32 fd) (\<lambda>(magic, fd).
          if magic \<noteq> WORLD_MAGIC then Inl (Error ''unknown world file format'')
          else
            res_bind (world_free wm st) (\<lambda>st.
            let (szbuf, fd) = read_unchecked (le_bytes 8 0) fd; world_sz = le_val szbuf in
            if world_sz \<noteq> length (wm_world wm) then Inr (False, st)
            else
              let st = st\<lparr>sv_world := replicate world_sz room_zero\<rparr> in
              res_bind (read_string fd) (\<lambda>(world_name, fd).
              if strcmp (wm_world_name wm) world_name \<noteq> 0 then Inr (False, st)
              else
                let st = sv_set_obj (obj_set_idcounter 1 (sv_obj st)) (st\<lparr>sv_world_name := world_name\<rparr>) in
                res_bind (read_size fd) (\<lambda>(n_global_verbs, fd).
                res_bind (load_global_verbs wm (unat n_global_verbs) fd st) (\<lambda>(fd, st).
                res_bind (load_rooms wm [0..<world_sz] fd st) (\<lambda>(fd, st).
                res_bind (read_uint64 fd) (\<lambda>(idcounter, fd).
                let st = sv_set_obj (obj_set_idcounter idcounter (sv_obj st)) st in
                res_bind (load_room_map world_sz fd (hash_init (world_sz * 2) hash_djb compare_strings)) (\<lambda>(fd, tab).
                  Inr (True, st\<lparr>sv_world_map := tab\<rparr>))))))))))"

section \<open>Lemmas\<close>

lemma res_fold_upt:
  assumes "\<And>i s. i < n \<Longrightarrow> P i s \<Longrightarrow> \<exists>s'. f i s = Inr s' \<and> P (Suc i) s'" and "P 0 s"
  shows "\<exists>s'. res_fold f [0..<n] s = Inr s' \<and> P n s'"
  using assms
proof (induction n)
  case (Suc n)
  have "\<exists>s'. res_fold f [0..<n] s = Inr s' \<and> P n s'" using Suc by simp
  then obtain s1 where "res_fold f [0..<n] s = Inr s1" "P n s1" by blast
  moreover obtain s' where "f n s1 = Inr s'" "P (Suc n) s'" using Suc.prems(1)[of n s1] \<open>P n s1\<close> by auto
  ultimately show ?case by (auto simp: res_fold_append)
qed simp

lemma res_map_Inr: "(\<And>x. x \<in> set xs \<Longrightarrow> f x = Inr (g x)) \<Longrightarrow> res_map f xs = Inr (map g xs)"
  by (induction xs) auto

lemma res_map_Inl: "x \<in> set xs \<Longrightarrow> f x = Inl e \<Longrightarrow> \<exists>e'. res_map f xs = Inl e'"
  by (induction xs) (auto simp: res_bind_def split: sum.splits)

subsection \<open>Opposite directions\<close>

fun opposite :: "direction_t \<Rightarrow> direction_t" where
  "opposite DIR_N = DIR_S"
| "opposite DIR_NE = DIR_SW"
| "opposite DIR_E = DIR_W"
| "opposite DIR_SE = DIR_NW"
| "opposite DIR_S = DIR_N"
| "opposite DIR_SW = DIR_NE"
| "opposite DIR_W = DIR_E"
| "opposite DIR_NW = DIR_SE"
| "opposite DIR_UP = DIR_DN"
| "opposite DIR_DN = DIR_UP"
| "opposite DIR_IN = DIR_OT"
| "opposite DIR_OT = DIR_IN"

lemma opposite_map_ok: "\<exists>m. opposite_map = Inr m \<and> (\<forall>d. hash_lookup m (int (dir_num d)) = Some (dir_num (opposite d)))"
proof -
  let ?ps = "map (\<lambda>(d, opp). (int (dir_num d), dir_num opp)) direction_pairs @
        map (\<lambda>(d, opp). (int (dir_num opp), dir_num d)) direction_pairs"
  obtain m where m: "opposite_map = Inr m" "hash_lookup m = map_of ?ps"
    using int_map.insert_skipping_ok[OF exact_table_init[of simp_hash simp_equal "length direction_pairs * 2"], of ?ps]
    by (auto simp: opposite_map_def)
  have "map_of ?ps (int (dir_num d)) = Some (dir_num (opposite d))" for d
    by (cases d) (simp_all add: direction_pairs_def)
  then show ?thesis using m by auto
qed

lemma dir_num_less: "dir_num d < NUM_DIRECTIONS"
  by (cases d) (simp_all add: NUM_DIRECTIONS_def)

lemma dir_num_surj: "j < NUM_DIRECTIONS \<Longrightarrow> \<exists>d. dir_num d = j"
proof -
  assume "j < NUM_DIRECTIONS"
  then have "j \<in> set (map dir_num directions)" by (simp add: NUM_DIRECTIONS_def directions_def) arith
  then show ?thesis by auto
qed

subsection \<open>The linked world\<close>

text \<open>
  The world module's rooms are linkable when their unique ids are distinct and every adjacent
  room named exists; \<open>uid_pos\<close> is the position of a room.
\<close>

definition uids :: "('u, 'm) roomdata_t list \<Rightarrow> string list" where
  "uids data = map rd_uniq_id data"

definition uid_pos :: "('u, 'm) roomdata_t list \<Rightarrow> string \<Rightarrow> nat option" where
  "uid_pos data = map_of (zip (uids data) [0..<length data])"

definition linkable :: "('u, 'm) roomdata_t list \<Rightarrow> bool" where
  "linkable data \<longleftrightarrow> distinct (uids data) \<and>
     (\<forall>d\<in>set data. length (rd_adjacent d) = NUM_DIRECTIONS \<and> (\<forall>name. Some name \<in> set (rd_adjacent d) \<longrightarrow> name \<in> set (uids data)))"

definition link_target :: "('u, 'm) roomdata_t list \<Rightarrow> string option \<Rightarrow> room_id" where
  "link_target data adj = (case adj of None \<Rightarrow> ROOM_NONE | Some name \<Rightarrow> int (the (uid_pos data name)))"

lemma map_of_zip_upt_Suc:
  assumes "distinct xs" "i < length xs"
  shows "(map_of (zip (take i xs) [0..<i]))(xs ! i \<mapsto> i) = map_of (zip (take (Suc i) xs) [0..<Suc i])"
proof -
  have "xs ! i \<notin> set (take i xs)"
    using assms by (metis distinct_take id_take_nth_drop not_distinct_conv_prefix)
  then have none: "map_of (zip (take i xs) [0..<i]) (xs ! i) = None"
    by (auto simp: map_of_eq_None_iff dest: set_zip_leftD)
  have "zip (take (Suc i) xs) [0..<Suc i] = zip (take i xs) [0..<i] @ [(xs ! i, i)]"
    using assms(2) by (simp add: take_Suc_conv_app_nth)
  then show ?thesis
    by (intro ext) (simp add: none map_add_def split: option.split)
qed

text \<open>The table of verbs a room starts with.\<close>

abbreviation room_verbs_init :: verb_map where
  "room_verbs_init \<equiv> hash_setfreedata_cb (hash_init VERBMAP_SZ hash_djb compare_strings) (Some verb_free)"

lemma init_rooms_prefix:
  assumes "distinct (take k (uids data))" "k \<le> length data"
  shows "\<exists>tab rooms. res_fold (\<lambda>i. init_room n_users (data ! i) i) [0..<k]
      (hash_init (length data * 2) hash_djb compare_strings, replicate (length data) room_zero) = Inr (tab, rooms) \<and>
    str_table tab \<and> hash_lookup tab = map_of (zip (take k (uids data)) [0..<k]) \<and> length rooms = length data \<and>
    (\<forall>i<k. rm_id (rooms ! i) = int i \<and> rm_name (rooms ! i) = rd_name (data ! i) \<and>
       rm_desc (rooms ! i) = rd_desc (data ! i) \<and> rm_objects (rooms ! i) = obj_map_init OBJMAP_SIZE \<and> rm_verbs (rooms ! i) = room_verbs_init \<and>
       rm_users (rooms ! i) = hash_init (unat (n_users div 2 + 1)) hash_djb compare_strings)"
proof -
  let ?us = "take k (uids data)"
  let ?P = "\<lambda>k (tab :: (string, nat, unit) hash_map, rooms :: 'a room_t list).
    str_table tab \<and> hash_lookup tab = map_of (zip (take k ?us) [0..<k]) \<and> length rooms = length data \<and>
    (\<forall>i<k. rm_id (rooms ! i) = int i \<and> rm_name (rooms ! i) = rd_name (data ! i) \<and> rm_desc (rooms ! i) = rd_desc (data ! i) \<and>
       rm_objects (rooms ! i) = obj_map_init OBJMAP_SIZE \<and> rm_verbs (rooms ! i) = room_verbs_init \<and>
       rm_users (rooms ! i) = hash_init (unat (n_users div 2 + 1)) hash_djb compare_strings)"
  have len: "length ?us = k" using assms(2) by (simp add: uids_def)
  have "\<exists>s'. res_fold (\<lambda>i. init_room n_users (data ! i) i) [0..<k]
      (hash_init (length data * 2) hash_djb compare_strings, replicate (length data) room_zero) = Inr s' \<and> ?P k s'"
  proof (rule res_fold_upt[where P = ?P])
    show "?P 0 (hash_init (length data * 2) hash_djb compare_strings, replicate (length data) room_zero)"
      by (simp add: exact_table_init)
    fix i s
    assume i: "i < k" and P: "?P i s"
    obtain tab rooms where s: "s = (tab, rooms)" by (cases s)
    have uid: "rd_uniq_id (data ! i) = ?us ! i" using i assms(2) by (simp add: uids_def)
    have "?us ! i \<notin> set (take i ?us)"
      using assms(1) i len by (metis distinct_take id_take_nth_drop not_distinct_conv_prefix)
    then have "hash_lookup tab (?us ! i) = None"
      using P s by (auto simp: map_of_eq_None_iff dest: set_zip_leftD)
    then obtain tab' where tab': "hash_insert tab (?us ! i) i = Inr (None, tab')" "str_table tab'"
      "hash_lookup tab' = (hash_lookup tab)(?us ! i \<mapsto> i)"
      using str_map.insert_absent[of tab "?us ! i" i] P s by auto
    have "hash_lookup tab' = map_of (zip (take (Suc i) ?us) [0..<Suc i])"
      using map_of_zip_upt_Suc[OF assms(1), of i] i len P s tab'(3) by simp
    then show "\<exists>s'. init_room n_users (data ! i) i s = Inr s' \<and> ?P (Suc i) s'"
      using tab' P s i assms(2)
      by (auto simp: init_room_def Let_def uid nth_list_update less_Suc_eq room_init_maps_def simp del: take_take)
  qed
  then show ?thesis by auto
qed

lemma init_rooms_ok:
  assumes "distinct (uids data)"
  shows "\<exists>tab rooms. res_fold (\<lambda>i. init_room n_users (data ! i) i) [0..<length data]
      (hash_init (length data * 2) hash_djb compare_strings, replicate (length data) room_zero) = Inr (tab, rooms) \<and>
    str_table tab \<and> hash_lookup tab = uid_pos data \<and> length rooms = length data \<and>
    (\<forall>i<length data. rm_id (rooms ! i) = int i \<and> rm_name (rooms ! i) = rd_name (data ! i) \<and>
       rm_desc (rooms ! i) = rd_desc (data ! i) \<and> rm_objects (rooms ! i) = obj_map_init OBJMAP_SIZE \<and> rm_verbs (rooms ! i) = room_verbs_init \<and>
       rm_users (rooms ! i) = hash_init (unat (n_users div 2 + 1)) hash_djb compare_strings)"
  using init_rooms_prefix[of "length data" data n_users] assms by (simp add: uid_pos_def uids_def)

lemma init_rooms_duplicate:
  assumes "\<not> distinct (uids data)"
  shows "\<exists>uid. res_fold (\<lambda>i. init_room n_users (data ! i) i) [0..<length data]
      (hash_init (length data * 2) hash_djb compare_strings, replicate (length data) (room_zero :: 'u room_t))
      = Inl (Error (''Duplicate room ID '' @ uid))"
proof -
  have len: "length (uids data) = length data" by (simp add: uids_def)
  define k where "k = (LEAST k. k < length data \<and> uids data ! k \<in> set (take k (uids data)))"
  obtain k0 where k0: "k0 < length data" "uids data ! k0 \<in> set (take k0 (uids data))"
  proof -
    obtain i j where "i < j" "j < length data" "uids data ! i = uids data ! j"
      using assms len unfolding distinct_conv_nth by (metis linorder_neqE_nat)
    then have "uids data ! j \<in> set (take j (uids data))"
      using len by (metis (no_types, lifting) in_set_conv_nth length_take less_trans min.absorb4 nth_take)
    with \<open>j < length data\<close> show thesis by (rule that)
  qed
  have k: "k < length data" "uids data ! k \<in> set (take k (uids data))"
    using LeastI[of "\<lambda>k. k < length data \<and> uids data ! k \<in> set (take k (uids data))" k0] k0 unfolding k_def by blast+
  have least: "uids data ! i \<notin> set (take i (uids data))" if "i < k" for i
    using not_less_Least[of i "\<lambda>k. k < length data \<and> uids data ! k \<in> set (take k (uids data))"] that k(1)
    unfolding k_def[symmetric] by simp
  have "distinct (take k (uids data))"
    unfolding distinct_conv_nth
  proof (intro allI impI)
    fix i j assume ij: "i < length (take k (uids data))" "j < length (take k (uids data))" "i \<noteq> j"
    have "uids data ! a \<noteq> uids data ! b" if "a < b" "b < k" for a b
      using least[OF that(2)] that k(1) len
      by (metis (no_types, lifting) in_set_conv_nth length_take less_trans min.absorb4 nth_take)
    then show "take k (uids data) ! i \<noteq> take k (uids data) ! j"
      using ij by (metis length_take linorder_neqE_nat min_less_iff_conj nth_take)
  qed
  then obtain tab rooms where fold: "res_fold (\<lambda>i. init_room n_users (data ! i) i) [0..<k]
      (hash_init (length data * 2) hash_djb compare_strings, replicate (length data) (room_zero :: 'u room_t)) = Inr (tab, rooms)"
    "str_table tab" "hash_lookup tab = map_of (zip (take k (uids data)) [0..<k])"
    using init_rooms_prefix[of k data n_users] k(1) by auto
  have uid: "rd_uniq_id (data ! k) = uids data ! k" using k(1) by (simp add: uids_def)
  have "hash_lookup tab (uids data ! k) \<noteq> None"
    unfolding fold(3) map_of_eq_None_iff set_map[symmetric] using k len by simp
  then obtain d where "hash_lookup tab (uids data ! k) = Some d" by blast
  from str_map.insert_present[OF fold(2) this]
  have fail: "init_room n_users (data ! k) k (tab, rooms) = Inl (Error (''Duplicate room ID '' @ uids data ! k))"
    by (simp add: init_room_def Let_def uid)
  have "[0..<length data] = [0..<k] @ k # [Suc k..<length data]"
    using k(1) by (metis le_add_diff_inverse less_imp_le upt_add_eq_append upt_conv_Cons zero_le)
  then show ?thesis using fold(1) fail by (simp add: res_fold_append)
qed

lemma link_rooms_ok:
  assumes data: "linkable data" and tab: "hash_lookup tab = uid_pos data" and len: "length rooms = length data"
    and ids: "\<forall>i<length data. rm_id (rooms ! i) = int i"
  shows "\<exists>rooms'. res_fold (\<lambda>i. link_rooms tab (data ! i) i) [0..<length data] rooms = Inr rooms' \<and>
    length rooms' = length data \<and>
    (\<forall>i<length data. rooms' ! i = (rooms ! i)\<lparr>rm_adjacent := map (link_target data) (rd_adjacent (data ! i))\<rparr>)"
proof -
  let ?new = "\<lambda>i. (rooms ! i)\<lparr>rm_adjacent := map (link_target data) (rd_adjacent (data ! i))\<rparr>"
  let ?P = "\<lambda>k rs. length rs = length data \<and> (\<forall>i<length data. rs ! i = (if i < k then ?new i else rooms ! i))"
  have pos: "\<exists>j<length data. uid_pos data name = Some j" if name: "name \<in> set (uids data)" for name
  proof -
    have len: "length (uids data) = length data" by (simp add: uids_def)
    obtain j where j: "j < length data" "uids data ! j = name" using name unfolding in_set_conv_nth len by blast
    then show ?thesis
      using registry_position[of "uids data" j] data len by (auto simp: uid_pos_def linkable_def)
  qed
  have "\<exists>s'. res_fold (\<lambda>i. link_rooms tab (data ! i) i) [0..<length data] rooms = Inr s' \<and> ?P (length data) s'"
  proof (rule res_fold_upt[where P = ?P])
    show "?P 0 rooms" using len by simp
    fix i rs
    assume i: "i < length data" and P: "?P i rs"
    have rsid: "rm_id (rs ! j) = int j" if "j < length data" for j
      using P that ids by auto
    have "link_room tab rs uid adj = Inr (link_target data adj)" if "adj \<in> set (rd_adjacent (data ! i))" for uid adj
    proof (cases adj)
      case (Some name)
      then have "name \<in> set (uids data)" using that data i nth_mem[OF i] by (auto simp: linkable_def)
      then obtain j where "j < length data" "uid_pos data name = Some j" using pos by blast
      then show ?thesis using Some rsid by (simp add: link_room_def link_target_def tab)
    qed (simp add: link_room_def link_target_def)
    then have "res_map (link_room tab rs (rd_uniq_id (data ! i))) (rd_adjacent (data ! i)) =
        Inr (map (link_target data) (rd_adjacent (data ! i)))"
      by (rule res_map_Inr)
    then show "\<exists>s'. link_rooms tab (data ! i) i rs = Inr s' \<and> ?P (Suc i) s'"
      using P i by (auto simp: link_rooms_def nth_list_update)
  qed
  then show ?thesis by auto
qed

definition way :: "'u room_t list \<Rightarrow> nat \<Rightarrow> direction_t \<Rightarrow> room_id" where
  "way rooms i d = rm_adjacent (rooms ! i) ! dir_num d"

definition one_way :: "'u room_t list \<Rightarrow> nat \<Rightarrow> direction_t \<Rightarrow> bool" where
  "one_way rooms i d \<longleftrightarrow> way rooms i d \<noteq> ROOM_NONE \<and> way rooms (nat (way rooms i d)) (opposite d) \<noteq> int i"

lemma one_way_doors_ok:
  assumes opp: "\<forall>d. hash_lookup m (int (dir_num d)) = Some (dir_num (opposite d))"
    and ways: "\<forall>d. way rooms i d = ROOM_NONE \<or> nat (way rooms i d) < length rooms"
  shows "one_way_doors m rooms i (map dir_num ds) = Inr (map (\<lambda>d. (i, dir_num d)) (filter (one_way rooms i) ds))"
proof (induction ds)
  case (Cons d ds)
  have "hash_lookup m (int (dir_num d)) = Some (dir_num (opposite d))" using opp by blast
  moreover have "way rooms i d = ROOM_NONE \<or> nat (way rooms i d) < length rooms" using ways by blast
  ultimately show ?case
    using Cons.IH by (auto simp: Let_def one_way_def way_def simp flip: not_less)
qed simp

lemma directions_upt: "map dir_num directions = [0..<NUM_DIRECTIONS]"
  by (simp add: directions_def NUM_DIRECTIONS_def upt_rec)

text \<open>
  The loop of the init hooks, when a hook takes one invariant to the next and leaves the exits of
  the rooms alone.
\<close>

lemma one_way_adjacent:
  assumes "map rm_adjacent rooms = map rm_adjacent rooms'" "i < length rooms"
    and "way rooms i d = ROOM_NONE \<or> nat (way rooms i d) < length rooms"
  shows "one_way rooms i d = one_way rooms' i d"
proof -
  have len: "length rooms = length rooms'" using assms(1) by (metis length_map)
  have w: "way rooms j d = way rooms' j d" if "j < length rooms" for j d
    using that assms(1) len by (metis way_def nth_map)
  show ?thesis using w[OF assms(2), of d] w[of "nat (way rooms i d)" "opposite d"] assms(3) by (auto simp: one_way_def)
qed

lemma init_hooks_run:
  assumes opp: "\<forall>d. hash_lookup m (int (dir_num d)) = Some (dir_num (opposite d))"
    and step: "\<And>i st. i < n \<Longrightarrow> P i st \<Longrightarrow> \<exists>st'. (case rd_hook_init (wm_world wm ! i) of None \<Rightarrow> Inr st
        | Some f \<Rightarrow> f (rm_id (sv_world st ! i)) st) = Inr st' \<and> P (Suc i) st'"
    and adj: "\<And>i st. P i st \<Longrightarrow> map rm_adjacent (sv_world st) = map rm_adjacent rooms"
    and ways: "\<And>i d. i < n \<Longrightarrow> way rooms i d = ROOM_NONE \<or> nat (way rooms i d) < length rooms"
    and start: "P k st" "k \<le> n" "n = length rooms"
  shows "\<exists>st'. init_hooks wm m [k..<n] st =
    Inr (concat (map (\<lambda>i. map (\<lambda>d. (i, dir_num d)) (filter (one_way rooms i) directions)) [k..<n]), st') \<and> P n st'"
  using start(1,2)
proof (induction "n - k" arbitrary: k st)
  case 0
  then show ?case by simp
next
  case (Suc r)
  have k: "k < n" and r: "r = n - Suc k" using Suc.hyps(2) by simp_all
  obtain st1 where one: "(case rd_hook_init (wm_world wm ! k) of None \<Rightarrow> Inr st | Some f \<Rightarrow> f (rm_id (sv_world st ! k)) st) = Inr st1"
    "P (Suc k) st1" using step[OF k Suc.prems(1)] by blast
  note a = adj[OF one(2)]
  have len: "length (sv_world st1) = length rooms" using a by (metis length_map)
  have w: "way (sv_world st1) k d = way rooms k d" for d
    using a k len start(3) by (metis way_def nth_map)
  have "one_way_doors m (sv_world st1) k (map dir_num directions) =
      Inr (map (\<lambda>d. (k, dir_num d)) (filter (one_way (sv_world st1) k) directions))"
    by (rule one_way_doors_ok[OF opp]) (use w ways[OF k] len in simp)
  moreover have "one_way (sv_world st1) k = one_way rooms k"
    by (rule ext, rule one_way_adjacent[OF a]) (use w ways[OF k] len k start(3) in simp_all)
  moreover obtain st' where "init_hooks wm m [Suc k..<n] st1 =
      Inr (concat (map (\<lambda>i. map (\<lambda>d. (i, dir_num d)) (filter (one_way rooms i) directions)) [Suc k..<n]), st')" "P n st'"
    using Suc.hyps(1)[of "Suc k" st1, OF r one(2)] k by auto
  moreover have "[k..<n] = k # [Suc k..<n]" using k by (rule upt_conv_Cons)
  ultimately show ?case using one(1) by (simp add: directions_upt)
qed

lemma link_target_way:
  assumes "linkable data" "i < length data" "\<forall>i<length data. rm_adjacent (rooms ! i) = map (link_target data) (rd_adjacent (data ! i))"
  shows "way rooms i d = link_target data (rd_adjacent (data ! i) ! dir_num d)"
    and "way rooms i d = ROOM_NONE \<or> nat (way rooms i d) < length data"
proof -
  have d: "data ! i \<in> set data" using assms(2) by simp
  have len: "dir_num d < length (rd_adjacent (data ! i))" using assms(1) d dir_num_less by (simp add: linkable_def)
  then show w: "way rooms i d = link_target data (rd_adjacent (data ! i) ! dir_num d)"
    using assms(2,3) by (simp add: way_def)
  show "way rooms i d = ROOM_NONE \<or> nat (way rooms i d) < length data"
  proof (cases "rd_adjacent (data ! i) ! dir_num d")
    case (Some name)
    then have "name \<in> set (uids data)" using assms(1) d nth_mem[OF len] by (auto simp: linkable_def)
    then obtain j where j: "j < length (uids data)" "uids data ! j = name" unfolding in_set_conv_nth by blast
    then have "uid_pos data name = Some j"
      using registry_position[of "uids data" j] assms(1) by (simp add: uid_pos_def linkable_def uids_def)
    then show ?thesis using w Some j by (simp add: link_target_def uids_def)
  qed (simp add: w link_target_def)
qed

subsection \<open>Building the world\<close>

text \<open>The first two loops: the rooms are there and linked when the hooks run.\<close>

lemma world_init_linked:
  assumes "linkable (wm_world wm)"
  obtains rooms tab m where
    "world_init wm st = init_hooks wm m [0..<length (wm_world wm)]
       (st\<lparr>sv_world := rooms, sv_world_name := wm_world_name wm, sv_world_map := tab\<rparr>)"
    "\<forall>d. hash_lookup m (int (dir_num d)) = Some (dir_num (opposite d))" "hash_lookup tab = uid_pos (wm_world wm)"
    "length rooms = length (wm_world wm)"
    "\<forall>i<length (wm_world wm). rm_id (rooms ! i) = int i \<and> rm_name (rooms ! i) = rd_name (wm_world wm ! i) \<and>
       rm_desc (rooms ! i) = rd_desc (wm_world wm ! i) \<and> rm_objects (rooms ! i) = obj_map_init OBJMAP_SIZE \<and> rm_verbs (rooms ! i) = room_verbs_init \<and>
       rm_users (rooms ! i) = hash_init (unat (userdb_size st div 2 + 1)) hash_djb compare_strings \<and>
       rm_adjacent (rooms ! i) = map (link_target (wm_world wm)) (rd_adjacent (wm_world wm ! i))" "str_table tab"
proof -
  let ?data = "wm_world wm" let ?n = "length ?data"
  obtain tab rooms where fst: "res_fold (\<lambda>i. init_room (userdb_size st) (?data ! i) i) [0..<?n]
      (hash_init (?n * 2) hash_djb compare_strings, replicate ?n room_zero) = Inr (tab, rooms)"
    "str_table tab" "hash_lookup tab = uid_pos ?data" "length rooms = ?n"
    "\<forall>i<?n. rm_id (rooms ! i) = int i \<and> rm_name (rooms ! i) = rd_name (?data ! i) \<and> rm_desc (rooms ! i) = rd_desc (?data ! i) \<and>
       rm_objects (rooms ! i) = obj_map_init OBJMAP_SIZE \<and> rm_verbs (rooms ! i) = room_verbs_init \<and>
       rm_users (rooms ! i) = hash_init (unat (userdb_size st div 2 + 1)) hash_djb compare_strings"
    using init_rooms_ok[of ?data "userdb_size st"] assms by (auto simp: linkable_def)
  obtain rooms' where snd: "res_fold (\<lambda>i. link_rooms tab (?data ! i) i) [0..<?n] rooms = Inr rooms'" "length rooms' = ?n"
    "\<forall>i<?n. rooms' ! i = (rooms ! i)\<lparr>rm_adjacent := map (link_target ?data) (rd_adjacent (?data ! i))\<rparr>"
    using link_rooms_ok[OF assms fst(3,4)] fst(5) by blast
  obtain m where m: "opposite_map = Inr m" "\<forall>d. hash_lookup m (int (dir_num d)) = Some (dir_num (opposite d))"
    using opposite_map_ok by blast
  have "world_init wm st = init_hooks wm m [0..<?n] (st\<lparr>sv_world := rooms', sv_world_name := wm_world_name wm, sv_world_map := tab\<rparr>)"
    by (simp add: world_init_def Let_def fst(1) snd(1) m(1))
  from that[OF this m(2) fst(3) snd(2)] show thesis using snd(3) fst(2,5) by simp
qed

text \<open>
  The state the hooks start from, and what they may not touch: the map of names, and of each room everything but
  its objects, users and verbs. An invariant \<open>P\<close> for the hooks says what holds before hook \<open>i\<close>.
\<close>

definition built :: "('u, 'm) world_module \<Rightarrow> ('u, 'm) server_state \<Rightarrow> ('u, 'm) server_state \<Rightarrow> bool" where
  "built wm st s \<longleftrightarrow> (\<exists>rooms tab. s = st\<lparr>sv_world := rooms, sv_world_name := wm_world_name wm, sv_world_map := tab\<rparr>) \<and>
     str_table (sv_world_map s) \<and> hash_lookup (sv_world_map s) = uid_pos (wm_world wm) \<and> length (sv_world s) = length (wm_world wm) \<and>
     (\<forall>i<length (wm_world wm). let data = wm_world wm ! i; room = sv_world s ! i in
        rm_id room = int i \<and> rm_name room = rd_name data \<and> rm_desc room = rd_desc data \<and>
        rm_objects room = obj_map_init OBJMAP_SIZE \<and> rm_verbs room = room_verbs_init \<and>
        rm_users room = hash_init (unat (userdb_size st div 2 + 1)) hash_djb compare_strings \<and>
        rm_adjacent room = map (link_target (wm_world wm)) (rd_adjacent data))"

definition skeleton :: "('u, 'm) server_state \<Rightarrow> (string, nat, unit) hash_map \<times> (room_id \<times> string \<times> string \<times> room_id list) list" where
  "skeleton st = (sv_world_map st, map (\<lambda>room. (rm_id room, rm_name room, rm_desc room, rm_adjacent room)) (sv_world st))"

definition hooks_run :: "('u, 'm) world_module \<Rightarrow> (nat \<Rightarrow> ('u, 'm) server_state \<Rightarrow> bool) \<Rightarrow> bool" where
  "hooks_run wm P \<longleftrightarrow> (\<forall>i<length (wm_world wm). \<forall>st. P i st \<longrightarrow>
     (\<exists>st'. (case rd_hook_init (wm_world wm ! i) of None \<Rightarrow> Inr st | Some f \<Rightarrow> f (rm_id (sv_world st ! i)) st) = Inr st' \<and>
        P (Suc i) st' \<and> skeleton st' = skeleton st))"

lemma builtD:
  assumes "built wm st s"
  shows "hash_lookup (sv_world_map s) = uid_pos (wm_world wm)" "length (sv_world s) = length (wm_world wm)"
    "i < length (wm_world wm) \<Longrightarrow> rm_id (sv_world s ! i) = int i \<and> rm_name (sv_world s ! i) = rd_name (wm_world wm ! i) \<and>
       rm_desc (sv_world s ! i) = rd_desc (wm_world wm ! i) \<and>
       rm_adjacent (sv_world s ! i) = map (link_target (wm_world wm)) (rd_adjacent (wm_world wm ! i))"
  using assms unfolding built_def Let_def by blast+

lemma skeletonD:
  fixes a :: "('u, 'm) server_state" and b :: "('u, 'm) server_state"
  assumes "skeleton a = skeleton b"
  shows "sv_world_map a = sv_world_map b" "length (sv_world a) = length (sv_world b)" "map rm_adjacent (sv_world a) = map rm_adjacent (sv_world b)"
    "i < length (sv_world b) \<Longrightarrow> rm_id (sv_world a ! i) = rm_id (sv_world b ! i) \<and> rm_name (sv_world a ! i) = rm_name (sv_world b ! i) \<and>
       rm_desc (sv_world a ! i) = rm_desc (sv_world b ! i) \<and> rm_adjacent (sv_world a ! i) = rm_adjacent (sv_world b ! i)"
proof -
  let ?f = "\<lambda>room :: 'u room_t. (rm_id room, rm_name room, rm_desc room, rm_adjacent room)"
  have m: "map ?f (sv_world a) = map ?f (sv_world b)" using assms by (simp add: skeleton_def)
  show "sv_world_map a = sv_world_map b" using assms by (simp add: skeleton_def)
  show len: "length (sv_world a) = length (sv_world b)" using arg_cong[OF m, of length] by simp
  show "map rm_adjacent (sv_world a) = map rm_adjacent (sv_world b)"
    using arg_cong[OF m, of "map (\<lambda>(_, _, _, adj). adj)"] by (simp add: comp_def)
  assume "i < length (sv_world b)"
  then show "rm_id (sv_world a ! i) = rm_id (sv_world b ! i) \<and> rm_name (sv_world a ! i) = rm_name (sv_world b ! i) \<and>
       rm_desc (sv_world a ! i) = rm_desc (sv_world b ! i) \<and> rm_adjacent (sv_world a ! i) = rm_adjacent (sv_world b ! i)"
    using arg_cong[OF m, of "\<lambda>xs. xs ! i"] len by simp
qed

lemma world_init_hooks:
  assumes "linkable (wm_world wm)" "\<forall>s. built wm st s \<longrightarrow> P 0 s" "hooks_run wm P"
  shows "\<exists>doors st'. world_init wm st = Inr (doors, st') \<and> P (length (wm_world wm)) st' \<and> length (sv_world st') = length (wm_world wm) \<and>
    (\<forall>i<length (wm_world wm). let data = wm_world wm ! i; room = sv_world st' ! i in
       rm_id room = int i \<and> rm_name room = rd_name data \<and> rm_desc room = rd_desc data \<and>
       room_get_id (rd_uniq_id data) st' = int i \<and>
       (\<forall>d. way (sv_world st') i d = (case rd_adjacent data ! dir_num d of
          None \<Rightarrow> ROOM_NONE | Some name \<Rightarrow> room_get_id name st')) \<and>
       (\<forall>d. (i, dir_num d) \<in> set doors \<longleftrightarrow> one_way (sv_world st') i d))"
proof -
  let ?data = "wm_world wm" let ?n = "length ?data"
  obtain rooms' tab m where lk: "world_init wm st = init_hooks wm m [0..<?n]
       (st\<lparr>sv_world := rooms', sv_world_name := wm_world_name wm, sv_world_map := tab\<rparr>)"
    "\<forall>d. hash_lookup m (int (dir_num d)) = Some (dir_num (opposite d))" "hash_lookup tab = uid_pos ?data" "length rooms' = ?n"
    "\<forall>i<?n. rm_id (rooms' ! i) = int i \<and> rm_name (rooms' ! i) = rd_name (?data ! i) \<and>
       rm_desc (rooms' ! i) = rd_desc (?data ! i) \<and> rm_objects (rooms' ! i) = obj_map_init OBJMAP_SIZE \<and> rm_verbs (rooms' ! i) = room_verbs_init \<and>
       rm_users (rooms' ! i) = hash_init (unat (userdb_size st div 2 + 1)) hash_djb compare_strings \<and>
       rm_adjacent (rooms' ! i) = map (link_target ?data) (rd_adjacent (?data ! i))" "str_table tab"
    using world_init_linked[OF assms(1), of st] by metis
  define base where "base = st\<lparr>sv_world := rooms', sv_world_name := wm_world_name wm, sv_world_map := tab\<rparr>"
  have b: "sv_world base = rooms'" "sv_world_map base = tab" by (simp_all add: base_def)
  have built: "built wm st base"
    using lk(3-6) by (simp add: built_def b Let_def) (simp add: base_def, metis)
  have adj: "\<forall>i<?n. rm_adjacent (rooms' ! i) = map (link_target ?data) (rd_adjacent (?data ! i))" using lk(5) by simp
  let ?doors = "concat (map (\<lambda>i. map (\<lambda>d. (i, dir_num d)) (filter (one_way rooms' i) directions)) [0..<?n])"
  let ?P = "\<lambda>i s. P i s \<and> skeleton s = skeleton base"
  have "\<exists>st'. init_hooks wm m [0..<?n] base = Inr (?doors, st') \<and> ?P ?n st'"
  proof (rule init_hooks_run[where P = ?P, OF lk(2)])
    show "\<exists>st'. (case rd_hook_init (?data ! i) of None \<Rightarrow> Inr s | Some f \<Rightarrow> f (rm_id (sv_world s ! i)) s) = Inr st' \<and> ?P (Suc i) st'"
      if "i < ?n" "?P i s" for i s
      using assms(3)[unfolded hooks_run_def, rule_format, OF that(1)] that(2) by metis
    show "map rm_adjacent (sv_world s) = map rm_adjacent rooms'" if "?P i s" for i s
      using skeletonD(3)[of s base] that b(1) by simp
    show "way rooms' i d = ROOM_NONE \<or> nat (way rooms' i d) < length rooms'" if "i < ?n" for i d
      using link_target_way(2)[OF assms(1) that adj] lk(4) by simp
    show "?P 0 base" using assms(2) built by blast
  qed (simp_all add: lk(4))
  then obtain st' where third: "init_hooks wm m [0..<?n] base = Inr (?doors, st')" "P ?n st'" "skeleton st' = skeleton base" by blast
  then have res: "world_init wm st = Inr (?doors, st')" using lk(1) by (simp add: base_def)
  note sk = skeletonD[OF third(3), unfolded b lk(4)]
  have ids: "rm_id (sv_world st' ! i) = int i" if "i < ?n" for i using that lk(5) sk(4) by simp
  have same_way: "way (sv_world st') i d = way rooms' i d" if "i < ?n" for i d using sk(4)[OF that] by (simp add: way_def)
  have get: "room_get_id (rd_uniq_id (?data ! i)) st' = int i" if "i < ?n" for i
  proof -
    have "uid_pos ?data (rd_uniq_id (?data ! i)) = Some i"
      using registry_position[of "uids ?data" i] assms(1) that by (simp add: uid_pos_def linkable_def uids_def)
    then show ?thesis using ids[OF that] by (simp add: room_get_id_def lk(3) sk(1))
  qed
  have ways: "way (sv_world st') i d = (case rd_adjacent (?data ! i) ! dir_num d of None \<Rightarrow> ROOM_NONE | Some name \<Rightarrow> room_get_id name st')"
    if i: "i < ?n" for i d
  proof (cases "rd_adjacent (?data ! i) ! dir_num d")
    case (Some name)
    have d: "?data ! i \<in> set ?data" using i by simp
    then have "dir_num d < length (rd_adjacent (?data ! i))" using assms(1) dir_num_less by (simp add: linkable_def)
    then have "name \<in> set (uids ?data)" using Some assms(1) d nth_mem[of "dir_num d" "rd_adjacent (?data ! i)"]
      by (auto simp: linkable_def)
    then obtain j where j: "j < ?n" "rd_uniq_id (?data ! j) = name" by (auto simp: uids_def in_set_conv_nth)
    have "uid_pos ?data name = Some j"
      using registry_position[of "uids ?data" j] assms(1) j by (simp add: uid_pos_def linkable_def uids_def)
    then show ?thesis
      using link_target_way(1)[OF assms(1) i adj, of d] Some get[OF j(1)] j(2) same_way[OF i] by (simp add: link_target_def)
  qed (use link_target_way(1)[OF assms(1) i adj, of d] same_way[OF i] in \<open>simp add: link_target_def\<close>)
  have doors: "(i, dir_num d) \<in> set ?doors \<longleftrightarrow> one_way (sv_world st') i d" if i: "i < ?n" for i d
  proof -
    have "d \<in> set directions" by (cases d) (simp_all add: directions_def)
    moreover have "dir_num d = dir_num d' \<Longrightarrow> d = d'" for d' by (cases d; cases d') simp_all
    moreover have "one_way (sv_world st') i d = one_way rooms' i d"
      by (rule one_way_adjacent[OF sk(3)]) (use same_way[OF i] link_target_way(2)[OF assms(1) i adj] i sk(2) in simp_all)
    ultimately show ?thesis using i by auto
  qed
  show ?thesis
    using res third(2) sk(2,4) lk(5) get ways doors by (intro exI[of _ ?doors] exI[of _ st'] conjI) (simp_all add: Let_def)
qed

lemma world_init_ok:
  assumes "linkable (wm_world wm)" "\<forall>data\<in>set (wm_world wm). rd_hook_init data = None"
  shows "\<exists>doors st'. world_init wm st = Inr (doors, st') \<and>
    (\<exists>rooms tab. st' = st\<lparr>sv_world := rooms, sv_world_name := wm_world_name wm, sv_world_map := tab\<rparr>) \<and>
    (\<forall>room\<in>set (sv_world st'). rm_objects room = obj_map_init OBJMAP_SIZE \<and>
       rm_users room = hash_init (unat (userdb_size st div 2 + 1)) hash_djb compare_strings) \<and> length (sv_world st') = length (wm_world wm) \<and>
    (\<forall>i<length (wm_world wm). let data = wm_world wm ! i; room = sv_world st' ! i in
       rm_id room = int i \<and> rm_name room = rd_name data \<and> rm_desc room = rd_desc data \<and>
       room_get_id (rd_uniq_id data) st' = int i \<and>
       (\<forall>d. way (sv_world st') i d = (case rd_adjacent data ! dir_num d of
          None \<Rightarrow> ROOM_NONE | Some name \<Rightarrow> room_get_id name st')) \<and>
       (\<forall>d. (i, dir_num d) \<in> set doors \<longleftrightarrow> one_way (sv_world st') i d))"
proof -
  have "hooks_run wm (\<lambda>_. built wm st)" using assms(2) by (simp add: hooks_run_def)
  moreover have "\<forall>s. built wm st s \<longrightarrow> (\<lambda>_. built wm st) (0 :: nat) s" by simp
  ultimately have "\<exists>doors st'. world_init wm st = Inr (doors, st') \<and> built wm st st' \<and> length (sv_world st') = length (wm_world wm) \<and>
    (\<forall>i<length (wm_world wm). let data = wm_world wm ! i; room = sv_world st' ! i in
       rm_id room = int i \<and> rm_name room = rd_name data \<and> rm_desc room = rd_desc data \<and>
       room_get_id (rd_uniq_id data) st' = int i \<and>
       (\<forall>d. way (sv_world st') i d = (case rd_adjacent data ! dir_num d of
          None \<Rightarrow> ROOM_NONE | Some name \<Rightarrow> room_get_id name st')) \<and>
       (\<forall>d. (i, dir_num d) \<in> set doors \<longleftrightarrow> one_way (sv_world st') i d))"
    by (intro world_init_hooks[OF assms(1)])
  then obtain doors st' where r: "world_init wm st = Inr (doors, st')" "built wm st st'"
    "length (sv_world st') = length (wm_world wm)"
    "\<forall>i<length (wm_world wm). let data = wm_world wm ! i; room = sv_world st' ! i in
       rm_id room = int i \<and> rm_name room = rd_name data \<and> rm_desc room = rd_desc data \<and>
       room_get_id (rd_uniq_id data) st' = int i \<and>
       (\<forall>d. way (sv_world st') i d = (case rd_adjacent data ! dir_num d of
          None \<Rightarrow> ROOM_NONE | Some name \<Rightarrow> room_get_id name st')) \<and>
       (\<forall>d. (i, dir_num d) \<in> set doors \<longleftrightarrow> one_way (sv_world st') i d)"
    by (elim exE conjE)
  have "rm_objects room = obj_map_init OBJMAP_SIZE \<and> rm_users room = hash_init (unat (userdb_size st div 2 + 1)) hash_djb compare_strings"
    if "room \<in> set (sv_world st')" for room
    using that r(2,3) by (auto simp: built_def Let_def in_set_conv_nth)
  moreover have "\<exists>rooms tab. st' = st\<lparr>sv_world := rooms, sv_world_name := wm_world_name wm, sv_world_map := tab\<rparr>"
    using r(2) unfolding built_def by blast
  ultimately show ?thesis using r(1,3,4) by (intro exI[of _ doors] exI[of _ st'] conjI) blast+
qed

section \<open>Properties\<close>

text \<open>C15: \<open>world_init\<close> builds the world the module describes. With distinct unique ids, no dangling
  reference and init hooks that succeed, it succeeds: room \<open>i\<close> has the name and description of row \<open>i\<close>, each
  of its exits leads to the room the row names or nowhere, a unique id is found at its position,
  and the doors reported as one-way are exactly those whose opposite door does not lead
  back. The hooks run in the order of the rooms, each on what the ones before it left, the first one when all rooms are there, linked and
  empty. What is asked of them is an invariant \<open>P\<close>: it holds when all rooms are there, and hook \<open>i\<close> takes a state with \<open>P i\<close> to
  one with \<open>P (i + 1)\<close> without an error and without changing the ids, names, descriptions, exits and the map of the rooms;
  \<open>P\<close> then holds at the end. The rooms of \<open>dunnet\<close> meet this.\<close>

theorem world_init_correct:
  assumes "linkable (wm_world wm)" "\<forall>s. built wm st s \<longrightarrow> P 0 s" "hooks_run wm P"
  shows "\<exists>doors st'. world_init wm st = Inr (doors, st') \<and> P (length (wm_world wm)) st' \<and> length (sv_world st') = length (wm_world wm) \<and>
    (\<forall>i<length (wm_world wm). let data = wm_world wm ! i; room = sv_world st' ! i in
       rm_id room = int i \<and> rm_name room = rd_name data \<and> rm_desc room = rd_desc data \<and>
       room_get_id (rd_uniq_id data) st' = int i \<and>
       (\<forall>d. way (sv_world st') i d = (case rd_adjacent data ! dir_num d of
          None \<Rightarrow> ROOM_NONE | Some name \<Rightarrow> room_get_id name st')) \<and>
       (\<forall>d. (i, dir_num d) \<in> set doors \<longleftrightarrow> one_way (sv_world st') i d))"
  by (rule world_init_hooks[OF assms])

lemma sample_linkable: "linkable (wm_world sample_module)" "\<forall>data\<in>set (wm_world sample_module). rd_hook_init data = None"
  by (auto simp: sample_module_def linkable_def uids_def plain_room_def NUM_DIRECTIONS_def)

text \<open>C38: a world module whose rooms are not linkable is refused: two rooms with the same
  unique id, or an exit to a room that does not exist, stop the server with an error.\<close>

theorem world_init_refuses:
  assumes "\<forall>d\<in>set (wm_world wm). length (rd_adjacent d) = NUM_DIRECTIONS" "\<not> linkable (wm_world wm)"
  shows "\<exists>msg. world_init wm st = Inl (Error msg)"
proof (cases "distinct (uids (wm_world wm))")
  case False
  then show ?thesis
    using init_rooms_duplicate[of "wm_world wm" "userdb_size st"] by (auto simp: world_init_def Let_def)
next
  case True
  let ?data = "wm_world wm" let ?n = "length ?data"
  obtain tab rooms where fst: "res_fold (\<lambda>i. init_room (userdb_size st) (?data ! i) i) [0..<?n]
      (hash_init (?n * 2) hash_djb compare_strings, replicate ?n room_zero) = Inr (tab, rooms)"
    "hash_lookup tab = uid_pos ?data"
    using init_rooms_ok[OF True, of "userdb_size st"] by auto
  obtain d name where d: "d \<in> set ?data" "Some name \<in> set (rd_adjacent d)" "name \<notin> set (uids ?data)"
    using assms True by (auto simp: linkable_def)
  then obtain i where i: "i < ?n" "?data ! i = d" by (auto simp: in_set_conv_nth)
  have none: "hash_lookup tab name = None"
    using d(3) registry_None[of "uids ?data" name] by (simp add: fst(2) uid_pos_def uids_def)
  have link: "(\<exists>r. link_room tab rs uid adj = Inr r) \<or> (\<exists>msg. link_room tab rs uid adj = Inl (Error msg))" for rs :: "'a room_t list" and uid adj
    by (auto simp: link_room_def split: option.splits)
  have "(\<exists>ys. res_map (link_room tab rs uid) xs = Inr ys) \<or> (\<exists>msg. res_map (link_room tab rs uid) xs = Inl (Error msg))"
    for rs :: "'a room_t list" and uid xs
  proof (induction xs)
    case (Cons x xs)
    then show ?case using link[of rs uid x] by auto
  qed simp
  then have step: "(\<exists>s'. link_rooms tab dat k rs = Inr s') \<or> (\<exists>msg. link_rooms tab dat k rs = Inl (Error msg))"
    for rs :: "'a room_t list" and dat :: "('a, 'b) roomdata_t" and k
    unfolding link_rooms_def by (metis res_bind_simps)
  have bad: "\<exists>msg. link_rooms tab (?data ! i) i rs = Inl (Error msg)" for rs :: "'a room_t list"
  proof -
    have "\<exists>e. res_map (link_room tab rs (rd_uniq_id d)) (rd_adjacent d) = Inl e"
      by (rule res_map_Inl[OF d(2)]) (simp add: link_room_def none)
    then show ?thesis using step[of "?data ! i" i rs] by (auto simp: link_rooms_def i(2))
  qed
  have fails: "\<exists>msg. res_fold (\<lambda>i. link_rooms tab (?data ! i) i) is rs = Inl (Error msg)" if "i \<in> set is" for rs :: "'a room_t list" and "is"
    using that
  proof (induction "is" arbitrary: rs rule: list.induct)
    case (Cons k ks)
    show ?case
    proof (cases "k = i")
      case False
      then show ?thesis using Cons step[of "?data ! k" k rs] by auto
    next
      case True
      obtain msg where "link_rooms tab (?data ! i) i rs = Inl (Error msg)" using bad by blast
      then show ?thesis using True by simp
    qed
  qed simp
  then obtain msg where "res_fold (\<lambda>i. link_rooms tab (?data ! i) i) [0..<?n] rooms = Inl (Error msg)"
    using fails[of "[0..<?n]" rooms] i(1) unfolding set_upt atLeastLessThan_iff by blast
  then show ?thesis using fst(1) by (simp add: world_init_def Let_def)
qed

theorem world_init_refuses_witness:
  "\<exists>msg. world_init (sample_module\<lparr>wm_world := [plain_room ''hall'', plain_room ''hall'']\<rparr>) (initial_state ()) = Inl (Error msg)"
  by (rule world_init_refuses) (auto simp: plain_room_def linkable_def uids_def)

text \<open>C39: \<open>world_load\<close> accepts only a file of the right kind for this world module: with no
  file it fails and changes nothing, a wrong magic number stops the server, and another number
  of rooms or another world name is a failure.\<close>

theorem world_load_checks:
  assumes "sv_world st = []"
  shows "(sv_worldfile st = None \<longrightarrow> world_load wm st = Inr (False, st)) \<and>
    (sv_worldfile st = Some (write_uint32 magic @ rest) \<longrightarrow> magic \<noteq> WORLD_MAGIC \<longrightarrow>
       world_load wm st = Inl (Error ''unknown world file format'')) \<and>
    (sv_worldfile st = Some (write_uint32 WORLD_MAGIC @ write_size n @ rest) \<longrightarrow> unat n \<noteq> length (wm_world wm) \<longrightarrow>
       world_load wm st = Inr (False, st)) \<and>
    (sv_worldfile st = Some (write_uint32 WORLD_MAGIC @ write_size n @ write_string name @ rest) \<longrightarrow>
       unat n = length (wm_world wm) \<longrightarrow> storable name \<longrightarrow> name \<noteq> wm_world_name wm \<longrightarrow>
       world_load wm st = Inr (False, st\<lparr>sv_world := replicate (unat n) room_zero\<rparr>))"
proof -
  have "read_unchecked (le_bytes 8 0) (write_size n @ rest) = (le_bytes 8 (unat n), rest)" for rest
    by (simp add: read_unchecked_def file_read_def write_size_def)
  moreover have "le_val (le_bytes 8 (unat n)) = unat n" by (simp add: le_val_le_bytes unat_mod_size)
  moreover from this have "unat n = length (wm_world wm) \<Longrightarrow> le_val (le_bytes 8 (length (wm_world wm))) = length (wm_world wm)"
    by simp
  ultimately show ?thesis
    using assms by (simp add: world_load_def world_free_def del: le_val_le_bytes)
qed

theorem world_load_checks_witness:
  "world_load sample_module ((initial_state ())\<lparr>sv_worldfile := Some (write_uint32 7 @ ''rest'')\<rparr>)
     = Inl (Error ''unknown world file format'') \<and>
   (\<exists>st'. world_load sample_module ((initial_state ())\<lparr>sv_worldfile := Some (write_uint32 WORLD_MAGIC @ write_size 5 @ ''rest'')\<rparr>)
     = Inr (False, st'))"
proof
  have e: "sv_world ((initial_state ())\<lparr>sv_worldfile := f\<rparr>) = []" for f by (simp add: initial_state_def)
  show "world_load sample_module ((initial_state ())\<lparr>sv_worldfile := Some (write_uint32 7 @ ''rest'')\<rparr>)
     = Inl (Error ''unknown world file format'')"
    using world_load_checks[OF e, of "Some (write_uint32 7 @ ''rest'')" sample_module 7 "''rest''"]
    by (simp add: WORLD_MAGIC_def)
  show "\<exists>st'. world_load sample_module ((initial_state ())\<lparr>sv_worldfile := Some (write_uint32 WORLD_MAGIC @ write_size 5 @ ''rest'')\<rparr>)
     = Inr (False, st')"
    using world_load_checks[OF e, of "Some (write_uint32 WORLD_MAGIC @ write_size 5 @ ''rest'')" sample_module 7 "''rest''" 5]
    by (simp add: sample_module_def)
qed

end
