(* ===== verification/Nc_Stock.thy ===== *)
theory Nc_Stock
  imports Nc_World
begin

text \<open>
  Filling rooms: maps of objects that stay at a size the hash function is fit for, a state with
  one room's objects replaced, and what an object placed in a room does to both, with the contract
  of \<open>room_obj_add\<close> that follows. The init hooks of a world and the loading of a saved one rest on it.
\<close>

section \<open>Maps with room\<close>

text \<open>
  A map of up to 32 buckets, a power of two, with at most \<open>n\<close> pairs. With 22 of them 32 buckets are
  enough: the table grows when three quarters of the buckets are in use.
\<close>

definition roomy :: "nat \<Rightarrow> 'u obj_map \<Rightarrow> bool" where
  "roomy n m \<longleftrightarrow> om_ok m \<and> mm_counted m \<and> used_exact (mm_hash_tab m) \<and>
     length (mm_pairs m) \<le> n"

definition ROOMY_MAX :: nat where "ROOMY_MAX = 22"

lemma roomy_ok: "roomy n m \<Longrightarrow> om_ok m" "roomy n m \<Longrightarrow> mm_wf m" "roomy n m \<Longrightarrow> mm_sz m dvd 32" "roomy n m \<Longrightarrow> mm_counted m"
  by (auto simp: roomy_def om_ok_def)

lemma roomy_pairs: "roomy n m \<Longrightarrow> length (mm_pairs m) \<le> n"
  by (simp add: roomy_def)

text \<open>No list of a multimap is empty, so it has at least as many pairs as keys.\<close>

lemma keys_le_pairs:
  assumes "mm_wf m" shows "length (hash_entries (mm_hash_tab m)) \<le> length (mm_pairs m)"
proof -
  have "length es \<le> length (concat (map (\<lambda>(_, node). mn_list node) es))" if "\<forall>e\<in>set es. mn_list (snd e) \<noteq> []" for es :: "('a \<times> ('a, 'b) multimap_node) list"
    using that by (induction es) (auto simp: neq_Nil_conv)
  then show ?thesis using assms by (simp add: mm_pairs_def mm_wf_def node_ok_def)
qed

lemma roomy_mono: "roomy n m \<Longrightarrow> n \<le> n' \<Longrightarrow> roomy n' m"
  by (auto simp: roomy_def)

lemma roomy_start: "roomy 0 (obj_map_init OBJMAP_SIZE)"
  using obj_map_init_ok[of OBJMAP_SIZE]
  by (simp add: roomy_def OBJMAP_SIZE_def)
    (simp add: obj_map_init_def multimap_setfreedata_cb_def multimap_init_def hash_init_def hash_entries_def used_exact_def used_count_def mm_pairs_def)

lemma under_threshold:
  assumes "unat (u :: u64) < 22"
  shows "\<not> over_threshold (u + 1) 32"
proof -
  have u: "unat (u + 1) = unat u + 1" using assms by (simp add: unat_word_ariths(1))
  define v where "v = u + 1"
  have "unat (push_bit 16 v) = unat v * 65536"
    using assms u unfolding v_def[symmetric] by (simp add: push_bit_eq_mult unat_word_ariths)
  then show ?thesis
    using assms u unfolding v_def[symmetric] by (simp add: over_threshold_def RESIZE_THRESHOLD_def)
qed

lemma used_count_le: "hash_wf t \<Longrightarrow> used_count t \<le> length (hash_entries t)"
proof -
  have "length (filter (\<lambda>chain. chain \<noteq> []) cs) \<le> length (concat cs)" for cs :: "'x list list"
    by (induction cs) (auto simp: Suc_le_eq neq_Nil_conv)
  then show ?thesis by (simp add: used_count_def hash_entries_def)
qed

lemma hash_insert_small:
  assumes "hash_insert t k v = Inr (old, t')" "hm_table_sz t = 32" "hash_wf t" "used_exact t" "length (hash_entries t) < 22"
  shows "hm_table_sz t' = 32"
proof -
  have "used_count t < 22" using used_count_le[OF assms(3)] assms(5) by simp
  then have "unat (hm_used_buckets t) < 22" using assms(4) by (simp add: used_exact_def unat_of_nat)
  from under_threshold[OF this] show ?thesis
    using assms(1,2)
    by (auto simp: hash_insert_def hash_internal_insert_new_def Let_def res_bind_eq_Inr split: option.splits if_splits)
qed

lemma node_write_used:
  assumes "hash_wf t" shows "used_exact (node_write t k node) = used_exact t"
proof (cases "hash_find t k")
  case (Some i)
  let ?ix = "hash_index t k"
  have ix: "?ix < length (hm_table t)" using assms by (rule hash_wf_index_less)
  have ne: "(hash_chain t k)[i := (fst (hash_chain t k ! i), node)] \<noteq> [] \<longleftrightarrow> hm_table t ! ?ix \<noteq> []"
    by (simp add: hash_chain_def)
  have "length (filter (\<lambda>c. c \<noteq> []) ((hm_table t)[?ix := (hash_chain t k)[i := (fst (hash_chain t k ! i), node)]])) =
      length (filter (\<lambda>c. c \<noteq> []) (hm_table t))"
    using length_filter_update[OF ix, of "\<lambda>c. c \<noteq> []" "(hash_chain t k)[i := (fst (hash_chain t k ! i), node)]"] ne by (auto split: if_splits)
  then show ?thesis using Some by (simp add: used_exact_def used_count_def node_write_def Let_def)
qed (simp add: node_write_def)

lemma dvd_32:
  assumes "n dvd (32 :: nat)" shows "n = 32 \<or> n dvd 16"
proof -
  have "\<forall>n\<in>set [0..<33]. n dvd 32 \<longrightarrow> n = 32 \<or> n dvd (16 :: nat)" by code_simp
  moreover have "n \<in> set [0..<33]" using dvd_imp_le[OF assms] by auto
  ultimately show ?thesis using assms by blast
qed

lemma om_insert_roomy:
  assumes "roomy n m" "n < ROOMY_MAX"
  shows "\<exists>m'. om_insert key p (m, os) = Inr (mm_list m key = [], (m', os)) \<and> roomy (Suc n) m' \<and> om_has m' key p \<and>
    mset (mm_pairs m') = add_mset (key, p) (mset (mm_pairs m)) \<and> (\<forall>k q. om_has m k q \<longrightarrow> om_has m' k q)"
proof -
  note ok = roomy_ok[OF assms(1)]
  have used: "used_exact (mm_hash_tab m)" and pairs: "length (mm_pairs m) \<le> n"
    using assms(1) by (simp_all add: roomy_def)
  have n: "length (hash_entries (mm_hash_tab m)) \<le> n" using keys_le_pairs[OF ok(2)] pairs by simp
  obtain m' where m': "multimap_insert m key p = Inr (mm_list m key = [], m')" "adds_pair m key p m'"
    using multimap_insert_spec[OF ok(2), of key p] ok(4) by blast
  have ins: "om_insert key p (m, os) = Inr (mm_list m key = [], (m', os))" by (simp add: om_insert_def m'(1))
  note t = mm_wf_tab[OF ok(2)]
  have sz: "mm_sz m = 32 \<or> mm_sz m dvd 16" using ok(3) by (rule dvd_32)
  have "(mm_sz m = 32 \<longrightarrow> mm_sz m' = 32) \<and> used_exact (mm_hash_tab m')"
  proof (cases "hash_lookup (mm_hash_tab m) key")
    case None
    let ?node = "\<lparr>mn_list = [(key, p)], mn_n_pairs = 1\<rparr>"
    obtain tab where tab: "hash_insert (mm_hash_tab m) key ?node = Inr (None, tab)" "adds_entry (mm_hash_tab m) (key, ?node) tab"
      using hash_insert_absent[OF t(1) _ None, of ?node] t ok(4) by (auto simp: mm_counted_def)
    have "mm_hash_tab m' = tab" using m'(1) None tab(1) by (auto simp: multimap_insert_def)
    moreover have "hm_table_sz tab = 32" if "mm_sz m = 32"
      using hash_insert_small[OF tab(1) that t(1) used] n assms(2) by (simp add: ROOMY_MAX_def)
    ultimately show ?thesis using tab(2) sz used by (auto simp: adds_entry_def)
  next
    case (Some node)
    let ?node = "\<lparr>mn_list = (key, p) # mn_list node, mn_n_pairs = mn_n_pairs node + 1\<rparr>"
    have w: "mm_hash_tab m' = node_write (mm_hash_tab m) key ?node" using m'(1) Some by (auto simp: multimap_insert_def)
    obtain k' where "hm_table_sz (mm_hash_tab m') = mm_sz m"
      "add_mset (k', node) (mset (hash_entries (mm_hash_tab m'))) = add_mset (k', ?node) (mset (hash_entries (mm_hash_tab m)))"
      by (rule node_write_spec[OF ok(2) Some w])
    then show ?thesis using sz used node_write_used[OF t(1), of key ?node] w by simp
  qed
  note g = this
  have "mm_sz m' \<in> {mm_sz m, 2 * mm_sz m}" using m'(2) by (simp add: adds_pair_def)
  then have dvd: "mm_sz m' dvd 32" using g sz ok(3) mult_dvd_mono[of 2 2 "mm_sz m" 16] by auto
  have "om_ok m'" using om_insert_ok(5)[OF ok(1) ins dvd] by simp
  moreover have "length (mm_pairs m') \<le> Suc n" using m'(2) pairs by (metis adds_pair_def size_add_mset size_mset Suc_le_mono)
  ultimately have "roomy (Suc n) m'" using g m'(2) ok(4) by (simp add: roomy_def adds_pair_def)
  then show ?thesis using ins om_insert_has[OF ok(1) ins dvd] m'(2) by (auto simp: adds_pair_def)
qed

section \<open>A state with other objects in a room\<close>

definition furnish ::
  "room_id \<Rightarrow> 'u room_t \<Rightarrow> 'u obj_map \<Rightarrow> 'u obj_state \<Rightarrow> ('u, 'm) server_state \<Rightarrow> ('u, 'm) server_state" where
  "furnish rid room m os st = sv_set_obj os (room_set rid (room\<lparr>rm_objects := m\<rparr>) st)"

lemma furnish_room: "room_get rid st = Inr room \<Longrightarrow> room_get rid (furnish rid room m os st) = Inr (room\<lparr>rm_objects := m\<rparr>)"
  by (simp add: furnish_def room_get_set)

lemma furnish_simps [simp]:
  "sv_obj (furnish rid room m os st) = os"
  "sv_verb_classes (furnish rid room m os st) = sv_verb_classes st" "sv_global_verbs (furnish rid room m os st) = sv_global_verbs st"
  "sv_module (furnish rid room m os st) = sv_module st" "sv_world_map (furnish rid room m os st) = sv_world_map st"
  "sv_world (furnish rid room m os st) = (sv_world st)[nat rid := room\<lparr>rm_objects := m\<rparr>]"
  "sv_db_map (furnish rid room m os st) = sv_db_map st" "sv_world_name (furnish rid room m os st) = sv_world_name st"
  by (simp_all add: furnish_def sv_set_obj_def room_set_def)

lemma furnish_furnish [simp]:
  "furnish rid room m' os' (furnish rid room m os st) = furnish rid room m' os' st"
  "furnish rid (room\<lparr>rm_objects := m\<rparr>) m' os' st = furnish rid room m' os' st"
  "sv_set_obj os' (furnish rid room m os st) = furnish rid room m os' st"
  by (simp_all add: furnish_def sv_set_obj_def room_set_def)

lemma furnish_self: "room_get rid st = Inr room \<Longrightarrow> sv_set_obj os st = furnish rid room (rm_objects room) os st"
  by (simp add: furnish_def room_set_def room_get_Inr)

lemma furnish_objects:
  assumes "room_get rid st = Inr room" "f (m, os) = Inr (r, (m', os'))"
  shows "room_objects rid f (furnish rid room m os st) = Inr (r, furnish rid room m' os' st)"
proof -
  have "f (rm_objects (room\<lparr>rm_objects := m\<rparr>), sv_obj (furnish rid room m os st)) = Inr (r, (m', os'))" using assms(2) by simp
  from room_objects_Inr[where f = f, OF furnish_room[OF assms(1)] this]
  show ?thesis unfolding furnish_def[symmetric] furnish_furnish .
qed

section \<open>Placing an object\<close>

text \<open>Every alias takes one more reference; nothing else of the heap changes.\<close>

lemma om_insert_aliases_roomy:
  assumes "roomy n m" "n + length as \<le> ROOMY_MAX" "os_heap os p = Some obj"
  shows "\<exists>b' m' r. om_insert_aliases p as b (m, os) = Inr (b', (m', os\<lparr>os_heap := (os_heap os)(p \<mapsto> obj\<lparr>obj_refcount := r\<rparr>)\<rparr>)) \<and>
    roomy (n + length as) m' \<and> (\<forall>a\<in>set as. om_has m' a p) \<and> mset (mm_pairs m') = mset (map (\<lambda>a. (a, p)) as) + mset (mm_pairs m) \<and>
    (\<forall>k q. om_has m k q \<longrightarrow> om_has m' k q)"
  using assms
proof (induction as arbitrary: n m os obj b)
  case Nil
  have "os = os\<lparr>os_heap := (os_heap os)(p \<mapsto> obj\<lparr>obj_refcount := obj_refcount obj\<rparr>)\<rparr>"
    using map_upd_triv[of "os_heap os" p obj] Nil.prems(3) by simp
  then have "om_insert_aliases p [] b (m, os) = Inr (b, (m, os\<lparr>os_heap := (os_heap os)(p \<mapsto> obj\<lparr>obj_refcount := obj_refcount obj\<rparr>)\<rparr>))"
    unfolding om_insert_aliases.simps(1) by (rule arg_cong[of _ _ "\<lambda>os. Inr (b, (m, os))"])
  then show ?case using Nil.prems(1)
    by (intro exI[of _ b] exI[of _ m] exI[of _ "obj_refcount obj"] conjI) (assumption | simp)+
next
  case (Cons a as)
  let ?obj1 = "obj\<lparr>obj_refcount := obj_refcount obj + 1\<rparr>"
  let ?os1 = "os\<lparr>os_heap := (os_heap os)(p \<mapsto> ?obj1)\<rparr>"
  have dup: "obj_dup p os = Inr (p, ?os1)" using Cons.prems(3) by (simp add: obj_dup_def obj_deref_def obj_store_def)
  have "n < ROOMY_MAX" using Cons.prems(2) by simp
  from om_insert_roomy[OF Cons.prems(1) this, of a p ?os1] obtain m1 where
    one: "om_insert a p (m, ?os1) = Inr (mm_list m a = [], (m1, ?os1))" "roomy (Suc n) m1" "om_has m1 a p"
    "mset (mm_pairs m1) = add_mset (a, p) (mset (mm_pairs m))" "\<forall>k q. om_has m k q \<longrightarrow> om_has m1 k q" by blast
  have "Suc n + length as \<le> ROOMY_MAX" "os_heap ?os1 p = Some ?obj1" using Cons.prems(2) by simp_all
  from Cons.IH[OF one(2) this, of "if mm_list m a = [] then b else False"] obtain b' m' r where
    rest: "om_insert_aliases p as (if mm_list m a = [] then b else False) (m1, ?os1) =
      Inr (b', (m', ?os1\<lparr>os_heap := (os_heap ?os1)(p \<mapsto> ?obj1\<lparr>obj_refcount := r\<rparr>)\<rparr>))"
    "roomy (Suc n + length as) m'" "\<forall>a\<in>set as. om_has m' a p" "mset (mm_pairs m') = mset (map (\<lambda>a. (a, p)) as) + mset (mm_pairs m1)"
    "\<forall>k q. om_has m1 k q \<longrightarrow> om_has m' k q" by blast
  have "om_insert_aliases p (a # as) b (m, os) = Inr (b', (m', os\<lparr>os_heap := (os_heap os)(p \<mapsto> obj\<lparr>obj_refcount := r\<rparr>)\<rparr>))"
    using dup one(1) rest(1) by (simp add: om_insert_dup_def)
  then show ?case using one rest(2-5) by (intro exI[of _ b'] exI[of _ m'] exI[of _ r] conjI) (assumption | auto)+
qed

text \<open>An object goes under its name, then under its aliases.\<close>

lemma om_insert_names_roomy:
  assumes m: "roomy n m" "n + length (obj_names obj) \<le> ROOMY_MAX" and obj: "os_heap os p = Some obj"
  shows "\<exists>b m' r. res_bind (om_insert (obj_name obj) p (m, os)) (\<lambda>(fresh, mo). om_insert_aliases p (obj_alias_list obj) fresh mo) =
      Inr (b, (m', os\<lparr>os_heap := (os_heap os)(p \<mapsto> obj\<lparr>obj_refcount := r\<rparr>)\<rparr>)) \<and>
    roomy (n + length (obj_names obj)) m' \<and> mset (mm_pairs m') = mset (map (\<lambda>k. (k, p)) (obj_names obj)) + mset (mm_pairs m)"
proof -
  have "n < ROOMY_MAX" using m(2) by (simp add: obj_names_def)
  from om_insert_roomy[OF m(1) this, of "obj_name obj" p os] obtain m1 where
    one: "om_insert (obj_name obj) p (m, os) = Inr (mm_list m (obj_name obj) = [], (m1, os))" "roomy (Suc n) m1"
    "mset (mm_pairs m1) = add_mset (obj_name obj, p) (mset (mm_pairs m))" by blast
  have "Suc n + length (obj_alias_list obj) \<le> ROOMY_MAX" using m(2) by (simp add: obj_names_def)
  from om_insert_aliases_roomy[OF one(2) this obj, of "mm_list m (obj_name obj) = []"] obtain b m' r where
    rest: "om_insert_aliases p (obj_alias_list obj) (mm_list m (obj_name obj) = []) (m1, os) =
      Inr (b, (m', os\<lparr>os_heap := (os_heap os)(p \<mapsto> obj\<lparr>obj_refcount := r\<rparr>)\<rparr>))"
    "roomy (Suc n + length (obj_alias_list obj)) m'"
    "mset (mm_pairs m') = mset (map (\<lambda>a. (a, p)) (obj_alias_list obj)) + mset (mm_pairs m1)" by blast
  have "res_bind (om_insert (obj_name obj) p (m, os)) (\<lambda>(fresh, mo). om_insert_aliases p (obj_alias_list obj) fresh mo) =
      Inr (b, (m', os\<lparr>os_heap := (os_heap os)(p \<mapsto> obj\<lparr>obj_refcount := r\<rparr>)\<rparr>))"
    using one(1) rest(1) by simp
  then show ?thesis using one rest(2,3) by (intro exI[of _ b] exI[of _ m'] exI[of _ r] conjI) (assumption | auto simp: obj_names_def)+
qed

section \<open>Adding aliases to a placed object\<close>

text \<open>
  The object at \<open>p\<close> is in the map under each of its names, once; \<open>B\<close> is what else is there. What
  an alias changes of an object.
\<close>

definition stocked :: "'u obj_map \<Rightarrow> obj_ptr \<Rightarrow> 'u object_t \<Rightarrow> (string \<times> obj_ptr) multiset \<Rightarrow> bool" where
  "stocked m p obj B \<longleftrightarrow> (\<forall>k\<in>set (obj_names obj). om_has m k p) \<and> obj_name obj \<notin> set (obj_alias_list obj) \<and>
     mset (mm_pairs m) = mset (map (\<lambda>k. (k, p)) (obj_names obj)) + B"

definition same_thing :: "'u object_t \<Rightarrow> 'u object_t \<Rightarrow> bool" where
  "same_thing obj obj' \<longleftrightarrow> (\<exists>as n r. obj' = obj\<lparr>obj_alias_list := as, obj_n_alias := n, obj_refcount := r\<rparr>)"

lemma same_thing_refl [simp]: "same_thing obj obj"
  unfolding same_thing_def by (cases obj) auto

lemma same_thing_trans: "same_thing a b \<Longrightarrow> same_thing b c \<Longrightarrow> same_thing a c"
  unfolding same_thing_def by fastforce

lemma same_thing_fields:
  assumes "same_thing obj obj'"
  shows "obj_name obj' = obj_name obj" "obj_class obj' = obj_class obj" "obj_userdata obj' = obj_userdata obj" "obj_id obj' = obj_id obj"
  using assms by (auto simp: same_thing_def)

lemma om_has_nocase: "om_ok m \<Longrightarrow> om_has m a p \<Longrightarrow> strcasecmp a b = 0 \<Longrightarrow> om_has m b p"
  using mm_list_cong[of m a b] by (auto simp: om_ok_def om_has_list)

lemma add_alias_ok:
  assumes room: "room_get rid st = Inr room" and m: "roomy n m" "n < ROOMY_MAX" and obj: "os_heap os p = Some obj" "stocked m p obj B"
  shows "\<exists>b m' obj'. room_obj_add_alias rid p alias (furnish rid room m os st) =
      Inr (b, furnish rid room m' (os\<lparr>os_heap := (os_heap os)(p \<mapsto> obj')\<rparr>) st) \<and>
    roomy (Suc n) m' \<and> same_thing obj obj' \<and> stocked m' p obj' B \<and> set (obj_alias_list obj') \<subseteq> insert alias (set (obj_alias_list obj)) \<and>
    om_has m' alias p \<and> (\<forall>k q. om_has m k q \<longrightarrow> om_has m' k q)"
proof -
  let ?st = "furnish rid room m os st"
  have ok: "om_ok m" using m(1) by (rule roomy_ok)
  obtain found where "room_obj_get rid (obj_name obj) ?st = Inr (Some found)"
    using obj(2) furnish_room[OF room, of m os]
    by (auto simp: room_obj_get_def stocked_def obj_names_def om_has_def)
  then have start: "room_obj_add_alias rid p alias ?st =
      (if strcmp alias (obj_name obj) = 0 then Inr (False, ?st)
       else if \<exists>a\<in>set (obj_alias_list obj). strcasecmp a alias = 0 then Inr (False, ?st)
       else room_objects rid (om_insert_dup alias p)
         (sv_set_obj (obj_store p (obj\<lparr>obj_alias_list := alias # obj_alias_list obj, obj_n_alias := obj_n_alias obj + 1\<rparr>) os) ?st))"
    using obj(1) by (simp add: room_obj_add_alias_def obj_deref_def Let_def)
  show ?thesis
  proof (cases "strcmp alias (obj_name obj) = 0 \<or> (\<exists>a\<in>set (obj_alias_list obj). strcasecmp a alias = 0)")
    case True
    then have "om_has m alias p"
      using obj(2) om_has_nocase[OF ok] by (auto simp: stocked_def obj_names_def strcmp_eq_0)
    moreover have "room_obj_add_alias rid p alias ?st = Inr (False, ?st)" using start True by (auto simp del: strcmp_eq_0 strcasecmp_eq_0)
    moreover have "os = os\<lparr>os_heap := (os_heap os)(p \<mapsto> obj)\<rparr>" using obj(1) by (simp add: map_upd_triv)
    ultimately show ?thesis using roomy_mono[OF m(1), of "Suc n"] obj(2)
      by (intro exI[of _ False] exI[of _ m] exI[of _ obj] conjI) auto
  next
    case False
    define obj' where "obj' = obj\<lparr>obj_alias_list := alias # obj_alias_list obj, obj_n_alias := obj_n_alias obj + 1, obj_refcount := obj_refcount obj + 1\<rparr>"
    define os' where "os' = os\<lparr>os_heap := (os_heap os)(p \<mapsto> obj')\<rparr>"
    define os1 where "os1 = obj_store p (obj\<lparr>obj_alias_list := alias # obj_alias_list obj, obj_n_alias := obj_n_alias obj + 1\<rparr>) os"
    have dup: "obj_dup p os1 = Inr (p, os')"
      by (simp add: obj_dup_def obj_deref_def os1_def os'_def obj'_def obj_store_def)
    obtain m' where ins: "om_insert alias p (m, os') = Inr (mm_list m alias = [], (m', os'))" "roomy (Suc n) m'" "om_has m' alias p"
      "mset (mm_pairs m') = add_mset (alias, p) (mset (mm_pairs m))" "\<forall>k q. om_has m k q \<longrightarrow> om_has m' k q"
      using om_insert_roomy[OF m, of "alias" p os'] by blast
    have "sv_set_obj os1 ?st = furnish rid room m os1 st" by simp
    moreover have "om_insert_dup alias p (m, os1) = Inr (mm_list m alias = [], (m', os'))" using dup ins(1) by (simp add: om_insert_dup_def)
    ultimately have "room_obj_add_alias rid p alias ?st = Inr (mm_list m alias = [], furnish rid room m' os' st)"
      using start False furnish_objects[OF room, of "om_insert_dup alias p" m os1] by (simp add: os1_def)
    moreover have "stocked m' p obj' B" using ins(3-5) obj(2) False by (auto simp: stocked_def obj_names_def obj'_def)
    moreover have "same_thing obj obj'" by (auto simp: obj'_def same_thing_def)
    moreover have "set (obj_alias_list obj') \<subseteq> insert alias (set (obj_alias_list obj))" by (simp add: obj'_def)
    ultimately show ?thesis using ins(2,3,5) os'_def by blast
  qed
qed

lemma add_aliases_ok:
  assumes room: "room_get rid st = Inr room" and m: "roomy n m" "n + length aliases \<le> ROOMY_MAX" and obj: "os_heap os p = Some obj" "stocked m p obj B"
  shows "\<exists>m' obj'. res_fold (\<lambda>alias st. res_bind (room_obj_add_alias rid p alias st) (\<lambda>(_, st). Inr st)) aliases (furnish rid room m os st) =
      Inr (furnish rid room m' (os\<lparr>os_heap := (os_heap os)(p \<mapsto> obj')\<rparr>) st) \<and>
    roomy (n + length aliases) m' \<and> same_thing obj obj' \<and> stocked m' p obj' B \<and>
    set (obj_alias_list obj') \<subseteq> set aliases \<union> set (obj_alias_list obj) \<and> (\<forall>k\<in>set aliases. om_has m' k p) \<and> (\<forall>k q. om_has m k q \<longrightarrow> om_has m' k q)"
  using m obj
proof (induction aliases arbitrary: n m os obj)
  case Nil
  have "os\<lparr>os_heap := (os_heap os)(p \<mapsto> obj)\<rparr> = os" using Nil.prems(3) by (simp add: map_upd_triv)
  then have "res_fold (\<lambda>alias st. res_bind (room_obj_add_alias rid p alias st) (\<lambda>(_, st). Inr st)) [] (furnish rid room m os st) =
      Inr (furnish rid room m (os\<lparr>os_heap := (os_heap os)(p \<mapsto> obj)\<rparr>) st)" by simp
  then show ?case using Nil.prems(1,4) by (intro exI[of _ m] exI[of _ obj] conjI) (assumption | simp)+
next
  case (Cons a rest)
  have "n < ROOMY_MAX" using Cons.prems(2) by simp
  from add_alias_ok[OF room Cons.prems(1) this Cons.prems(3,4), of a]
  obtain b m1 obj1 where one: "room_obj_add_alias rid p a (furnish rid room m os st) =
      Inr (b, furnish rid room m1 (os\<lparr>os_heap := (os_heap os)(p \<mapsto> obj1)\<rparr>) st)"
    "roomy (Suc n) m1" "same_thing obj obj1" "stocked m1 p obj1 B" "set (obj_alias_list obj1) \<subseteq> insert a (set (obj_alias_list obj))"
    "om_has m1 a p" "\<forall>k q. om_has m k q \<longrightarrow> om_has m1 k q" by blast
  let ?os1 = "os\<lparr>os_heap := (os_heap os)(p \<mapsto> obj1)\<rparr>"
  have "Suc n + length rest \<le> ROOMY_MAX" "os_heap ?os1 p = Some obj1" using Cons.prems(2) by simp_all
  from Cons.IH[OF one(2) this one(4)]
  obtain m2 obj2 where rest: "res_fold (\<lambda>alias st. res_bind (room_obj_add_alias rid p alias st) (\<lambda>(_, st). Inr st)) rest
      (furnish rid room m1 ?os1 st) = Inr (furnish rid room m2 (?os1\<lparr>os_heap := (os_heap ?os1)(p \<mapsto> obj2)\<rparr>) st)"
    "roomy (Suc n + length rest) m2" "same_thing obj1 obj2" "stocked m2 p obj2 B"
    "set (obj_alias_list obj2) \<subseteq> set rest \<union> set (obj_alias_list obj1)"
    "\<forall>k\<in>set rest. om_has m2 k p" "\<forall>k q. om_has m1 k q \<longrightarrow> om_has m2 k q" by blast
  have "res_fold (\<lambda>alias st. res_bind (room_obj_add_alias rid p alias st) (\<lambda>(_, st). Inr st)) (a # rest) (furnish rid room m os st) =
      Inr (furnish rid room m2 (os\<lparr>os_heap := (os_heap os)(p \<mapsto> obj2)\<rparr>) st)" using one(1) rest(1) by simp
  then show ?case using one(5-7) rest(2,4-7) same_thing_trans[OF one(3) rest(3)]
    by (intro exI[of _ m2] exI[of _ obj2] conjI) (assumption | auto)+
qed

text \<open>Fresh tables of verbs, as rooms and the world start with.\<close>

lemma verb_table_init: "str_table (hash_setfreedata_cb (hash_init n hash_djb compare_strings) (Some verb_free))"
  "hash_lookup (hash_setfreedata_cb (hash_init n hash_djb compare_strings) (Some verb_free)) = Map.empty"
proof -
  have "owned_table hash_djb compare_strings verb_free (hash_setfreedata_cb (hash_init n hash_djb compare_strings) (Some verb_free))"
    by (rule owned_table_init)
  then show "str_table (hash_setfreedata_cb (hash_init n hash_djb compare_strings) (Some verb_free))"
    by (auto simp: owned_table_def exact_table_def frees_total_def call_free_def verb_free_def)
  show "hash_lookup (hash_setfreedata_cb (hash_init n hash_djb compare_strings) (Some verb_free)) = Map.empty"
    using exact_table_init[of hash_djb compare_strings n]
    by (simp add: hash_setfreedata_cb_def hash_lookup_def hash_find_def hash_chain_def hash_index_def hash_init_def fun_eq_iff)
qed

section \<open>Properties\<close>



end
