(* ===== verification/Nc_Userdb.thy ===== *)
theory Nc_Userdb
  imports Nc_World
begin

text \<open>
  The user database (\<open>src/userdb.c\<close>) and the periodic saving of the game
  (\<open>server_save_state\<close> of \<open>src/server.c\<close>). The database is a hash table from login names to
  user records; each record points to a multimap with the user's objects, which are reached
  through \<open>dh_maps\<close>. The free callback of the table acts on the heap of maps and objects.

  Every record of the database has a map, because \<open>userdb_init\<close> and \<open>userdb_add\<close> give it one;
  following a missing one is \<open>Null_Deref\<close> in the model.
\<close>

section \<open>The record on disk\<close>

text \<open>
  \<open>struct userdata_t\<close> as it lies in memory on a 64-bit machine: the three character arrays, one
  byte of padding, \<open>priv\<close>, \<open>last_login\<close> and the two pointers. Arrays are cleared before a
  name is copied into them. A pointer is represented by its number plus one, NULL by 0.
\<close>

definition char_array :: "nat \<Rightarrow> string \<Rightarrow> string" where
  "char_array n s = s @ replicate (n - length s) (char_of (0::nat))"

definition int64_bytes :: "int \<Rightarrow> string" where
  "int64_bytes t = le_bytes 8 (unat (word_of_int t :: u64))"

definition int64_val :: "string \<Rightarrow> int" where
  "int64_val buf = sint (of_nat (le_val buf) :: u64)"

definition ptr_num :: "map_ptr option \<Rightarrow> nat" where
  "ptr_num p = (case p of None \<Rightarrow> 0 | Some q \<Rightarrow> Suc q)"

definition USERDATA_SIZE :: nat where "USERDATA_SIZE = 208"

definition userdata_bytes :: "userdata_t \<Rightarrow> string" where
  "userdata_bytes ud =
     char_array (MAX_NAME_LEN + 1) (ud_username ud) @ char_array (SALT_LEN + 1) (ud_salt ud) @
     char_array (AUTH_HASHLEN * 2 + 1) (ud_passhash ud) @ [char_of (0::nat)] @
     int_bytes (ud_priv ud) @ int64_bytes (ud_last_login ud) @
     le_bytes 8 (ptr_num (ud_objects ud)) @ le_bytes 8 (ud_userdata ud)"

definition userdata_parse :: "string \<Rightarrow> userdata_t" where
  "userdata_parse buf =
     (let ptr = le_val (take 8 (drop 192 buf)) in
      \<lparr>ud_username = c_str (take 33 buf), ud_salt = c_str (take 17 (drop 33 buf)),
       ud_passhash = c_str (take 129 (drop 50 buf)), ud_priv = int_val (take 4 (drop 180 buf)),
       ud_last_login = int64_val (take 8 (drop 184 buf)),
       ud_objects = (if ptr = 0 then None else Some (ptr - 1)),
       ud_userdata = le_val (take 8 (drop 200 buf))\<rparr>)"

section \<open>Users' maps\<close>

definition free_userdata :: "userdata_t \<Rightarrow> 'u db_heap \<Rightarrow> 'u db_heap res" where
  "free_userdata data h =
     (case ud_objects data of
        None \<Rightarrow> Inr h
      | Some q \<Rightarrow>
          (case dh_maps h q of
             None \<Rightarrow> Inl Use_After_Free
           | Some m \<Rightarrow>
               res_bind (multimap_free m (dh_obj h)) (\<lambda>(m', os).
                 Inr (h\<lparr>dh_obj := os, dh_maps := (dh_maps h)(q := m')\<rparr>))))"

definition new_map :: "'u obj_map \<Rightarrow> ('u, 'm) server_state \<Rightarrow> map_ptr \<times> ('u, 'm) server_state" where
  "new_map m st =
     (let h = sv_heap st; q = dh_next h in
      (q, st\<lparr>sv_heap := h\<lparr>dh_maps := (dh_maps h)(q \<mapsto> m), dh_next := Suc q\<rparr>\<rparr>))"

text \<open>Running an operation on the map behind a pointer.\<close>

definition map_run ::
  "map_ptr \<Rightarrow> ('u om \<Rightarrow> ('a \<times> 'u om) res) \<Rightarrow> ('u, 'm) server_state \<Rightarrow> ('a \<times> ('u, 'm) server_state) res" where
  "map_run q f st =
     (case dh_maps (sv_heap st) q of
        None \<Rightarrow> Inl Use_After_Free
      | Some m \<Rightarrow>
          res_bind (f (m, sv_obj st)) (\<lambda>(r, m, os).
            Inr (r, st\<lparr>sv_heap := (sv_heap st)\<lparr>dh_obj := os, dh_maps := (dh_maps (sv_heap st))(q \<mapsto> m)\<rparr>\<rparr>)))"

text \<open>The map of a user, unlike that of a room, also gets the callback for duplication.\<close>

definition user_map_init :: "nat \<Rightarrow> 'u obj_map" where
  "user_map_init n = multimap_setdupdata_cb (obj_map_init n) (Some obj_dup)"

section \<open>Operations\<close>

definition USERDB_MAGIC :: u32 where "USERDB_MAGIC = 0x27182818"

definition userdb_lookup :: "string \<Rightarrow> ('u, 'm) server_state \<Rightarrow> userdata_t option" where
  "userdb_lookup key st = hash_lookup (sv_db_map st) key"

text \<open>The map of a user: \<open>userdb_lookup(name)->objects\<close>.\<close>

definition user_map_ptr :: "string \<Rightarrow> ('u, 'm) server_state \<Rightarrow> map_ptr res" where
  "user_map_ptr name st =
     (case userdb_lookup name st of
        None \<Rightarrow> Inl Null_Deref
      | Some user \<Rightarrow> (case ud_objects user of None \<Rightarrow> Inl Null_Deref | Some q \<Rightarrow> Inr q))"

definition user_objects ::
  "string \<Rightarrow> ('u om \<Rightarrow> ('a \<times> 'u om) res) \<Rightarrow> ('u, 'm) server_state \<Rightarrow> ('a \<times> ('u, 'm) server_state) res" where
  "user_objects name f st = res_bind (user_map_ptr name st) (\<lambda>q. map_run q f st)"

subsection \<open>Loading\<close>

text \<open>The objects of one user: each goes under its name, then a new reference under each alias.\<close>

fun load_user_objects ::
  "('u, 'm) world_module \<Rightarrow> map_ptr \<Rightarrow> nat \<Rightarrow> string \<Rightarrow> ('u, 'm) server_state \<Rightarrow> (string \<times> ('u, 'm) server_state) res" where
  "load_user_objects wm q 0 fd st = Inr (fd, st)"
| "load_user_objects wm q (Suc n) fd st =
     res_bind (obj_read (wm_obj_classes wm) fd (sv_obj st)) (\<lambda>(p, fd, os).
     res_bind (obj_deref p os) (\<lambda>obj.
     res_bind (map_run q (\<lambda>mo.
         res_bind (om_insert (obj_name obj) p mo) (\<lambda>(fresh, mo).
         om_insert_aliases p (obj_alias_list obj) fresh mo)) (sv_set_obj os st)) (\<lambda>(_, st).
       load_user_objects wm q n fd st)))"

text \<open>A record cut short ends the loop silently; a record of a name read before is dropped.\<close>

fun load_users ::
  "('u, 'm) world_module \<Rightarrow> nat \<Rightarrow> string \<Rightarrow> ('u, 'm) server_state \<Rightarrow> ('u, 'm) server_state res" where
  "load_users wm 0 fd st = Inr st"
| "load_users wm (Suc n) fd st =
     (let (buf, fd) = file_read USERDATA_SIZE fd in
      if length buf \<noteq> USERDATA_SIZE then Inr st
      else
        let data = userdata_parse buf in
        res_bind (read_exact ''unexpected EOF'' 8 fd) (\<lambda>(n_objects, fd).
        let (q, st) = new_map (user_map_init (min 8 (le_val n_objects))) st;
            data = data\<lparr>ud_objects := Some q\<rparr> in
        res_bind (load_user_objects wm q (le_val n_objects) fd st) (\<lambda>(fd, st).
        res_bind (case wm_read_userdata_cb wm of
                    None \<Rightarrow> Inr (ud_userdata data, fd, st)
                  | Some f \<Rightarrow> f fd st) (\<lambda>(userdata, fd, st).
        let data = data\<lparr>ud_userdata := userdata\<rparr> in
        res_bind (hash_insert (sv_db_map st) (ud_username data) data) (\<lambda>(_, tab).
          load_users wm n fd (st\<lparr>sv_db_map := tab\<rparr>))))))"

definition userdb_init :: "('u, 'm) world_module \<Rightarrow> ('u, 'm) server_state \<Rightarrow> ('u, 'm) server_state res" where
  "userdb_init wm st =
     (let st = st\<lparr>sv_db_map := hash_setfreedata_cb (hash_init 256 hash_djb compare_strings) (Some free_userdata)\<rparr> in
      case sv_userfile st of
        None \<Rightarrow> Inr st
      | Some fd \<Rightarrow>
          res_bind (read_uint32 fd) (\<lambda>(magic, fd).
          if magic \<noteq> USERDB_MAGIC then Inl (Error ''unknown user file format'')
          else res_bind (read_size fd) (\<lambda>(n_users, fd). load_users wm (unat n_users) fd st)))"

subsection \<open>Saving\<close>

definition write_user ::
  "('u, 'm) world_module \<Rightarrow> ('u, 'm) server_state \<Rightarrow> string \<times> userdata_t \<Rightarrow> string \<Rightarrow> string res" where
  "write_user wm st entry out =
     (let user = snd entry in
      res_bind (case ud_objects user of
          None \<Rightarrow> Inr (0, [])
        | Some q \<Rightarrow>
            (case dh_maps (sv_heap st) q of
               None \<Rightarrow> Inl Use_After_Free
             | Some m \<Rightarrow>
                 res_bind (obj_count_noalias m (sv_obj st)) (\<lambda>n_objects.
                 res_bind (if n_objects \<noteq> 0 then write_objects (wm_obj_classes wm) m (sv_obj st) else Inr []) (\<lambda>objects.
                   Inr (n_objects, objects))))) (\<lambda>(n_objects, objects).
        Inr (out @ userdata_bytes user @ le_bytes 8 n_objects @ objects @
          (case wm_write_userdata_cb wm of None \<Rightarrow> [] | Some f \<Rightarrow> f (ud_userdata user) st))))"

definition userdb_write :: "('u, 'm) world_module \<Rightarrow> ('u, 'm) server_state \<Rightarrow> (bool \<times> ('u, 'm) server_state) res" where
  "userdb_write wm st =
     res_bind (res_fold (write_user wm st) (hash_iter_loop (sv_db_map st) iter_start)
         (write_uint32 USERDB_MAGIC @ write_size (hash_size (sv_db_map st)))) (\<lambda>out.
       Inr (True, st\<lparr>sv_userfile := Some out\<rparr>))"

text \<open>\<open>server_save_state\<close> in the master process.\<close>

definition SAVE_INTERVAL :: int where "SAVE_INTERVAL = 10"

definition server_save_state ::
  "('u, 'm) world_module \<Rightarrow> bool \<Rightarrow> ('u, 'm) server_state \<Rightarrow> ('u, 'm) server_state res" where
  "server_save_state wm force st =
     (let n = (sv_save_n st + 1) mod SAVE_INTERVAL; st = st\<lparr>sv_save_n := n\<rparr> in
      if n = 0 \<or> force then
        res_bind (world_save wm st) (\<lambda>st. res_bind (userdb_write wm st) (\<lambda>(_, st). Inr st))
      else Inr st)"

subsection \<open>Adding and removing users\<close>

definition userdb_remove ::
  "('u, 'm) world_module \<Rightarrow> string \<Rightarrow> ('u, 'm) server_state \<Rightarrow> (bool \<times> ('u, 'm) server_state) res" where
  "userdb_remove wm key st =
     res_bind (hash_remove (sv_db_map st) key (sv_heap st)) (\<lambda>(found, tab, h).
     let st = st\<lparr>sv_db_map := tab, sv_heap := h\<rparr> in
     if found then res_bind (server_save_state wm False st) (\<lambda>st. Inr (True, st)) else Inr (False, st))"

text \<open>The objects of the new record: those of the old one, with one more reference to the map.\<close>

definition inherit_objects ::
  "userdata_t option \<Rightarrow> ('u, 'm) server_state \<Rightarrow> (map_ptr \<times> ('u, 'm) server_state) res" where
  "inherit_objects old st =
     (case Option.bind old ud_objects of
        Some q \<Rightarrow>
          (case dh_maps (sv_heap st) q of
             None \<Rightarrow> Inl Use_After_Free
           | Some m \<Rightarrow> Inr (q, st\<lparr>sv_heap := (sv_heap st)\<lparr>dh_maps := (dh_maps (sv_heap st))(q \<mapsto> multimap_dup m)\<rparr>\<rparr>))
      | None \<Rightarrow> Inr (new_map (user_map_init 8) st))"

definition userdb_add ::
  "('u, 'm) world_module \<Rightarrow> userdata_t \<Rightarrow> ('u, 'm) server_state \<Rightarrow> (bool \<times> ('u, 'm) server_state) res" where
  "userdb_add wm data st =
     res_bind (inherit_objects (userdb_lookup (ud_username data) st) st) (\<lambda>(q, st).
     let new = data\<lparr>ud_objects := Some q\<rparr> in
     res_bind (hash_overwrite (sv_db_map st) (ud_username new) new (sv_heap st)) (\<lambda>(tab, h).
     res_bind (server_save_state wm False (st\<lparr>sv_db_map := tab, sv_heap := h\<rparr>)) (\<lambda>st. Inr (True, st))))"

definition userdb_shutdown :: "('u, 'm) server_state \<Rightarrow> ('u, 'm) server_state res" where
  "userdb_shutdown st =
     res_bind (hash_free (sv_db_map st) (sv_heap st)) (\<lambda>h.
       Inr (st\<lparr>sv_heap := h, sv_db_map := hash_init 1 hash_djb compare_strings\<rparr>))"

definition userdb_iterate ::
  "iterstate \<Rightarrow> ('u, 'm) server_state \<Rightarrow> (userdata_t \<times> iterstate) option" where
  "userdb_iterate save st = map_option (\<lambda>((_, user), save). (user, save)) (hash_iterate (sv_db_map st) save)"

subsection \<open>Inventories\<close>

definition userdb_add_obj ::
  "string \<Rightarrow> obj_ptr \<Rightarrow> ('u, 'm) server_state \<Rightarrow> (bool \<times> ('u, 'm) server_state) res" where
  "userdb_add_obj name p st =
     user_objects name (\<lambda>mo.
       res_bind (obj_deref p (snd mo)) (\<lambda>obj.
       res_bind (om_insert_aliases p (obj_alias_list obj) True mo) (\<lambda>(_, mo).
       om_insert_dup (obj_name obj) p mo))) st"

definition userdb_del_obj_by_ptr ::
  "string \<Rightarrow> obj_ptr \<Rightarrow> ('u, 'm) server_state \<Rightarrow> (bool \<times> ('u, 'm) server_state) res" where
  "userdb_del_obj_by_ptr name p st = user_objects name (om_del_by_ptr p) st"

definition userdb_del_obj ::
  "string \<Rightarrow> string \<Rightarrow> ('u, 'm) server_state \<Rightarrow> (bool \<times> ('u, 'm) server_state) res" where
  "userdb_del_obj name oname st =
     user_objects name (\<lambda>mo.
       case multimap_lookup (fst mo) oname of
         None \<Rightarrow> Inr (True, mo)
       | Some (iter, _) \<Rightarrow> res_bind (om_del_cells oname iter mo) (\<lambda>mo. Inr (True, mo))) st"


section \<open>Lemmas\<close>

subsection \<open>The record on disk\<close>

definition plain_str :: "nat \<Rightarrow> string \<Rightarrow> bool" where
  "plain_str n s \<longleftrightarrow> length s < n \<and> (\<forall>c\<in>set s. code c \<noteq> 0)"

definition userdata_fits :: "userdata_t \<Rightarrow> bool" where
  "userdata_fits ud \<longleftrightarrow> plain_str 33 (ud_username ud) \<and> plain_str 17 (ud_salt ud) \<and>
     plain_str 129 (ud_passhash ud) \<and> fits_int (ud_priv ud) \<and>
     - (2 ^ 63) \<le> ud_last_login ud \<and> ud_last_login ud < 2 ^ 63 \<and>
     ptr_num (ud_objects ud) < 2 ^ 64 \<and> ud_userdata ud < 2 ^ 64"

lemma char_array_simps [simp]:
  "length s \<le> n \<Longrightarrow> length (char_array n s) = n"
  "plain_str n s \<Longrightarrow> c_str (char_array n s) = s"
proof -
  show "length (char_array n s) = n" if "length s \<le> n" using that by (simp add: char_array_def)
  assume p: "plain_str n s"
  then have "c_str (char_array n s) = s @ c_str (replicate (n - length s) (char_of (0::nat)))"
    unfolding c_str_def char_array_def by (subst takeWhile_append2) (auto simp: plain_str_def)
  also have "c_str (replicate (n - length s) (char_of (0::nat))) = []"
    by (cases "n - length s") (simp_all add: c_str_def)
  finally show "c_str (char_array n s) = s" by simp
qed

lemma int64_val_bytes: "- (2 ^ 63) \<le> t \<Longrightarrow> t < 2 ^ 63 \<Longrightarrow> int64_val (int64_bytes t) = t"
  by (simp add: int64_val_def int64_bytes_def le_val_le_bytes signed_take_bit_int_eq_self sint_sbintrunc')

lemma int64_bytes_length [simp]: "length (int64_bytes t) = 8"
  by (simp add: int64_bytes_def)

lemma userdata_parse_fields:
  assumes "length u = 33" "length s = 17" "length h = 129" "length p = 4" "length l = 8" "length obs = 8" "length d = 8"
  shows "userdata_parse (u @ s @ h @ [z] @ p @ l @ obs @ d) =
     \<lparr>ud_username = c_str u, ud_salt = c_str s, ud_passhash = c_str h, ud_priv = int_val p,
      ud_last_login = int64_val l, ud_objects = (if le_val obs = 0 then None else Some (le_val obs - 1)),
      ud_userdata = le_val d\<rparr>"
  using assms by (simp add: userdata_parse_def)

subsection \<open>Freeing a map\<close>

lemma res_fold_concat: "res_fold f (concat xss) s = res_fold (res_fold f) xss s"
  by (induction xss arbitrary: s) (auto simp: res_fold_append res_bind_def split: sum.splits)

lemma hash_free_entries: "hash_free m s = res_fold (hash_free_node m) (hash_entries m) s"
  by (simp add: hash_free_def hash_entries_def res_fold_concat)

lemma res_bind_Inr [simp]: "res_bind m Inr = m"
  by (cases m) simp_all

lemma call_free_None [simp]: "call_free None x = Inr"
  by (rule ext) (simp add: call_free_def)

lemma multimap_free_pairs:
  assumes "mm_wf m"
  shows "hash_free (mm_tab m) s = res_fold (free_pair m) (mm_pairs m) s"
proof -
  have "hash_free_node (mm_tab m) = (\<lambda>e. res_fold (free_pair m) (mn_list (snd e)))"
    using assms by (intro ext) (simp add: hash_free_node_def mm_tab_def hash_setfreedata_cb_def mm_wf_def
        free_node_def call_free_def[of "Some _"])
  moreover have "hash_entries (mm_tab m) = hash_entries (mm_hash_tab m)"
    by (simp add: mm_tab_def hash_setfreedata_cb_def hash_entries_def)
  moreover have "res_fold (\<lambda>e. res_fold (free_pair m) (mn_list (snd e))) es s =
      res_fold (free_pair m) (concat (map (\<lambda>(_, node). mn_list node) es)) s" for es
    by (induction es arbitrary: s) (auto simp: res_fold_append res_bind_def split: sum.splits)
  ultimately show ?thesis by (simp add: hash_free_entries mm_pairs_def)
qed

lemma free_pairs_refs:
  assumes "mm_free_data m = Some obj_free" "mm_free_key m = None" "refs_exact (\<lambda>q. R q + pair_refs (mset ps) q) os"
  shows "\<exists>os'. res_fold (free_pair m) ps os = Inr os' \<and> refs_exact R os' \<and> same_objs os os'"
  using assms(3)
proof (induction ps arbitrary: os)
  case (Cons e ps)
  let ?R = "\<lambda>q. R q + pair_refs (mset (e # ps)) q"
  have pos: "0 < ?R (snd e)" by simp
  obtain os1 where os1: "obj_free (snd e) os = Inr os1" "refs_exact (?R(snd e := ?R (snd e) - 1)) os1" "same_objs os os1"
    using obj_free_refs[OF Cons.prems pos] by blast
  have "?R(snd e := ?R (snd e) - 1) = (\<lambda>q. R q + pair_refs (mset ps) q)" by auto
  then obtain os' where os': "res_fold (free_pair m) ps os1 = Inr os'" "refs_exact R os'" "same_objs os1 os'"
    using Cons.IH[of os1] os1(2) by auto
  moreover have "free_pair m e os = Inr os1" using os1(1) by (simp add: free_pair_def call_free_def assms(1,2))
  ultimately show ?case using same_objs_trans[OF os1(3)] by auto
qed simp

lemma om_free_refs:
  assumes "om_ok m" "mm_refcount m = 1" "refs_exact (\<lambda>q. R q + om_refs m q) os"
  shows "\<exists>os'. multimap_free m os = Inr (None, os') \<and> refs_exact R os' \<and> same_objs os os'"
proof -
  let ?m = "m\<lparr>mm_refcount := mm_refcount m - 1\<rparr>"
  have "mm_wf m" using assms(1) by (simp add: om_ok_def)
  then have wf: "mm_wf ?m" by (simp add: mm_wf_def mm_pairs_def mm_compat_def)
  have same: "mm_free_data ?m = Some obj_free" "mm_free_key ?m = None" "mm_pairs ?m = mm_pairs m"
    using assms(1) by (simp_all add: om_ok_def mm_pairs_def)
  obtain os' where os': "res_fold (free_pair ?m) (mm_pairs m) os = Inr os'" "refs_exact R os'" "same_objs os os'"
    using free_pairs_refs[OF same(1,2) assms(3)[unfolded om_refs_def]] by blast
  then show ?thesis
    using assms(2) multimap_free_pairs[OF wf, of os] same(3) by (simp add: multimap_free_def Let_def)
qed

subsection \<open>Saving\<close>

text \<open>
  The maps of objects in the game, and what makes saving succeed: they are well-formed, hold
  live objects only, and every user's map exists.
\<close>

definition game_maps :: "('u, 'm) server_state \<Rightarrow> 'u obj_map set" where
  "game_maps st = rm_objects ` set (sv_world st) \<union> ran (dh_maps (sv_heap st))"

definition om_live :: "'u obj_state \<Rightarrow> 'u obj_map \<Rightarrow> bool" where
  "om_live os m \<longleftrightarrow> mm_wf m \<and> (\<forall>e\<in>set (mm_pairs m). os_heap os (snd e) \<noteq> None)"

definition savable :: "('u, 'm) server_state \<Rightarrow> bool" where
  "savable st \<longleftrightarrow> (\<forall>m\<in>game_maps st. om_live (sv_obj st) m) \<and> hash_wf (sv_db_map st) \<and>
     (\<forall>e\<in>set (hash_entries (sv_db_map st)). \<forall>q. ud_objects (snd e) = Some q \<longrightarrow> dh_maps (sv_heap st) q \<noteq> None)"

definition saved :: "('u, 'm) server_state \<Rightarrow> ('u, 'm) server_state \<Rightarrow> bool" where
  "saved st st' \<longleftrightarrow> (\<exists>v w u n. st' = st\<lparr>sv_global_verbs := v, sv_worldfile := w, sv_userfile := u, sv_save_n := n\<rparr>)"

lemma savedD:
  assumes "saved st st'"
  shows "sv_heap st' = sv_heap st" "sv_world st' = sv_world st" "sv_db_map st' = sv_db_map st"
    "sv_children st' = sv_children st" "sv_child_map st' = sv_child_map st" "userdb_lookup name st' = userdb_lookup name st"
    "room_get rid st' = room_get rid st" "child_get c st' = child_get c st" "sv_num_clients st' = sv_num_clients st"
  using assms by (auto simp: saved_def userdb_lookup_def room_get_def child_get_def)

lemma obj_map_pairs_eq: "mm_wf m \<Longrightarrow> obj_map_pairs m = mm_pairs m"
  by (auto simp: obj_map_pairs_def multimap_lists_def mm_pairs_def mm_wf_def hash_iter_loop_entries comp_def case_prod_unfold)

lemma om_live_writes:
  assumes "om_live os m"
  shows "\<exists>n. obj_count_noalias m os = Inr n" "\<exists>out. write_objects classes m os = Inr out"
proof -
  have live: "\<exists>obj. obj_deref (snd e) os = Inr obj" if "e \<in> set (obj_map_pairs m)" for e
    using assms that by (auto simp: om_live_def obj_map_pairs_eq obj_deref_def)
  show "\<exists>n. obj_count_noalias m os = Inr n"
    using res_fold_invariant[of "obj_map_pairs m" "\<lambda>_. True"] live
    unfolding obj_count_noalias_def by (smt (verit) case_prod_beta res_bind_simps(2))
  show "\<exists>out. write_objects classes m os = Inr out"
    using res_fold_invariant[of "obj_map_pairs m" "\<lambda>_. True"] live
    unfolding write_objects_def by (smt (verit) case_prod_beta res_bind_simps(2))
qed

lemma saved_refl: "saved st st"
  unfolding saved_def by (cases st) (auto intro!: exI)

lemma saved_trans: "saved a b \<Longrightarrow> saved b c \<Longrightarrow> saved a c"
  unfolding saved_def by (elim exE, simp, (rule exI)+, rule refl)

lemma saved_fields [simp]:
  "saved st (st\<lparr>sv_worldfile := w\<rparr>)" "saved st (st\<lparr>sv_userfile := u\<rparr>)" "saved st (st\<lparr>sv_save_n := n\<rparr>)"
  "saved st (st\<lparr>sv_global_verbs := v\<rparr>)"
  unfolding saved_def by (cases st; auto intro!: exI)+

lemma savable_saved: "saved st st' \<Longrightarrow> savable st \<Longrightarrow> savable st'"
  by (auto simp: savable_def game_maps_def savedD)

lemma world_verb_map_saved: "saved st (snd (world_verb_map st))"
  by (simp add: world_verb_map_def init_map_def Let_def saved_refl split: option.splits)

lemma world_save_ok:
  assumes "savable st"
  shows "\<exists>st'. world_save wm st = Inr st' \<and> saved st st'"
proof -
  obtain tab st1 where v: "world_verb_map st = (tab, st1)" by (cases "world_verb_map st")
  have s1: "saved st st1" using world_verb_map_saved[of st] v by simp
  have room: "\<exists>out'. write_room wm st1 i out = Inr out'" if "i \<in> set [0..<length (sv_world st1)]" for i out
  proof -
    have "om_live (sv_obj st1) (rm_objects (sv_world st1 ! i))"
      using savable_saved[OF s1 assms] that by (auto simp: savable_def game_maps_def)
    from om_live_writes[OF this] show ?thesis by (metis write_room_def res_bind_simps(2))
  qed
  obtain out where "res_fold (write_room wm st1) [0..<length (sv_world st1)]
          (write_uint32 WORLD_MAGIC @ write_size (of_nat (length (sv_world st1))) @ write_string (sv_world_name st1) @
           write_size (hash_size tab) @ (if hash_size tab \<noteq> 0 then write_verbs (wm_verb_classes wm) tab else [])) = Inr out"
    using res_fold_invariant[of "[0..<length (sv_world st1)]" "\<lambda>_. True" "write_room wm st1"] room by blast
  then show ?thesis
    using saved_trans[OF s1] by (auto simp: world_save_def v Let_def)
qed

lemma userdb_write_ok:
  assumes "savable st"
  shows "\<exists>st'. userdb_write wm st = Inr (True, st') \<and> saved st st'"
proof -
  have user: "\<exists>out'. write_user wm st e out = Inr out'" if e: "e \<in> set (hash_iter_loop (sv_db_map st) iter_start)" for e out
  proof (cases "ud_objects (snd e)")
    case (Some q)
    have "e \<in> set (hash_entries (sv_db_map st))" using e assms by (simp add: savable_def hash_iter_loop_entries)
    then have "dh_maps (sv_heap st) q \<noteq> None" using assms Some unfolding savable_def by blast
    then obtain m where m: "dh_maps (sv_heap st) q = Some m" by blast
    then have "om_live (sv_obj st) m" using assms by (auto simp: savable_def game_maps_def ranI)
    from om_live_writes[OF this] obtain n objects where "obj_count_noalias m (sv_obj st) = Inr n"
      "write_objects (wm_obj_classes wm) m (sv_obj st) = Inr objects" by blast
    then show ?thesis using Some m by (auto simp: write_user_def Let_def)
  qed (simp add: write_user_def Let_def)
  obtain out where "res_fold (write_user wm st) (hash_iter_loop (sv_db_map st) iter_start)
      (write_uint32 USERDB_MAGIC @ write_size (hash_size (sv_db_map st))) = Inr out"
    using res_fold_invariant[of "hash_iter_loop (sv_db_map st) iter_start" "\<lambda>_. True" "write_user wm st"] user by blast
  then show ?thesis by (auto simp: userdb_write_def)
qed

lemma server_save_state_ok:
  assumes "savable st"
  shows "\<exists>st'. server_save_state wm force st = Inr st' \<and> saved st st'"
proof -
  let ?st = "st\<lparr>sv_save_n := (sv_save_n st + 1) mod SAVE_INTERVAL\<rparr>"
  have s: "saved st ?st" by simp
  obtain st1 where st1: "world_save wm ?st = Inr st1" "saved ?st st1"
    using world_save_ok[OF savable_saved[OF s assms]] by blast
  obtain st2 where "userdb_write wm st1 = Inr (True, st2)" "saved st1 st2"
    using userdb_write_ok[OF savable_saved[OF st1(2) savable_saved[OF s assms]]] by blast
  then show ?thesis
    using st1 saved_trans[OF s saved_trans[OF st1(2)]] by (auto simp: server_save_state_def Let_def)
qed

subsection \<open>The invariant of the database\<close>

text \<open>Every record is stored under its own name and has a map of its own.\<close>

definition user_ok :: "'u db_heap \<Rightarrow> string \<Rightarrow> userdata_t \<Rightarrow> bool" where
  "user_ok h name ud \<longleftrightarrow> ud_username ud = name \<and>
     (\<exists>q m. ud_objects ud = Some q \<and> dh_maps h q = Some m \<and> om_ok m \<and> mm_refcount m = 1 \<and> q < dh_next h)"

abbreviation db_table_ok :: "(string, userdata_t, 'u db_heap) hash_map \<Rightarrow> bool" where
  "db_table_ok \<equiv> owned_table hash_djb compare_strings free_userdata"

interpretation db_table: owning_map db_table_ok hash_lookup hash_insert hash_entries hash_overwrite hash_remove free_userdata
  by (rule owned_table_laws) simp

definition db_ok :: "('u, 'm) server_state \<Rightarrow> bool" where
  "db_ok st \<longleftrightarrow> db_table_ok (sv_db_map st) \<and>
     (\<forall>name ud. userdb_lookup name st = Some ud \<longrightarrow> user_ok (sv_heap st) name ud) \<and>
     (\<forall>a b ua ub. userdb_lookup a st = Some ua \<longrightarrow> userdb_lookup b st = Some ub \<longrightarrow> ud_objects ua = ud_objects ub \<longrightarrow> a = b)"

definition maps_live :: "('u, 'm) server_state \<Rightarrow> bool" where
  "maps_live st \<longleftrightarrow> (\<forall>m\<in>game_maps st. om_live (sv_obj st) m)"

lemma db_savable: "db_ok st \<Longrightarrow> maps_live st \<Longrightarrow> savable st"
  using db_table.entries_iff[of "sv_db_map st"]
  by (fastforce simp: savable_def maps_live_def db_ok_def owned_table_def user_ok_def userdb_lookup_def)

lemma db_ok_saved: "saved st st' \<Longrightarrow> db_ok st' = db_ok st" "saved st st' \<Longrightarrow> maps_live st' = maps_live st"
  by (simp_all add: db_ok_def maps_live_def game_maps_def savedD)

lemma db_ok_upd:
  assumes "db_ok st" "db_table_ok tab" "hash_lookup tab = (hash_lookup (sv_db_map st))(k \<mapsto> v)" "user_ok h k v"
    and "\<And>n ud. n \<noteq> k \<Longrightarrow> userdb_lookup n st = Some ud \<Longrightarrow> user_ok h n ud \<and> ud_objects ud \<noteq> ud_objects v"
  shows "db_ok (st\<lparr>sv_db_map := tab, sv_heap := h\<rparr>)"
proof -
  let ?st = "st\<lparr>sv_db_map := tab, sv_heap := h\<rparr>"
  have l: "userdb_lookup n ?st = (if n = k then Some v else userdb_lookup n st)" for n
    using assms(3) by (simp add: userdb_lookup_def)
  have "user_ok h n ud" if "userdb_lookup n ?st = Some ud" for n ud
    using that assms(4,5) by (auto simp: l split: if_splits)
  moreover have "a = b" if "userdb_lookup a ?st = Some ua" "userdb_lookup b ?st = Some ub" "ud_objects ua = ud_objects ub" for a b ua ub
    using that assms(1,5) unfolding l db_ok_def by (metis option.inject)
  ultimately show ?thesis using assms(2) by (simp add: db_ok_def)
qed

lemma multimap_dup_free:
  "mm_refcount m = 1 \<Longrightarrow> multimap_free (multimap_dup m) s = Inr (Some m, s)"
  by (cases m) (simp add: multimap_free_def multimap_dup_def Let_def)

lemma user_map_init_fields:
  fixes m :: "'u obj_map"
  assumes "m = multimap_setdupdata_cb (obj_map_init n) (Some obj_dup)"
  shows "mm_hash_tab m = mm_hash_tab (obj_map_init n)" "mm_total_pairs m = mm_total_pairs (obj_map_init n :: 'u obj_map)"
    "mm_compare_val m = mm_compare_val (obj_map_init n)" "mm_free_data m = mm_free_data (obj_map_init n)"
    "mm_free_key m = mm_free_key (obj_map_init n :: 'u obj_map)" "mm_refcount m = 1" "mm_pairs m = []"
  by (simp_all add: assms multimap_setdupdata_cb_def obj_map_init_def multimap_setfreedata_cb_def multimap_init_def mm_pairs_def)

lemma mm_wf_eq:
  assumes "mm_hash_tab m' = mm_hash_tab m" "mm_total_pairs m' = mm_total_pairs m"
  shows "mm_wf m' = mm_wf m" "mm_pairs m' = mm_pairs m"
  unfolding mm_wf_def mm_compat_def mm_pairs_def assms by (rule refl)+

lemma om_ok_eq:
  assumes "mm_hash_tab m' = mm_hash_tab m" "mm_total_pairs m' = mm_total_pairs m"
    "mm_compare_val m' = mm_compare_val m" "mm_free_data m' = mm_free_data m" "mm_free_key m' = mm_free_key m"
  shows "om_ok m' = om_ok m"
  unfolding om_ok_def mm_wf_eq[OF assms(1,2)] assms by (rule refl)

lemma user_map_init_om_ok: "n dvd 32 \<Longrightarrow> om_ok (user_map_init n)"
  unfolding om_ok_eq[OF user_map_init_fields(1-5)[OF user_map_init_def]] by (rule obj_map_init_ok(1))

lemma user_map_init_empty: "om_refs (user_map_init n) = (\<lambda>_. 0)" "mm_refcount (user_map_init n) = 1"
  "mm_pairs (user_map_init n) = []" "mm_pairs (obj_map_init n) = []"
  by (simp_all add: om_refs_def user_map_init_fields[OF user_map_init_def] obj_map_init_def
      multimap_setfreedata_cb_def multimap_init_def mm_pairs_def fun_eq_iff)

lemmas user_map_init_ok = user_map_init_om_ok user_map_init_empty

lemma om_ok_wf: "om_ok m \<Longrightarrow> mm_wf m"
  by (simp add: om_ok_def)

lemma empty_map_live: "n dvd 32 \<Longrightarrow> om_live os (obj_map_init n)" "n dvd 32 \<Longrightarrow> om_live os (user_map_init n)"
  by (simp_all add: om_live_def user_map_init_ok om_ok_wf obj_map_init_ok(1))

lemma map_upd_id: "f k = Some v \<Longrightarrow> f(k \<mapsto> v) = f"
  by (simp add: fun_upd_idem)

subsection \<open>Adding a user\<close>

lemma userdb_add_ok:
  assumes "db_ok st" "maps_live st"
  shows "\<exists>st'. userdb_add wm data st = Inr (True, st') \<and> db_ok st' \<and> maps_live st' \<and>
    sv_obj st' = sv_obj st \<and> sv_world st' = sv_world st \<and> sv_children st' = sv_children st \<and>
    (\<forall>name. name \<noteq> ud_username data \<longrightarrow> userdb_lookup name st' = userdb_lookup name st) \<and>
    (case userdb_lookup (ud_username data) st of
       Some old \<Rightarrow> userdb_lookup (ud_username data) st' = Some (data\<lparr>ud_objects := ud_objects old\<rparr>) \<and>
         dh_maps (sv_heap st') = dh_maps (sv_heap st)
     | None \<Rightarrow> userdb_lookup (ud_username data) st' = Some (data\<lparr>ud_objects := Some (dh_next (sv_heap st))\<rparr>) \<and>
         dh_maps (sv_heap st') = (dh_maps (sv_heap st))(dh_next (sv_heap st) \<mapsto> user_map_init 8))"
proof -
  let ?k = "ud_username data" let ?h = "sv_heap st"
  have t: "db_table_ok (sv_db_map st)" and users: "\<And>n ud. userdb_lookup n st = Some ud \<Longrightarrow> user_ok ?h n ud"
    and own: "\<And>a b ua ub. userdb_lookup a st = Some ua \<Longrightarrow> userdb_lookup b st = Some ub \<Longrightarrow> ud_objects ua = ud_objects ub \<Longrightarrow> a = b"
    using assms(1) unfolding db_ok_def by blast+
  have finish: ?thesis
    if add: "userdb_add wm data st = res_bind (server_save_state wm False (st\<lparr>sv_db_map := tab, sv_heap := h\<rparr>)) (\<lambda>st. Inr (True, st))"
      and ok: "db_ok (st\<lparr>sv_db_map := tab, sv_heap := h\<rparr>)" "maps_live (st\<lparr>sv_db_map := tab, sv_heap := h\<rparr>)" "dh_obj h = sv_obj st"
      and new: "hash_lookup tab = (hash_lookup (sv_db_map st))(?k \<mapsto> v)"
      and v: "case userdb_lookup ?k st of Some old \<Rightarrow> v = data\<lparr>ud_objects := ud_objects old\<rparr> \<and> dh_maps h = dh_maps ?h
         | None \<Rightarrow> v = data\<lparr>ud_objects := Some (dh_next ?h)\<rparr> \<and> dh_maps h = (dh_maps ?h)(dh_next ?h \<mapsto> user_map_init 8)"
    for tab h v
  proof -
    obtain st' where s: "server_save_state wm False (st\<lparr>sv_db_map := tab, sv_heap := h\<rparr>) = Inr st'"
      "saved (st\<lparr>sv_db_map := tab, sv_heap := h\<rparr>) st'"
      using server_save_state_ok[OF db_savable[OF ok(1,2)]] by blast
    show ?thesis
      using s(1) ok new v savedD[OF s(2)] db_ok_saved[OF s(2)]
      by (intro exI[of _ st']) (auto simp: add userdb_lookup_def split: option.splits)
  qed
  show ?thesis
  proof (cases "userdb_lookup ?k st")
    case (Some old)
    obtain q m where q: "ud_objects old = Some q" "dh_maps ?h q = Some m" "om_ok m" "mm_refcount m = 1" "q < dh_next ?h"
      using users[OF Some] unfolding user_ok_def by blast
    let ?h1 = "?h\<lparr>dh_maps := (dh_maps ?h)(q \<mapsto> multimap_dup m)\<rparr>" let ?v = "data\<lparr>ud_objects := Some q\<rparr>"
    have "free_userdata old ?h1 = Inr ?h"
      using q(1,2,4) by (simp add: free_userdata_def multimap_dup_free map_upd_id)
    then obtain tab where tab: "hash_overwrite (sv_db_map st) ?k ?v ?h1 = Inr (tab, ?h)" "db_table_ok tab"
      "hash_lookup tab = (hash_lookup (sv_db_map st))(?k \<mapsto> ?v)"
      using db_table.overwrite_old[OF t, of ?k old ?h1 ?h ?v] Some unfolding userdb_lookup_def by blast
    have "db_ok (st\<lparr>sv_db_map := tab, sv_heap := ?h\<rparr>)"
    proof (rule db_ok_upd[OF assms(1) tab(2,3)])
      show "user_ok ?h ?k ?v" using q by (simp add: user_ok_def)
      show "user_ok ?h n ud \<and> ud_objects ud \<noteq> ud_objects ?v" if "n \<noteq> ?k" "userdb_lookup n st = Some ud" for n ud
        using users[OF that(2)] own[OF that(2) Some] q(1) that(1) by auto
    qed
    moreover have "maps_live (st\<lparr>sv_db_map := tab, sv_heap := ?h\<rparr>)"
      using assms(2) by (simp add: maps_live_def game_maps_def)
    moreover have "userdb_add wm data st = res_bind (server_save_state wm False (st\<lparr>sv_db_map := tab, sv_heap := ?h\<rparr>)) (\<lambda>st. Inr (True, st))"
      using tab(1) by (simp add: userdb_add_def inherit_objects_def Some q(1,2))
    ultimately show ?thesis using finish[where tab = tab and h = ?h and v = ?v] tab(3) Some q(1) by simp
  next
    case None
    let ?q = "dh_next ?h" let ?v = "data\<lparr>ud_objects := Some ?q\<rparr>"
    let ?h1 = "?h\<lparr>dh_maps := (dh_maps ?h)(?q \<mapsto> user_map_init 8), dh_next := Suc ?q\<rparr>"
    obtain tab where tab: "hash_overwrite (sv_db_map st) ?k ?v ?h1 = Inr (tab, ?h1)" "db_table_ok tab"
      "hash_lookup tab = (hash_lookup (sv_db_map st))(?k \<mapsto> ?v)"
      using db_table.overwrite_new[OF t, of ?k ?v ?h1] None unfolding userdb_lookup_def by blast
    have "db_ok (st\<lparr>sv_db_map := tab, sv_heap := ?h1\<rparr>)"
    proof (rule db_ok_upd[OF assms(1) tab(2,3)])
      show "user_ok ?h1 ?k ?v" by (simp add: user_ok_def user_map_init_ok)
      show "user_ok ?h1 n ud \<and> ud_objects ud \<noteq> ud_objects ?v" if other: "n \<noteq> ?k" "userdb_lookup n st = Some ud" for n ud
      proof -
        obtain p m where "ud_username ud = n" "ud_objects ud = Some p" "dh_maps ?h p = Some m" "om_ok m"
          "mm_refcount m = 1" "p < dh_next ?h"
          using users[OF other(2)] unfolding user_ok_def by blast
        then show ?thesis by (simp add: user_ok_def)
      qed
    qed
    moreover have "maps_live (st\<lparr>sv_db_map := tab, sv_heap := ?h1\<rparr>)"
      using assms(2) by (auto simp: maps_live_def game_maps_def ran_def empty_map_live split: if_splits)
    moreover have "userdb_add wm data st = res_bind (server_save_state wm False (st\<lparr>sv_db_map := tab, sv_heap := ?h1\<rparr>)) (\<lambda>st. Inr (True, st))"
      using tab(1) by (simp add: userdb_add_def inherit_objects_def None new_map_def Let_def)
    ultimately show ?thesis using finish[where tab = tab and h = ?h1 and v = ?v] tab(3) None by simp
  qed
qed

text \<open>The sample world with an empty database.\<close>

definition sample_db :: "(unit, unit) server_state" where
  "sample_db = sample_state\<lparr>sv_db_map := hash_setfreedata_cb (hash_init 256 hash_djb compare_strings) (Some free_userdata)\<rparr>"

lemma sample_db_ok: "db_ok sample_db" "maps_live sample_db" "userdb_lookup name sample_db = None"
proof -
  have l: "hash_lookup (hash_setfreedata_cb (hash_init n hash_djb compare_strings) cb) = Map.empty"
    for cb :: "(userdata_t \<Rightarrow> unit db_heap \<Rightarrow> unit db_heap res) option" and n
    by (rule ext) (simp add: hash_lookup_def hash_find_def hash_setfreedata_cb_def hash_init_def Let_def hash_chain_def hash_index_def)
  show none: "userdb_lookup name sample_db = None" for name
    by (simp add: userdb_lookup_def sample_db_def l)
  have "db_table_ok (sv_db_map sample_db)"
    using exact_table_init[of hash_djb compare_strings 256, where ?'b = userdata_t and ?'c = "unit db_heap"]
    by (simp add: owned_table_def sample_db_def hash_setfreedata_cb_def exact_table_def hash_wf_def hash_counted_def
        hash_entries_def hash_index_def)
  then show "db_ok sample_db" by (simp add: db_ok_def none)
  show "maps_live sample_db"
    by (simp add: maps_live_def game_maps_def sample_db_def sample_state_def sample_rooms_def room_init_maps_def
        OBJMAP_SIZE_def empty_map_live)
qed

section \<open>Properties\<close>

lemma userdata_round_trip_ok:
  assumes "userdata_fits ud"
  shows "length (userdata_bytes ud) = USERDATA_SIZE \<and> userdata_parse (userdata_bytes ud) = ud"
proof -
  have len: "length (char_array 33 (ud_username ud)) = 33" "length (char_array 17 (ud_salt ud)) = 17"
    "length (char_array 129 (ud_passhash ud)) = 129"
    using assms by (simp_all add: userdata_fits_def plain_str_def)
  have vals: "le_val (le_bytes 8 (ptr_num (ud_objects ud))) = ptr_num (ud_objects ud)"
    "le_val (le_bytes 8 (ud_userdata ud)) = ud_userdata ud"
    using assms by (simp_all add: userdata_fits_def le_val_le_bytes)
  show ?thesis
    using assms len
    by (simp add: userdata_bytes_def USERDATA_SIZE_def MAX_NAME_LEN_def SALT_LEN_def AUTH_HASHLEN_def
        userdata_parse_fields[where z = "char_of (0::nat)", simplified] vals)
      (cases ud; auto simp: userdata_fits_def int64_val_bytes ptr_num_def split: option.splits)
qed

definition sample_user :: userdata_t where
  "sample_user = \<lparr>ud_username = ''ann'', ud_salt = ''salt'', ud_passhash = ''00ff'', ud_priv = PRIV_ADMIN,
     ud_last_login = -5, ud_objects = Some 7, ud_userdata = 0\<rparr>"



text \<open>C13: \<open>userdb_add\<close> on a sound database never fails: the record is stored under its name
  and every other user is untouched. A user who existed keeps the inventory, with its reference
  count as it was; a new user gets an empty one. The database stays sound, so every user goes on
  having an inventory of their own.\<close>

theorem userdb_add_correct:
  assumes "db_ok st" "maps_live st"
  shows "\<exists>st'. userdb_add wm data st = Inr (True, st') \<and> db_ok st' \<and> maps_live st' \<and>
    sv_obj st' = sv_obj st \<and> sv_world st' = sv_world st \<and> sv_children st' = sv_children st \<and>
    (\<forall>name. name \<noteq> ud_username data \<longrightarrow> userdb_lookup name st' = userdb_lookup name st) \<and>
    (case userdb_lookup (ud_username data) st of
       Some old \<Rightarrow> userdb_lookup (ud_username data) st' = Some (data\<lparr>ud_objects := ud_objects old\<rparr>) \<and>
         dh_maps (sv_heap st') = dh_maps (sv_heap st)
     | None \<Rightarrow> userdb_lookup (ud_username data) st' = Some (data\<lparr>ud_objects := Some (dh_next (sv_heap st))\<rparr>) \<and>
         dh_maps (sv_heap st') = (dh_maps (sv_heap st))(dh_next (sv_heap st) \<mapsto> user_map_init 8))"
  using assms by (rule userdb_add_ok)

theorem userdb_add_correct_witness:
  "\<exists>st'. userdb_add sample_module sample_user sample_db = Inr (True, st') \<and> db_ok st' \<and>
     userdb_lookup ''ann'' st' = Some (sample_user\<lparr>ud_objects := Some 0\<rparr>) \<and>
     (\<exists>st''. userdb_add sample_module (sample_user\<lparr>ud_priv := PRIV_USER\<rparr>) st' = Inr (True, st'') \<and>
        userdb_lookup ''ann'' st'' = Some (sample_user\<lparr>ud_objects := Some 0, ud_priv := PRIV_USER\<rparr>))"
proof -
  have n: "ud_username sample_user = ''ann''" "dh_next (sv_heap sample_db) = 0"
    by (simp_all add: sample_user_def sample_db_def sample_state_def)
  obtain st' where st': "userdb_add sample_module sample_user sample_db = Inr (True, st')" "db_ok st'" "maps_live st'"
    "userdb_lookup ''ann'' st' = Some (sample_user\<lparr>ud_objects := Some 0\<rparr>)"
    using userdb_add_correct[OF sample_db_ok(1,2), of sample_module sample_user] by (auto simp: sample_db_ok(3) n)
  obtain st'' where st'': "userdb_add sample_module (sample_user\<lparr>ud_priv := PRIV_USER\<rparr>) st' = Inr (True, st'')"
    "userdb_lookup ''ann'' st'' = Some (sample_user\<lparr>ud_objects := Some 0, ud_priv := PRIV_USER\<rparr>)"
    using userdb_add_correct[OF st'(2,3), of sample_module "sample_user\<lparr>ud_priv := PRIV_USER\<rparr>"] by (auto simp: st'(4) n)
  show ?thesis using st' st'' by blast
qed

text \<open>C14: \<open>userdb_remove\<close> of a user of a sound database forgets that user and no other, and frees
  the inventory: its references are given back, so exactly the objects held elsewhere survive.
  Removing an unknown name changes nothing.\<close>

theorem userdb_remove_correct:
  assumes "db_ok st" "maps_live st" "userdb_lookup name st = Some ud" "ud_objects ud = Some q" "dh_maps (sv_heap st) q = Some m"
    and "refs_exact (\<lambda>p. R p + om_refs m p) (sv_obj st)"
    and "\<forall>m'\<in>rm_objects ` set (sv_world st) \<union> ran ((dh_maps (sv_heap st))(q := None)). \<forall>e\<in>set (mm_pairs m'). 0 < R (snd e)"
  shows "(\<exists>st'. userdb_remove wm name st = Inr (True, st') \<and> db_ok st' \<and> maps_live st' \<and>
      userdb_lookup name st' = None \<and> (\<forall>other. other \<noteq> name \<longrightarrow> userdb_lookup other st' = userdb_lookup other st) \<and>
      refs_exact R (sv_obj st') \<and> dh_maps (sv_heap st') = (dh_maps (sv_heap st))(q := None)) \<and>
    (\<forall>unknown. userdb_lookup unknown st = None \<longrightarrow> userdb_remove wm unknown st = Inr (False, st))"
proof
  let ?h = "sv_heap st"
  have t: "db_table_ok (sv_db_map st)" and users: "\<And>n ud. userdb_lookup n st = Some ud \<Longrightarrow> user_ok ?h n ud"
    and own: "\<And>a b ua ub. userdb_lookup a st = Some ua \<Longrightarrow> userdb_lookup b st = Some ub \<Longrightarrow> ud_objects ua = ud_objects ub \<Longrightarrow> a = b"
    using assms(1) unfolding db_ok_def by blast+
  have m: "om_ok m" "mm_refcount m = 1" using users[OF assms(3)] assms(4,5) by (auto simp: user_ok_def)
  obtain os where os: "multimap_free m (sv_obj st) = Inr (None, os)" "refs_exact R os" "same_objs (sv_obj st) os"
    using om_free_refs[OF m assms(6)] by blast
  let ?h1 = "?h\<lparr>dh_obj := os, dh_maps := (dh_maps ?h)(q := None)\<rparr>"
  have "free_userdata ud ?h = Inr ?h1" using assms(4,5) os(1) by (simp add: free_userdata_def)
  then obtain tab where tab: "hash_remove (sv_db_map st) name ?h = Inr (True, tab, ?h1)" "db_table_ok tab"
    "hash_lookup tab = (hash_lookup (sv_db_map st))(name := None)"
    using db_table.remove_known[OF t, of name ud ?h ?h1] assms(3) unfolding userdb_lookup_def by blast
  let ?st = "st\<lparr>sv_db_map := tab, sv_heap := ?h1\<rparr>"
  have l: "userdb_lookup n ?st = (if n = name then None else userdb_lookup n st)" for n
    using tab(3) by (simp add: userdb_lookup_def)
  have "user_ok ?h1 n u" if other: "n \<noteq> name" "userdb_lookup n st = Some u" for n u
  proof -
    obtain p k where "ud_username u = n" "ud_objects u = Some p" "dh_maps ?h p = Some k" "om_ok k"
      "mm_refcount k = 1" "p < dh_next ?h"
      using users[OF other(2)] unfolding user_ok_def by blast
    moreover have "p \<noteq> q" using own[OF other(2) assms(3)] calculation(2) assms(4) other(1) by auto
    ultimately show ?thesis by (simp add: user_ok_def)
  qed
  then have ok: "db_ok ?st" using tab(2) own by (auto simp: db_ok_def l split: if_splits)
  have live: "maps_live ?st"
    unfolding maps_live_def
  proof
    fix m' assume "m' \<in> game_maps ?st"
    then have m': "m' \<in> rm_objects ` set (sv_world st) \<union> ran ((dh_maps ?h)(q := None))" by (simp add: game_maps_def)
    then have "m' \<in> game_maps st" by (auto simp: game_maps_def ran_def split: if_splits)
    then have "mm_wf m'" using assms(2) by (simp add: maps_live_def om_live_def)
    moreover have "os_heap os (snd e) \<noteq> None" if "e \<in> set (mm_pairs m')" for e
      using refs_exact_live[OF os(2), of "snd e"] assms(7) m' that by auto
    ultimately show "om_live (sv_obj ?st) m'" by (simp add: om_live_def)
  qed
  obtain st' where s: "server_save_state wm False ?st = Inr st'" "saved ?st st'"
    using server_save_state_ok[OF db_savable[OF ok live]] by blast
  have "userdb_remove wm name st = Inr (True, st')"
    using tab(1) s(1) by (simp add: userdb_remove_def Let_def)
  then show "\<exists>st'. userdb_remove wm name st = Inr (True, st') \<and> db_ok st' \<and> maps_live st' \<and>
      userdb_lookup name st' = None \<and> (\<forall>other. other \<noteq> name \<longrightarrow> userdb_lookup other st' = userdb_lookup other st) \<and>
      refs_exact R (sv_obj st') \<and> dh_maps (sv_heap st') = (dh_maps ?h)(q := None)"
    using ok live os(2) db_ok_saved[OF s(2)] savedD[OF s(2)] l by (intro exI[of _ st']) simp
  show "\<forall>unknown. userdb_lookup unknown st = None \<longrightarrow> userdb_remove wm unknown st = Inr (False, st)"
    by (simp add: userdb_remove_def userdb_lookup_def hash_remove_absent)
qed

theorem userdb_remove_correct_witness:
  "\<exists>st' st''. userdb_add sample_module sample_user sample_db = Inr (True, st') \<and>
     userdb_remove sample_module ''ann'' st' = Inr (True, st'') \<and> userdb_lookup ''ann'' st'' = None \<and>
     os_heap (sv_obj st'') 0 \<noteq> None"
proof -
  have n: "ud_username sample_user = ''ann''" "dh_next (sv_heap sample_db) = 0" "dh_maps (sv_heap sample_db) = Map.empty"
    "sv_world sample_db = sample_rooms" "sv_obj sample_db = sv_obj sample_state"
    by (simp_all add: sample_user_def sample_db_def sample_state_def)
  obtain st' where st': "userdb_add sample_module sample_user sample_db = Inr (True, st')" "db_ok st'" "maps_live st'"
    "userdb_lookup ''ann'' st' = Some (sample_user\<lparr>ud_objects := Some 0\<rparr>)" "sv_obj st' = sv_obj sample_state"
    "dh_maps (sv_heap st') = [0 \<mapsto> user_map_init 8]" "sv_world st' = sample_rooms"
    using userdb_add_ok[OF sample_db_ok(1,2), of sample_module sample_user] by (auto simp: sample_db_ok(3) n)
  have r: "refs_exact (\<lambda>p. lamp_held p + om_refs (user_map_init 8) p) (sv_obj st')"
    using sample_objects(3) by (simp add: st'(5) user_map_init_ok obj_map_init_ok sample_simps(7))
  have held: "\<forall>m'\<in>rm_objects ` set (sv_world st') \<union> ran ((dh_maps (sv_heap st'))(0 := None)). \<forall>e\<in>set (mm_pairs m'). 0 < lamp_held (snd e)"
    by (auto simp: st'(6,7) sample_rooms_def room_init_maps_def OBJMAP_SIZE_def user_map_init_ok ran_def)
  obtain st'' where "userdb_remove sample_module ''ann'' st' = Inr (True, st'')" "userdb_lookup ''ann'' st'' = None"
    "refs_exact lamp_held (sv_obj st'')"
    using userdb_remove_correct[OF st'(2,3,4) _ _ r held, where wm = sample_module] st'(6) by auto
  moreover from this(3) have "os_heap (sv_obj st'') 0 \<noteq> None"
    using refs_exact_live[of lamp_held "sv_obj st''" 0] by (auto simp: lamp_held_def)
  ultimately show ?thesis using st'(1) by blast
qed

end
