(* ===== verification/Nc_Reload.thy ===== *)
theory Nc_Reload
  imports Nc_Stock Nc_Userdb
begin

text \<open>
  What \<open>world_save\<close> writes, \<open>world_load\<close> reads back: the round trip of a whole world through its
  file. Pointers and reference counts differ after a restart, so rooms are compared by what they
  hold.
\<close>

section \<open>What a room holds\<close>

text \<open>An object without its counters, and each name in a map with the object it leads to.\<close>

definition core :: "'u object_t \<Rightarrow> 'u object_t" where
  "core obj = obj\<lparr>obj_n_alias := 0, obj_refcount := 0\<rparr>"

definition contents :: "'u obj_map \<Rightarrow> 'u obj_state \<Rightarrow> (string \<times> 'u object_t option) multiset" where
  "contents m os = image_mset (\<lambda>e. (fst e, map_option core (os_heap os (snd e)))) (mset (mm_pairs m))"

definition named :: "'u object_t \<Rightarrow> (string \<times> 'u object_t option) multiset" where
  "named obj = mset (map (\<lambda>k. (k, Some (core obj))) (obj_names obj))"

text \<open>The objects that are written: those found under their own name.\<close>

definition room_objs :: "'u obj_map \<Rightarrow> 'u obj_state \<Rightarrow> 'u object_t list" where
  "room_objs m os = concat (map (\<lambda>e. case os_heap os (snd e) of None \<Rightarrow> []
     | Some obj \<Rightarrow> if fst e = obj_name obj then [obj] else []) (mm_pairs m))"

lemma written_objects:
  assumes "om_live os m"
  shows "obj_count_noalias m os = Inr (length (room_objs m os))"
    "write_objects classes m os = Inr (concat (map (obj_write classes) (room_objs m os)))"
proof -
  have live: "\<forall>e\<in>set (mm_pairs m). \<exists>obj. os_heap os (snd e) = Some obj" and wf: "mm_wf m"
    using assms by (auto simp: om_live_def)
  let ?sel = "\<lambda>e. case os_heap os (snd e) of None \<Rightarrow> [] | Some obj \<Rightarrow> if fst e = obj_name obj then [obj] else []"
  have "res_fold (\<lambda>(key, p) ret. res_bind (obj_deref p os) (\<lambda>obj. Inr (if strcmp key (obj_name obj) = 0 then Suc ret else ret))) es k =
      Inr (k + length (concat (map ?sel es)))" if "set es \<subseteq> set (mm_pairs m)" for es k
    using that live by (induction es arbitrary: k) (fastforce simp: obj_deref_def)+
  from this[of "mm_pairs m" 0] show "obj_count_noalias m os = Inr (length (room_objs m os))"
    by (simp add: obj_count_noalias_def obj_map_pairs_eq[OF wf] room_objs_def)
  have "res_fold (\<lambda>(key, p) out. res_bind (obj_deref p os) (\<lambda>obj.
           Inr (if strcmp key (obj_name obj) = 0 then out @ obj_write classes obj else out))) es out =
      Inr (out @ concat (map (obj_write classes) (concat (map ?sel es))))" if "set es \<subseteq> set (mm_pairs m)" for es out
    using that live by (induction es arbitrary: out) (fastforce simp: obj_deref_def)+
  from this[of "mm_pairs m" "[]"] show "write_objects classes m os = Inr (concat (map (obj_write classes) (room_objs m os)))"
    by (simp add: write_objects_def obj_map_pairs_eq[OF wf] room_objs_def)
qed

text \<open>A map whose file describes it: every object is there under all its names, once, and can be written.\<close>

definition objs_tidy :: "('u, 'w) obj_class_t list \<Rightarrow> 'u obj_map \<Rightarrow> 'u obj_state \<Rightarrow> bool" where
  "objs_tidy classes m os \<longleftrightarrow> om_live os m \<and> contents m os = sum_list (map named (room_objs m os)) \<and>
     (\<forall>obj\<in>set (room_objs m os). obj_storable classes obj \<and> class_round_trips (classes ! obj_class obj) obj)"

lemma mset_room_objs:
  "mset (room_objs m os) = (\<Sum>e\<in>#mset (mm_pairs m). case os_heap os (snd e) of None \<Rightarrow> {#}
     | Some obj \<Rightarrow> if fst e = obj_name obj then {#obj#} else {#})"
proof -
  have "mset (concat (map f es)) = (\<Sum>e\<in>#mset es. mset (f e))" for f :: "string \<times> obj_ptr \<Rightarrow> 'a object_t list" and es
    by (induction es) auto
  then show ?thesis unfolding room_objs_def by (auto intro!: arg_cong[of _ _ sum_mset] image_mset_cong split: option.splits)
qed

lemma objs_tidy_empty: "objs_tidy classes (obj_map_init OBJMAP_SIZE) os"
  using roomy_ok(2)[OF roomy_start]
  by (simp add: objs_tidy_def om_live_def contents_def room_objs_def obj_map_init_def multimap_setfreedata_cb_def multimap_init_def mm_pairs_def)

lemma objs_tidy_add:
  assumes tidy: "objs_tidy classes m os" and p: "os_heap os p = None" "os_heap os' p = Some obj" "\<forall>q. q \<noteq> p \<longrightarrow> os_heap os' q = os_heap os q"
    and m': "mm_wf m'" "stocked m' p obj (mset (mm_pairs m))" and obj: "obj_storable classes obj" "class_round_trips (classes ! obj_class obj) obj"
  shows "objs_tidy classes m' os'"
proof -
  have pairs: "mset (mm_pairs m') = mset (map (\<lambda>k. (k, p)) (obj_names obj)) + mset (mm_pairs m)" and new: "obj_name obj \<notin> set (obj_alias_list obj)"
    using m'(2) by (simp_all add: stocked_def)
  have live: "om_live os m" using tidy by (simp add: objs_tidy_def)
  have same: "os_heap os' (snd e) = os_heap os (snd e)" if "e \<in># mset (mm_pairs m)" for e
  proof -
    have "os_heap os (snd e) \<noteq> None" using live that unfolding om_live_def set_mset_mset by blast
    then have "snd e \<noteq> p" using p(1) by auto
    then show ?thesis using p(3) by blast
  qed
  let ?f = "\<lambda>h e. case h (snd e) of None \<Rightarrow> {#} | Some obj \<Rightarrow> if fst e = obj_name obj then {#obj#} else {#}"
  have "(\<Sum>k\<in>#mset as. ?f (os_heap os') (k, p)) = {#}" if "obj_name obj \<notin> set as" for as
    using that p(2) by (induction as) auto
  then have self: "(\<Sum>k\<in>#mset (obj_names obj). ?f (os_heap os') (k, p)) = {#obj#}"
    using p(2) new by (simp add: obj_names_def)
  have objs: "mset (room_objs m' os') = add_mset obj (mset (room_objs m os))"
  proof -
    have "(\<Sum>e\<in>#mset (mm_pairs m). ?f (os_heap os') e) = (\<Sum>e\<in>#mset (mm_pairs m). ?f (os_heap os) e)"
      using same by (intro arg_cong[of _ _ sum_mset] image_mset_cong) simp
    then show ?thesis
      using self by (simp add: mset_room_objs pairs multiset.map_comp comp_def image_mset_union del: mset_map flip: mset_map)
  qed
  have sum: "sum_list (map named xs) = (\<Sum>x\<in>#mset xs. named x)" for xs :: "'a object_t list"
    by (simp add: sum_mset_sum_list flip: mset_map)
  have "contents m' os' = named obj + contents m os"
  proof -
    have "image_mset (\<lambda>e. (fst e, map_option core (os_heap os' (snd e)))) (mset (mm_pairs m)) = contents m os"
      unfolding contents_def using same by (intro image_mset_cong) simp
    then show ?thesis by (simp add: contents_def pairs named_def p(2) multiset.map_comp comp_def)
  qed
  then have "contents m' os' = sum_list (map named (room_objs m' os'))"
    using tidy by (simp add: sum objs objs_tidy_def)
  moreover have "om_live os' m'"
  proof -
    have "set (mm_pairs m') = (\<lambda>k. (k, p)) ` set (obj_names obj) \<union> set (mm_pairs m)"
      using arg_cong[OF pairs, of set_mset] by simp
    then show ?thesis using same live m'(1) p(2) by (auto simp: om_live_def)
  qed
  moreover have "set (room_objs m' os') = insert obj (set (room_objs m os))"
    using arg_cong[OF objs, of set_mset] by simp
  ultimately show ?thesis using tidy obj by (simp add: objs_tidy_def)
qed

lemma objs_tidy_grows:
  assumes "objs_tidy classes m os" "\<forall>e\<in>set (mm_pairs m). os_heap os' (snd e) = os_heap os (snd e)"
  shows "objs_tidy classes m os'"
proof -
  have "room_objs m os' = room_objs m os"
    unfolding room_objs_def using assms(2) by (intro arg_cong[of _ _ concat] map_cong refl) simp
  moreover have "contents m os' = contents m os"
    unfolding contents_def using assms(2) by (intro image_mset_cong) simp
  moreover have "om_live os' m" using assms by (auto simp: objs_tidy_def om_live_def)
  ultimately show ?thesis using assms(1) by (simp add: objs_tidy_def)
qed

section \<open>Reading objects back\<close>

text \<open>A heap with room above: nothing is allocated at or after the next address.\<close>

definition heap_fresh :: "'u obj_state \<Rightarrow> bool" where
  "heap_fresh os \<longleftrightarrow> (\<forall>p\<ge>os_next os. os_heap os p = None)"

text \<open>Later states of a heap: what was there is untouched.\<close>

definition heap_grows :: "'u obj_state \<Rightarrow> 'u obj_state \<Rightarrow> bool" where
  "heap_grows os os' \<longleftrightarrow> os_next os \<le> os_next os' \<and> (\<forall>p<os_next os. os_heap os' p = os_heap os p)"

lemma heap_grows_refl [simp]: "heap_grows os os"
  by (simp add: heap_grows_def)

lemma heap_grows_trans: "heap_grows a b \<Longrightarrow> heap_grows b c \<Longrightarrow> heap_grows a c"
  by (simp add: heap_grows_def)

lemma contents_grows:
  assumes "om_live os m" "heap_fresh os" "heap_grows os os'"
  shows "contents m os' = contents m os" "om_live os' m"
proof -
  have "os_heap os' (snd e) = os_heap os (snd e)" if "e \<in> set (mm_pairs m)" for e
    using assms that unfolding om_live_def heap_fresh_def heap_grows_def by (metis linorder_not_less)
  then show "contents m os' = contents m os" "om_live os' m"
    using assms(1) by (auto simp: contents_def om_live_def intro!: image_mset_cong)
qed

text \<open>One object: it is read to a new place of the heap, and goes under its names.\<close>

lemma read_object_ok:
  assumes m: "roomy n m" "n + length (obj_names obj) \<le> ROOMY_MAX"
    and os: "classes_ok classes os" "heap_fresh os" "om_live os m" and obj: "obj_storable classes obj" "class_round_trips (classes ! obj_class obj) obj"
  shows "\<exists>os1 new b m2 os2. obj_read classes (obj_write classes obj @ rest) os = Inr (os_next os, rest, os1) \<and>
    obj_deref (os_next os) os1 = Inr new \<and>
    res_bind (om_insert (obj_name new) (os_next os) (m, os1)) (\<lambda>(fresh, mo). om_insert_aliases (os_next os) (obj_alias_list new) fresh mo) =
      Inr (b, (m2, os2)) \<and> roomy (n + length (obj_names obj)) m2 \<and>
    classes_ok classes os2 \<and> heap_fresh os2 \<and> om_live os2 m2 \<and> heap_grows os os2 \<and> contents m2 os2 = named obj + contents m os"
proof -
  let ?p = "os_next os" and ?obj = "obj\<lparr>obj_n_alias := 0, obj_refcount := 1\<rparr>"
  obtain os1 where rd: "obj_read classes (obj_write classes obj @ rest) os = Inr (?p, rest, os1)"
    "os_heap os1 = (os_heap os)(?p \<mapsto> ?obj)" "os_next os1 = Suc ?p" "classes_ok classes os1"
    using obj_read_write[OF os(1) obj, of rest] by auto
  have names: "obj_names ?obj = obj_names obj" by (simp add: obj_names_def)
  have "os_heap os1 ?p = Some ?obj" "n + length (obj_names ?obj) \<le> ROOMY_MAX" using rd(2) m(2) by (simp_all add: names)
  from om_insert_names_roomy[OF m(1) this(2,1)] obtain b m2 r where
    add: "res_bind (om_insert (obj_name ?obj) ?p (m, os1)) (\<lambda>(fresh, mo). om_insert_aliases ?p (obj_alias_list ?obj) fresh mo) =
      Inr (b, (m2, os1\<lparr>os_heap := (os_heap os1)(?p \<mapsto> ?obj\<lparr>obj_refcount := r\<rparr>)\<rparr>))"
    "roomy (n + length (obj_names obj)) m2" "mset (mm_pairs m2) = mset (map (\<lambda>k. (k, ?p)) (obj_names obj)) + mset (mm_pairs m)"
    unfolding names by blast
  define os2 where "os2 = os1\<lparr>os_heap := (os_heap os1)(?p \<mapsto> ?obj\<lparr>obj_refcount := r\<rparr>)\<rparr>"
  have heap: "os_heap os2 = (os_heap os)(?p \<mapsto> ?obj\<lparr>obj_refcount := r\<rparr>)" "os_next os2 = Suc ?p"
    by (simp_all add: os2_def rd(2,3))
  have grow: "heap_grows os os2" "heap_fresh os2" using os(2) by (simp_all add: heap_grows_def heap_fresh_def heap)
  have cls: "classes_ok classes os2" using rd(4) by (simp add: classes_ok_def os2_def)
  note old = contents_grows[OF os(3,2) grow(1)]
  have live: "om_live os2 m2"
  proof -
    have "set (mm_pairs m2) = (\<lambda>k. (k, ?p)) ` set (obj_names obj) \<union> set (mm_pairs m)"
      using arg_cong[OF add(3), of set_mset] by simp
    then show ?thesis using old(2) roomy_ok(2)[OF add(2)] heap(1) by (auto simp: om_live_def)
  qed
  have cont: "contents m2 os2 = named obj + contents m os"
    using old(1) by (simp add: contents_def add(3) named_def heap(1) core_def multiset.map_comp comp_def)
  have "obj_deref ?p os1 = Inr ?obj" using rd(2) by (simp add: obj_deref_def)
  then show ?thesis using rd(1) add(1,2) cls grow live cont unfolding os2_def[symmetric] by blast
qed

lemma load_objects_ok:
  assumes "room_get rid st = Inr room" "roomy n m" "n + length (concat (map obj_names objs)) \<le> ROOMY_MAX"
    and "classes_ok (wm_obj_classes wm) os" "heap_fresh os" "om_live os m"
    and "\<forall>obj\<in>set objs. obj_storable (wm_obj_classes wm) obj \<and> class_round_trips (wm_obj_classes wm ! obj_class obj) obj"
  shows "\<exists>m' os'. load_objects wm rid (length objs) (concat (map (obj_write (wm_obj_classes wm)) objs) @ rest) (furnish rid room m os st) =
      Inr (rest, furnish rid room m' os' st) \<and> roomy (n + length (concat (map obj_names objs))) m' \<and>
    classes_ok (wm_obj_classes wm) os' \<and> heap_fresh os' \<and> om_live os' m' \<and> heap_grows os os' \<and>
    contents m' os' = sum_list (map named objs) + contents m os"
  using assms(2-7)
proof (induction objs arbitrary: n m os)
  case Nil
  then show ?case by (intro exI[of _ m] exI[of _ os]) simp
next
  case (Cons obj objs)
  let ?classes = "wm_obj_classes wm" and ?rest = "concat (map (obj_write (wm_obj_classes wm)) objs) @ rest"
  have "n + length (obj_names obj) \<le> ROOMY_MAX" "obj_storable ?classes obj" "class_round_trips (?classes ! obj_class obj) obj"
    using Cons.prems(2,6) by simp_all
  from read_object_ok[OF Cons.prems(1) this(1) Cons.prems(3-5) this(2,3), of ?rest]
  obtain os1 new b m2 os2 where one: "obj_read ?classes (obj_write ?classes obj @ ?rest) os = Inr (os_next os, ?rest, os1)"
    "obj_deref (os_next os) os1 = Inr new"
    "res_bind (om_insert (obj_name new) (os_next os) (m, os1)) (\<lambda>(fresh, mo). om_insert_aliases (os_next os) (obj_alias_list new) fresh mo) =
      Inr (b, (m2, os2))" "roomy (n + length (obj_names obj)) m2"
    "classes_ok ?classes os2" "heap_fresh os2" "om_live os2 m2" "heap_grows os os2" "contents m2 os2 = named obj + contents m os"
    by blast
  have add: "room_obj_add rid (os_next os) (furnish rid room m os1 st) = Inr (b, furnish rid room m2 os2 st)"
    unfolding room_obj_add_def by (rule furnish_objects[OF assms(1)]) (use one(3) in \<open>simp add: one(2)\<close>)
  have "n + length (obj_names obj) + length (concat (map obj_names objs)) \<le> ROOMY_MAX" using Cons.prems(2) by simp
  from Cons.IH[OF one(4) this one(5-7)] Cons.prems(6) obtain m' os' where
    rest: "load_objects wm rid (length objs) ?rest (furnish rid room m2 os2 st) =
      Inr (rest, furnish rid room m' os' st)" "roomy (n + length (obj_names obj) + length (concat (map obj_names objs))) m'"
    "classes_ok ?classes os'" "heap_fresh os'" "om_live os' m'" "heap_grows os2 os'"
    "contents m' os' = sum_list (map named objs) + contents m2 os2" by auto
  have "load_objects wm rid (length (obj # objs)) (concat (map (obj_write ?classes) (obj # objs)) @ rest) (furnish rid room m os st) =
      Inr (rest, furnish rid room m' os' st)"
    using one(1) add rest(1) by simp
  then show ?case
    using rest one(9) heap_grows_trans[OF one(8) rest(6)] by (intro exI[of _ m'] exI[of _ os']) (simp add: ac_simps)
qed

section \<open>Reading verbs back\<close>

text \<open>A table of verbs under their own names.\<close>

definition verbs_tidy :: "'w verb_class_t list \<Rightarrow> verb_map \<Rightarrow> bool" where
  "verbs_tidy classes tab \<longleftrightarrow> str_table tab \<and>
     (\<forall>e\<in>set (hash_entries tab). fst e = vb_name (snd e) \<and> verb_storable classes (snd e)) \<and> length (hash_entries tab) < 2 ^ 64"

definition verbs_of :: "verb_map \<Rightarrow> verb_t list" where
  "verbs_of tab = map snd (hash_entries tab)"

lemma verbs_tidyD:
  assumes "verbs_tidy classes tab"
  shows "write_verbs classes tab = concat (map (verb_write classes) (verbs_of tab))" "hash_size tab = of_nat (length (verbs_of tab))"
    "unat (hash_size tab) = length (verbs_of tab)"
    "distinct (map vb_name (verbs_of tab))" "map_of (map (\<lambda>v. (vb_name v, v)) (verbs_of tab)) = hash_lookup tab"
    "\<forall>v\<in>set (verbs_of tab). verb_storable classes v"
proof -
  have str: "str_table tab" and e: "\<forall>e\<in>set (hash_entries tab). fst e = vb_name (snd e) \<and> verb_storable classes (snd e)"
    and len: "length (hash_entries tab) < 2 ^ 64"
    using assms by (simp_all add: verbs_tidy_def)
  have wf: "hash_wf tab" "hash_counted tab" using str by (simp_all add: exact_table_def)
  show "write_verbs classes tab = concat (map (verb_write classes) (verbs_of tab))"
    by (simp add: write_verbs_def hash_iter_loop_entries[OF wf(1)] verbs_of_def case_prod_beta' comp_def)
  show "hash_size tab = of_nat (length (verbs_of tab))" using wf(2) by (simp add: hash_size_def hash_counted_def verbs_of_def)
  then show "unat (hash_size tab) = length (verbs_of tab)" using len by (simp add: verbs_of_def unat_of_nat)
  have names: "map vb_name (verbs_of tab) = map fst (hash_entries tab)" using e by (simp add: verbs_of_def)
  then show "distinct (map vb_name (verbs_of tab))" using str_map.entries_distinct[OF str] by simp
  have "map (\<lambda>v. (vb_name v, v)) (verbs_of tab) = hash_entries tab" using e by (simp add: verbs_of_def comp_def) (rule map_idI, simp add: prod_eq_iff)
  then show "map_of (map (\<lambda>v. (vb_name v, v)) (verbs_of tab)) = hash_lookup tab" using str_map.entries_lookup[OF str] by simp
  show "\<forall>v\<in>set (verbs_of tab). verb_storable classes v" using e by (auto simp: verbs_of_def)
qed

text \<open>One more verb of a list of distinct names.\<close>

lemma next_name:
  assumes "distinct (map vb_name (v # vs))" "g = f(vb_name v \<mapsto> v)"
  shows "\<forall>w\<in>set vs. f (vb_name w) = None \<longrightarrow> g (vb_name w) = None"
    "g ++ map_of (map (\<lambda>v. (vb_name v, v)) vs) = f ++ map_of (map (\<lambda>v. (vb_name v, v)) (v # vs))"
proof -
  have new: "vb_name v \<notin> vb_name ` set vs" using assms(1) by simp
  then show "\<forall>w\<in>set vs. f (vb_name w) = None \<longrightarrow> g (vb_name w) = None" by (auto simp: assms(2) image_iff)
  have "map_of (map (\<lambda>v. (vb_name v, v)) vs) (vb_name v) = None" using new by (auto simp: map_of_eq_None_iff)
  then show "g ++ map_of (map (\<lambda>v. (vb_name v, v)) vs) = f ++ map_of (map (\<lambda>v. (vb_name v, v)) (v # vs))"
    by (auto simp: assms(2) fun_eq_iff map_add_def split: option.splits)
qed

text \<open>A state with other verbs in a room.\<close>

definition equip ::
  "room_id \<Rightarrow> 'u room_t \<Rightarrow> verb_map \<Rightarrow> verb_state \<Rightarrow> ('u, 'm) server_state \<Rightarrow> ('u, 'm) server_state" where
  "equip rid room tab vst st = (room_set rid (room\<lparr>rm_verbs := tab\<rparr>) st)\<lparr>sv_verb_classes := vst\<rparr>"

lemma load_verbs_ok:
  assumes "room_get rid st = Inr room" "str_table tab" "verb_classes_ok (wm_verb_classes wm) vst"
    and "distinct (map vb_name vs)" "\<forall>v\<in>set vs. verb_storable (wm_verb_classes wm) v \<and> hash_lookup tab (vb_name v) = None"
  shows "\<exists>tab' vst'. load_verbs wm rid (length vs) (concat (map (verb_write (wm_verb_classes wm)) vs) @ rest) (equip rid room tab vst st) =
      Inr (rest, equip rid room tab' vst' st) \<and> str_table tab' \<and> verb_classes_ok (wm_verb_classes wm) vst' \<and>
    hash_lookup tab' = hash_lookup tab ++ map_of (map (\<lambda>v. (vb_name v, v)) vs)"
  using assms(2-5)
proof (induction vs arbitrary: tab vst)
  case Nil
  then show ?case by (intro exI[of _ tab] exI[of _ vst]) simp
next
  case (Cons v vs)
  let ?rest = "concat (map (verb_write (wm_verb_classes wm)) vs) @ rest"
  obtain vst1 where rd: "verb_read (wm_verb_classes wm) (verb_write (wm_verb_classes wm) v @ ?rest) vst = Inr (v, ?rest, vst1)"
    "verb_classes_ok (wm_verb_classes wm) vst1"
    using verb_read_write[OF Cons.prems(2), of v ?rest] Cons.prems(4) by auto
  have none: "hash_lookup tab (vb_name v) = None" using Cons.prems(4) by simp
  obtain tab1 where ins: "hash_insert tab (vb_name v) v = Inr (None, tab1)" "str_table tab1" "hash_lookup tab1 = (hash_lookup tab)(vb_name v \<mapsto> v)"
    using str_map.insert_absent[OF Cons.prems(1) none, of v] by blast
  have add: "room_verb_add rid v ((equip rid room tab vst st)\<lparr>sv_verb_classes := vst1\<rparr>) = Inr (True, equip rid room tab1 vst1 st)"
    using ins(1) assms(1) by (simp add: room_verb_add_def equip_def room_get_def room_set_def split: if_splits)
  have "\<forall>w\<in>set vs. verb_storable (wm_verb_classes wm) w \<and> hash_lookup tab1 (vb_name w) = None"
    using next_name(1)[OF Cons.prems(3) ins(3)] Cons.prems(4) by simp
  from Cons.IH[OF ins(2) rd(2) _ this] Cons.prems(3) obtain tab' vst' where
    rest: "load_verbs wm rid (length vs) ?rest (equip rid room tab1 vst1 st) = Inr (rest, equip rid room tab' vst' st)"
    "str_table tab'" "verb_classes_ok (wm_verb_classes wm) vst'"
    "hash_lookup tab' = hash_lookup tab1 ++ map_of (map (\<lambda>v. (vb_name v, v)) vs)" by auto
  have "load_verbs wm rid (length (v # vs)) (concat (map (verb_write (wm_verb_classes wm)) (v # vs)) @ rest) (equip rid room tab vst st) =
      Inr (rest, equip rid room tab' vst' st)"
    using rd(1) add rest(1) by (simp add: equip_def)
  moreover have "hash_lookup tab' = hash_lookup tab ++ map_of (map (\<lambda>v. (vb_name v, v)) (v # vs))"
    using rest(4) next_name(2)[OF Cons.prems(3) ins(3)] by simp
  ultimately show ?case using rest(2,3) by blast
qed

lemma load_global_verbs_ok:
  assumes "str_table tab" "verb_classes_ok (wm_verb_classes wm) vst"
    and "distinct (map vb_name vs)" "\<forall>v\<in>set vs. verb_storable (wm_verb_classes wm) v \<and> hash_lookup tab (vb_name v) = None"
  shows "\<exists>tab' vst'. load_global_verbs wm (length vs) (concat (map (verb_write (wm_verb_classes wm)) vs) @ rest)
      (st\<lparr>sv_verb_classes := vst, sv_global_verbs := Some tab\<rparr>) = Inr (rest, st\<lparr>sv_verb_classes := vst', sv_global_verbs := Some tab'\<rparr>) \<and>
    str_table tab' \<and> verb_classes_ok (wm_verb_classes wm) vst' \<and>
    hash_lookup tab' = hash_lookup tab ++ map_of (map (\<lambda>v. (vb_name v, v)) vs)"
  using assms
proof (induction vs arbitrary: tab vst)
  case Nil
  then show ?case by (intro exI[of _ tab] exI[of _ vst]) simp
next
  case (Cons v vs)
  let ?rest = "concat (map (verb_write (wm_verb_classes wm)) vs) @ rest"
  obtain vst1 where rd: "verb_read (wm_verb_classes wm) (verb_write (wm_verb_classes wm) v @ ?rest) vst = Inr (v, ?rest, vst1)"
    "verb_classes_ok (wm_verb_classes wm) vst1"
    using verb_read_write[OF Cons.prems(2), of v ?rest] Cons.prems(4) by auto
  have none: "hash_lookup tab (vb_name v) = None" using Cons.prems(4) by simp
  obtain tab1 where ins: "hash_insert tab (vb_name v) v = Inr (None, tab1)" "str_table tab1" "hash_lookup tab1 = (hash_lookup tab)(vb_name v \<mapsto> v)"
    using str_map.insert_absent[OF Cons.prems(1) none, of v] by blast
  have "\<forall>w\<in>set vs. verb_storable (wm_verb_classes wm) w \<and> hash_lookup tab1 (vb_name w) = None"
    using next_name(1)[OF Cons.prems(3) ins(3)] Cons.prems(4) by simp
  from Cons.IH[OF ins(2) rd(2) _ this] Cons.prems(3) obtain tab' vst' where
    rest: "load_global_verbs wm (length vs) ?rest (st\<lparr>sv_verb_classes := vst1, sv_global_verbs := Some tab1\<rparr>) =
      Inr (rest, st\<lparr>sv_verb_classes := vst', sv_global_verbs := Some tab'\<rparr>)"
    "str_table tab'" "verb_classes_ok (wm_verb_classes wm) vst'"
    "hash_lookup tab' = hash_lookup tab1 ++ map_of (map (\<lambda>v. (vb_name v, v)) vs)" by auto
  have "load_global_verbs wm (length (v # vs)) (concat (map (verb_write (wm_verb_classes wm)) (v # vs)) @ rest)
      (st\<lparr>sv_verb_classes := vst, sv_global_verbs := Some tab\<rparr>) = Inr (rest, st\<lparr>sv_verb_classes := vst', sv_global_verbs := Some tab'\<rparr>)"
    using rd(1) ins(1) rest(1) by (simp add: world_verb_add_def init_map_def)
  moreover have "hash_lookup tab' = hash_lookup tab ++ map_of (map (\<lambda>v. (vb_name v, v)) (v # vs))"
    using rest(4) next_name(2)[OF Cons.prems(3) ins(3)] by simp
  ultimately show ?case using rest(2,3) by blast
qed

section \<open>A room and back\<close>

lemma read_unchecked_append [simp]: "length buf = length old \<Longrightarrow> read_unchecked old (buf @ rest) = (buf, rest)"
  by (simp add: read_unchecked_def file_read_def)

lemma split_ints_bytes: "\<forall>x\<in>set xs. fits_int x \<Longrightarrow> split_ints (length xs) (concat (map int_bytes xs)) = xs"
  by (induction xs) simp_all

lemma length_concat_int_bytes [simp]: "length (concat (map int_bytes xs)) = 4 * length xs"
  by (induction xs) simp_all

lemma length_write_size [simp]: "length (write_size n) = 8"
  by (simp add: write_size_def)

text \<open>What a room must be for its file to describe it.\<close>

definition room_tidy :: "('u, 'm) world_module \<Rightarrow> 'u obj_state \<Rightarrow> 'u room_t \<Rightarrow> bool" where
  "room_tidy wm os room \<longleftrightarrow> fits_int (rm_id room) \<and> storable (rm_name room) \<and> storable (rm_desc room) \<and>
     length (rm_adjacent room) = NUM_DIRECTIONS \<and> (\<forall>a\<in>set (rm_adjacent room). fits_int a) \<and>
     objs_tidy (wm_obj_classes wm) (rm_objects room) os \<and> length (mm_pairs (rm_objects room)) \<le> ROOMY_MAX \<and>
     verbs_tidy (wm_verb_classes wm) (rm_verbs room)"

definition hook_bytes :: "('u, 'm) world_module \<Rightarrow> ('u, 'm) server_state \<Rightarrow> nat \<Rightarrow> string" where
  "hook_bytes wm st i = (case rd_hook_serialize (wm_world wm ! i) of None \<Rightarrow> [] | Some f \<Rightarrow> f (int i) st)"

definition room_bytes :: "('u, 'm) world_module \<Rightarrow> ('u, 'm) server_state \<Rightarrow> nat \<Rightarrow> string" where
  "room_bytes wm st i =
     (let room = sv_world st ! i; objs = room_objs (rm_objects room) (sv_obj st); vs = verbs_of (rm_verbs room) in
      write_roomid (rm_id room) @ write_string (rm_name room) @ write_string (rm_desc room) @
      concat (map int_bytes (rm_adjacent room)) @
      write_size (of_nat (length objs)) @ concat (map (obj_write (wm_obj_classes wm)) objs) @
      write_size (of_nat (length vs)) @ concat (map (verb_write (wm_verb_classes wm)) vs) @ hook_bytes wm st i)"

lemma write_room_bytes:
  assumes "room_tidy wm (sv_obj st) (sv_world st ! i)"
  shows "write_room wm st i out = Inr (out @ room_bytes wm st i)"
proof -
  have live: "om_live (sv_obj st) (rm_objects (sv_world st ! i))" and v: "verbs_tidy (wm_verb_classes wm) (rm_verbs (sv_world st ! i))"
    using assms by (simp_all add: room_tidy_def objs_tidy_def)
  show ?thesis
    by (simp add: write_room_def Let_def written_objects[OF live] verbs_tidyD(1,2)[OF v] room_bytes_def hook_bytes_def)
qed

lemma objs_tidy_names:
  assumes "objs_tidy classes m os" "length (mm_pairs m) \<le> ROOMY_MAX"
  shows "length (concat (map obj_names (room_objs m os))) \<le> ROOMY_MAX" "length (room_objs m os) < 2 ^ 64"
proof -
  have "size (sum_list (map named objs)) = length (concat (map obj_names objs))" for objs :: "'a object_t list"
    by (induction objs) (simp_all add: named_def)
  moreover have "size (contents m os) = length (mm_pairs m)" by (simp add: contents_def)
  ultimately show a: "length (concat (map obj_names (room_objs m os))) \<le> ROOMY_MAX"
    using assms unfolding objs_tidy_def by metis
  have "length objs \<le> length (concat (map obj_names objs))" for objs :: "'a object_t list"
    by (induction objs) (simp_all add: obj_names_def)
  from order_trans[OF this a] show "length (room_objs m os) < 2 ^ 64" by (simp add: ROOMY_MAX_def)
qed

lemma room_objs_names:
  assumes "room_tidy wm os room"
  shows "length (concat (map obj_names (room_objs (rm_objects room) os))) \<le> ROOMY_MAX"
    "length (room_objs (rm_objects room) os) < 2 ^ 64"
  using assms objs_tidy_names[of "wm_obj_classes wm" "rm_objects room" os] by (simp_all add: room_tidy_def)

text \<open>The room read back is the same, up to pointers.\<close>

definition room_same :: "'u room_t \<Rightarrow> 'u obj_state \<Rightarrow> 'u room_t \<Rightarrow> 'u obj_state \<Rightarrow> bool" where
  "room_same r os r' os' \<longleftrightarrow> rm_id r' = rm_id r \<and> rm_name r' = rm_name r \<and> rm_desc r' = rm_desc r \<and> rm_adjacent r' = rm_adjacent r \<and>
     contents (rm_objects r') os' = contents (rm_objects r) os \<and> hash_lookup (rm_verbs r') = hash_lookup (rm_verbs r)"

text \<open>A state with one room, the heap and the classes of verbs replaced.\<close>

definition refit :: "nat \<Rightarrow> 'u room_t \<Rightarrow> 'u obj_state \<Rightarrow> verb_state \<Rightarrow> ('u, 'm) server_state \<Rightarrow> ('u, 'm) server_state" where
  "refit i room os vst st = sv_set_obj os (st\<lparr>sv_world := (sv_world st)[i := room], sv_verb_classes := vst\<rparr>)"

lemma load_room_ok:
  assumes tidy: "room_tidy wm (sv_obj st0) (sv_world st0 ! i)"
    and st: "i < length (sv_world st)" "sv_world st ! i = room_zero" "classes_ok (wm_obj_classes wm) (sv_obj st)"
      "verb_classes_ok (wm_verb_classes wm) (sv_verb_classes st)" "heap_fresh (sv_obj st)"
  shows "\<exists>room os vst. load_room wm i (room_bytes wm st0 i @ rest) st =
      (case rd_hook_deserialize (wm_world wm ! i) of
         None \<Rightarrow> Inr (hook_bytes wm st0 i @ rest, refit i room os vst st)
       | Some f \<Rightarrow> f (int i) (hook_bytes wm st0 i @ rest) (refit i room os vst st)) \<and>
    room_same (sv_world st0 ! i) (sv_obj st0) room os \<and> om_live os (rm_objects room) \<and> classes_ok (wm_obj_classes wm) os \<and>
    verb_classes_ok (wm_verb_classes wm) vst \<and> heap_fresh os \<and> heap_grows (sv_obj st) os"
proof -
  let ?r0 = "sv_world st0 ! i"
  let ?objs = "room_objs (rm_objects ?r0) (sv_obj st0)" and ?vs = "verbs_of (rm_verbs ?r0)"
  have t: "fits_int (rm_id ?r0)" "storable (rm_name ?r0)" "storable (rm_desc ?r0)" "length (rm_adjacent ?r0) = NUM_DIRECTIONS"
    "\<forall>a\<in>set (rm_adjacent ?r0). fits_int a" "contents (rm_objects ?r0) (sv_obj st0) = sum_list (map named ?objs)"
    "\<forall>obj\<in>set ?objs. obj_storable (wm_obj_classes wm) obj \<and> class_round_trips (wm_obj_classes wm ! obj_class obj) obj"
    "verbs_tidy (wm_verb_classes wm) (rm_verbs ?r0)"
    using tidy by (simp_all add: room_tidy_def objs_tidy_def)
  note v = verbs_tidyD[OF t(8)] and n = room_objs_names[OF tidy]
  define room1 where "room1 = (room_init_maps (userdb_size st) (room_zero :: 'a room_t))\<lparr>rm_id := rm_id ?r0, rm_name := rm_name ?r0,
    rm_desc := rm_desc ?r0, rm_adjacent := rm_adjacent ?r0\<rparr>"
  define st1 where "st1 = room_set (int i) room1 st"
  have r1: "room_get (int i) st1 = Inr room1" using st(1) by (simp add: st1_def room_get_def room_set_def)
  have maps: "rm_objects room1 = obj_map_init OBJMAP_SIZE" "str_table (rm_verbs room1)" "hash_lookup (rm_verbs room1) = Map.empty"
    by (simp_all add: room1_def room_init_maps_def verb_table_init)
  have obj1: "sv_obj st1 = sv_obj st" by (simp add: st1_def)
  have empty: "om_live (sv_obj st) (obj_map_init OBJMAP_SIZE)" "contents (obj_map_init OBJMAP_SIZE) (sv_obj st) = {#}"
    using roomy_ok(2)[OF roomy_start] by (simp_all add: om_live_def contents_def obj_map_init_def multimap_setfreedata_cb_def multimap_init_def mm_pairs_def)
  let ?vb = "concat (map (verb_write (wm_verb_classes wm)) ?vs) @ hook_bytes wm st0 i @ rest"
  have n0: "0 + length (concat (map obj_names ?objs)) \<le> ROOMY_MAX" using n(1) by simp
  obtain m os where objs: "load_objects wm (int i) (length ?objs) (concat (map (obj_write (wm_obj_classes wm)) ?objs) @
        write_size (of_nat (length ?vs)) @ ?vb) (furnish (int i) room1 (obj_map_init OBJMAP_SIZE) (sv_obj st) st1) =
      Inr (write_size (of_nat (length ?vs)) @ ?vb, furnish (int i) room1 m os st1)"
    "classes_ok (wm_obj_classes wm) os" "heap_fresh os" "om_live os m" "heap_grows (sv_obj st) os" "contents m os = sum_list (map named ?objs)"
    using load_objects_ok[OF r1 roomy_start n0 st(3,5) empty(1) t(7), of "write_size (of_nat (length ?vs)) @ ?vb"]
    unfolding empty(2) add_0_right by blast
  define room2 where "room2 = room1\<lparr>rm_objects := m\<rparr>"
  define st2 where "st2 = furnish (int i) room1 m os st1"
  have r2: "room_get (int i) st2 = Inr room2" using furnish_room[OF r1] by (simp add: st2_def room2_def)
  have str2: "str_table (rm_verbs room2)" "hash_lookup (rm_verbs room2) = Map.empty" using maps(2,3) by (simp_all add: room2_def)
  have free: "\<forall>w\<in>set ?vs. verb_storable (wm_verb_classes wm) w \<and> hash_lookup (rm_verbs room2) (vb_name w) = None"
    using v(6) maps(3) by (simp add: room2_def)
  obtain tab vst where verbs: "load_verbs wm (int i) (length ?vs) ?vb (equip (int i) room2 (rm_verbs room2) (sv_verb_classes st) st2) =
      Inr (hook_bytes wm st0 i @ rest, equip (int i) room2 tab vst st2)"
    "verb_classes_ok (wm_verb_classes wm) vst" "hash_lookup tab = hash_lookup (rm_verbs ?r0)"
    using load_verbs_ok[OF r2 str2(1) st(4) v(4) free, of "hook_bytes wm st0 i @ rest"] unfolding str2(2) v(5) empty_map_add by blast
  have self: "furnish (int i) room1 (obj_map_init OBJMAP_SIZE) (sv_obj st) st1 = st1"
    using furnish_self[OF r1, of "sv_obj st1"] unfolding maps(1) obj1 by (simp add: sv_set_obj_def obj1[symmetric])
  have self2: "equip (int i) room2 (rm_verbs room2) (sv_verb_classes st) st2 = st2"
    using r2 by (simp add: equip_def room_set_def room_get_Inr) (simp add: st2_def st1_def furnish_def sv_set_obj_def room_set_def)
  let ?room = "room2\<lparr>rm_verbs := tab\<rparr>"
  have final: "equip (int i) room2 tab vst st2 = refit i ?room os vst st"
    by (simp add: equip_def refit_def st2_def st1_def furnish_def sv_set_obj_def room_set_def)
  have "load_room wm i (room_bytes wm st0 i @ rest) st =
      (case rd_hook_deserialize (wm_world wm ! i) of
         None \<Rightarrow> Inr (hook_bytes wm st0 i @ rest, refit i ?room os vst st)
       | Some f \<Rightarrow> f (int i) (hook_bytes wm st0 i @ rest) (refit i ?room os vst st))"
  proof -
    have "length (rm_adjacent (room_init_maps (userdb_size st) (room_zero :: 'a room_t))) = length (rm_adjacent ?r0)"
      by (simp add: room_init_maps_def room_zero_def t(4))
    then have "read_unchecked (concat (map int_bytes (rm_adjacent (room_init_maps (userdb_size st) (room_zero :: 'a room_t)))))
        (concat (map int_bytes (rm_adjacent ?r0)) @ r) = (concat (map int_bytes (rm_adjacent ?r0)), r)" for r
      by (intro read_unchecked_append) (simp only: length_concat_int_bytes)
    moreover have "split_ints NUM_DIRECTIONS (concat (map int_bytes (rm_adjacent ?r0))) = rm_adjacent ?r0"
      using split_ints_bytes[OF t(5)] t(4) by simp
    moreover have "le_val (write_size (of_nat (length ?objs))) = length ?objs"
      using n(2) by (simp add: write_size_def le_val_le_bytes unat_of_nat)
    moreover have "unat (of_nat (length ?vs) :: u64) = length ?vs" using v(2,3) by simp
    ultimately show ?thesis
      using objs(1)[unfolded self, folded st2_def] verbs(1)[unfolded self2 final] t(1-4) st(2)
      by (simp add: load_room_def room_bytes_def Let_def st1_def[symmetric] room1_def[symmetric])
  qed
  moreover have "room_same ?r0 (sv_obj st0) ?room os"
    using objs(6) t(6) verbs(3) by (simp add: room_same_def room2_def room1_def)
  ultimately show ?thesis using objs(2-5) verbs(2) by (intro exI[of _ ?room] exI[of _ os] exI[of _ vst]) (simp add: room2_def)
qed

section \<open>A world and back\<close>

text \<open>
  What \<open>world_load\<close> asks of a module: the bytes that a room's hook writes are the bytes its other hook
  takes, and that one restores the module's data of the room and leaves alone what was restored
  before. \<open>sane\<close> says when the module's data can be written, \<open>sound\<close> when more can be read into it.
\<close>

locale saving_module =
  fixes wm :: "('u, 'm) world_module" and sane sound :: "'m \<Rightarrow> bool" and restored :: "'m \<Rightarrow> nat \<Rightarrow> 'm \<Rightarrow> bool"
  assumes no_hooks: "i < length (wm_world wm) \<Longrightarrow> rd_hook_deserialize (wm_world wm ! i) = None \<Longrightarrow>
      rd_hook_serialize (wm_world wm ! i) = None \<and> restored m i m'"
    and hooks: "i < length (wm_world wm) \<Longrightarrow> rd_hook_deserialize (wm_world wm ! i) = Some des \<Longrightarrow> sane (sv_module st0) \<Longrightarrow>
      sound (sv_module st) \<Longrightarrow> i < length (sv_world st) \<Longrightarrow>
      \<exists>m'. sound m' \<and> (\<forall>rest. des (int i) (hook_bytes wm st0 i @ rest) st = Inr (rest, st\<lparr>sv_module := m'\<rparr>)) \<and>
        restored (sv_module st0) i m' \<and> (\<forall>j. restored (sv_module st0) j (sv_module st) \<longrightarrow> restored (sv_module st0) j m')"

text \<open>A world that its file describes.\<close>

definition world_tidy :: "('u, 'm) world_module \<Rightarrow> ('u, 'm) server_state \<Rightarrow> bool" where
  "world_tidy wm st \<longleftrightarrow> length (sv_world st) = length (wm_world wm) \<and> length (wm_world wm) < 2 ^ 31 \<and>
     sv_world_name st = wm_world_name wm \<and> storable (wm_world_name wm) \<and>
     (\<forall>i<length (wm_world wm). room_tidy wm (sv_obj st) (sv_world st ! i) \<and> rm_id (sv_world st ! i) = int i) \<and>
     (\<forall>tab. sv_global_verbs st = Some tab \<longrightarrow> verbs_tidy (wm_verb_classes wm) tab) \<and>
     str_table (sv_world_map st) \<and> length (hash_entries (sv_world_map st)) = length (wm_world wm) \<and>
     (\<forall>e\<in>set (hash_entries (sv_world_map st)). storable (fst e) \<and> snd e < length (wm_world wm))"

text \<open>The server after a restart, before its world is loaded.\<close>

definition restarted :: "('u, 'm) world_module \<Rightarrow> ('u, 'm) server_state \<Rightarrow> bool" where
  "restarted wm st \<longleftrightarrow> sv_world st = [] \<and> sv_global_verbs st = None \<and> classes_ok (wm_obj_classes wm) (sv_obj st) \<and>
     verb_classes_ok (wm_verb_classes wm) (sv_verb_classes st) \<and> heap_fresh (sv_obj st)"

definition global_verb :: "('u, 'm) server_state \<Rightarrow> string \<Rightarrow> verb_t option" where
  "global_verb st = (case sv_global_verbs st of None \<Rightarrow> Map.empty | Some tab \<Rightarrow> hash_lookup tab)"

text \<open>The first \<open>k\<close> rooms are as in \<open>st0\<close>; the rest of the state is as in \<open>base\<close>.\<close>

definition loaded :: "('u, 'm) world_module \<Rightarrow> ('u, 'm) server_state \<Rightarrow> ('u, 'm) server_state \<Rightarrow> nat \<Rightarrow> ('u, 'm) server_state \<Rightarrow> bool" where
  "loaded wm st0 base k st \<longleftrightarrow> length (sv_world st) = length (sv_world st0) \<and>
     (\<forall>j<k. room_same (sv_world st0 ! j) (sv_obj st0) (sv_world st ! j) (sv_obj st) \<and> om_live (sv_obj st) (rm_objects (sv_world st ! j))) \<and>
     (\<forall>j. k \<le> j \<longrightarrow> j < length (sv_world st0) \<longrightarrow> sv_world st ! j = room_zero) \<and>
     classes_ok (wm_obj_classes wm) (sv_obj st) \<and> verb_classes_ok (wm_verb_classes wm) (sv_verb_classes st) \<and> heap_fresh (sv_obj st) \<and>
     sv_global_verbs st = sv_global_verbs base \<and> sv_world_name st = sv_world_name base \<and>
     sv_userfile st = sv_userfile base \<and> dh_maps (sv_heap st) = dh_maps (sv_heap base) \<and> dh_next (sv_heap st) = dh_next (sv_heap base)"

lemma refit_simps [simp]:
  "sv_world (refit i room os vst st) = (sv_world st)[i := room]" "sv_obj (refit i room os vst st) = os"
  "sv_verb_classes (refit i room os vst st) = vst" "sv_module (refit i room os vst st) = sv_module st"
  "sv_global_verbs (refit i room os vst st) = sv_global_verbs st" "sv_world_name (refit i room os vst st) = sv_world_name st"
  "sv_userfile (refit i room os vst st) = sv_userfile st" "dh_maps (sv_heap (refit i room os vst st)) = dh_maps (sv_heap st)"
  "dh_next (sv_heap (refit i room os vst st)) = dh_next (sv_heap st)"
  by (simp_all add: refit_def sv_set_obj_def)

lemma loaded_refit:
  assumes "loaded wm st0 base k st" "k < length (sv_world st0)" "room_same (sv_world st0 ! k) (sv_obj st0) room os"
    and "om_live os (rm_objects room)" "classes_ok (wm_obj_classes wm) os" "verb_classes_ok (wm_verb_classes wm) vst"
    and "heap_fresh os" "heap_grows (sv_obj st) os"
  shows "loaded wm st0 base (Suc k) ((refit k room os vst st)\<lparr>sv_module := m\<rparr>)"
proof -
  have "room_same (sv_world st0 ! j) (sv_obj st0) (sv_world st ! j) os \<and> om_live os (rm_objects (sv_world st ! j))" if "j < k" for j
    using assms(1,8) that contents_grows[of "sv_obj st" "rm_objects (sv_world st ! j)" os] by (auto simp: loaded_def room_same_def)
  then show ?thesis
    using assms by (auto simp: loaded_def nth_list_update less_Suc_eq)
qed

lemma load_room_map_ok:
  assumes "str_table tab" "distinct (map fst es)" "\<forall>e\<in>set es. storable (fst e) \<and> snd e < 2 ^ 31 \<and> hash_lookup tab (fst e) = None"
  shows "\<exists>tab'. load_room_map (length es) (concat (map (\<lambda>e. write_string (fst e) @ write_roomid (int (snd e))) es) @ rest) tab = Inr (rest, tab') \<and>
    str_table tab' \<and> hash_lookup tab' = hash_lookup tab ++ map_of es"
  using assms
proof (induction es arbitrary: tab)
  case (Cons e es)
  obtain k i where e: "e = (k, i)" by fastforce
  have fits: "fits_int (int i)" using Cons.prems(3) e by (simp add: fits_int_def)
  have none: "hash_lookup tab k = None" using Cons.prems(3) e by simp
  obtain tab1 where ins: "hash_insert tab k i = Inr (None, tab1)" "str_table tab1" "hash_lookup tab1 = (hash_lookup tab)(k \<mapsto> i)"
    using str_map.insert_absent[OF Cons.prems(1) none, of i] by blast
  have "\<forall>e\<in>set es. storable (fst e) \<and> snd e < 2 ^ 31 \<and> hash_lookup tab1 (fst e) = None"
    using Cons.prems(2,3) ins(3) e by auto
  from Cons.IH[OF ins(2) _ this] Cons.prems(2) obtain tab' where
    "load_room_map (length es) (concat (map (\<lambda>e. write_string (fst e) @ write_roomid (int (snd e))) es) @ rest) tab1 = Inr (rest, tab')"
    "str_table tab'" "hash_lookup tab' = hash_lookup tab1 ++ map_of es" by auto
  moreover have "map_of es k = None" using Cons.prems(2) e by (simp add: map_of_eq_None_iff)
  then have "hash_lookup tab1 ++ map_of es = hash_lookup tab ++ map_of (e # es)"
    by (auto simp: e ins(3) fun_eq_iff map_add_def split: option.splits)
  ultimately show ?case using ins(1) fits Cons.prems(3) by (intro exI[of _ tab'] conjI) (simp add: e, assumption, simp only:)
qed (simp add: exI[of _ tab])

definition world_bytes :: "('u, 'm) world_module \<Rightarrow> verb_map \<Rightarrow> ('u, 'm) server_state \<Rightarrow> string" where
  "world_bytes wm tab st =
     write_uint32 WORLD_MAGIC @ write_size (of_nat (length (sv_world st))) @ write_string (sv_world_name st) @
     write_size (of_nat (length (verbs_of tab))) @ concat (map (verb_write (wm_verb_classes wm)) (verbs_of tab)) @
     concat (map (room_bytes wm st) [0..<length (sv_world st)]) @ write_uint64 (obj_get_idcounter (sv_obj st)) @
     concat (map (\<lambda>e. write_string (fst e) @ write_roomid (int (snd e))) (hash_entries (sv_world_map st)))"

lemma world_save_bytes:
  assumes "world_tidy wm st"
  shows "\<exists>tab st1. world_verb_map st = (tab, st1) \<and> verbs_tidy (wm_verb_classes wm) tab \<and> hash_lookup tab = global_verb st \<and>
    sv_world st1 = sv_world st \<and> sv_heap st1 = sv_heap st \<and> sv_module st1 = sv_module st \<and> sv_world_map st1 = sv_world_map st \<and>
    sv_world_name st1 = sv_world_name st \<and> saved st st1 \<and>
    world_save wm st = Inr (st1\<lparr>sv_worldfile := Some (file_overwrite (sv_worldfile st1) (world_bytes wm tab st1))\<rparr>)"
proof -
  obtain tab st1 where v: "world_verb_map st = (tab, st1)" by fastforce
  have empty: "verbs_tidy (wm_verb_classes wm) (hash_setfreedata_cb (hash_init n hash_djb compare_strings) (Some verb_free))" for n
    by (simp add: verbs_tidy_def verb_table_init) (simp add: hash_setfreedata_cb_def hash_init_def hash_entries_def)
  have t: "verbs_tidy (wm_verb_classes wm) tab" "hash_lookup tab = global_verb st"
    "sv_world st1 = sv_world st" "sv_heap st1 = sv_heap st" "sv_module st1 = sv_module st" "sv_world_map st1 = sv_world_map st"
    "sv_world_name st1 = sv_world_name st"
    using v assms empty[of GLOBAL_VERBMAP_SZ] verb_table_init(2)[of GLOBAL_VERBMAP_SZ]
    by (auto simp: world_verb_map_def init_map_def Let_def world_tidy_def global_verb_def split: option.splits)
  have s1: "saved st st1" using world_verb_map_saved[of st] v by simp
  have rooms: "res_fold (write_room wm st1) is out = Inr (out @ concat (map (room_bytes wm st1) is))"
    if "set is \<subseteq> {..<length (sv_world st)}" for "is" out
    using that
  proof (induction "is" arbitrary: out)
    case (Cons i "is")
    have "room_tidy wm (sv_obj st1) (sv_world st1 ! i)" using Cons.prems assms by (simp add: world_tidy_def t)
    then show ?case using Cons.IH Cons.prems by (simp add: write_room_bytes)
  qed simp
  have map: "hash_iter_loop (sv_world_map st) iter_start = hash_entries (sv_world_map st)"
    using assms by (intro hash_iter_loop_entries) (simp add: world_tidy_def exact_table_def)
  have ids: "concat (map (\<lambda>(key, i). write_string key @ write_roomid (rm_id (sv_world st ! i))) (hash_entries (sv_world_map st))) =
      concat (map (\<lambda>e. write_string (fst e) @ write_roomid (int (snd e))) (hash_entries (sv_world_map st)))"
    using assms by (intro arg_cong[of _ _ concat] map_cong) (auto simp: world_tidy_def)
  note vt = verbs_tidyD[OF t(1)]
  have z: "(of_nat (length (verbs_of tab)) :: u64) = 0 \<longleftrightarrow> verbs_of tab = []"
    using vt(3) unfolding vt(2) by (auto simp flip: unat_eq_0)
  have "world_save wm st = Inr (st1\<lparr>sv_worldfile := Some (file_overwrite (sv_worldfile st1) (world_bytes wm tab st1))\<rparr>)"
    using rooms[of "[0..<length (sv_world st)]"]
    by (cases "verbs_of tab = []") (simp_all add: world_save_def v z map ids t(3-7) world_bytes_def Let_def vt(1,2) atLeast0LessThan)
  then show ?thesis using v t s1 by blast
qed

text \<open>The first verb that is added makes the table.\<close>

lemma load_global_verbs_none:
  assumes "sv_global_verbs st = None" "n \<noteq> 0"
  shows "load_global_verbs wm n fd st =
    load_global_verbs wm n fd (st\<lparr>sv_global_verbs := Some (hash_setfreedata_cb (hash_init GLOBAL_VERBMAP_SZ hash_djb compare_strings) (Some verb_free))\<rparr>)"
proof -
  let ?tab = "hash_setfreedata_cb (hash_init GLOBAL_VERBMAP_SZ hash_djb compare_strings) (Some verb_free)"
  have "world_verb_add v (st\<lparr>sv_verb_classes := vst\<rparr>) = world_verb_add v (st\<lparr>sv_global_verbs := Some ?tab, sv_verb_classes := vst\<rparr>)" for v vst
    using assms(1) by (simp add: world_verb_add_def init_map_def Let_def)
  then show ?thesis using assms(2) by (cases n) simp_all
qed

lemma load_globals_ok:
  assumes "restarted wm s" "verbs_tidy (wm_verb_classes wm) tab" "sv_global_verbs st = None" "sv_verb_classes st = sv_verb_classes s"
  shows "\<exists>g vst. load_global_verbs wm (length (verbs_of tab)) (concat (map (verb_write (wm_verb_classes wm)) (verbs_of tab)) @ rest) st =
      Inr (rest, st\<lparr>sv_verb_classes := vst, sv_global_verbs := g\<rparr>) \<and> verb_classes_ok (wm_verb_classes wm) vst \<and>
    (case g of None \<Rightarrow> Map.empty | Some t \<Rightarrow> hash_lookup t) = hash_lookup tab"
proof (cases "verbs_of tab = []")
  case True
  have "st = st\<lparr>sv_verb_classes := sv_verb_classes s, sv_global_verbs := None\<rparr>" using assms(3,4) by (cases st) simp
  moreover have "hash_lookup tab = Map.empty" using verbs_tidyD(5)[OF assms(2)] True by simp
  ultimately show ?thesis using assms(1) True
    by (intro exI[of _ None] exI[of _ "sv_verb_classes s"]) (simp add: restarted_def)
next
  case False
  let ?e = "hash_setfreedata_cb (hash_init GLOBAL_VERBMAP_SZ hash_djb compare_strings) (Some verb_free)"
  have cls: "verb_classes_ok (wm_verb_classes wm) (sv_verb_classes s)" using assms(1) by (simp add: restarted_def)
  have st: "st\<lparr>sv_global_verbs := Some ?e\<rparr> = st\<lparr>sv_verb_classes := sv_verb_classes s, sv_global_verbs := Some ?e\<rparr>"
    using assms(4) by (cases st) simp
  note v = verbs_tidyD[OF assms(2)]
  have "\<forall>v\<in>set (verbs_of tab). verb_storable (wm_verb_classes wm) v \<and> hash_lookup ?e (vb_name v) = None"
    using v(6) by (simp add: verb_table_init(2))
  from load_global_verbs_ok[OF verb_table_init(1) cls v(4) this, of rest st]
  obtain tab' vst where "load_global_verbs wm (length (verbs_of tab)) (concat (map (verb_write (wm_verb_classes wm)) (verbs_of tab)) @ rest)
      (st\<lparr>sv_global_verbs := Some ?e\<rparr>) = Inr (rest, st\<lparr>sv_verb_classes := vst, sv_global_verbs := Some tab'\<rparr>)"
    "verb_classes_ok (wm_verb_classes wm) vst" "hash_lookup tab' = hash_lookup tab"
    unfolding st verb_table_init(2) v(5) empty_map_add by blast
  then show ?thesis using load_global_verbs_none[OF assms(3)] False
    by (intro exI[of _ "Some tab'"] exI[of _ vst]) simp
qed

context saving_module begin

lemma load_rooms_ok:
  assumes tidy: "world_tidy wm st0" "sane (sv_module st0)"
    and "loaded wm st0 base k st" "(\<forall>j<k. restored (sv_module st0) j (sv_module st)) \<and> sound (sv_module st)" "k \<le> length (wm_world wm)"
  shows "\<exists>st'. load_rooms wm [k..<length (wm_world wm)] (concat (map (room_bytes wm st0) [k..<length (wm_world wm)]) @ rest) st = Inr (rest, st') \<and>
    loaded wm st0 base (length (wm_world wm)) st' \<and> (\<forall>j<length (wm_world wm). restored (sv_module st0) j (sv_module st')) \<and> sound (sv_module st')"
  using assms(3-5)
proof (induction "length (wm_world wm) - k" arbitrary: k st)
  case 0
  then show ?case by simp
next
  case (Suc r)
  let ?n = "length (wm_world wm)"
  have k: "k < ?n" "r = ?n - Suc k" using Suc.hyps(2) by simp_all
  have n: "length (sv_world st0) = ?n" and room: "room_tidy wm (sv_obj st0) (sv_world st0 ! k)"
    using tidy(1) k(1) by (simp_all add: world_tidy_def)
  have st: "k < length (sv_world st)" "sv_world st ! k = room_zero" "classes_ok (wm_obj_classes wm) (sv_obj st)"
    "verb_classes_ok (wm_verb_classes wm) (sv_verb_classes st)" "heap_fresh (sv_obj st)"
    using Suc.prems(1) k(1) n by (simp_all add: loaded_def)
  let ?rest = "concat (map (room_bytes wm st0) [Suc k..<?n]) @ rest"
  obtain room os vst where ld: "load_room wm k (room_bytes wm st0 k @ ?rest) st =
      (case rd_hook_deserialize (wm_world wm ! k) of
         None \<Rightarrow> Inr (hook_bytes wm st0 k @ ?rest, refit k room os vst st)
       | Some f \<Rightarrow> f (int k) (hook_bytes wm st0 k @ ?rest) (refit k room os vst st))"
    "room_same (sv_world st0 ! k) (sv_obj st0) room os" "om_live os (rm_objects room)" "classes_ok (wm_obj_classes wm) os"
    "verb_classes_ok (wm_verb_classes wm) vst" "heap_fresh os" "heap_grows (sv_obj st) os"
    using load_room_ok[OF room st] by blast
  let ?st = "refit k room os vst st"
  have "\<exists>m'. load_room wm k (room_bytes wm st0 k @ ?rest) st = Inr (?rest, ?st\<lparr>sv_module := m'\<rparr>) \<and>
      restored (sv_module st0) k m' \<and> (\<forall>j<k. restored (sv_module st0) j m') \<and> sound m'"
  proof (cases "rd_hook_deserialize (wm_world wm ! k)")
    case None
    note h = no_hooks[OF k(1) None]
    have "?st\<lparr>sv_module := sv_module st\<rparr> = ?st" by (simp add: refit_def sv_set_obj_def)
    then show ?thesis using h Suc.prems(2) ld(1) None by (intro exI[of _ "sv_module st"]) (simp add: hook_bytes_def)
  next
    case (Some des)
    obtain m' where "sound m'" "\<forall>rest. des (int k) (hook_bytes wm st0 k @ rest) ?st = Inr (rest, ?st\<lparr>sv_module := m'\<rparr>)"
      "restored (sv_module st0) k m'" "\<forall>j. restored (sv_module st0) j (sv_module ?st) \<longrightarrow> restored (sv_module st0) j m'"
      using hooks[OF k(1) Some tidy(2), of ?st] st(1) Suc.prems(2) by auto
    then show ?thesis using ld(1) Some Suc.prems(2) by (intro exI[of _ m']) simp
  qed
  then obtain m' where m': "load_room wm k (room_bytes wm st0 k @ ?rest) st = Inr (?rest, ?st\<lparr>sv_module := m'\<rparr>)"
    "(\<forall>j<Suc k. restored (sv_module st0) j m') \<and> sound m'" by (auto simp: less_Suc_eq)
  have "loaded wm st0 base (Suc k) (?st\<lparr>sv_module := m'\<rparr>)"
    by (rule loaded_refit[OF Suc.prems(1) _ ld(2-7)]) (use k(1) n in simp)
  from Suc.hyps(1)[OF k(2) this] m'(2) k(1) obtain st' where
    "load_rooms wm [Suc k..<?n] ?rest (?st\<lparr>sv_module := m'\<rparr>) = Inr (rest, st')"
    "loaded wm st0 base ?n st'" "(\<forall>j<?n. restored (sv_module st0) j (sv_module st')) \<and> sound (sv_module st')" by auto
  then show ?case using m'(1) by (simp add: upt_conv_Cons[OF k(1)])
qed

lemma world_reload:
  assumes tidy: "world_tidy wm st" "sane (sv_module st)" and re: "restarted wm s" "sound (sv_module s)"
    and disk: "sv_worldfile s = sv_worldfile st1" "world_save wm st = Inr st1"
  shows "\<exists>st2. world_load wm s = Inr (True, st2) \<and> length (sv_world st2) = length (sv_world st) \<and>
    (\<forall>i<length (sv_world st). room_same (sv_world st ! i) (sv_obj st) (sv_world st2 ! i) (sv_obj st2) \<and>
       restored (sv_module st) i (sv_module st2)) \<and>
    sv_world_name st2 = sv_world_name st \<and> hash_lookup (sv_world_map st2) = hash_lookup (sv_world_map st) \<and>
    global_verb st2 = global_verb st \<and> obj_get_idcounter (sv_obj st2) = obj_get_idcounter (sv_obj st) \<and>
    (\<forall>i<length (sv_world st). om_live (sv_obj st2) (rm_objects (sv_world st2 ! i))) \<and>
    classes_ok (wm_obj_classes wm) (sv_obj st2) \<and> heap_fresh (sv_obj st2) \<and> sound (sv_module st2) \<and>
    sv_userfile st2 = sv_userfile s \<and> dh_maps (sv_heap st2) = dh_maps (sv_heap s) \<and> dh_next (sv_heap st2) = dh_next (sv_heap s)"
proof -
  let ?n = "length (wm_world wm)"
  obtain tab st0 where v: "verbs_tidy (wm_verb_classes wm) tab" "hash_lookup tab = global_verb st"
    "sv_world st0 = sv_world st" "sv_heap st0 = sv_heap st" "sv_module st0 = sv_module st" "sv_world_map st0 = sv_world_map st"
    "sv_world_name st0 = sv_world_name st" "world_verb_map st = (tab, st0)"
    "world_save wm st = Inr (st0\<lparr>sv_worldfile := Some (file_overwrite (sv_worldfile st0) (world_bytes wm tab st0))\<rparr>)"
    using world_save_bytes[OF tidy(1)] by blast
  have g: "sv_global_verbs st0 = Some tab"
    using v(8) by (auto simp: world_verb_map_def init_map_def Let_def split: option.splits)
  have tidy0: "world_tidy wm st0" using tidy(1) v(1,3,4,6,7) g by (simp add: world_tidy_def)
  have n: "length (sv_world st0) = ?n" "?n < 2 ^ 31" "storable (sv_world_name st0)" "sv_world_name st0 = wm_world_name wm"
    using tidy0 by (simp_all add: world_tidy_def)
  obtain tail where fd: "sv_worldfile s = Some (world_bytes wm tab st0 @ tail)"
    using disk v(9) by (auto simp: file_overwrite_def)
  define st1' where "st1' = sv_set_obj (obj_set_idcounter 1 (sv_obj s)) (s\<lparr>sv_world := replicate ?n room_zero, sv_world_name := wm_world_name wm\<rparr>)"
  let ?es = "hash_entries (sv_world_map st0)"
  define fd3 where "fd3 = concat (map (\<lambda>e. write_string (fst e) @ write_roomid (int (snd e))) ?es) @ tail"
  define fd2 where "fd2 = write_uint64 (obj_get_idcounter (sv_obj st0)) @ fd3"
  define fd1 where "fd1 = concat (map (room_bytes wm st0) [0..<?n]) @ fd2"
  have none: "sv_global_verbs st1' = None" "sv_verb_classes st1' = sv_verb_classes s"
    using re by (simp_all add: st1'_def restarted_def sv_set_obj_def)
  obtain g vst where gl: "load_global_verbs wm (length (verbs_of tab)) (concat (map (verb_write (wm_verb_classes wm)) (verbs_of tab)) @ fd1) st1' =
      Inr (fd1, st1'\<lparr>sv_verb_classes := vst, sv_global_verbs := g\<rparr>)" "verb_classes_ok (wm_verb_classes wm) vst"
    "(case g of None \<Rightarrow> Map.empty | Some t \<Rightarrow> hash_lookup t) = hash_lookup tab"
    using load_globals_ok[OF re(1) v(1) none] by blast
  define base where "base = st1'\<lparr>sv_verb_classes := vst, sv_global_verbs := g\<rparr>"
  have "loaded wm st0 base 0 base"
    using re gl(2) n(1)
    by (simp add: restarted_def loaded_def base_def st1'_def sv_set_obj_def obj_set_idcounter_def classes_ok_def heap_fresh_def)
  then obtain st2 where rooms: "load_rooms wm [0..<?n] fd1 base = Inr (fd2, st2)" "loaded wm st0 base ?n st2"
    "\<forall>j<?n. restored (sv_module st0) j (sv_module st2)" "sound (sv_module st2)"
  proof -
    have "sv_module base = sv_module s" by (simp add: base_def st1'_def sv_set_obj_def)
    then show thesis using load_rooms_ok[OF tidy0, of base 0 base fd2] tidy(2) re(2) \<open>loaded wm st0 base 0 base\<close> that
      by (auto simp: v(5) fd1_def)
  qed
  have es: "str_table (sv_world_map st0)" "length ?es = ?n" "\<forall>e\<in>set ?es. storable (fst e) \<and> snd e < ?n"
    using tidy0 by (simp_all add: world_tidy_def)
  obtain wtab where map: "load_room_map ?n fd3 (hash_init (?n * 2) hash_djb compare_strings) = Inr (tail, wtab)"
    "hash_lookup wtab = hash_lookup (sv_world_map st0)"
    using load_room_map_ok[OF exact_table_init str_map.entries_distinct[OF es(1)], of "?n * 2" tail] es n(2)
    by (fastforce simp: fd3_def str_map.entries_lookup[OF es(1)] hash_lookup_init)
  let ?st3 = "(sv_set_obj (obj_set_idcounter (obj_get_idcounter (sv_obj st0)) (sv_obj st2)) st2)\<lparr>sv_world_map := wtab\<rparr>"
  have "world_load wm s = Inr (True, ?st3)"
  proof -
    have "sv_worldfile s = Some (write_uint32 WORLD_MAGIC @ write_size (of_nat ?n) @ write_string (wm_world_name wm) @
        write_size (of_nat (length (verbs_of tab))) @ concat (map (verb_write (wm_verb_classes wm)) (verbs_of tab)) @ fd1)"
      using fd by (simp add: world_bytes_def n(1,4) fd1_def fd2_def fd3_def)
    moreover have "le_val (write_size (of_nat ?n)) = ?n" using n(2) by (simp add: write_size_def le_val_le_bytes unat_of_nat)
    moreover have "unat (of_nat (length (verbs_of tab)) :: u64) = length (verbs_of tab)" using verbs_tidyD(2,3)[OF v(1)] by simp
    moreover have "world_free wm s = Inr s" using re by (simp add: world_free_def restarted_def)
    ultimately show ?thesis
      using gl(1) rooms(1) map(1) n(3,4)
      by (simp add: world_load_def Let_def st1'_def[symmetric] base_def[symmetric] fd2_def)
  qed
  moreover have "sv_world_name ?st3 = sv_world_name st" "global_verb ?st3 = global_verb st" "length (sv_world st2) = length (sv_world st)"
    using rooms(2) gl(3) v(2,3,7) n(4) by (auto simp: loaded_def base_def st1'_def global_verb_def sv_set_obj_def)
  moreover have "\<forall>i<length (sv_world st). room_same (sv_world st ! i) (sv_obj st) (sv_world ?st3 ! i) (sv_obj ?st3) \<and>
       restored (sv_module st) i (sv_module ?st3)"
    using rooms(2,3) n(1) v(3-5) by (auto simp: loaded_def room_same_def contents_def obj_set_idcounter_def sv_set_obj_def)
  moreover have "classes_ok (wm_obj_classes wm) (sv_obj ?st3)" "heap_fresh (sv_obj ?st3)" "sound (sv_module ?st3)"
    "sv_userfile ?st3 = sv_userfile s" "dh_maps (sv_heap ?st3) = dh_maps (sv_heap s)" "dh_next (sv_heap ?st3) = dh_next (sv_heap s)"
    "\<forall>i<length (sv_world st). om_live (sv_obj ?st3) (rm_objects (sv_world ?st3 ! i))"
    using rooms(2,4) n(1) v(3)
    by (auto simp: loaded_def base_def st1'_def obj_set_idcounter_def sv_set_obj_def classes_ok_def heap_fresh_def om_live_def)
  ultimately show ?thesis using map(2) v(4,6)
    by (intro exI[of _ ?st3]) (simp add: obj_set_idcounter_def obj_get_idcounter_def)
qed

end

end
