(* ===== verification/Nc_Auth.thy ===== *)
theory Nc_Auth
  imports Nc_Userdb
begin

text \<open>
  Authentication (\<open>src/auth.c\<close>). \<open>SHA512\<close> is OpenSSL's and a parameter of the model, called
  \<open>sha\<close>; so are the values that \<open>rand\<close> and \<open>time\<close> return. This theory has the parts that do not
  depend on the process they run in, and the master's; the child's versions, which ask the
  master by request, are in \<open>Nc_Client_Reqs\<close>. Clearing memory after use is not modelled.
\<close>

section \<open>Names and hashes\<close>

text \<open>\<open>valid_login_name\<close>; the counter counts the characters seen.\<close>

fun valid_login_loop :: "nat \<Rightarrow> string \<Rightarrow> bool" where
  "valid_login_loop len [] = True"
| "valid_login_loop len (c # name) =
     (let len = len + 1 in
      if len > MAX_NAME_LEN then False
      else if \<not> (isalpha c \<or> isdigit c) then False
      else valid_login_loop len name)"

definition valid_login_name :: "string \<Rightarrow> bool" where
  "valid_login_name name = valid_login_loop 0 name"

text \<open>\<open>snprintf(ptr, 3, "%02x", b)\<close>.\<close>

definition hex_digit :: "nat \<Rightarrow> char" where
  "hex_digit n = char_of (if n < 10 then 48 + n else 87 + n)"

definition hex_byte :: "char \<Rightarrow> string" where
  "hex_byte b = [hex_digit (code b div 16), hex_digit (code b mod 16)]"

text \<open>
  \<open>hash_pass_hex\<close>: the number of extra rounds is \<open>(HASH_ITERS / 2) - 1\<close>, which is negative, so
  there are none. The salt is the array of the record, NULs included.
\<close>

definition HASH_ITERS :: int where "HASH_ITERS = 1"

definition hash_pass_hex :: "(string \<Rightarrow> string) \<Rightarrow> string \<Rightarrow> string \<Rightarrow> string" where
  "hash_pass_hex sha pass salt =
     (let hash = sha (take SALT_LEN (char_array (SALT_LEN + 1) salt) @ pass);
          hash = ((sha \<circ> sha) ^^ nat (HASH_ITERS div 2 - 1)) hash in
      concat (map hex_byte hash))"

text \<open>The comparison in \<open>auth_check\<close>: the first \<open>AUTH_HASHLEN\<close> characters of the two strings.\<close>

definition password_ok :: "(string \<Rightarrow> string) \<Rightarrow> userdata_t \<Rightarrow> string \<Rightarrow> bool" where
  "password_ok sha data pass =
     (take AUTH_HASHLEN (hash_pass_hex sha pass (ud_salt data)) =
      take AUTH_HASHLEN (char_array (AUTH_HASHLEN * 2 + 1) (ud_passhash data)))"

section \<open>Accounts\<close>

text \<open>The record of \<open>add_user_internal\<close>. \<open>rnd i\<close> is the \<open>i\<close>-th value of \<open>rand\<close>.\<close>

definition new_salt :: "(nat \<Rightarrow> nat) \<Rightarrow> string" where
  "new_salt rnd = map (\<lambda>i. char_of (65 + rnd i mod 26)) [0..<SALT_LEN]"

definition new_userdata ::
  "(string \<Rightarrow> string) \<Rightarrow> (nat \<Rightarrow> nat) \<Rightarrow> int \<Rightarrow> string \<Rightarrow> string \<Rightarrow> int \<Rightarrow> userdata_t" where
  "new_userdata sha rnd now name pass authlevel =
     \<lparr>ud_username = name, ud_salt = new_salt rnd, ud_passhash = hash_pass_hex sha pass (new_salt rnd),
      ud_priv = authlevel, ud_last_login = now, ud_objects = None, ud_userdata = 0\<rparr>"

definition add_user_internal ::
  "('u, 'm) world_module \<Rightarrow> (string \<Rightarrow> string) \<Rightarrow> (nat \<Rightarrow> nat) \<Rightarrow> int \<Rightarrow> string \<Rightarrow> string \<Rightarrow> int \<Rightarrow>
   ('u, 'm) server_state \<Rightarrow> ('u, 'm) server_state res" where
  "add_user_internal wm sha rnd now name pass authlevel st =
     res_bind (userdb_add wm (new_userdata sha rnd now name pass authlevel) st) (\<lambda>(_, st). Inr st)"

definition auth_user_add ::
  "('u, 'm) world_module \<Rightarrow> (string \<Rightarrow> string) \<Rightarrow> (nat \<Rightarrow> nat) \<Rightarrow> int \<Rightarrow> string \<Rightarrow> string \<Rightarrow> int \<Rightarrow>
   ('u, 'm) server_state \<Rightarrow> (bool \<times> ('u, 'm) server_state) res" where
  "auth_user_add wm sha rnd now user2 pass2 level st =
     (let user = remove_cruft user2; pass = remove_cruft pass2 in
      if \<not> valid_login_name user then Inr (False, st)
      else res_bind (add_user_internal wm sha rnd now user pass level st) (\<lambda>st. Inr (True, st)))"

definition auth_user_del ::
  "('u, 'm) world_module \<Rightarrow> string \<Rightarrow> ('u, 'm) server_state \<Rightarrow> (bool \<times> ('u, 'm) server_state) res" where
  "auth_user_del wm user2 st =
     (let user = remove_cruft user2 in
      if valid_login_name user then userdb_remove wm user st else Inr (False, st))"

text \<open>
  \<open>first_run_setup\<close> on the lines of the terminal: asks for a name until it is a valid one, then
  for the password. When the input ends, the code goes on with a buffer nobody filled.
\<close>

fun first_run_name :: "string list \<Rightarrow> (string \<times> string list) res" where
  "first_run_name [] = Inl Out_Of_Bounds"
| "first_run_name (line # input) =
     (let admin_name = remove_cruft line in
      if valid_login_name admin_name then Inr (admin_name, input) else first_run_name input)"

definition first_run_setup ::
  "('u, 'm) world_module \<Rightarrow> (string \<Rightarrow> string) \<Rightarrow> (nat \<Rightarrow> nat) \<Rightarrow> int \<Rightarrow> string list \<Rightarrow>
   ('u, 'm) server_state \<Rightarrow> ('u, 'm) server_state res" where
  "first_run_setup wm sha rnd now input st =
     res_bind (first_run_name input) (\<lambda>(admin_name, input).
     case input of
       [] \<Rightarrow> Inl Out_Of_Bounds
     | line # _ \<Rightarrow>
         res_bind (auth_user_add wm sha rnd now admin_name (remove_cruft line) PRIV_ADMIN st) (\<lambda>(ok, st).
           if \<not> ok then Inl (Error ''Unknown error'') else Inr st))"

section \<open>Lemmas\<close>

lemma valid_login_loop_iff:
  "valid_login_loop n name \<longleftrightarrow> (name = [] \<or> length name + n \<le> MAX_NAME_LEN) \<and> (\<forall>c\<in>set name. isalpha c \<or> isdigit c)"
  by (induction n name rule: valid_login_loop.induct) (auto simp: Let_def)

lemma valid_login_iff:
  "valid_login_name name \<longleftrightarrow> length name \<le> MAX_NAME_LEN \<and> (\<forall>c\<in>set name. isalpha c \<or> isdigit c)"
  by (auto simp: valid_login_name_def valid_login_loop_iff MAX_NAME_LEN_def)

lemma remove_cruft_clean: "\<forall>c\<in>set s. c \<notin> set crlf \<Longrightarrow> remove_cruft s = s"
  by (induction s) (auto simp: remove_cruft_def)

lemma hex_digit_inj: "m < 16 \<Longrightarrow> n < 16 \<Longrightarrow> hex_digit m = hex_digit n \<Longrightarrow> m = n"
proof -
  have "code (hex_digit k) = (if k < 10 then 48 + k else 87 + k)" if "k < 16" for k
    using that by (simp add: hex_digit_def)
  note c = this
  assume "m < 16" "n < 16" "hex_digit m = hex_digit n"
  then have "(if m < 10 then 48 + m else 87 + m) = (if n < 10 then 48 + n else 87 + n)"
    using c[of m] c[of n] by simp
  then show "m = n" using \<open>m < 16\<close> \<open>n < 16\<close> by (auto split: if_splits)
qed

lemma hex_byte_inj: "hex_byte a = hex_byte b \<Longrightarrow> a = b"
proof -
  assume "hex_byte a = hex_byte b"
  moreover have "code c div 16 < 16" "code c mod 16 < 16" for c using code_less[of c] by (simp_all add: less_mult_imp_div_less del: code_less)
  ultimately have "code a div 16 = code b div 16" "code a mod 16 = code b mod 16"
    using hex_digit_inj by (auto simp: hex_byte_def)
  then have "code a = code b" by (metis div_mult_mod_eq)
  then show "a = b" by simp
qed

lemma hex_length [simp]: "length (concat (map hex_byte bs)) = 2 * length bs"
  by (induction bs) (simp_all add: hex_byte_def)

lemma take_hex: "take (2 * n) (concat (map hex_byte bs)) = concat (map hex_byte (take n bs))"
proof (induction bs arbitrary: n)
  case (Cons b bs)
  then show ?case by (cases n) (simp_all add: hex_byte_def)
qed simp

lemma hex_inj: "concat (map hex_byte as) = concat (map hex_byte bs) \<longleftrightarrow> as = bs"
proof (induction as arbitrary: bs)
  case Nil
  then show ?case by (cases bs) (simp_all add: hex_byte_def)
next
  case (Cons a as)
  show ?case
  proof (cases bs)
    case (Cons b bs')
    have "hex_byte a @ concat (map hex_byte as) = hex_byte b @ concat (map hex_byte bs') \<longleftrightarrow>
        hex_byte a = hex_byte b \<and> concat (map hex_byte as) = concat (map hex_byte bs')"
      by (rule append_eq_append_conv) (simp add: hex_byte_def)
    then show ?thesis using Cons.IH hex_byte_inj[of a b] \<open>bs = b # bs'\<close> by auto
  qed (simp add: hex_byte_def)
qed

lemma hash_pass_hex_eq:
  "hash_pass_hex sha pass salt = concat (map hex_byte (sha (take SALT_LEN (char_array (SALT_LEN + 1) salt) @ pass)))"
  by (simp add: hash_pass_hex_def HASH_ITERS_def)

lemma new_salt_length [simp]: "length (new_salt rnd) = SALT_LEN"
  by (simp add: new_salt_def)

lemma new_salt_array [simp]: "take SALT_LEN (char_array n (new_salt rnd)) = new_salt rnd"
  by (simp add: char_array_def)

text \<open>Only half of the hexadecimal digits are compared.\<close>

lemma password_ok_new:
  assumes "\<forall>x. length (sha x) = AUTH_HASHLEN"
  shows "password_ok sha (new_userdata sha rnd now name pass level) pass' \<longleftrightarrow>
    take (AUTH_HASHLEN div 2) (sha (new_salt rnd @ pass')) = take (AUTH_HASHLEN div 2) (sha (new_salt rnd @ pass))"
proof -
  have half: "take AUTH_HASHLEN (concat (map hex_byte bs)) = concat (map hex_byte (take (AUTH_HASHLEN div 2) bs))" for bs
    using take_hex[of "AUTH_HASHLEN div 2" bs] by (simp add: AUTH_HASHLEN_def)
  have "take AUTH_HASHLEN (char_array (AUTH_HASHLEN * 2 + 1) s) = take AUTH_HASHLEN s" if "length s = 2 * AUTH_HASHLEN" for s
    using that by (simp add: char_array_def)
  then show ?thesis
    by (simp add: password_ok_def new_userdata_def hash_pass_hex_eq assms half hex_inj)
qed

subsection \<open>Adding an account\<close>

lemma auth_user_add_ok:
  assumes "db_ok st" "maps_live st" "\<forall>x. length (sha x) = AUTH_HASHLEN"
  shows "if valid_login_name (remove_cruft user)
    then \<exists>st' ud salt. auth_user_add wm sha rnd now user pass level st = Inr (True, st') \<and> db_ok st' \<and> maps_live st' \<and> sv_world st' = sv_world st \<and> sv_children st' = sv_children st \<and>
        userdb_lookup (remove_cruft user) st' = Some ud \<and> ud_priv ud = level \<and>
        (\<forall>old. userdb_lookup (remove_cruft user) st = Some old \<longrightarrow> ud_objects ud = ud_objects old) \<and>
        password_ok sha ud (remove_cruft pass) \<and>
        (\<forall>other. password_ok sha ud other \<longleftrightarrow> take 32 (sha (salt @ other)) = take 32 (sha (salt @ remove_cruft pass))) \<and>
        (\<forall>name. name \<noteq> remove_cruft user \<longrightarrow> userdb_lookup name st' = userdb_lookup name st)
    else auth_user_add wm sha rnd now user pass level st = Inr (False, st)"
proof (cases "valid_login_name (remove_cruft user)")
  case True
  let ?name = "remove_cruft user" let ?pass = "remove_cruft pass"
  let ?data = "new_userdata sha rnd now ?name ?pass level"
  have name: "ud_username ?data = ?name" by (simp add: new_userdata_def)
  obtain st' where st': "userdb_add wm ?data st = Inr (True, st') \<and> db_ok st' \<and> maps_live st' \<and> sv_world st' = sv_world st \<and> sv_children st' = sv_children st"
    "\<forall>name. name \<noteq> ?name \<longrightarrow> userdb_lookup name st' = userdb_lookup name st"
    and q: "\<exists>q. userdb_lookup ?name st' = Some (?data\<lparr>ud_objects := q\<rparr>) \<and>
      (\<forall>old. userdb_lookup ?name st = Some old \<longrightarrow> q = ud_objects old)"
    using userdb_add_ok[OF assms(1,2), of wm ?data] unfolding name
    by (elim exE conjE) (rule that, blast, blast, cases "userdb_lookup ?name st"; auto)
  obtain q where q: "userdb_lookup ?name st' = Some (?data\<lparr>ud_objects := q\<rparr>)"
    "\<forall>old. userdb_lookup ?name st = Some old \<longrightarrow> q = ud_objects old"
    using q by blast
  have pw: "password_ok sha (?data\<lparr>ud_objects := q\<rparr>) other \<longleftrightarrow>
      take 32 (sha (new_salt rnd @ other)) = take 32 (sha (new_salt rnd @ ?pass))" for other
    using password_ok_new[OF assms(3), where rnd = rnd and now = now and name = ?name and pass = ?pass and level = level and pass' = other] by (simp add: password_ok_def AUTH_HASHLEN_def)
  have "auth_user_add wm sha rnd now user pass level st = Inr (True, st')"
    using conjunct1[OF st'(1)] True by (simp add: auth_user_add_def add_user_internal_def Let_def)
  then show ?thesis
    using True st' q pw by (auto simp: new_userdata_def intro!: exI[of _ "new_salt rnd"])
qed (simp add: auth_user_add_def Let_def)

section \<open>Properties\<close>

text \<open>C31: an account that \<open>auth_user_add\<close> makes can be logged in to: it has the name without the
  line end and the privileges asked for, and \<open>auth_check\<close> accepts the password it was made with.
  It accepts any other password exactly if the first 32 of the 64 bytes of the salted hash are
  the same, because the comparison stops half-way. The inventory of an existing account and every
  other account are kept; a name that is not valid changes nothing.\<close>

theorem auth_user_add_correct:
  assumes "db_ok st" "maps_live st" "\<forall>x. length (sha x) = AUTH_HASHLEN"
  shows "if valid_login_name (remove_cruft user)
    then \<exists>st' ud salt. auth_user_add wm sha rnd now user pass level st = Inr (True, st') \<and> db_ok st' \<and>
        userdb_lookup (remove_cruft user) st' = Some ud \<and> ud_priv ud = level \<and>
        (\<forall>old. userdb_lookup (remove_cruft user) st = Some old \<longrightarrow> ud_objects ud = ud_objects old) \<and>
        password_ok sha ud (remove_cruft pass) \<and>
        (\<forall>other. password_ok sha ud other \<longleftrightarrow> take 32 (sha (salt @ other)) = take 32 (sha (salt @ remove_cruft pass))) \<and>
        (\<forall>name. name \<noteq> remove_cruft user \<longrightarrow> userdb_lookup name st' = userdb_lookup name st)
    else auth_user_add wm sha rnd now user pass level st = Inr (False, st)"
proof (cases "valid_login_name (remove_cruft user)")
  case True
  from auth_user_add_ok[OF assms, of user wm rnd now pass level] show ?thesis
    unfolding if_P[OF True] by (elim exE conjE) (intro exI conjI)
next
  case False
  from auth_user_add_ok[OF assms, of user wm rnd now pass level] show ?thesis
    unfolding if_not_P[OF False] .
qed

text \<open>A stand-in for the hash function, with the right length.\<close>

definition sample_sha :: "string \<Rightarrow> string" where
  "sample_sha x = take 64 (rev x @ replicate 64 (char_of (0::nat)))"

theorem auth_user_add_correct_witness:
  "\<exists>st' ud. auth_user_add sample_module sample_sha (\<lambda>i. i) 0 (''ann'' @ crlf) (''secret'' @ crlf) PRIV_USER sample_db = Inr (True, st') \<and>
     userdb_lookup ''ann'' st' = Some ud \<and> password_ok sample_sha ud ''secret'' \<and> \<not> password_ok sample_sha ud ''Secret''"
proof -
  have cruft: "remove_cruft (''ann'' @ crlf) = ''ann''" "remove_cruft (''secret'' @ crlf) = ''secret''" "valid_login_name ''ann''"
    by (code_simp)+
  have len: "\<forall>x. length (sample_sha x) = AUTH_HASHLEN" by (auto simp: sample_sha_def AUTH_HASHLEN_def min_def)
  obtain st' ud salt where st': "auth_user_add sample_module sample_sha (\<lambda>i. i) 0 (''ann'' @ crlf) (''secret'' @ crlf) PRIV_USER sample_db = Inr (True, st')"
    "userdb_lookup ''ann'' st' = Some ud" "password_ok sample_sha ud ''secret''"
    "\<forall>other. password_ok sample_sha ud other \<longleftrightarrow> take 32 (sample_sha (salt @ other)) = take 32 (sample_sha (salt @ ''secret''))"
    using auth_user_add_correct[OF sample_db_ok(1,2) len, where user = "''ann'' @ crlf" and wm = sample_module and rnd = "\<lambda>i. i"
        and now = 0 and pass = "''secret'' @ crlf" and level = PRIV_USER]
    unfolding cruft(1,2) if_P[OF cruft(3)] by blast
  have "\<not> password_ok sample_sha ud ''Secret''" unfolding st'(4)[rule_format] by (simp add: sample_sha_def)
  then show ?thesis using st'(1-3) by blast
qed

end
