(* ===== verification/Nc_Requests.thy ===== *)
theory Nc_Requests
  imports Nc_Userdb
begin

text \<open>
  The requests of the child processes and their handlers in the master
  (\<open>src/server_reqs.c\<close>). A handler gets the data of the request, the sender and, where the
  request is passed on, one child. \<open>write\<close> on a child's pipe appends one packet to
  \<open>cd_outpipe\<close>; it is retried until it succeeds, and a pipe whose reader is gone still takes
  packets in the model. Requests with a string carry its NUL, as every call of \<open>send_master\<close>
  does: \<open>c_str\<close> of the data is the C string. \<open>sleep\<close> and debug output are dropped. The text
  of \<open>ctime\<close>, which depends on the time zone, is a parameter.
\<close>

section \<open>Request codes\<close>

definition REQ_NOP :: nat where "REQ_NOP = 0"
definition REQ_BCASTMSG :: nat where "REQ_BCASTMSG = 1"
definition REQ_LISTCLIENTS :: nat where "REQ_LISTCLIENTS = 2"
definition REQ_CHANGESTATE :: nat where "REQ_CHANGESTATE = 3"
definition REQ_CHANGEUSER :: nat where "REQ_CHANGEUSER = 4"
definition REQ_KICK :: nat where "REQ_KICK = 6"
definition REQ_WAIT :: nat where "REQ_WAIT = 7"
definition REQ_GETROOMDESC :: nat where "REQ_GETROOMDESC = 8"
definition REQ_SETROOM :: nat where "REQ_SETROOM = 9"
definition REQ_MOVE :: nat where "REQ_MOVE = 10"
definition REQ_GETROOMNAME :: nat where "REQ_GETROOMNAME = 11"
definition REQ_GETUSERDATA :: nat where "REQ_GETUSERDATA = 13"
definition REQ_DELUSERDATA :: nat where "REQ_DELUSERDATA = 14"
definition REQ_ADDUSERDATA :: nat where "REQ_ADDUSERDATA = 15"
definition REQ_PRINTNEWLINE :: nat where "REQ_PRINTNEWLINE = 16"
definition REQ_ALLDONE :: nat where "REQ_ALLDONE = 17"
definition REQ_KICKALL :: nat where "REQ_KICKALL = 18"
definition REQ_LOOKAT :: nat where "REQ_LOOKAT = 19"
definition REQ_TAKE :: nat where "REQ_TAKE = 20"
definition REQ_PRINTINVENTORY :: nat where "REQ_PRINTINVENTORY = 21"
definition REQ_DROP :: nat where "REQ_DROP = 22"
definition REQ_LISTUSERS :: nat where "REQ_LISTUSERS = 23"
definition REQ_EXECVERB :: nat where "REQ_EXECVERB = 24"
definition REQ_RAWMODE :: nat where "REQ_RAWMODE = 25"

lemmas req_codes = REQ_NOP_def REQ_BCASTMSG_def REQ_LISTCLIENTS_def REQ_CHANGESTATE_def REQ_CHANGEUSER_def
  REQ_KICK_def REQ_WAIT_def REQ_GETROOMDESC_def REQ_SETROOM_def REQ_MOVE_def REQ_GETROOMNAME_def
  REQ_GETUSERDATA_def REQ_DELUSERDATA_def REQ_ADDUSERDATA_def REQ_PRINTNEWLINE_def REQ_ALLDONE_def
  REQ_KICKALL_def REQ_LOOKAT_def REQ_TAKE_def REQ_PRINTINVENTORY_def REQ_DROP_def REQ_LISTUSERS_def
  REQ_EXECVERB_def REQ_RAWMODE_def

section \<open>Packets to a child\<close>

definition MSG_MAX :: nat where "MSG_MAX = 4096"

text \<open>The loop that splits a long message: pieces of at most \<open>n\<close> bytes.\<close>

function pieces :: "nat \<Rightarrow> string \<Rightarrow> string list" where
  "pieces n data = (if data = [] \<or> n = 0 then [] else take n data # pieces n (drop n data))"
  by pat_completeness auto
termination
  by (relation "measure (\<lambda>(n, data). length data)") auto

declare pieces.simps [simp del]

definition write_packets :: "user_ptr \<Rightarrow> string list \<Rightarrow> ('u, 'm) server_state \<Rightarrow> ('u, 'm) server_state res" where
  "write_packets c pkts st =
     res_bind (child_get c st) (\<lambda>child. Inr (child_set c (child\<lparr>cd_outpipe := cd_outpipe child @ pkts\<rparr>) st))"

definition send_packet :: "user_ptr \<Rightarrow> nat \<Rightarrow> string \<Rightarrow> ('u, 'm) server_state \<Rightarrow> ('u, 'm) server_state res" where
  "send_packet c cmd data st =
     (if \<not> (length data < MSG_MAX \<or> cmd = REQ_BCASTMSG) then Inl Assert_Failed
      else if cmd = REQ_BCASTMSG \<and> length data + 1 > MSG_MAX
      then write_packets c (map (\<lambda>piece. char_of cmd # piece) (pieces (MSG_MAX - 1) data)) st
      else write_packets c [char_of cmd # data] st)"

definition child_toggle_rawmode :: "user_ptr \<Rightarrow> nat option \<Rightarrow> ('u, 'm) server_state \<Rightarrow> ('u, 'm) server_state res" where
  "child_toggle_rawmode c cb st =
     res_bind (send_packet c REQ_RAWMODE [] st) (\<lambda>st.
     res_bind (child_get c st) (\<lambda>child.
       Inr (child_set c (child\<lparr>cd_raw_mode_cb := (if cd_raw_mode_cb child = None then cb else None)\<rparr>) st)))"

text \<open>\<open>send_msg\<close> with the text already formatted.\<close>

definition send_msg :: "user_ptr \<Rightarrow> string \<Rightarrow> ('u, 'm) server_state \<Rightarrow> ('u, 'm) server_state res" where
  "send_msg c text st = send_packet c REQ_BCASTMSG text st"

section \<open>Handlers\<close>

definition newline :: string where "newline = [char_of (10::nat)]"

subsection \<open>Talking to children\<close>

definition req_pass_msg :: "string \<Rightarrow> user_ptr \<Rightarrow> user_ptr \<Rightarrow> ('u, 'm) server_state \<Rightarrow> ('u, 'm) server_state res" where
  "req_pass_msg data sender c st =
     res_bind (send_packet c REQ_BCASTMSG data st) (\<lambda>st.
     res_bind (child_get c st) (\<lambda>child.
     res_bind (child_get sender st) (\<lambda>from.
       if cd_pid child \<noteq> cd_pid from then send_packet c REQ_ALLDONE [] st else Inr st)))"

definition decimal_int :: "int \<Rightarrow> string" where
  "decimal_int i = (if i < 0 then ''-'' @ decimal (nat (- i)) else decimal (nat i))"

definition state_names :: "string list" where
  "state_names = [''INIT'', ''LOGIN SCREEN'', ''CHECKING CREDENTIALS'', ''LOGGED IN AS USER'',
     ''LOGGED IN AS ADMIN'', ''ACCESS DENIED'']"

text \<open>\<open>char buf[128]\<close>, filled by \<open>snprintf\<close> and \<open>strncat\<close>.\<close>

definition req_send_clientinfo :: "string \<Rightarrow> user_ptr \<Rightarrow> user_ptr \<Rightarrow> ('u, 'm) server_state \<Rightarrow> ('u, 'm) server_state res" where
  "req_send_clientinfo data sender c st =
     res_bind (child_get c st) (\<lambda>child.
     res_bind (child_get sender st) (\<lambda>from.
       if \<not> (0 \<le> cd_state child \<and> nat (cd_state child) < length state_names) then Inl Out_Of_Bounds
       else
         let head = ''Client '' @ cd_addr child @ '' PID '' @ decimal_int (cd_pid child) @ '' ['' @
               state_names ! nat (cd_state child) @ '']'';
             buf = take 127 (case cd_user child of None \<Rightarrow> head | Some user \<Rightarrow> head @ '' USER '' @ user);
             tail = (if cd_pid from = cd_pid child then '' [YOU]'' @ newline else newline);
             buf = buf @ take (128 - length buf - 1) tail in
         send_packet sender REQ_BCASTMSG buf st))"

definition req_send_geninfo :: "string \<Rightarrow> user_ptr \<Rightarrow> ('u, 'm) server_state \<Rightarrow> ('u, 'm) server_state res" where
  "req_send_geninfo data sender st =
     send_msg sender (''Total clients: '' @ decimal_int (sv_num_clients st) @ newline) st"

definition req_change_state :: "string \<Rightarrow> user_ptr \<Rightarrow> user_ptr \<Rightarrow> ('u, 'm) server_state \<Rightarrow> ('u, 'm) server_state res" where
  "req_change_state data sender c st =
     (if length data = 4 then
        res_bind (child_get sender st) (\<lambda>from. Inr (child_set sender (from\<lparr>cd_state := int_val data\<rparr>) st))
      else Inr st)"

definition req_change_user :: "string \<Rightarrow> user_ptr \<Rightarrow> user_ptr \<Rightarrow> ('u, 'm) server_state \<Rightarrow> ('u, 'm) server_state res" where
  "req_change_user data sender c st =
     res_bind (child_get sender st) (\<lambda>from. Inr (child_set sender (from\<lparr>cd_user := Some (c_str data)\<rparr>) st))"

definition req_kick_client :: "string \<Rightarrow> user_ptr \<Rightarrow> user_ptr \<Rightarrow> ('u, 'm) server_state \<Rightarrow> ('u, 'm) server_state res" where
  "req_kick_client data sender c st =
     (if length data \<ge> 4 then
        res_bind (child_get c st) (\<lambda>child.
          if int_val (take 4 data) = cd_pid child then
            res_bind (send_packet c REQ_KICK (drop 4 data) st) (\<lambda>st. send_msg sender (''Success.'' @ newline) st)
          else Inr st)
      else Inr st)"

definition req_kick_always :: "string \<Rightarrow> user_ptr \<Rightarrow> user_ptr \<Rightarrow> ('u, 'm) server_state \<Rightarrow> ('u, 'm) server_state res" where
  "req_kick_always data sender c st = send_packet c REQ_KICK data st"

definition req_wait :: "string \<Rightarrow> user_ptr \<Rightarrow> ('u, 'm) server_state \<Rightarrow> ('u, 'm) server_state res" where
  "req_wait data sender st = Inr st"

subsection \<open>Rooms\<close>

text \<open>The line for one list of \<open>n_objs\<close> objects; nothing when the key is an alias.\<close>

definition describe_list :: "string \<Rightarrow> 'u object_t \<Rightarrow> nat \<Rightarrow> string" where
  "describe_list name obj n_objs =
     (let cat = (\<lambda>buf s. fst (strlcat buf s MSG_MAX)) in
      if strcmp name (obj_name obj) = 0 then
        if n_objs = 1 then
          let article = (if (case name of [] \<Rightarrow> False | ch # _ \<Rightarrow> is_vowel ch) then ''an'' else ''a'');
              buf = cat [] ''There is '';
              buf = (if obj_default_article obj then cat (cat buf article) '' '' else buf) in
          cat (cat buf name) ('' here.'' @ newline)
        else
          cat (cat (cat (cat [] ''There are '') (take 31 (decimal n_objs @ '' ''))) name) (''s here.'' @ newline)
      else [])"

fun send_lists ::
  "user_ptr \<Rightarrow> ((string \<times> obj_ptr) list \<times> nat) list \<Rightarrow> ('u, 'm) server_state \<Rightarrow> ('u, 'm) server_state res" where
  "send_lists c [] st = Inr st"
| "send_lists c (([], n_objs) # ls) st = Inr st"
| "send_lists c (((name, p) # iter, n_objs) # ls) st =
     res_bind (obj_deref p (sv_obj st)) (\<lambda>obj.
     res_bind (if obj_hidden obj then Inr st else send_msg c (describe_list name obj n_objs) st) (\<lambda>st.
       send_lists c ls st))"

definition req_send_desc :: "string \<Rightarrow> user_ptr \<Rightarrow> ('u, 'm) server_state \<Rightarrow> ('u, 'm) server_state res" where
  "req_send_desc data sender st =
     res_bind (child_get sender st) (\<lambda>from.
     res_bind (room_get (cd_room from) st) (\<lambda>room.
     res_bind (send_packet sender REQ_BCASTMSG (rm_desc room) st) (\<lambda>st.
     res_bind (send_packet sender REQ_PRINTNEWLINE [] st) (\<lambda>st.
       send_lists sender (multimap_lists (rm_objects room)) st))))"

definition req_send_roomname :: "string \<Rightarrow> user_ptr \<Rightarrow> ('u, 'm) server_state \<Rightarrow> ('u, 'm) server_state res" where
  "req_send_roomname data sender st =
     res_bind (child_get sender st) (\<lambda>from.
     res_bind (room_get (cd_room from) st) (\<lambda>room.
     res_bind (send_packet sender REQ_BCASTMSG (rm_name room) st) (\<lambda>st.
       send_packet sender REQ_PRINTNEWLINE [] st)))"

definition child_set_room ::
  "('u, 'm) world_module \<Rightarrow> user_ptr \<Rightarrow> room_id \<Rightarrow> ('u, 'm) server_state \<Rightarrow> ('u, 'm) server_state res" where
  "child_set_room wm c rid st =
     res_bind (child_get c st) (\<lambda>child.
     res_bind (room_user_add wm rid c (child_set c (child\<lparr>cd_room := rid\<rparr>) st)) (\<lambda>(_, st). Inr st))"

definition req_set_room ::
  "('u, 'm) world_module \<Rightarrow> string \<Rightarrow> user_ptr \<Rightarrow> ('u, 'm) server_state \<Rightarrow> ('u, 'm) server_state res" where
  "req_set_room wm data sender st = child_set_room wm sender (int_val (take 4 data)) st"

text \<open>A hook that is not there allows the move.\<close>

definition hook_allows ::
  "(room_id \<Rightarrow> user_ptr \<Rightarrow> ('u, 'm) server_state \<Rightarrow> (bool \<times> ('u, 'm) server_state) res) option \<Rightarrow>
   room_id \<Rightarrow> user_ptr \<Rightarrow> ('u, 'm) server_state \<Rightarrow> (bool \<times> ('u, 'm) server_state) res" where
  "hook_allows hook rid c st = (case hook of None \<Rightarrow> Inr (True, st) | Some f \<Rightarrow> f rid c st)"

definition req_move_room ::
  "('u, 'm) world_module \<Rightarrow> string \<Rightarrow> user_ptr \<Rightarrow> ('u, 'm) server_state \<Rightarrow> ('u, 'm) server_state res" where
  "req_move_room wm data sender st =
     (let dir = le_val (take 4 data) in
      res_bind (child_get sender st) (\<lambda>from.
      res_bind (room_get (cd_room from) st) (\<lambda>current.
      res_bind (room_data wm (cd_room from)) (\<lambda>current_data.
      if \<not> dir < length (rm_adjacent current) then Inl Out_Of_Bounds
      else
        let new = rm_adjacent current ! dir in
        res_bind
          (if new = ROOM_NONE then
             res_bind (send_msg sender (''You cannot go that way.'' @ newline) st) (\<lambda>st. Inr (0, st))
           else
             res_bind (room_get new st) (\<lambda>_.
             res_bind (room_data wm new) (\<lambda>new_data.
             res_bind (hook_allows (rd_hook_enter new_data) new sender st) (\<lambda>(enter, st).
             if \<not> enter then Inr (0, st)
             else
               res_bind (child_get sender st) (\<lambda>from.
               res_bind (hook_allows (rd_hook_leave current_data) (cd_room from) sender st) (\<lambda>(leave, st).
               if \<not> leave then Inr (0, st)
               else
                 res_bind (child_get sender st) (\<lambda>from.
                 res_bind (room_user_del wm (cd_room from) sender st) (\<lambda>(_, st).
                 res_bind (child_set_room wm sender new st) (\<lambda>st. Inr (1, st))))))))))
          (\<lambda>(status, st). send_packet sender REQ_MOVE (int_bytes status) st)))))"

subsection \<open>The user database\<close>

definition req_send_user :: "string \<Rightarrow> user_ptr \<Rightarrow> ('u, 'm) server_state \<Rightarrow> ('u, 'm) server_state res" where
  "req_send_user data sender st =
     (if length data \<noteq> 0 then
        (case userdb_lookup (c_str data) st of
           Some user \<Rightarrow> send_packet sender REQ_GETUSERDATA (userdata_bytes user) st
         | None \<Rightarrow> Inr st)
      else Inr st)"

definition bool_byte :: "bool \<Rightarrow> string" where
  "bool_byte b = [char_of (if b then 1 else 0 :: nat)]"

definition req_del_user ::
  "('u, 'm) world_module \<Rightarrow> string \<Rightarrow> user_ptr \<Rightarrow> ('u, 'm) server_state \<Rightarrow> ('u, 'm) server_state res" where
  "req_del_user wm data sender st =
     res_bind (if length data \<noteq> 0 then userdb_remove wm (c_str data) st else Inr (False, st)) (\<lambda>(success, st).
       send_packet sender REQ_DELUSERDATA (bool_byte success) st)"

definition req_add_user ::
  "('u, 'm) world_module \<Rightarrow> string \<Rightarrow> user_ptr \<Rightarrow> ('u, 'm) server_state \<Rightarrow> ('u, 'm) server_state res" where
  "req_add_user wm data sender st =
     res_bind (if length data = USERDATA_SIZE then userdb_add wm (userdata_parse data) st else Inr (False, st)) (\<lambda>(success, st).
       send_packet sender REQ_ADDUSERDATA (bool_byte success) st)"

fun send_users :: "(int \<Rightarrow> string) \<Rightarrow> user_ptr \<Rightarrow> (string \<times> userdata_t) list \<Rightarrow> ('u, 'm) server_state \<Rightarrow> ('u, 'm) server_state res" where
  "send_users ctime c [] st = Inr st"
| "send_users ctime c ((_, user) # users) st =
     res_bind (send_msg c (ud_username user @ '': priv: '' @ decimal_int (ud_priv user) @ '' last: '' @
         ctime (ud_last_login user)) st) (send_users ctime c users)"

definition req_listusers ::
  "(int \<Rightarrow> string) \<Rightarrow> string \<Rightarrow> user_ptr \<Rightarrow> ('u, 'm) server_state \<Rightarrow> ('u, 'm) server_state res" where
  "req_listusers ctime data sender st = send_users ctime sender (hash_iter_loop (sv_db_map st) iter_start) st"

subsection \<open>Objects\<close>

text \<open>The login name of a child; a NULL name or an unknown user is dereferenced by the callers.\<close>

definition sender_name :: "user_ptr \<Rightarrow> ('u, 'm) server_state \<Rightarrow> string res" where
  "sender_name c st =
     res_bind (child_get c st) (\<lambda>child. case cd_user child of None \<Rightarrow> Inl Null_Deref | Some user \<Rightarrow> Inr user)"

definition sender_room :: "user_ptr \<Rightarrow> ('u, 'm) server_state \<Rightarrow> room_id res" where
  "sender_room c st = res_bind (child_get c st) (\<lambda>child. Inr (cd_room child))"

text \<open>Following \<open>obj->class\<close> and \<open>verb->class\<close>: pointers into the arrays of the world module.\<close>

definition obj_class_of ::
  "('u, 'm) world_module \<Rightarrow> obj_ptr \<Rightarrow> ('u, 'm) server_state \<Rightarrow> ('u, ('u, 'm) server_state) obj_class_t res" where
  "obj_class_of wm p st =
     res_bind (obj_deref p (sv_obj st)) (\<lambda>obj.
       if obj_class obj < length (wm_obj_classes wm) then Inr (wm_obj_classes wm ! obj_class obj) else Inl Out_Of_Bounds)"

definition verb_class_of :: "('u, 'm) world_module \<Rightarrow> verb_t \<Rightarrow> ('u, 'm) server_state verb_class_t res" where
  "verb_class_of wm verb =
     (if vb_class verb < length (wm_verb_classes wm) then Inr (wm_verb_classes wm ! vb_class verb) else Inl Out_Of_Bounds)"

definition obj_hook_allows ::
  "(obj_ptr \<Rightarrow> user_ptr \<Rightarrow> ('u, 'm) server_state \<Rightarrow> (bool \<times> ('u, 'm) server_state) res) option \<Rightarrow>
   obj_ptr \<Rightarrow> user_ptr \<Rightarrow> ('u, 'm) server_state \<Rightarrow> (bool \<times> ('u, 'm) server_state) res" where
  "obj_hook_allows hook p c st = (case hook of None \<Rightarrow> Inr (True, st) | Some f \<Rightarrow> f p c st)"

fun print_objlist ::
  "('u, 'm) world_module \<Rightarrow> user_ptr \<Rightarrow> (string \<times> obj_ptr) list \<Rightarrow> nat \<Rightarrow> nat \<Rightarrow> ('u, 'm) server_state \<Rightarrow>
   (nat \<times> ('u, 'm) server_state) res" where
  "print_objlist wm c [] idx n_objs st = Inr (idx, st)"
| "print_objlist wm c ((_, p) # cells) idx n_objs st =
     res_bind (obj_class_of wm p st) (\<lambda>cls.
     case oc_hook_desc cls of
       None \<Rightarrow> Inl Null_Deref
     | Some hook_desc \<Rightarrow>
         res_bind (hook_desc p c st) (\<lambda>(desc, st).
         res_bind (send_msg c (if n_objs > 1 then decimal idx @ '') '' @ desc @ newline else desc @ newline) st) (\<lambda>st.
           print_objlist wm c cells (if n_objs > 1 then Suc idx else idx) n_objs st)))"

text \<open>The list under a key in the map of a user, and in a room.\<close>

definition user_obj_list :: "string \<Rightarrow> string \<Rightarrow> ('u, 'm) server_state \<Rightarrow> ((string \<times> obj_ptr) list \<times> nat) option res" where
  "user_obj_list name key st =
     res_bind (user_map_ptr name st) (\<lambda>q.
       case dh_maps (sv_heap st) q of None \<Rightarrow> Inl Use_After_Free | Some m \<Rightarrow> Inr (multimap_lookup m key))"

definition req_look_at ::
  "('u, 'm) world_module \<Rightarrow> string \<Rightarrow> user_ptr \<Rightarrow> ('u, 'm) server_state \<Rightarrow> ('u, 'm) server_state res" where
  "req_look_at wm data sender st =
     res_bind (sender_room sender st) (\<lambda>rid.
     res_bind (room_obj_get_size rid (c_str data) st) (\<lambda>room_list.
     res_bind (sender_name sender st) (\<lambda>user.
     res_bind (user_obj_list user (c_str data) st) (\<lambda>inv_list.
     let count = (\<lambda>l. case l of None \<Rightarrow> 0 | Some (_, n) \<Rightarrow> n); n_objs = count room_list + count inv_list in
     res_bind
       (case room_list of
          None \<Rightarrow> Inr (1, st)
        | Some (cells, _) \<Rightarrow>
            res_bind (send_msg sender (''In room:'' @ newline) st) (print_objlist wm sender cells 1 n_objs)) (\<lambda>(idx, st).
     res_bind
       (case inv_list of
          None \<Rightarrow> Inr st
        | Some (cells, _) \<Rightarrow>
            res_bind (send_msg sender (''In inventory:'' @ newline) st) (\<lambda>st.
            res_bind (print_objlist wm sender cells idx n_objs st) (\<lambda>(_, st). Inr st))) (\<lambda>st.
       if room_list = None \<and> inv_list = None then send_msg sender (''I don't know what that is.'' @ newline) st
       else Inr st))))))"

text \<open>
  The loop of \<open>req_take\<close> over the cells of one name in the room \<open>rid\<close>. The pointer to the next
  cell is kept across the deletion: going on to a cell that the deletion freed is
  \<open>Use_After_Free\<close>.
\<close>

fun take_cells ::
  "('u, 'm) world_module \<Rightarrow> user_ptr \<Rightarrow> room_id \<Rightarrow> string \<Rightarrow> (string \<times> obj_ptr) list \<Rightarrow>
   ('u, 'm) server_state \<Rightarrow> ('u, 'm) server_state res" where
  "take_cells wm c rid name [] st = Inr st"
| "take_cells wm c rid name (cell # rest) st =
     res_bind (room_get rid st) (\<lambda>room.
     if \<not> om_cell_live name cell (rm_objects room) then Inl Use_After_Free
     else
       let p = snd cell in
       res_bind (obj_class_of wm p st) (\<lambda>cls.
       res_bind (obj_hook_allows (oc_hook_take cls) p c st) (\<lambda>(allowed, st).
       res_bind
         (if \<not> allowed then send_msg c (''You can't take that.'' @ newline) st
          else
            res_bind (sender_name c st) (\<lambda>user.
            res_bind (userdb_add_obj user p st) (\<lambda>(_, st).
            res_bind (sender_room c st) (\<lambda>here.
            res_bind (room_obj_del_by_ptr here p st) (\<lambda>(_, st).
              send_msg c (''Taken.'' @ newline) st))))) (\<lambda>st.
         take_cells wm c rid name rest st))))"

definition req_take ::
  "('u, 'm) world_module \<Rightarrow> string \<Rightarrow> user_ptr \<Rightarrow> ('u, 'm) server_state \<Rightarrow> ('u, 'm) server_state res" where
  "req_take wm data sender st =
     res_bind (sender_room sender st) (\<lambda>rid.
     res_bind (room_obj_get rid (c_str data) st) (\<lambda>found.
       case found of
         None \<Rightarrow> send_msg sender (''I don't know what that is.'' @ newline) st
       | Some cells \<Rightarrow>
           res_bind (take_cells wm sender rid (c_str data) cells st) (server_save_state wm False)))"

fun inventory_lists ::
  "user_ptr \<Rightarrow> ((string \<times> obj_ptr) list \<times> nat) list \<Rightarrow> ('u, 'm) server_state \<Rightarrow> ('u, 'm) server_state res" where
  "inventory_lists c [] st = Inr st"
| "inventory_lists c (([], n_objs) # ls) st = Inr st"
| "inventory_lists c (((name, p) # iter, n_objs) # ls) st =
     res_bind (obj_deref p (sv_obj st)) (\<lambda>obj.
     res_bind
       (if strcmp name (obj_name obj) = 0 then
          res_bind (format_noun MSG_MAX name n_objs (obj_default_article obj) True) (\<lambda>buf.
            send_packet c REQ_BCASTMSG (fst (strlcat buf newline MSG_MAX)) st)
        else Inr st) (\<lambda>st.
       inventory_lists c ls st))"

definition req_inventory :: "string \<Rightarrow> user_ptr \<Rightarrow> ('u, 'm) server_state \<Rightarrow> ('u, 'm) server_state res" where
  "req_inventory data sender st =
     res_bind (sender_name sender st) (\<lambda>user.
     res_bind (user_map_ptr user st) (\<lambda>q.
       case dh_maps (sv_heap st) q of
         None \<Rightarrow> Inl Use_After_Free
       | Some m \<Rightarrow>
           res_bind (send_msg sender (''You currently have:'' @ newline) st) (\<lambda>st.
           res_bind (inventory_lists sender (multimap_lists m) st) (\<lambda>st.
             if multimap_lists m = [] then send_msg sender (''Nothing!'' @ newline) st else Inr st))))"

text \<open>The loop of \<open>req_drop\<close>, over the cells of one name in the map of \<open>user\<close>.\<close>

fun drop_cells ::
  "('u, 'm) world_module \<Rightarrow> user_ptr \<Rightarrow> map_ptr \<Rightarrow> string \<Rightarrow> (string \<times> obj_ptr) list \<Rightarrow>
   ('u, 'm) server_state \<Rightarrow> ('u, 'm) server_state res" where
  "drop_cells wm c q name [] st = Inr st"
| "drop_cells wm c q name (cell # rest) st =
     (case dh_maps (sv_heap st) q of
        None \<Rightarrow> Inl Use_After_Free
      | Some m \<Rightarrow>
          if \<not> om_cell_live name cell m then Inl Use_After_Free
          else
            let p = snd cell in
            res_bind (sender_room c st) (\<lambda>rid.
            res_bind (obj_dup p (sv_obj st)) (\<lambda>(_, os).
            res_bind (room_obj_add rid p (sv_set_obj os st)) (\<lambda>(_, st).
            res_bind (sender_name c st) (\<lambda>user.
            res_bind (userdb_del_obj_by_ptr user p st) (\<lambda>(_, st).
            res_bind (obj_class_of wm p st) (\<lambda>cls.
            res_bind (obj_hook_allows (oc_hook_drop cls) p c st) (\<lambda>(allowed, st).
            res_bind
              (if \<not> allowed then
                 res_bind (send_msg c (''You cannot drop that.'' @ newline) st) (\<lambda>st.
                 res_bind (obj_dup p (sv_obj st)) (\<lambda>(_, os).
                 res_bind (sender_name c (sv_set_obj os st)) (\<lambda>user.
                 res_bind (userdb_add_obj user p (sv_set_obj os st)) (\<lambda>(_, st).
                 res_bind (sender_room c st) (\<lambda>rid.
                 res_bind (room_obj_del_by_ptr rid p st) (\<lambda>(_, st). Inr st))))))
               else send_msg c (''Dropped.'' @ newline) st) (\<lambda>st.
              drop_cells wm c q name rest st)))))))))"

definition req_drop ::
  "('u, 'm) world_module \<Rightarrow> string \<Rightarrow> user_ptr \<Rightarrow> ('u, 'm) server_state \<Rightarrow> ('u, 'm) server_state res" where
  "req_drop wm data sender st =
     res_bind (sender_name sender st) (\<lambda>name.
       case userdb_lookup name st of
         None \<Rightarrow> Inr st
       | Some user \<Rightarrow>
           res_bind (user_map_ptr name st) (\<lambda>q.
           res_bind (user_obj_list name (c_str data) st) (\<lambda>found.
             case found of
               None \<Rightarrow> send_msg sender (''You don't have that.'' @ newline) st
             | Some (cells, _) \<Rightarrow>
                 res_bind (drop_cells wm sender q (c_str data) cells st) (server_save_state wm False))))"

subsection \<open>Verbs\<close>

text \<open>
  In raw mode the data goes to the callback of the world module. Otherwise the first word,
  in lower case, is looked up in the room and then among the global verbs; the rest of the line
  is the argument.
\<close>

definition req_execverb ::
  "('u, 'm) world_module \<Rightarrow> string \<Rightarrow> user_ptr \<Rightarrow> ('u, 'm) server_state \<Rightarrow> ('u, 'm) server_state res" where
  "req_execverb wm data sender st =
     res_bind (child_get sender st) (\<lambda>from.
       case cd_raw_mode_cb from of
         Some cb \<Rightarrow> wm_raw_mode_cb wm cb sender data st
       | None \<Rightarrow>
           (let (tok, save) = strtok_r ('' '' @ [char_of (9::nat)]) (c_str data) in
            case tok of
              None \<Rightarrow> Inl Null_Deref
            | Some tok \<Rightarrow>
                let tok = all_lower tok in
                res_bind (room_verb_map (cd_room from) st) (\<lambda>local_map.
                let exec = (\<lambda>verb st. res_bind (verb_class_of wm verb) (\<lambda>cls.
                      vc_hook_exec cls verb (fst (strtok_r [] save)) sender st)) in
                case hash_lookup local_map tok of
                  Some verb \<Rightarrow> exec verb st
                | None \<Rightarrow>
                    let (global_map, st) = world_verb_map st in
                    (case hash_lookup global_map tok of
                       Some verb \<Rightarrow> exec verb st
                     | None \<Rightarrow> send_msg sender (''I don't know what that means.'' @ newline) st))))"

section \<open>Dispatch\<close>

datatype child_which = CHILD_NONE | CHILD_SENDER | CHILD_ALL_BUT_SENDER | CHILD_ALL

record ('u, 'm) child_request =
  rq_code :: nat
  rq_havedata :: bool
  rq_which :: child_which
  rq_handle_child :: "(string \<Rightarrow> user_ptr \<Rightarrow> user_ptr \<Rightarrow> ('u, 'm) server_state \<Rightarrow> ('u, 'm) server_state res) option"
  rq_finalize :: "(string \<Rightarrow> user_ptr \<Rightarrow> ('u, 'm) server_state \<Rightarrow> ('u, 'm) server_state res) option"

definition request ::
  "nat \<Rightarrow> bool \<Rightarrow> child_which \<Rightarrow>
   (string \<Rightarrow> user_ptr \<Rightarrow> user_ptr \<Rightarrow> ('u, 'm) server_state \<Rightarrow> ('u, 'm) server_state res) option \<Rightarrow>
   (string \<Rightarrow> user_ptr \<Rightarrow> ('u, 'm) server_state \<Rightarrow> ('u, 'm) server_state res) option \<Rightarrow> ('u, 'm) child_request" where
  "request cd havedata which handle_child finalize =
     \<lparr>rq_code = cd, rq_havedata = havedata, rq_which = which, rq_handle_child = handle_child, rq_finalize = finalize\<rparr>"

definition requests :: "('u, 'm) world_module \<Rightarrow> (int \<Rightarrow> string) \<Rightarrow> ('u, 'm) child_request list" where
  "requests wm ctime =
    [request REQ_NOP False CHILD_NONE None None,
     request REQ_BCASTMSG True CHILD_ALL (Some req_pass_msg) None,
     request REQ_CHANGESTATE True CHILD_SENDER (Some req_change_state) None,
     request REQ_CHANGEUSER True CHILD_SENDER (Some req_change_user) None,
     request REQ_KICK True CHILD_ALL (Some req_kick_client) None,
     request REQ_KICKALL True CHILD_ALL_BUT_SENDER (Some req_kick_always) None,
     request REQ_LISTCLIENTS False CHILD_ALL (Some req_send_clientinfo) (Some req_send_geninfo),
     request REQ_SETROOM True CHILD_NONE None (Some (req_set_room wm)),
     request REQ_MOVE True CHILD_NONE None (Some (req_move_room wm)),
     request REQ_GETUSERDATA True CHILD_NONE None (Some req_send_user),
     request REQ_DELUSERDATA True CHILD_NONE None (Some (req_del_user wm)),
     request REQ_ADDUSERDATA True CHILD_NONE None (Some (req_add_user wm)),
     request REQ_LOOKAT True CHILD_NONE None (Some (req_look_at wm)),
     request REQ_TAKE True CHILD_NONE None (Some (req_take wm)),
     request REQ_DROP True CHILD_NONE None (Some (req_drop wm)),
     request REQ_EXECVERB True CHILD_NONE None (Some (req_execverb wm)),
     request REQ_WAIT False CHILD_NONE None (Some req_wait),
     request REQ_GETROOMDESC False CHILD_NONE None (Some req_send_desc),
     request REQ_GETROOMNAME False CHILD_NONE None (Some req_send_roomname),
     request REQ_PRINTINVENTORY False CHILD_NONE None (Some req_inventory),
     request REQ_LISTUSERS False CHILD_NONE None (Some (req_listusers ctime))]"

text \<open>The map from request codes to rows of the table; \<open>uchar_hash\<close> and \<open>uchar_equal\<close> are
  \<open>SIMP_HASH\<close> and \<open>SIMP_EQUAL\<close>.\<close>

definition reqmap_init :: "('u, 'm) child_request list \<Rightarrow> (int, nat, unit) hash_map res" where
  "reqmap_init reqs =
     insert_skipping hash_insert (hash_init (length reqs) simp_hash simp_equal)
       (zip (map (int \<circ> rq_code) reqs) [0..<length reqs])"

text \<open>The loop that passes a request on to every child but the sender.\<close>

fun pass_to_others ::
  "('u, 'm) child_request \<Rightarrow> string \<Rightarrow> user_ptr \<Rightarrow> user_ptr list \<Rightarrow> ('u, 'm) server_state \<Rightarrow> ('u, 'm) server_state res" where
  "pass_to_others req data sender [] st = Inr st"
| "pass_to_others req data sender (c # cs) st =
     res_bind (child_get c st) (\<lambda>child.
     res_bind (child_get sender st) (\<lambda>from.
     res_bind
       (if cd_pid child = cd_pid from then Inr st
        else
          (case rq_which req of
             CHILD_ALL \<Rightarrow> (case rq_handle_child req of None \<Rightarrow> Inl Null_Deref | Some f \<Rightarrow> f data sender c st)
           | CHILD_ALL_BUT_SENDER \<Rightarrow> (case rq_handle_child req of None \<Rightarrow> Inl Null_Deref | Some f \<Rightarrow> f data sender c st)
           | _ \<Rightarrow> Inr st)) (\<lambda>st.
       pass_to_others req data sender cs st)))"

text \<open>The children a request goes to, up to the label \<open>finish\<close>.\<close>

definition run_handle_child ::
  "('u, 'm) child_request \<Rightarrow> string \<Rightarrow> user_ptr \<Rightarrow> ('u, 'm) server_state \<Rightarrow> ('u, 'm) server_state res" where
  "run_handle_child req data sender st =
     (let to_sender = (case rq_handle_child req of None \<Rightarrow> Inl Null_Deref | Some f \<Rightarrow> f data sender sender st);
          children = (\<lambda>st. map snd (hash_iter_loop (sv_child_map st) iter_start)) in
      case rq_which req of
        CHILD_SENDER \<Rightarrow> to_sender
      | CHILD_ALL \<Rightarrow> res_bind to_sender (\<lambda>st. pass_to_others req data sender (children st) st)
      | CHILD_NONE \<Rightarrow> Inr st
      | CHILD_ALL_BUT_SENDER \<Rightarrow> pass_to_others req data sender (children st) st)"

text \<open>
  \<open>handle_child_req\<close> on a packet that was read without an error: sender's pid, command, data.
  A packet too short is a broken pipe.
\<close>

definition handle_child_req ::
  "('u, 'm) world_module \<Rightarrow> (int \<Rightarrow> string) \<Rightarrow> (int, nat, unit) hash_map \<Rightarrow> string \<Rightarrow>
   ('u, 'm) server_state \<Rightarrow> (bool \<times> ('u, 'm) server_state) res" where
  "handle_child_req wm ctime request_map packet st =
     (if length packet < 5 then Inr (False, st)
      else
        case hash_lookup (sv_child_map st) (int_val (take 4 packet)) of
          None \<Rightarrow> Inr (True, st)
        | Some sender \<Rightarrow>
            let cmd = code (packet ! 4); data = drop 5 packet in
            res_bind
              (case hash_lookup request_map (int cmd) of
                 None \<Rightarrow> Inr st
               | Some i \<Rightarrow>
                   let req = requests wm ctime ! i in
                   res_bind (run_handle_child req data sender st) (\<lambda>st.
                     case rq_finalize req of None \<Rightarrow> Inr st | Some f \<Rightarrow> f data sender st)) (\<lambda>st.
            res_bind (send_packet sender REQ_ALLDONE [] st) (\<lambda>st. Inr (True, st))))"

section \<open>Lemmas\<close>

subsection \<open>Packets\<close>

lemma pieces_concat: "0 < n \<Longrightarrow> concat (pieces n data) = data"
proof (induction n data rule: pieces.induct)
  case (1 n data)
  then show ?case by (subst pieces.simps) auto
qed

lemma pieces_length: "piece \<in> set (pieces n data) \<Longrightarrow> 0 < length piece \<and> length piece \<le> n"
proof (induction n data rule: pieces.induct)
  case (1 n data)
  then show ?case by (subst (asm) (2) pieces.simps) (auto split: if_splits)
qed

text \<open>The packets \<open>send_packet\<close> writes.\<close>

definition packets_of :: "nat \<Rightarrow> string \<Rightarrow> string list" where
  "packets_of cmd data =
     (if cmd = REQ_BCASTMSG \<and> length data + 1 > MSG_MAX then map (\<lambda>piece. char_of cmd # piece) (pieces (MSG_MAX - 1) data)
      else [char_of cmd # data])"

lemma send_packet_eq:
  "length data < MSG_MAX \<or> cmd = REQ_BCASTMSG \<Longrightarrow> send_packet c cmd data st = write_packets c (packets_of cmd data) st"
  by (auto simp: send_packet_def packets_of_def)

lemma packets_of_short: "length data < MSG_MAX \<Longrightarrow> packets_of cmd data = [char_of cmd # data]"
  by (simp add: packets_of_def MSG_MAX_def)

lemma write_packets_Inr:
  "sv_children st c = Some child \<Longrightarrow>
   write_packets c pkts st = Inr (child_set c (child\<lparr>cd_outpipe := cd_outpipe child @ pkts\<rparr>) st)"
  by (simp add: write_packets_def child_get_def)

text \<open>The effect of writing on the state: one pipe gets longer.\<close>

definition wrote :: "user_ptr \<Rightarrow> string list \<Rightarrow> ('u, 'm) server_state \<Rightarrow> ('u, 'm) server_state" where
  "wrote c pkts st =
     st\<lparr>sv_children := (\<lambda>d. map_option (\<lambda>child. if d = c then child\<lparr>cd_outpipe := cd_outpipe child @ pkts\<rparr> else child)
          (sv_children st d))\<rparr>"

lemma write_packets_wrote: "sv_children st c \<noteq> None \<Longrightarrow> write_packets c pkts st = Inr (wrote c pkts st)"
proof -
  assume "sv_children st c \<noteq> None"
  then obtain child where child: "sv_children st c = Some child" by blast
  have "(sv_children st)(c \<mapsto> child\<lparr>cd_outpipe := cd_outpipe child @ pkts\<rparr>) = sv_children (wrote c pkts st)"
    using child by (auto simp: wrote_def fun_eq_iff map_option_case split: option.splits)
  then show ?thesis using child by (simp add: write_packets_Inr child_set_def wrote_def)
qed

lemma send_packet_wrote:
  "sv_children st c \<noteq> None \<Longrightarrow> length data < MSG_MAX \<or> cmd = REQ_BCASTMSG \<Longrightarrow>
   send_packet c cmd data st = Inr (wrote c (packets_of cmd data) st)"
  using send_packet_eq[of data cmd c st] write_packets_wrote[of st c "packets_of cmd data"] by metis

lemma wrote_simps [simp]:
  "sv_heap (wrote c pkts st) = sv_heap st" "sv_world (wrote c pkts st) = sv_world st"
  "sv_db_map (wrote c pkts st) = sv_db_map st" "sv_child_map (wrote c pkts st) = sv_child_map st"
  "room_get rid (wrote c pkts st) = room_get rid st" "wrote c [] st = st"
  "sv_children (wrote c pkts st) d =
     map_option (\<lambda>child. if d = c then child\<lparr>cd_outpipe := cd_outpipe child @ pkts\<rparr> else child) (sv_children st d)"
  by (simp_all add: wrote_def room_get_def)
    (cases st; simp add: fun_eq_iff map_option_case option.map_ident split: option.splits)

lemma wrote_wrote: "wrote c ps (wrote c qs st) = wrote c (qs @ ps) st"
  by (simp add: wrote_def fun_eq_iff map_option_case split: option.splits)

subsection \<open>Passing a request on\<close>

text \<open>What a request that only writes to the children it visits does to all of them.\<close>

definition wrote_all :: "(child_data \<Rightarrow> string list) \<Rightarrow> user_ptr set \<Rightarrow> ('u, 'm) server_state \<Rightarrow> ('u, 'm) server_state" where
  "wrote_all P C st =
     st\<lparr>sv_children := (\<lambda>d. map_option (\<lambda>child. if d \<in> C then child\<lparr>cd_outpipe := cd_outpipe child @ P child\<rparr> else child)
          (sv_children st d))\<rparr>"

lemma wrote_all_simps [simp]:
  "sv_heap (wrote_all P C st) = sv_heap st" "sv_world (wrote_all P C st) = sv_world st"
  "sv_db_map (wrote_all P C st) = sv_db_map st" "sv_child_map (wrote_all P C st) = sv_child_map st"
  "sv_children (wrote_all P C st) d =
     map_option (\<lambda>child. if d \<in> C then child\<lparr>cd_outpipe := cd_outpipe child @ P child\<rparr> else child) (sv_children st d)"
  by (simp_all add: wrote_all_def)

lemma wrote_all_empty: "wrote_all P {} st = st"
  by (cases st) (simp add: wrote_all_def fun_eq_iff map_option_case option.map_ident split: option.splits)

lemma wrote_all_insert:
  "sv_children st c = Some child \<Longrightarrow> c \<notin> C \<Longrightarrow> wrote_all P (insert c C) st = wrote_all P C (wrote c (P child) st)"
  by (auto simp: wrote_all_def wrote_def fun_eq_iff map_option_case split: option.splits)

lemma pass_to_others_writes:
  assumes "rq_which req \<in> {CHILD_ALL, CHILD_ALL_BUT_SENDER}" "rq_handle_child req = Some f"
    and f: "\<And>c child st. sv_children st c = Some child \<Longrightarrow> sv_children st sender \<noteq> None \<Longrightarrow> cd_pid child \<noteq> pid \<Longrightarrow>
        map_option cd_pid (sv_children st sender) = Some pid \<Longrightarrow> f data sender c st = Inr (wrote c (P (cd_pid child)) st)"
    and "map_option cd_pid (sv_children st sender) = Some pid" "distinct cs"
    and "\<forall>c\<in>set cs. sv_children st c \<noteq> None"
  shows "pass_to_others req data sender cs st =
    Inr (wrote_all (\<lambda>child. P (cd_pid child)) {c\<in>set cs. \<forall>child. sv_children st c = Some child \<longrightarrow> cd_pid child \<noteq> pid} st)"
  using assms(4-6)
proof (induction cs arbitrary: st)
  case Nil
  then show ?case by (simp add: wrote_all_empty)
next
  case (Cons c cs)
  obtain child snd_c where child: "sv_children st c = Some child" and sender: "sv_children st sender = Some snd_c" "cd_pid snd_c = pid"
    using Cons.prems by auto
  let ?C = "\<lambda>cs st. {c\<in>set cs. \<forall>child. sv_children st c = Some child \<longrightarrow> cd_pid child \<noteq> pid}"
  show ?case
  proof (cases "cd_pid child = pid")
    case True
    have "?C (c # cs) st = ?C cs st" using True child by auto
    moreover have "pass_to_others req data sender cs st = Inr (wrote_all (\<lambda>child. P (cd_pid child)) (?C cs st) st)"
      by (rule Cons.IH) (use Cons.prems in auto)
    ultimately show ?thesis using True child sender by (simp add: child_get_def)
  next
    case False
    let ?st = "wrote c (P (cd_pid child)) st"
    have "f data sender c st = Inr ?st" by (rule f[OF child _ False]) (use sender in simp_all)
    then have step: "pass_to_others req data sender (c # cs) st = pass_to_others req data sender cs ?st"
      using child sender False assms(1,2) by (auto simp: child_get_def)
    have keep: "sv_children ?st d = sv_children st d" if "d \<in> set cs" for d
    proof -
      have "d \<noteq> c" using that Cons.prems(2) by auto
      then show ?thesis by (simp add: option.map_ident)
    qed
    have same: "?C cs ?st = ?C cs st" by (rule Collect_cong) (use keep in metis)
    have "pass_to_others req data sender cs ?st = Inr (wrote_all (\<lambda>child. P (cd_pid child)) (?C cs ?st) ?st)"
      by (rule Cons.IH) (use Cons.prems in \<open>auto simp: map_option_case split: option.splits\<close>)
    moreover have "?C (c # cs) st = insert c (?C cs st)" using child False by auto
    moreover have "c \<notin> ?C cs st" using Cons.prems(2) by simp
    ultimately show ?thesis
      unfolding step same using wrote_all_insert[OF child, of "?C cs st" "\<lambda>child. P (cd_pid child)"] by simp
  qed
qed

text \<open>The child map: every pid maps to the child that has it.\<close>

definition children_ok :: "('u, 'm) server_state \<Rightarrow> bool" where
  "children_ok st \<longleftrightarrow> hash_wf (sv_child_map st) \<and> hm_hash (sv_child_map st) = simp_hash \<and> hm_compare (sv_child_map st) = simp_equal \<and>
     (\<forall>e\<in>set (hash_entries (sv_child_map st)). \<exists>child. sv_children st (snd e) = Some child \<and> cd_pid child = fst e)"

lemma children_ok_lookup:
  assumes "children_ok st"
  shows "hash_lookup (sv_child_map st) pid = Some c \<longleftrightarrow> (pid, c) \<in> set (hash_entries (sv_child_map st))"
    "distinct (map snd (hash_entries (sv_child_map st)))"
    "hash_iter_loop (sv_child_map st) iter_start = hash_entries (sv_child_map st)"
proof -
  have wf: "hash_wf (sv_child_map st)" and c: "hm_compat (sv_child_map st) n" for n
    using assms by (auto simp: children_ok_def exact_key_compat)
  show "hash_lookup (sv_child_map st) pid = Some c \<longleftrightarrow> (pid, c) \<in> set (hash_entries (sv_child_map st))"
    using hash_lookup_iff[OF wf c, of pid c] assms by (auto simp: children_ok_def)
  have "keys_apart simp_equal (hash_entries (sv_child_map st))"
    using hash_wf_entries_apart[OF wf c] assms by (simp add: children_ok_def)
  then have "distinct (map fst (hash_entries (sv_child_map st)))"
    unfolding keys_apart_def distinct_map_fst_sorted_wrt by simp
  moreover have "inj_on snd (set (hash_entries (sv_child_map st)))"
  proof (rule inj_onI)
    fix a b assume "a \<in> set (hash_entries (sv_child_map st))" "b \<in> set (hash_entries (sv_child_map st))" "snd a = snd b"
    then have "Some (fst a) = Some (fst b)"
      using assms unfolding children_ok_def by (metis option.inject)
    then show "a = b" using \<open>snd a = snd b\<close> by (simp add: prod_eq_iff)
  qed
  ultimately show "distinct (map snd (hash_entries (sv_child_map st)))"
    by (simp add: distinct_map)
  show "hash_iter_loop (sv_child_map st) iter_start = hash_entries (sv_child_map st)"
    using wf by (rule hash_iter_loop_entries)
qed

subsection \<open>The request map\<close>

definition reqmap_ok :: "('u, 'm) child_request list \<Rightarrow> (int, nat, unit) hash_map \<Rightarrow> bool" where
  "reqmap_ok reqs m \<longleftrightarrow> hash_lookup m = map_of (zip (map (int \<circ> rq_code) reqs) [0..<length reqs])"

lemma requests_distinct: "distinct (map (int \<circ> rq_code) (requests wm ctime))"
  by (simp add: requests_def request_def req_codes)

lemma reqmap_init_ok: "\<exists>m. reqmap_init reqs = Inr m \<and> reqmap_ok reqs m"
  using int_map.insert_skipping_ok[OF exact_table_init, of "length reqs" "zip (map (int \<circ> rq_code) reqs) [0..<length reqs]"]
  by (auto simp: reqmap_init_def reqmap_ok_def)

lemma reqmap_row:
  assumes "reqmap_ok (requests wm ctime) m" "i < length (requests wm ctime)"
  shows "hash_lookup m (int (rq_code (requests wm ctime ! i))) = Some i"
  using registry_position[OF requests_distinct, of i wm ctime] assms by (simp add: reqmap_ok_def)

lemma reqmap_unknown:
  assumes "reqmap_ok (requests wm ctime) m" "cmd \<notin> rq_code ` set (requests wm ctime)"
  shows "hash_lookup m (int cmd) = None"
proof -
  have "int cmd \<notin> set (map (int \<circ> rq_code) (requests wm ctime))" using assms(2) by auto
  then have "map_of (zip (map (int \<circ> rq_code) (requests wm ctime)) [0..<length (map (int \<circ> rq_code) (requests wm ctime))]) (int cmd) = None"
    by (simp only: registry_None simp_thms)
  then show ?thesis using assms(1) by (simp add: reqmap_ok_def)
qed

text \<open>A packet of a child: pid, command, data.\<close>

definition child_packet :: "int \<Rightarrow> nat \<Rightarrow> string \<Rightarrow> string" where
  "child_packet pid cmd data = int_bytes pid @ char_of cmd # data"

lemma handle_packet:
  assumes "fits_int pid" "cmd < 256" "hash_lookup (sv_child_map st) pid = Some sender"
  shows "handle_child_req wm ctime m (child_packet pid cmd data) st =
     res_bind
       (case hash_lookup m (int cmd) of
          None \<Rightarrow> Inr st
        | Some i \<Rightarrow>
            let req = requests wm ctime ! i in
            res_bind (run_handle_child req data sender st) (\<lambda>st.
              case rq_finalize req of None \<Rightarrow> Inr st | Some f \<Rightarrow> f data sender st)) (\<lambda>st.
     res_bind (send_packet sender REQ_ALLDONE [] st) (\<lambda>st. Inr (True, st)))"
  using assms by (simp add: handle_child_req_def child_packet_def nth_append Let_def)

section \<open>Properties\<close>

text \<open>C36: \<open>send_packet\<close> delivers the data: a message is cut into packets of at most
  \<open>MSG_MAX\<close> bytes that start with the command and whose contents are the message, nothing
  else of the state changes; any other packet that does not fit is a failed assertion.\<close>

theorem send_packet_correct:
  assumes "sv_children st c = Some child"
  shows "(length data < MSG_MAX \<or> cmd = REQ_BCASTMSG \<longrightarrow>
      (\<exists>pkts. send_packet c cmd data st = Inr (st\<lparr>sv_children := (sv_children st)(c \<mapsto> child\<lparr>cd_outpipe := cd_outpipe child @ pkts\<rparr>)\<rparr>) \<and>
         concat (map tl pkts) = data \<and> (\<forall>pkt\<in>set pkts. hd pkt = char_of cmd \<and> 0 < length pkt \<and> length pkt \<le> MSG_MAX))) \<and>
    (MSG_MAX \<le> length data \<longrightarrow> cmd \<noteq> REQ_BCASTMSG \<longrightarrow> send_packet c cmd data st = Inl Assert_Failed)"
proof -
  have tl: "map (tl \<circ> (#) x) ps = ps" for x and ps :: "string list" by (induction ps) simp_all
  have "concat (map tl (packets_of cmd data)) = data \<and>
      (\<forall>pkt\<in>set (packets_of cmd data). hd pkt = char_of cmd \<and> 0 < length pkt \<and> length pkt \<le> MSG_MAX)"
    if "length data < MSG_MAX \<or> cmd = REQ_BCASTMSG"
    using that pieces_concat[of "MSG_MAX - 1" data] pieces_length[of _ "MSG_MAX - 1" data]
    by (auto simp: packets_of_def MSG_MAX_def tl)
  then show ?thesis
    using send_packet_eq[of data cmd c st] write_packets_Inr[OF assms]
    by (auto simp: child_set_def send_packet_def intro!: exI[of _ "packets_of cmd data"])
qed

theorem send_packet_correct_witness:
  "\<exists>pkts st'. send_packet 0 REQ_BCASTMSG (replicate 5000 CHR ''x'') sample_state = Inr st' \<and>
     concat (map tl pkts) = replicate 5000 CHR ''x'' \<and> (\<forall>pkt\<in>set pkts. length pkt \<le> MSG_MAX) \<and>
     sv_children st' 0 = Some (sample_child\<lparr>cd_outpipe := pkts\<rparr>)"
  using send_packet_correct[OF sample_simps(6), of "replicate 5000 CHR ''x''" REQ_BCASTMSG]
  by (auto simp: sample_child_def)

text \<open>The request map sends every code of the table to its row, and no other code
  anywhere: the codes are distinct.\<close>

theorem reqmap_correct:
  "\<exists>m. reqmap_init (requests wm ctime) = Inr m \<and>
     (\<forall>i<length (requests wm ctime). hash_lookup m (int (rq_code (requests wm ctime ! i))) = Some i) \<and>
     (\<forall>cmd. cmd \<notin> rq_code ` set (requests wm ctime) \<longrightarrow> hash_lookup m (int cmd) = None)"
  using reqmap_init_ok[of "requests wm ctime"] reqmap_row reqmap_unknown by blast

theorem reqmap_correct_witness:
  "\<exists>m. reqmap_init (requests sample_module (\<lambda>_. [])) = Inr m \<and> hash_lookup m 10 = Some 8 \<and> hash_lookup m 5 = None"
proof -
  let ?reqs = "requests sample_module (\<lambda>_. [])"
  obtain m where m: "reqmap_init ?reqs = Inr m"
    "\<forall>i<length ?reqs. hash_lookup m (int (rq_code (?reqs ! i))) = Some i"
    "\<forall>cmd. cmd \<notin> rq_code ` set ?reqs \<longrightarrow> hash_lookup m (int cmd) = None"
    using reqmap_correct[of sample_module "\<lambda>_. []"] by blast
  have "8 < length ?reqs" "int (rq_code (?reqs ! 8)) = 10" "5 \<notin> rq_code ` set ?reqs"
    by (simp_all add: requests_def request_def req_codes)
  then show ?thesis using m(1) m(2)[rule_format, of 8] m(3)[rule_format, of 5] by simp
qed

lemma handle_child_req_alldone:
  assumes "fits_int pid" "cmd < 256" "hash_lookup (sv_child_map st) pid = Some sender"
    and run: "handle_child_req wm ctime m (child_packet pid cmd data) st = Inr (b, st')"
  shows "b \<and> (\<exists>child pkts. sv_children st' sender = Some child \<and> cd_outpipe child = pkts @ [[char_of REQ_ALLDONE]])"
proof -
  have "\<exists>child pkts. sv_children st2 sender = Some child \<and> cd_outpipe child = pkts @ [[char_of REQ_ALLDONE]]"
    if "send_packet sender REQ_ALLDONE [] st1 = Inr st2" for st1 st2
    using that by (auto simp: send_packet_def write_packets_def MSG_MAX_def res_bind_eq_Inr req_codes split: if_splits)
  then show ?thesis
    using run unfolding handle_packet[OF assms(1-3)] by (auto simp only: res_bind_eq_Inr sum.inject prod.inject)
qed

text \<open>C1: every request of a known child is answered: whatever the handlers did, the last packet
  the sender gets is \<open>REQ_ALLDONE\<close>, on which the child stops waiting, and the pipe is reported
  healthy. A packet of an unknown process changes nothing, a packet too short is reported as a
  broken pipe, and an unknown command is only acknowledged.\<close>

theorem handle_child_req_answers:
  assumes "fits_int pid" "cmd < 256" "hash_lookup (sv_child_map st) pid = Some sender"
  shows "(handle_child_req wm ctime m (child_packet pid cmd data) st = Inr (b, st') \<longrightarrow>
      b \<and> (\<exists>child pkts. sv_children st' sender = Some child \<and> cd_outpipe child = pkts @ [[char_of REQ_ALLDONE]])) \<and>
    (hash_lookup m (int cmd) = None \<longrightarrow> sv_children st sender \<noteq> None \<longrightarrow>
      handle_child_req wm ctime m (child_packet pid cmd data) st = Inr (True, wrote sender [[char_of REQ_ALLDONE]] st)) \<and>
    (fits_int other \<longrightarrow> hash_lookup (sv_child_map st) other = None \<longrightarrow>
      handle_child_req wm ctime m (child_packet other cmd data) st = Inr (True, st)) \<and>
    (length short < 5 \<longrightarrow> handle_child_req wm ctime m short st = Inr (False, st))"
proof -
  have "b \<and> (\<exists>child pkts. sv_children st' sender = Some child \<and> cd_outpipe child = pkts @ [[char_of REQ_ALLDONE]])"
    if "handle_child_req wm ctime m (child_packet pid cmd data) st = Inr (b, st')"
    using handle_child_req_alldone[OF assms that] .
  moreover have "handle_child_req wm ctime m (child_packet pid cmd data) st = Inr (True, wrote sender [[char_of REQ_ALLDONE]] st)"
    if "hash_lookup m (int cmd) = None" "sv_children st sender \<noteq> None"
    unfolding handle_packet[OF assms] using that send_packet_wrote[OF that(2), of "[]" REQ_ALLDONE]
    by (simp add: packets_of_short MSG_MAX_def)
  moreover have "handle_child_req wm ctime m (child_packet other cmd data) st = Inr (True, st)"
    if "fits_int other" "hash_lookup (sv_child_map st) other = None"
    using that by (simp add: handle_child_req_def child_packet_def)
  moreover have "handle_child_req wm ctime m short st = Inr (False, st)" if "length short < 5"
    using that by (simp add: handle_child_req_def)
  ultimately show ?thesis by blast
qed

text \<open>The sample world with two children, 77 (``ann'') and 78 (``bob'').\<close>

definition sample_server :: "(unit, unit) server_state" where
  "sample_server = sample_db\<lparr>sv_children := [0 \<mapsto> sample_child, 1 \<mapsto> sample_child\<lparr>cd_pid := 78, cd_user := Some ''bob''\<rparr>],
     sv_child_map := (hash_init 16 simp_hash simp_equal)\<lparr>hm_table := (replicate 16 [])[13 := [(77, 0)], 14 := [(78, 1)]],
       hm_n_entries := 2, hm_used_buckets := 2\<rparr>, sv_num_clients := 2\<rparr>"

lemma sample_server_ok: "children_ok sample_server" "hash_entries (sv_child_map sample_server) = [(77, 0), (78, 1)]"
  "hash_lookup (sv_child_map sample_server) 77 = Some 0"
proof -
  let ?m = "(hash_init 16 simp_hash simp_equal)\<lparr>hm_table := (replicate 16 [])[13 := [(77 :: int, 0)], 14 := [(78, 1)]],
       hm_n_entries := 2, hm_used_buckets := 2\<rparr> :: (int, user_ptr, user_ptr \<rightharpoonup> child_data) hash_map"
  have m: "sv_child_map sample_server = ?m" by (simp add: sample_server_def)
  show e: "hash_entries (sv_child_map sample_server) = [(77, 0), (78, 1)]"
    by (simp add: m hash_entries_def numeral_eq_Suc)
  have tab: "?m = \<lparr>hm_hash = simp_hash, hm_compare = simp_equal, hm_table = (replicate 16 [])[13 := [(77, 0)], 14 := [(78, 1)]],
       hm_table_sz = 16, hm_free_key = None, hm_free_data = None, hm_dup_data = None, hm_n_entries = 2, hm_used_buckets = 2\<rparr>"
    by (simp add: hash_init_def)
  have "hash_wf ?m"
    unfolding tab hash_wf_def by (auto simp: nth_list_update hash_index_def simp_hash_def split: if_splits)
  then show ok: "children_ok sample_server"
    unfolding children_ok_def e unfolding m by (simp add: tab sample_server_def sample_child_def)
  show "hash_lookup (sv_child_map sample_server) 77 = Some 0"
    using children_ok_lookup(1)[OF ok, of 77 0] by (simp add: e)
qed

theorem handle_child_req_answers_witness:
  "\<exists>m. handle_child_req sample_module (\<lambda>_. []) m (child_packet 77 5 ''x'') sample_server =
      Inr (True, wrote 0 [[char_of REQ_ALLDONE]] sample_server) \<and> hash_lookup m 8 = Some 17"
proof -
  let ?reqs = "requests sample_module (\<lambda>_. [])"
  obtain m where m: "reqmap_ok ?reqs m" using reqmap_init_ok[of ?reqs] by blast
  have none: "hash_lookup m (int 5) = None"
    by (rule reqmap_unknown[OF m]) (simp add: requests_def request_def req_codes)
  have "hash_lookup m 8 = Some 17"
    using reqmap_row[OF m, of 17] by (simp add: requests_def request_def req_codes)
  moreover have f: "fits_int 77" "(5::nat) < 256" and live: "sv_children sample_server 0 \<noteq> None"
    by (simp_all add: fits_int_def sample_server_def)
  note handle_child_req_answers[OF f sample_server_ok(3), THEN conjunct2, THEN conjunct1, rule_format, OF none live]
  ultimately show ?thesis by blast
qed

text \<open>C32: a message that one child broadcasts reaches every registered child, the sender included,
  exactly once and whole, each followed by \<open>REQ_ALLDONE\<close>; no other part of the state changes.\<close>

theorem broadcast_reaches_everyone:
  assumes "children_ok st" "reqmap_ok (requests wm ctime) m" "fits_int pid" "hash_lookup (sv_child_map st) pid = Some sender"
  shows "handle_child_req wm ctime m (child_packet pid REQ_BCASTMSG data) st =
    Inr (True, wrote_all (\<lambda>_. packets_of REQ_BCASTMSG data @ [[char_of REQ_ALLDONE]]) (snd ` set (hash_entries (sv_child_map st))) st)"
proof -
  let ?pk = "packets_of REQ_BCASTMSG data" let ?ad = "[[char_of REQ_ALLDONE]]" let ?E = "hash_entries (sv_child_map st)"
  let ?st1 = "wrote sender ?pk st"
  note lk = children_ok_lookup[OF assms(1)]
  have reg: "\<exists>child. sv_children st c = Some child \<and> cd_pid child = p" if "(p, c) \<in> set ?E" for p c
    using assms(1) that by (fastforce simp: children_ok_def)
  obtain frm where frm: "sv_children st sender = Some frm" "cd_pid frm = pid"
    using reg lk(1) assms(4) by blast
  have row: "1 < length (requests wm ctime)" "requests wm ctime ! 1 = request REQ_BCASTMSG True CHILD_ALL (Some req_pass_msg) None"
    by (simp_all add: requests_def)
  have code: "hash_lookup m (int REQ_BCASTMSG) = Some 1"
    using reqmap_row[OF assms(2) row(1)] unfolding row(2) by (simp add: request_def)
  have ad: "packets_of REQ_ALLDONE [] = ?ad" by (simp add: packets_of_short MSG_MAX_def)
  have self: "req_pass_msg data sender sender st = Inr ?st1"
    using frm send_packet_wrote[of st sender data REQ_BCASTMSG] by (simp add: req_pass_msg_def child_get_def)
  let ?C = "{c \<in> set (map snd ?E). \<forall>child. sv_children ?st1 c = Some child \<longrightarrow> cd_pid child \<noteq> pid}"
  have live: "\<forall>c\<in>set (map snd ?E). sv_children ?st1 c \<noteq> None" by (auto dest!: reg)
  have others: "pass_to_others (request REQ_BCASTMSG True CHILD_ALL (Some req_pass_msg) None) data sender (map snd ?E) ?st1 =
      Inr (wrote_all (\<lambda>child. (\<lambda>_. ?pk @ ?ad) (cd_pid child)) ?C ?st1)"
  proof (rule pass_to_others_writes[where P = "\<lambda>_. ?pk @ ?ad"])
    fix c child and s :: "('a, 'b) server_state"
    assume a: "sv_children s c = Some child" "sv_children s sender \<noteq> None" "cd_pid child \<noteq> pid"
      "map_option cd_pid (sv_children s sender) = Some pid"
    then show "req_pass_msg data sender c s = Inr (wrote c (?pk @ ?ad) s)"
      using send_packet_wrote[of s c data REQ_BCASTMSG] send_packet_wrote[of "wrote c ?pk s" c "[]" REQ_ALLDONE]
      by (auto simp: req_pass_msg_def child_get_def wrote_wrote ad MSG_MAX_def split: option.splits if_splits)
  qed (use frm lk(2) live in \<open>simp_all add: request_def\<close>)
  have C: "?C = snd ` set ?E - {sender}"
  proof -
    have iff: "(\<forall>child. sv_children ?st1 c = Some child \<longrightarrow> cd_pid child \<noteq> pid) \<longleftrightarrow> c \<noteq> sender" if e: "(p, c) \<in> set ?E" for p c
    proof -
      obtain child where ch: "sv_children st c = Some child" "cd_pid child = p" using reg[OF e] by blast
      then have "(\<forall>child. sv_children ?st1 c = Some child \<longrightarrow> cd_pid child \<noteq> pid) \<longleftrightarrow> p \<noteq> pid" by simp
      moreover have "p = pid \<longleftrightarrow> c = sender" using ch frm e lk(1)[of pid c] assms(4) by auto
      ultimately show ?thesis by blast
    qed
    show ?thesis
      unfolding set_map using iff by (intro set_eqI) (simp only: mem_Collect_eq Diff_iff image_iff singleton_iff, metis prod.collapse)
  qed
  have sender: "sender \<in> snd ` set ?E" using lk(1) assms(4) by force
  have final: "wrote sender ?ad (wrote_all (\<lambda>_. ?pk @ ?ad) (snd ` set ?E - {sender}) ?st1) = wrote_all (\<lambda>_. ?pk @ ?ad) (snd ` set ?E) st"
    using sender by (auto simp: wrote_all_def wrote_def fun_eq_iff map_option_case split: option.splits)
  have "sv_children (wrote_all (\<lambda>_. ?pk @ ?ad) (snd ` set ?E - {sender}) ?st1) sender \<noteq> None" using frm by simp
  note fin = send_packet_wrote[OF this, of "[]" REQ_ALLDONE, unfolded ad final]
  let ?req = "request REQ_BCASTMSG True CHILD_ALL (Some req_pass_msg) None"
  have run: "run_handle_child ?req data sender st = Inr (wrote_all (\<lambda>_. ?pk @ ?ad) (snd ` set ?E - {sender}) ?st1)"
    using self others lk(3) unfolding C by (simp add: run_handle_child_def Let_def request_def)
  have "REQ_BCASTMSG < 256" by (simp add: req_codes)
  note step = handle_packet[OF assms(3) this assms(4), of wm ctime m data]
  show ?thesis
    unfolding step code option.case Let_def row(2) run res_bind_simps by (simp add: request_def fin MSG_MAX_def)
qed

theorem broadcast_reaches_everyone_witness:
  "\<exists>m st'. handle_child_req sample_module (\<lambda>_. []) m (child_packet 77 REQ_BCASTMSG ''hi'') sample_server = Inr (True, st') \<and>
     map_option cd_outpipe (sv_children st' 1) = Some [[char_of REQ_BCASTMSG, CHR ''h'', CHR ''i''], [char_of REQ_ALLDONE]]"
proof -
  let ?reqs = "requests sample_module (\<lambda>_. [])"
  obtain m where m: "reqmap_ok ?reqs m" using reqmap_init_ok[of ?reqs] by blast
  have f: "fits_int 77" by (simp add: fits_int_def)
  have "sv_children sample_server 1 = Some (sample_child\<lparr>cd_pid := 78, cd_user := Some ''bob''\<rparr>)"
    by (simp add: sample_server_def)
  then have "map_option cd_outpipe (sv_children (wrote_all (\<lambda>_. packets_of REQ_BCASTMSG ''hi'' @ [[char_of REQ_ALLDONE]])
      (snd ` set (hash_entries (sv_child_map sample_server))) sample_server) 1) =
      Some [[char_of REQ_BCASTMSG, CHR ''h'', CHR ''i''], [char_of REQ_ALLDONE]]"
    by (simp add: sample_server_ok(2) packets_of_short MSG_MAX_def sample_child_def)
  then show ?thesis
    using broadcast_reaches_everyone[OF sample_server_ok(1) m f sample_server_ok(3), of "''hi''"] by blast
qed

end
