(* ===== verification/Nc_Telnet.thy ===== *)
theory Nc_Telnet
  imports Nc_Requests
begin

text \<open>
  The telnet protocol on the connection of a client (\<open>src/telnet.c\<close>): the parser that looks
  for commands in what the client sends, and the sequences the server sends. The codes are
  those of \<open>arpa/telnet.h\<close>.
\<close>

section \<open>Codes\<close>

definition IAC :: nat where "IAC = 255"
definition DONT :: nat where "DONT = 254"
definition DO :: nat where "DO = 253"
definition WONT :: nat where "WONT = 252"
definition WILL :: nat where "WILL = 251"
definition SB :: nat where "SB = 250"
definition IP :: nat where "IP = 244"
definition TELOPT_ECHO :: nat where "TELOPT_ECHO = 1"
definition TELOPT_SGA :: nat where "TELOPT_SGA = 3"
definition TELOPT_STATUS :: nat where "TELOPT_STATUS = 5"
definition TELOPT_NAWS :: nat where "TELOPT_NAWS = 31"
definition TELOPT_LINEMODE :: nat where "TELOPT_LINEMODE = 34"

lemmas telnet_codes = IAC_def DONT_def DO_def WONT_def WILL_def SB_def IP_def TELOPT_ECHO_def
  TELOPT_SGA_def TELOPT_STATUS_def TELOPT_NAWS_def TELOPT_LINEMODE_def

text \<open>The commands are the codes from \<open>xEOF\<close>, which is 236, to \<open>IAC\<close>.\<close>

definition TELCMD_OK :: "nat \<Rightarrow> bool" where
  "TELCMD_OK x \<longleftrightarrow> x \<le> IAC \<and> 236 \<le> x"

datatype telnet_status = TELNET_DATA | TELNET_FOUNDCMD | TELNET_LINEOVER | TELNET_EXIT

type_synonym term_size = "16 word \<times> 16 word"

section \<open>The parser\<close>

text \<open>
  The window size inside a subnegotiation: \<open>n\<close> bytes of the \<open>s\<close> after the current one, where
  a byte 255 is followed by another that is skipped. The result is the bytes, what the loop
  went over, and the rest.
\<close>

fun naws_bytes :: "nat \<Rightarrow> string \<Rightarrow> (string \<times> string \<times> string) res" where
  "naws_bytes 0 s = Inr ([], [], s)"
| "naws_bytes (Suc n) [] = Inl Out_Of_Bounds"
| "naws_bytes (Suc n) (b # s) =
     (if code b = 255 then
        (case s of
           [] \<Rightarrow> if n = 0 then Inr ([b], [b], []) else Inl (Error ''client SB NAWS command to short'')
         | d # s \<Rightarrow> res_bind (naws_bytes n s) (\<lambda>(bytes, skipped, rest). Inr (b # bytes, b # d # skipped, rest)))
      else res_bind (naws_bytes n s) (\<lambda>(bytes, skipped, rest). Inr (b # bytes, b # skipped, rest)))"

text \<open>\<open>ntohs\<close> of two of the bytes.\<close>

definition be16 :: "string \<Rightarrow> 16 word" where
  "be16 bytes = of_nat (code (bytes ! 0) * 256 + code (bytes ! 1))"

lemma naws_bytes_rest: "naws_bytes n s = Inr (bytes, skipped, rest) \<Longrightarrow> s = skipped @ rest \<and> length bytes = n"
  by (induction n s arbitrary: bytes skipped rest rule: naws_bytes.induct)
    (auto simp: res_bind_eq_Inr split: if_splits list.splits)

text \<open>
  The loop of \<open>telnet_parse_data\<close> with its four flags. It changes the buffer in place, so the
  contents are part of the result.
\<close>

function telnet_loop ::
  "bool \<Rightarrow> bool \<Rightarrow> bool \<Rightarrow> bool \<Rightarrow> term_size \<Rightarrow> string \<Rightarrow> (telnet_status \<times> string \<times> term_size) res" where
  "telnet_loop iac found_cmd in_sb line_done sz [] =
     Inr (if found_cmd then TELNET_FOUNDCMD else if line_done then TELNET_LINEOVER else TELNET_DATA, [], sz)"
| "telnet_loop iac found_cmd in_sb line_done sz (b # buf) =
     (let c = code b;
          iac = (if c = IAC then True else iac);
          line_done = (if c \<noteq> IAC \<and> (c = 10 \<or> c = 13) then True else line_done);
          b = (if c = 0 then CHR '' '' else b) in
      if iac \<and> TELCMD_OK c then
        if c = IP then Inr (TELNET_EXIT, b # buf, sz)
        else if c = SB then
          res_bind (telnet_loop iac True True line_done sz buf) (\<lambda>(ret, buf, sz). Inr (ret, b # buf, sz))
        else if c = TELOPT_NAWS \<and> in_sb then
          (case naws_bytes 4 buf of
             Inl e \<Rightarrow> Inl e
           | Inr (bytes, skipped, buf) \<Rightarrow>
               res_bind (telnet_loop iac True in_sb line_done (be16 (take 2 bytes), be16 (drop 2 bytes)) buf) (\<lambda>(ret, buf, sz).
                 Inr (ret, b # skipped @ buf, sz)))
        else res_bind (telnet_loop iac True in_sb line_done sz buf) (\<lambda>(ret, buf, sz). Inr (ret, b # buf, sz))
      else res_bind (telnet_loop iac found_cmd in_sb line_done sz buf) (\<lambda>(ret, buf, sz). Inr (ret, b # buf, sz)))"
  by pat_completeness auto
termination
  by (relation "measure (\<lambda>(_, _, _, _, _, buf). length buf)") (auto dest!: naws_bytes_rest)

definition telnet_parse_data :: "term_size \<Rightarrow> string \<Rightarrow> (telnet_status \<times> string \<times> term_size) res" where
  "telnet_parse_data sz buf = telnet_loop False False False False sz buf"

section \<open>What the server sends\<close>

abbreviation bytes_of :: "nat list \<Rightarrow> string" where "bytes_of \<equiv> map char_of"

definition telnet_echo_off_seq :: string where
  "telnet_echo_off_seq = bytes_of [IAC, WILL, TELOPT_ECHO, IAC, DONT, TELOPT_ECHO]"

definition telnet_echo_on_seq :: string where
  "telnet_echo_on_seq = bytes_of [IAC, WONT, TELOPT_ECHO, IAC, DO, TELOPT_ECHO]"

definition telnet_init_seq :: string where
  "telnet_init_seq = bytes_of
     [IAC, WONT, TELOPT_SGA, IAC, DONT, TELOPT_SGA, IAC, DO, TELOPT_NAWS, IAC, WONT, TELOPT_STATUS,
      IAC, DONT, TELOPT_STATUS, IAC, DO, TELOPT_ECHO, IAC, DONT, TELOPT_LINEMODE]"

definition telnet_init_size :: term_size where
  "telnet_init_size = (80, 24)"

definition telnet_clear_seq :: string where
  "telnet_clear_seq = bytes_of [27] @ '']2J''"

section \<open>Lemmas\<close>

lemma TELCMD_NAWS: "TELCMD_OK c \<Longrightarrow> c \<noteq> TELOPT_NAWS"
  by (auto simp: TELCMD_OK_def telnet_codes)

definition blank_nul :: "char \<Rightarrow> char" where
  "blank_nul b = (if code b = 0 then CHR '' '' else b)"

text \<open>The commands that the parser notices: those after the first \<open>IAC\<close>, itself included.\<close>

definition telnet_cmds :: "bool \<Rightarrow> string \<Rightarrow> nat list" where
  "telnet_cmds iac buf = filter TELCMD_OK (map code (if iac then buf else dropWhile (\<lambda>b. code b \<noteq> IAC) buf))"

lemma telnet_cmds_Cons:
  "telnet_cmds iac (b # buf) =
     (let iac = iac \<or> code b = IAC in (if iac \<and> TELCMD_OK (code b) then [code b] else []) @ telnet_cmds iac buf)"
  by (simp add: telnet_cmds_def Let_def)

lemma in_crlf: "b \<in> set crlf \<longleftrightarrow> code b = 13 \<or> code b = 10"
  by (auto simp: crlf_def simp flip: code_eq_iff)

lemma telnet_loop_command:
  assumes "iac \<or> code b = IAC" "TELCMD_OK (code b)"
  shows "telnet_loop iac found_cmd in_sb line_done sz (b # buf) =
    (if code b = IP then Inr (TELNET_EXIT, b # buf, sz)
     else res_bind (telnet_loop True True (in_sb \<or> code b = SB) line_done sz buf) (\<lambda>(ret, buf, sz). Inr (ret, b # buf, sz)))"
proof -
  have "code b \<noteq> 0" "code b \<noteq> 10" "code b \<noteq> 13" "code b \<noteq> TELOPT_NAWS"
    using assms(2) by (simp_all add: TELCMD_OK_def telnet_codes)
  moreover have "(if code b = IAC then True else iac) = True" using assms(1) by auto
  ultimately show ?thesis using assms(2) by (simp only: telnet_loop.simps Let_def) simp
qed

lemma telnet_loop_text:
  assumes "\<not> ((iac \<or> code b = IAC) \<and> TELCMD_OK (code b))"
  shows "telnet_loop iac found_cmd in_sb line_done sz (b # buf) =
    res_bind (telnet_loop iac found_cmd in_sb (line_done \<or> b \<in> set crlf) sz buf) (\<lambda>(ret, buf, sz). Inr (ret, blank_nul b # buf, sz))"
proof -
  have n: "\<not> (iac \<and> TELCMD_OK (code b))" "(if code b = IAC then True else iac) = iac"
    "(if code b \<noteq> IAC \<and> (code b = 10 \<or> code b = 13) then True else line_done) = (line_done \<or> b \<in> set crlf)"
    using assms by (auto simp: TELCMD_OK_def telnet_codes in_crlf)
  show ?thesis
    by (simp only: telnet_loop.simps Let_def n(2,3) if_not_P[OF n(1)] blank_nul_def)
qed

text \<open>The branch for the window size is dead, and nothing else fails.\<close>

lemma telnet_loop_cases:
  "\<exists>ret buf'. telnet_loop iac found_cmd in_sb line_done sz buf = Inr (ret, buf', sz) \<and> length buf' = length buf \<and>
     (ret = TELNET_EXIT \<longleftrightarrow> IP \<in> set (telnet_cmds iac buf)) \<and>
     (ret \<noteq> TELNET_EXIT \<longrightarrow> buf' = map blank_nul buf \<and>
        ret = (if found_cmd \<or> telnet_cmds iac buf \<noteq> [] then TELNET_FOUNDCMD
               else if line_done \<or> set buf \<inter> set crlf \<noteq> {} then TELNET_LINEOVER else TELNET_DATA))"
proof (induction buf arbitrary: iac found_cmd in_sb line_done)
  case Nil
  then show ?case by (simp add: telnet_cmds_def)
next
  case (Cons b buf)
  show ?case
  proof (cases "(iac \<or> code b = IAC) \<and> TELCMD_OK (code b)")
    case True
    obtain ret buf' where r: "telnet_loop True True (in_sb \<or> code b = SB) line_done sz buf = Inr (ret, buf', sz)"
      "length buf' = length buf" "ret = TELNET_EXIT \<longleftrightarrow> IP \<in> set (telnet_cmds True buf)"
      "ret \<noteq> TELNET_EXIT \<longrightarrow> buf' = map blank_nul buf \<and> ret = TELNET_FOUNDCMD"
      using Cons.IH[of True True "in_sb \<or> code b = SB" line_done] by auto
    have "code b \<noteq> 0" using True by (auto simp: TELCMD_OK_def)
    then show ?thesis
      using True r telnet_loop_command[of iac b found_cmd in_sb line_done sz buf] by (auto simp: telnet_cmds_Cons Let_def blank_nul_def)
  next
    case False
    let ?done = "line_done \<or> b \<in> set crlf"
    obtain ret buf' where r: "telnet_loop (iac \<or> code b = IAC) found_cmd in_sb ?done sz buf = Inr (ret, buf', sz)"
      "length buf' = length buf" "ret = TELNET_EXIT \<longleftrightarrow> IP \<in> set (telnet_cmds (iac \<or> code b = IAC) buf)"
      "ret \<noteq> TELNET_EXIT \<longrightarrow> buf' = map blank_nul buf \<and>
        ret = (if found_cmd \<or> telnet_cmds (iac \<or> code b = IAC) buf \<noteq> [] then TELNET_FOUNDCMD
               else if ?done \<or> set buf \<inter> set crlf \<noteq> {} then TELNET_LINEOVER else TELNET_DATA)"
      using Cons.IH[of "iac \<or> code b = IAC" found_cmd in_sb ?done] by blast
    have "code b \<noteq> IAC" using False by (auto simp: TELCMD_OK_def telnet_codes)
    then show ?thesis
      using False r telnet_loop_text[OF False, of found_cmd in_sb line_done sz buf] by (auto simp: telnet_cmds_Cons Let_def)
  qed
qed

lemma telnet_parse_data_total:
  "\<exists>status buf'. telnet_parse_data sz buf = Inr (status, buf', sz) \<and> length buf' = length buf"
  using telnet_loop_cases[of False False False False sz buf] unfolding telnet_parse_data_def by blast

lemma telnet_parse_data_size: "telnet_parse_data sz buf = Inr (status, buf', sz') \<Longrightarrow> sz' = sz \<and> length buf' = length buf"
  using telnet_parse_data_total[of sz buf] by auto

text \<open>Text without commands.\<close>

lemma telnet_plain:
  assumes "\<forall>c\<in>set buf. code c \<noteq> IAC \<and> code c \<noteq> 0"
  shows "telnet_parse_data sz buf = Inr (if set buf \<inter> set crlf \<noteq> {} then TELNET_LINEOVER else TELNET_DATA, buf, sz)"
proof -
  have d: "dropWhile (\<lambda>b. code b \<noteq> IAC) buf = []" using assms by (simp only: dropWhile_eq_Nil_conv) blast
  have "telnet_cmds False buf = []" unfolding telnet_cmds_def if_False d by simp
  moreover have "map blank_nul buf = buf" using assms by (intro map_idI) (auto simp: blank_nul_def)
  ultimately show ?thesis
    using telnet_loop_cases[of False False False False sz buf] unfolding telnet_parse_data_def by fastforce
qed

text \<open>C30: the telnet parser never fails, keeps the length of the data and never changes the sz
  of the terminal: the branch for a window size is unreachable, since its code is no command.
  Whenever an interrupt follows an \<open>IAC\<close> the client leaves; otherwise NULs become spaces, and the
  data counts as a command if there is one, else as a finished line if it has a line end.\<close>

theorem telnet_parse_data_correct:
  "\<exists>ret buf'. telnet_parse_data sz buf = Inr (ret, buf', sz) \<and> length buf' = length buf \<and>
     (ret = TELNET_EXIT \<longleftrightarrow> IP \<in> set (telnet_cmds False buf)) \<and>
     (ret \<noteq> TELNET_EXIT \<longrightarrow> buf' = map blank_nul buf \<and>
        ret = (if telnet_cmds False buf \<noteq> [] then TELNET_FOUNDCMD
               else if set buf \<inter> set crlf \<noteq> {} then TELNET_LINEOVER else TELNET_DATA))"
  using telnet_loop_cases[of False False False False sz buf] unfolding telnet_parse_data_def by (simp only: simp_thms)

lemma blank_char: "blank_nul (char_of (n::nat)) = char_of (if n mod 256 = 0 then 32 else n)"
proof -
  have "code (CHR '' '') = 32" by (simp add: code_def)
  then have "CHR '' '' = char_of (32::nat)" by (simp flip: code_eq_iff)
  then show ?thesis by (simp add: blank_nul_def)
qed

theorem telnet_parse_data_correct_witness:
  "telnet_parse_data (80, 24) (''go'' @ crlf) = Inr (TELNET_LINEOVER, ''go'' @ crlf, 80, 24) \<and>
   telnet_parse_data (80, 24) (map char_of [IAC, SB, TELOPT_NAWS, 0, 132, 0, 43, IAC, 240]) =
     Inr (TELNET_FOUNDCMD, map char_of [IAC, SB, TELOPT_NAWS, 32, 132, 32, 43, IAC, 240], 80, 24)"
proof -
  have e: "telnet_cmds False (''go'' @ crlf) = []" "set (''go'' @ crlf) \<inter> set crlf \<noteq> {}"
    "map blank_nul (''go'' @ crlf) = ''go'' @ crlf"
    by (simp_all add: telnet_cmds_def crlf_def code_def IAC_def blank_nul_def)
  let ?naws = "map char_of [IAC, SB, TELOPT_NAWS, 0, 132, 0, 43, IAC, 240]"
  have n: "telnet_cmds False ?naws \<noteq> []" "IP \<notin> set (telnet_cmds False ?naws)"
    "map blank_nul ?naws = map char_of [IAC, SB, TELOPT_NAWS, 32, 132, 32, 43, IAC, 240]"
    by (simp_all add: telnet_cmds_def telnet_codes TELCMD_OK_def blank_char)
  show ?thesis
    using telnet_parse_data_correct[of "(80, 24)" "''go'' @ crlf"] telnet_parse_data_correct[of "(80, 24)" ?naws] e n
    by auto
qed

end
