(* ===== verification/Nc_Child.thy ===== *)
theory Nc_Child
  imports Nc_Auth Nc_Telnet
begin

text \<open>
  The state of the process that serves one client, the form of its operations, and its output
  (\<open>out_raw\<close> and \<open>out\<close> of \<open>src/client.c\<close>).

  Around the child there are the master, the terminal of the player, and the clock. The master
  is a function that serves a packet: it yields the packets it then writes to the pipe of the
  child, an empty one standing for the end of the pipe when the master has died. What happens
  while the child waits for the player is a list of events: packets from the master, or bytes
  from the terminal.
\<close>

section \<open>State\<close>

datatype reqdata = TYPE_NONE | TYPE_USERDATA userdata_t | TYPE_BOOLEAN bool

datatype event = From_Master "string list" | From_Client string

record 'w client_state =
  cl_pid :: int
  cl_term :: term_size
  cl_written :: string
  cl_pos :: nat
  cl_is_admin :: bool
  cl_room :: int
  cl_user :: "string option"
  cl_rawmode :: bool
  cl_reqdata :: reqdata
  cl_ts :: int
  cl_reqs_since_ts :: nat
  cl_inbox :: "string list"
  cl_sent :: "string list"
  cl_master :: 'w
  cl_events :: "event list"
  cl_times :: nat
  cl_rands :: nat

text \<open>
  The environment: the master, the values of the successive calls of \<open>time\<close> and \<open>rand\<close>, and
  the library functions that are parameters.
\<close>

record 'w client_env =
  ce_serve :: "string \<Rightarrow> 'w \<Rightarrow> string list \<times> 'w"
  ce_time :: "nat \<Rightarrow> int"
  ce_rand :: "nat \<Rightarrow> nat"
  ce_sha :: "string \<Rightarrow> string"
  ce_ctime :: "int \<Rightarrow> string"

text \<open>Why a run stops: the process ends or is killed, or it waits for ever.\<close>

datatype stop = Crash crash | Waits_Master | Waits_Client | Never_Returns

type_synonym ('a, 'w) run = "'w client_state \<Rightarrow> (stop + 'a) \<times> 'w client_state"

definition ret :: "'a \<Rightarrow> ('a, 'w) run" where
  "ret x st = (Inr x, st)"

definition halt :: "stop \<Rightarrow> ('a, 'w) run" where
  "halt e st = (Inl e, st)"

definition get :: "('w client_state \<Rightarrow> 'a) \<Rightarrow> ('a, 'w) run" where
  "get f st = (Inr (f st), st)"

definition upd :: "('w client_state \<Rightarrow> 'w client_state) \<Rightarrow> (unit, 'w) run" where
  "upd f st = (Inr (), f st)"

definition andthen :: "('a, 'w) run \<Rightarrow> ('a \<Rightarrow> ('b, 'w) run) \<Rightarrow> ('b, 'w) run" where
  "andthen m f st = (case m st of (Inl e, st') \<Rightarrow> (Inl e, st') | (Inr x, st') \<Rightarrow> f x st')"

definition from_res :: "'a res \<Rightarrow> ('a, 'w) run" where
  "from_res r = (case r of Inl e \<Rightarrow> halt (Crash e) | Inr x \<Rightarrow> ret x)"

lemmas run_defs = ret_def halt_def get_def upd_def andthen_def from_res_def

lemma andthen_cases: "(\<exists>e st1. m st = (Inl e, st1) \<and> andthen m f st = (Inl e, st1)) \<or>
  (\<exists>x st1. m st = (Inr x, st1) \<and> andthen m f st = f x st1)"
  by (cases "m st"; cases "fst (m st)") (simp_all add: andthen_def)

lemma andthen_simps [simp]:
  "andthen (ret x) f = f x" "andthen (halt e) f = halt e" "andthen (get g) f st = f (g st) st"
  "andthen (upd h) k st = k () (h st)" "m st = (Inr x, st') \<Longrightarrow> andthen m f st = f x st'"
  "m st = (Inl e, st') \<Longrightarrow> andthen m f st = (Inl e, st')"
  by (simp_all add: run_defs fun_eq_iff)

lemma andthen_Inr: "andthen m f st = (Inr y, st') \<longleftrightarrow> (\<exists>x st1. m st = (Inr x, st1) \<and> f x st1 = (Inr y, st'))"
  by (auto simp: andthen_def split: prod.splits sum.splits)

lemma andthen_assoc: "andthen (andthen m f) g = andthen m (\<lambda>x. andthen (f x) g)"
  by (auto simp: andthen_def fun_eq_iff split: prod.splits sum.splits)

lemma run_simps [simp]:
  "ret x st = (Inr x, st)" "halt e st = (Inl e, st)" "get f st = (Inr (f st), st)" "upd h st = (Inr (), h st)"
  by (simp_all add: run_defs)

section \<open>Output\<close>

text \<open>\<open>out_raw\<close>; the lock only matters to a signal handler, and the child has none.\<close>

definition out_raw :: "string \<Rightarrow> (unit, 'w) run" where
  "out_raw buf = (if buf = [] then ret () else upd (\<lambda>st. st\<lparr>cl_written := cl_written st @ buf\<rparr>))"

text \<open>
  The wrapping loop of \<open>out\<close>: \<open>ptr\<close> is the rest of the buffer of 1024 bytes, its zeros
  included, \<open>pos\<close> the static index, \<open>written\<close> what has gone to the terminal. A line is built in
  a buffer of \<open>line_width + 2\<close> bytes. The result has the rest of the text and the new \<open>pos\<close>; a
  loop that never ends has none.
\<close>

definition NUL :: char where "NUL = char_of (0::nat)"
definition LF :: char where "LF = char_of (10::nat)"

partial_function (option) out_loop ::
  "16 word \<Rightarrow> string \<Rightarrow> nat \<Rightarrow> nat \<Rightarrow> string \<Rightarrow> ((string \<times> string \<times> nat) res) option" where
  "out_loop line_width ptr pos last_space written =
     (if \<not> pos < length ptr then Some (Inl Out_Of_Bounds)
      else if ptr ! pos = NUL then Some (Inr (written, ptr, pos))
      else
        let is_newline = (ptr ! pos = LF) in
        if is_newline \<or> int pos \<ge> uint line_width - 1 then
          let last_space = (if is_newline \<or> last_space = 0 then pos else last_space);
              line = takeWhile (\<lambda>c. c \<noteq> NUL) (take last_space ptr);
              ptr = drop (length line) ptr;
              ptr = (if is_newline then tl ptr else ptr);
              ptr = dropWhile (\<lambda>c. c = CHR '' '') ptr in
          if length line + 2 > unat line_width + 2 then Some (Inl Out_Of_Bounds)
          else out_loop line_width ptr 0 0 (written @ line @ crlf)
        else out_loop line_width ptr (pos + 1) (if ptr ! pos = CHR '' '' then pos else last_space) written)"

definition OUT_BUF :: nat where "OUT_BUF = 1024"

text \<open>\<open>out\<close> with the text already formatted.\<close>

definition out :: "string \<Rightarrow> (unit, 'w) run" where
  "out text st =
     (let buf = char_array OUT_BUF (take (OUT_BUF - 1) (c_str text)) in
      case out_loop (fst (cl_term st) + 1) buf (cl_pos st) 0 [] of
        None \<Rightarrow> (Inl Never_Returns, st)
      | Some (Inl e) \<Rightarrow> (Inl (Crash e), st)
      | Some (Inr (written, ptr, pos)) \<Rightarrow>
          (Inr (), st\<lparr>cl_written := cl_written st @ written @ c_str ptr, cl_pos := pos\<rparr>))"

text \<open>
  \<open>out(data, datalen)\<close> takes the text from the master as a format: \<open>%%\<close> prints as one, and any
  other conversion reads an argument that is not there or has the wrong type.
\<close>

fun printf_plain :: "string \<Rightarrow> string option" where
  "printf_plain [] = Some []"
| "printf_plain (c # s) =
     (if c \<noteq> CHR ''%'' then map_option ((#) c) (printf_plain s)
      else case s of d # s \<Rightarrow> if d = CHR ''%'' then map_option ((#) c) (printf_plain s) else None | [] \<Rightarrow> None)"

definition out_format :: "string \<Rightarrow> (unit, 'w) run" where
  "out_format data = (case printf_plain (c_str data) of None \<Rightarrow> halt (Crash Out_Of_Bounds) | Some text \<Rightarrow> out text)"

section \<open>Lemmas on the output\<close>

definition visible :: "string \<Rightarrow> string" where
  "visible = filter (\<lambda>c. c \<noteq> CHR '' '' \<and> c \<notin> set crlf)"

lemma visible_append [simp]: "visible (a @ b) = visible a @ visible b"
  by (simp add: visible_def)

lemma visible_crlf [simp]: "visible crlf = []" "visible [] = []"
  by (simp_all add: visible_def crlf_def)

lemma visible_newline: "c \<in> set crlf \<Longrightarrow> visible (c # s) = visible s"
  by (simp add: visible_def)

lemma visible_skip: "visible (dropWhile (\<lambda>c. c = CHR '' '') s) = visible s"
  by (induction s) (auto simp: visible_def)

lemma NUL_visible: "NUL \<noteq> CHR '' ''" "NUL \<notin> set crlf" "LF \<in> set crlf" "NUL \<noteq> LF" "LF \<noteq> CHR '' ''"
  by (simp_all add: NUL_def LF_def crlf_def code_def flip: code_eq_iff)

lemma c_str_padded: "NUL \<notin> set t \<Longrightarrow> c_str (t @ replicate k NUL) = t"
proof -
  assume t: "NUL \<notin> set t"
  have z: "code c \<noteq> 0 \<longleftrightarrow> c \<noteq> NUL" for c by (simp add: NUL_def flip: code_eq_iff)
  have "c_str (t @ replicate k NUL) = t @ takeWhile (\<lambda>c. c \<noteq> NUL) (replicate k NUL)"
    unfolding c_str_def z by (rule takeWhile_append2) (use t in auto)
  then show ?thesis by (cases k) simp_all
qed

lemma skip_padded:
  "dropWhile (\<lambda>c. c = CHR '' '') (t @ replicate k NUL) = dropWhile (\<lambda>c. c = CHR '' '') t @ replicate k NUL"
  by (induction t) (cases k; use NUL_visible(1) in auto)+

definition lines_of :: "string list \<Rightarrow> string" where
  "lines_of ls = concat (map (\<lambda>l. l @ crlf) ls)"

lemma lines_of_simps [simp]: "lines_of [] = []" "lines_of (l # ls) = l @ crlf @ lines_of ls"
  by (simp_all add: lines_of_def)

text \<open>
  The pieces that a text is cut into: every line feed from the index on ends one, and the index
  ends behind the last, or stays where it was when the text is too short to reach it.
\<close>

definition cut_from :: "string \<Rightarrow> nat \<Rightarrow> string list \<Rightarrow> string \<Rightarrow> nat \<Rightarrow> bool" where
  "cut_from t pos ls rest pos' \<longleftrightarrow> (\<exists>n. hd (ls @ [rest]) = take n t) \<and> LF \<notin> set (drop pos (hd (ls @ [rest]))) \<and>
     (\<forall>l\<in>set (tl (ls @ [rest])). LF \<notin> set l) \<and> (ls = [] \<longrightarrow> rest = t) \<and>
     pos' = (if ls = [] then max pos (length rest) else length rest)"

lemma cut_from_end: "length t \<le> pos \<Longrightarrow> cut_from t pos [] t pos"
  by (auto simp: cut_from_def intro: exI[of _ "length t"])

lemma cut_from_step:
  assumes "cut_from t (pos + 1) ls rest pos'" "pos < length t" "t ! pos \<noteq> LF"
  shows "cut_from t pos ls rest pos'"
proof -
  obtain n where n: "hd (ls @ [rest]) = take n t" using assms(1) unfolding cut_from_def by blast
  have "LF \<notin> set (drop pos (take n t))"
  proof (cases "pos < length (take n t)")
    case True
    have "drop pos (take n t) = take n t ! pos # drop (Suc pos) (take n t)" by (rule Cons_nth_drop_Suc[OF True, symmetric])
    then show ?thesis using assms(1,3) True n by (auto simp: cut_from_def)
  next
    case False
    then have "drop pos (take n t) = []" by (subst drop_eq_Nil) auto
    then show ?thesis by simp
  qed
  then show ?thesis using assms(1,2) n by (auto simp: cut_from_def)
qed

lemma cut_from_wrap:
  assumes "cut_from t' 0 ls rest pos'" "n \<le> pos"
  shows "cut_from t pos (take n t # ls) rest pos'"
  using assms by (cases ls) (auto simp: cut_from_def)

lemma out_loop_ok:
  assumes w: "unat line_width = w + 1" "1 \<le> w"
    and "NUL \<notin> set t" "pos \<le> w" "pos < length t + k" "last_space \<le> pos" "0 < k"
  shows "\<exists>ls rest pos'. out_loop line_width (t @ replicate k NUL) pos last_space written =
      Some (Inr (written @ lines_of ls, rest @ replicate k NUL, pos')) \<and> NUL \<notin> set rest \<and>
    length rest \<le> pos' \<and> pos' \<le> w \<and> (\<forall>l\<in>set ls. length l \<le> w) \<and> visible (concat ls @ rest) = visible t \<and>
    cut_from t pos ls rest pos'"
  using assms(3-)
proof (induction "length t * (w + 1) + (w - pos)" arbitrary: t pos last_space written rule: less_induct)
  case less
  let ?ptr = "t @ replicate k NUL"
  have width: "uint line_width - 1 = int w" using w(1) by (simp add: uint_nat)
  show ?case
  proof (cases "pos < length t")
    case False
    then have "?ptr ! pos = NUL" using less.prems(3) by (simp add: nth_append)
    then show ?thesis
      using False less.prems cut_from_end[of t pos] by (subst out_loop.simps) (auto intro!: exI[of _ "[]"])
  next
    case True
    then have at: "?ptr ! pos = t ! pos" "t ! pos \<noteq> NUL" "t ! pos \<in> set t"
      using less.prems(1) by (auto simp: nth_append dest: nth_mem)
    show ?thesis
    proof (cases "t ! pos = LF \<or> w \<le> pos")
      case False
      have "\<exists>ls rest pos'. out_loop line_width ?ptr (pos + 1) (if t ! pos = CHR '' '' then pos else last_space) written =
          Some (Inr (written @ lines_of ls, rest @ replicate k NUL, pos')) \<and> NUL \<notin> set rest \<and>
          length rest \<le> pos' \<and> pos' \<le> w \<and> (\<forall>l\<in>set ls. length l \<le> w) \<and> visible (concat ls @ rest) = visible t \<and>
          cut_from t (pos + 1) ls rest pos'"
        by (rule less.hyps) (use False True less.prems in auto)
      moreover have "out_loop line_width ?ptr pos last_space written =
          out_loop line_width ?ptr (pos + 1) (if t ! pos = CHR '' '' then pos else last_space) written"
        using False True at less.prems(3) by (subst out_loop.simps) (simp add: Let_def width)
      moreover have "t ! pos \<noteq> LF" using False by simp
      ultimately show ?thesis using cut_from_step[OF _ True] by metis
    next
      case wrap: True
      let ?n = "if t ! pos = LF \<or> last_space = 0 then pos else last_space"
      let ?rest = "if t ! pos = LF then drop (Suc pos) t else drop ?n t"
      let ?t = "dropWhile (\<lambda>c. c = CHR '' '') ?rest"
      have n: "?n \<le> pos" "?n \<le> length t" "?n \<le> w" using less.prems True by auto
      have line: "takeWhile (\<lambda>c. c \<noteq> NUL) (take ?n ?ptr) = take ?n t"
        using n(2) less.prems(1) by (simp add: takeWhile_eq_all_conv) (auto dest: in_set_takeD)
      have rest: "(if t ! pos = LF then tl (drop (length (take ?n t)) ?ptr) else drop (length (take ?n t)) ?ptr) = ?rest @ replicate k NUL"
        using True n(2) by (auto simp: tl_drop drop_Suc simp flip: drop_Suc)
      have vis: "visible t = visible (take ?n t) @ visible ?t"
      proof (cases "t ! pos = LF")
        case lf: True
        have "visible t = visible (take pos t @ LF # drop (Suc pos) t)"
          using id_take_nth_drop[OF True] lf by simp
        then show ?thesis using lf by (simp add: visible_skip visible_newline NUL_visible(3))
      next
        case False
        have "visible t = visible (take ?n t @ drop ?n t)" by simp
        then show ?thesis using False by (simp only: visible_append visible_skip if_False)
      qed
      have short: "length ?rest < length t" using wrap True w(2) by auto
      then have short: "length ?t < length t"
        using length_dropWhile_le[of "\<lambda>c. c = CHR '' ''" ?rest] by linarith
      have "length ?t * (w + 1) + (w - 0) < length t * (w + 1) + (w - pos)"
        using mult_le_mono1[OF Suc_leI[OF short], of "w + 1"] by simp
      then obtain ls r pos' where ih: "out_loop line_width (?t @ replicate k NUL) 0 0 (written @ take ?n t @ crlf) =
          Some (Inr ((written @ take ?n t @ crlf) @ lines_of ls, r @ replicate k NUL, pos'))" "NUL \<notin> set r"
          "length r \<le> pos'" "pos' \<le> w" "\<forall>l\<in>set ls. length l \<le> w" "visible (concat ls @ r) = visible ?t" "cut_from ?t 0 ls r pos'"
        using less.hyps[of ?t 0 0 "written @ take ?n t @ crlf"] less.prems(1,5)
        by (auto dest!: set_dropWhileD in_set_dropD split: if_splits)
      have "out_loop line_width ?ptr pos last_space written = out_loop line_width (?t @ replicate k NUL) 0 0 (written @ take ?n t @ crlf)"
        apply (subst out_loop.simps)
        apply (simp only: Let_def at(1) width line rest skip_padded)
        using at(2) less.prems(3) wrap n w(1) by simp
      then show ?thesis
        using ih n(3) vis cut_from_wrap[OF ih(7) n(1), of t] by (intro exI[of _ "take ?n t # ls"] exI[of _ r] exI[of _ pos']) simp
    qed
  qed
qed

definition term_ok :: "'w client_state \<Rightarrow> bool" where
  "term_ok st \<longleftrightarrow> 1 \<le> unat (fst (cl_term st)) \<and> unat (fst (cl_term st)) < OUT_BUF \<and> cl_pos st \<le> unat (fst (cl_term st))"

lemma out_ok:
  assumes "term_ok st"
  shows "\<exists>ls rest pos. out msg st = (Inr (), st\<lparr>cl_written := cl_written st @ lines_of ls @ rest, cl_pos := pos\<rparr>) \<and>
    length rest \<le> pos \<and> pos \<le> unat (fst (cl_term st)) \<and> (\<forall>l\<in>set ls. length l \<le> unat (fst (cl_term st))) \<and>
    visible (concat ls @ rest) = visible (take (OUT_BUF - 1) (c_str msg)) \<and>
    cut_from (take (OUT_BUF - 1) (c_str msg)) (cl_pos st) ls rest pos"
proof -
  let ?w = "unat (fst (cl_term st))" let ?t = "take (OUT_BUF - 1) (c_str msg)"
  have w: "unat (fst (cl_term st) + 1) = ?w + 1" "1 \<le> ?w"
    using assms by (auto simp: term_ok_def OUT_BUF_def unat_word_ariths)
  have "c \<noteq> NUL" if "c \<in> set (c_str msg)" for c
    using that by (auto simp: c_str_def NUL_def dest!: set_takeWhileD)
  then have nul: "NUL \<notin> set ?t" by (auto dest: in_set_takeD)
  have len: "length ?t < OUT_BUF" by (simp add: OUT_BUF_def)
  then have buf: "char_array OUT_BUF ?t = ?t @ replicate (OUT_BUF - length ?t) NUL"
    by (simp add: char_array_def NUL_def)
  obtain ls rest pos where r: "out_loop (fst (cl_term st) + 1) (?t @ replicate (OUT_BUF - length ?t) NUL) (cl_pos st) 0 [] =
      Some (Inr ([] @ lines_of ls, rest @ replicate (OUT_BUF - length ?t) NUL, pos))" "NUL \<notin> set rest"
      "length rest \<le> pos" "pos \<le> ?w" "\<forall>l\<in>set ls. length l \<le> ?w" "visible (concat ls @ rest) = visible ?t"
      "cut_from ?t (cl_pos st) ls rest pos"
    using out_loop_ok[OF w nul, of "cl_pos st" "OUT_BUF - length ?t" 0 "[]"] assms len by (auto simp: term_ok_def)
  then show ?thesis
    unfolding out_def buf Let_def by (simp add: c_str_padded) blast
qed

section \<open>What a run may do\<close>

text \<open>
  Most steps are quiet: they change neither what the child exchanges with the others nor the
  size of the terminal. \<open>within A\<close> bounds what a run may do: which requests it sends, that it
  uses up input, and what it leaves alone.
\<close>

fun event_size :: "event \<Rightarrow> nat" where
  "event_size (From_Master ps) = 1"
| "event_size (From_Client bytes) = Suc (length bytes)"

definition input_size :: "'w client_state \<Rightarrow> nat" where
  "input_size st = sum_list (map event_size (cl_events st))"

definition packet_cmd :: "string \<Rightarrow> nat" where
  "packet_cmd packet = code (packet ! 4)"

definition quiet :: "'w client_state \<Rightarrow> 'w client_state \<Rightarrow> bool" where
  "quiet st st' \<longleftrightarrow>
     cl_sent st' = cl_sent st \<and> cl_events st' = cl_events st \<and> cl_inbox st' = cl_inbox st \<and> cl_master st' = cl_master st \<and>
     cl_pid st' = cl_pid st \<and> cl_is_admin st' = cl_is_admin st \<and> cl_term st' = cl_term st \<and> (term_ok st \<longrightarrow> term_ok st')"

definition within :: "nat set \<Rightarrow> 'w client_state \<Rightarrow> 'w client_state \<Rightarrow> bool" where
  "within A st st' \<longleftrightarrow>
     (\<exists>new. cl_sent st' = cl_sent st @ new \<and> packet_cmd ` set new \<subseteq> A) \<and> input_size st' \<le> input_size st \<and>
     cl_pid st' = cl_pid st \<and> cl_is_admin st' = cl_is_admin st \<and> cl_term st' = cl_term st \<and> (term_ok st \<longrightarrow> term_ok st')"

lemma quiet_refl [simp, intro]: "quiet st st"
  by (simp add: quiet_def)

lemma quiet_trans: "quiet st st1 \<Longrightarrow> quiet st1 st2 \<Longrightarrow> quiet st st2"
  by (simp add: quiet_def)

lemma quietI:
  "cl_sent st' = cl_sent st \<Longrightarrow> cl_events st' = cl_events st \<Longrightarrow> cl_inbox st' = cl_inbox st \<Longrightarrow>
   cl_master st' = cl_master st \<Longrightarrow> cl_pid st' = cl_pid st \<Longrightarrow> cl_is_admin st' = cl_is_admin st \<Longrightarrow>
   cl_term st' = cl_term st \<Longrightarrow> cl_pos st' = cl_pos st \<Longrightarrow> quiet st st'"
  by (simp add: quiet_def term_ok_def)

lemma within_refl [simp, intro]: "within A st st"
  by (simp add: within_def)

lemma within_trans: "within A st st1 \<Longrightarrow> within A st1 st2 \<Longrightarrow> within A st st2"
  unfolding within_def by (elim conjE exE, intro conjI) (auto simp: image_Un)

lemma within_quiet: "quiet st st' \<Longrightarrow> within A st st'"
  by (simp add: within_def quiet_def input_size_def)

lemma within_mono: "within A st st' \<Longrightarrow> A \<subseteq> B \<Longrightarrow> within B st st'"
  unfolding within_def by blast

lemma out_quiet: "quiet st (snd (out msg st))"
proof -
  have e: "snd (out msg st) = st \<or> (\<exists>w pos. snd (out msg st) = st\<lparr>cl_written := w, cl_pos := pos\<rparr>)"
    by (auto simp: out_def Let_def split: option.splits sum.splits prod.splits)
  have "term_ok (snd (out msg st))" if "term_ok st"
    using out_ok[OF that, of msg] that by (auto simp: term_ok_def)
  with e show ?thesis by (auto simp: quiet_def)
qed

text \<open>On a terminal of a sound size the output always returns.\<close>

abbreviation out_stop :: "'w client_state \<Rightarrow> stop \<Rightarrow> bool" where
  "out_stop st e \<equiv> (\<exists>c. e = Crash c) \<or> e = Never_Returns \<and> \<not> term_ok st"

lemma out_stops: "fst (out msg st) = Inl e \<Longrightarrow> out_stop st e"
proof (cases "term_ok st")
  case True
  then show "fst (out msg st) = Inl e \<Longrightarrow> ?thesis" using out_ok[OF True, of msg] by auto
next
  case False
  then show "fst (out msg st) = Inl e \<Longrightarrow> ?thesis"
    by (auto simp: out_def Let_def split: option.splits sum.splits prod.splits)
qed

lemma out_format_quiet: "quiet st (snd (out_format data st))"
  by (simp add: out_format_def out_quiet split: option.splits)

lemma out_format_stops: "fst (out_format data st) = Inl e \<Longrightarrow> out_stop st e"
  by (auto simp: out_format_def dest: out_stops split: option.splits)

section \<open>The correctness of the output\<close>

text \<open>C28: whatever \<open>out\<close> is given, it returns: the wrapping loop ends and stays inside its buffers.
  It cuts the first 1023 bytes into pieces no longer than the terminal is wide, and writes a carriage return and
  a line feed behind each but the last; nothing is lost but spaces and line ends. The pieces after the first are without
  line feeds. The first one starts where the last call stopped: the loop counts from the static index, so no line feed stands in it
  at that index or later, but one before it goes out as it is, without a carriage return, and when the index is not 0 the piece lengthens the unfinished line, which can become wider than
  the terminal. At the start of a line, with the index 0, what is written is proper lines of at most the width. The index the
  next call starts from is the length of the last piece, or stays as it was when the text is no longer than that and was not cut; it never leaves the
  line.\<close>

theorem out_correct:
  assumes "1 \<le> unat (fst (cl_term st))" "unat (fst (cl_term st)) < OUT_BUF" "cl_pos st \<le> unat (fst (cl_term st))"
  shows "\<exists>ls rest pos. out msg st = (Inr (), st\<lparr>cl_written := cl_written st @ lines_of ls @ rest, cl_pos := pos\<rparr>) \<and>
    pos \<le> unat (fst (cl_term st)) \<and> (\<forall>l\<in>set (ls @ [rest]). length l \<le> unat (fst (cl_term st))) \<and>
    visible (concat ls @ rest) = visible (take (OUT_BUF - 1) (c_str msg)) \<and>
    (\<forall>l\<in>set (tl (ls @ [rest])). LF \<notin> set l) \<and> LF \<notin> set (drop (cl_pos st) (hd (ls @ [rest]))) \<and>
    (cl_pos st = 0 \<longrightarrow> LF \<notin> set (concat ls @ rest)) \<and>
    (ls = [] \<longrightarrow> rest = take (OUT_BUF - 1) (c_str msg)) \<and> pos = (if ls = [] then max (cl_pos st) (length rest) else length rest)"
proof -
  have "term_ok st" using assms by (simp add: term_ok_def)
  from out_ok[OF this, of msg] obtain ls rest pos where
    r: "out msg st = (Inr (), st\<lparr>cl_written := cl_written st @ lines_of ls @ rest, cl_pos := pos\<rparr>)"
    "length rest \<le> pos" "pos \<le> unat (fst (cl_term st))" "\<forall>l\<in>set ls. length l \<le> unat (fst (cl_term st))"
    "visible (concat ls @ rest) = visible (take (OUT_BUF - 1) (c_str msg))"
    and cut: "cut_from (take (OUT_BUF - 1) (c_str msg)) (cl_pos st) ls rest pos" by blast
  have "LF \<notin> set (concat ls @ rest)" if "cl_pos st = 0"
    using cut that by (cases ls) (auto simp: cut_from_def)
  with r cut show ?thesis unfolding cut_from_def by (intro exI[of _ ls] exI[of _ rest] exI[of _ pos]) auto
qed

definition sample_client :: "unit client_state" where
  "sample_client =
     \<lparr>cl_pid = 77, cl_term = (80, 24), cl_written = [], cl_pos = 0, cl_is_admin = False, cl_room = 0, cl_user = Some ''ann'',
      cl_rawmode = False, cl_reqdata = TYPE_NONE, cl_ts = 0, cl_reqs_since_ts = 0, cl_inbox = [], cl_sent = [],
      cl_master = (), cl_events = [], cl_times = 0, cl_rands = 0\<rparr>"

theorem out_correct_witness:
  "\<exists>ls rest pos. out ''You see a lamp.'' sample_client =
      (Inr (), sample_client\<lparr>cl_written := lines_of ls @ rest, cl_pos := pos\<rparr>) \<and>
    visible (concat ls @ rest) = ''Youseealamp.'' \<and> LF \<notin> set (concat ls @ rest)"
proof -
  have "c_str ''You see a lamp.'' = ''You see a lamp.''" "visible ''You see a lamp.'' = ''Youseealamp.''"
    by code_simp+
  note msg = this
  have w: "unat (fst (cl_term sample_client)) = 80" "cl_pos sample_client = 0" "cl_written sample_client = []"
    by (simp_all add: sample_client_def)
  obtain ls rest pos where "out ''You see a lamp.'' sample_client =
      (Inr (), sample_client\<lparr>cl_written := [] @ lines_of ls @ rest, cl_pos := pos\<rparr>)"
    "visible (concat ls @ rest) = visible (take (OUT_BUF - 1) ''You see a lamp.'')" "LF \<notin> set (concat ls @ rest)"
    using out_correct[of sample_client "''You see a lamp.''", unfolded w msg(1)] by (auto simp: OUT_BUF_def)
  then show ?thesis using msg(2) by (auto simp: OUT_BUF_def)
qed

end
