(* ===== verification/Nc_Client_Reqs.thy ===== *)
theory Nc_Client_Reqs
  imports Nc_Child
begin

text \<open>
  What a child asks of the master (\<open>src/client_reqs.c\<close>, the request wrappers of
  \<open>src/userdb.c\<close>, the child's side of \<open>src/auth.c\<close>), and how it reads from its client
  (\<open>client_read\<close> of \<open>src/client.c\<close>).
\<close>

section \<open>Packets from the master\<close>

definition client_packet :: "nat \<Rightarrow> string \<Rightarrow> (unit, 'w) run" where
  "client_packet cmd data =
     (if cmd = REQ_RAWMODE then upd (\<lambda>st. st\<lparr>cl_rawmode := \<not> cl_rawmode st\<rparr>)
      else if cmd = REQ_BCASTMSG then out_format data
      else if cmd = REQ_KICK then andthen (out_format data) (\<lambda>_. halt (Crash Exit_Process))
      else if cmd = REQ_MOVE then
        upd (\<lambda>st. st\<lparr>cl_reqdata := TYPE_BOOLEAN (int_val (take 4 (char_array 4 data)) = 1)\<rparr>)
      else if cmd = REQ_GETUSERDATA then
        (if length data = USERDATA_SIZE then upd (\<lambda>st. st\<lparr>cl_reqdata := TYPE_USERDATA (userdata_parse data)\<rparr>) else ret ())
      else if cmd = REQ_DELUSERDATA \<or> cmd = REQ_ADDUSERDATA then
        upd (\<lambda>st. st\<lparr>cl_reqdata := TYPE_BOOLEAN (char_array 1 data ! 0 \<noteq> NUL)\<rparr>)
      else if cmd = REQ_PRINTNEWLINE then out newline
      else ret ())"

text \<open>
  \<open>poll_requests\<close>: packets are handled until a \<open>REQ_ALLDONE\<close> comes. The pipe blocks when it
  is empty. Its result, whether there was any packet, is never used.
\<close>

fun poll_packets :: "string list \<Rightarrow> (unit, 'w) run" where
  "poll_packets [] st = (Inl Waits_Master, st\<lparr>cl_inbox := []\<rparr>)"
| "poll_packets (packet # packets) st =
     (let packet = take MSG_MAX packet; st = st\<lparr>cl_inbox := packets\<rparr> in
      case packet of
        [] \<Rightarrow> (Inl (Crash Exit_Process), st)
      | c # data \<Rightarrow>
          if code c = REQ_ALLDONE then (Inr (), st)
          else
            (case client_packet (code c) data st of
               (Inl e, st) \<Rightarrow> (Inl e, st)
             | (Inr _, st) \<Rightarrow> poll_packets packets st))"

definition poll_requests :: "(unit, 'w) run" where
  "poll_requests st = poll_packets (cl_inbox st) st"

section \<open>Requests\<close>

text \<open>The rate limit of users without privileges: whether this request exceeds it.\<close>

definition rate_limited :: "'w client_env \<Rightarrow> (bool, 'w) run" where
  "rate_limited env st =
     (let t = ce_time env (cl_times st);
          st = st\<lparr>cl_times := cl_times st + 1\<rparr>;
          st = (if cl_ts st \<noteq> t then st\<lparr>cl_ts := t, cl_reqs_since_ts := 0\<rparr> else st) in
      (Inr (cl_reqs_since_ts st > 10), st\<lparr>cl_reqs_since_ts := cl_reqs_since_ts st + 1\<rparr>))"

text \<open>Writing the packet, and the packets that the master answers.\<close>

definition write_request :: "'w client_env \<Rightarrow> string \<Rightarrow> 'w client_state \<Rightarrow> 'w client_state" where
  "write_request env packet st =
     (let (answer, w) = ce_serve env packet (cl_master st) in
      st\<lparr>cl_sent := cl_sent st @ [packet], cl_master := w, cl_inbox := cl_inbox st @ answer\<rparr>)"

text \<open>
  \<open>send_master\<close>. A packet is the pid, the command and the data; no data is NULL. The loop
  that waits for \<open>request_complete\<close> polls once, since that returns after a \<open>REQ_ALLDONE\<close>.
\<close>

definition send_master :: "'w client_env \<Rightarrow> nat \<Rightarrow> string \<Rightarrow> (unit, 'w) run" where
  "send_master env cmd data =
     andthen (get cl_is_admin) (\<lambda>are_admin.
     andthen (if are_admin then ret False else rate_limited env) (\<lambda>limited.
       if limited then out (''Rate limit exceeded.'' @ newline)
       else
         andthen (get cl_pid) (\<lambda>our_pid.
           if \<not> 1 + 4 + length data \<le> MSG_MAX then halt (Crash Assert_Failed)
           else andthen (upd (write_request env (child_packet our_pid cmd data))) (\<lambda>_. poll_requests))))"

definition client_change_state :: "'w client_env \<Rightarrow> int \<Rightarrow> (unit, 'w) run" where
  "client_change_state env state = send_master env REQ_CHANGESTATE (int_bytes state)"

definition client_change_user :: "'w client_env \<Rightarrow> string \<Rightarrow> (unit, 'w) run" where
  "client_change_user env user = send_master env REQ_CHANGEUSER (user @ [NUL])"

definition client_change_room :: "'w client_env \<Rightarrow> int \<Rightarrow> (unit, 'w) run" where
  "client_change_room env room = send_master env REQ_SETROOM (int_bytes room)"

text \<open>The names of the directions; the pair of \<open>NORTHEAST\<close> is as in the code.\<close>

definition dirs :: "(string \<times> direction_t) list" where
  "dirs =
     [(''N'', DIR_N), (''NORTH'', DIR_N), (''NE'', DIR_NE), (''NORTHEAST'', DIR_N), (''E'', DIR_E), (''EAST'', DIR_E),
      (''SE'', DIR_SE), (''SOUTHEAST'', DIR_SE), (''S'', DIR_S), (''SOUTH'', DIR_S), (''SW'', DIR_SW),
      (''SOUTHWEST'', DIR_SW), (''W'', DIR_W), (''WEST'', DIR_W), (''NW'', DIR_NW), (''NORTHWEST'', DIR_NW),
      (''U'', DIR_UP), (''UP'', DIR_UP), (''D'', DIR_DN), (''DOWN'', DIR_DN), (''IN'', DIR_IN), (''OUT'', DIR_OT)]"

text \<open>
  The table is built at the first call. Its values are pointers into \<open>dirs\<close>, an array on the stack of that call, which is gone
  when later calls look them up; they read the right pairs because the one caller of \<open>client_move\<close>, in the command
  loop, makes the array of each call lie where the first one lay. The model relies on that, and has the table at each call.
\<close>

definition dir_map :: "(string, direction_t, unit) hash_map res" where
  "dir_map = hash_insert_pairs (hash_init (length dirs) hash_djb compare_strings) dirs"

definition client_move :: "'w client_env \<Rightarrow> string \<Rightarrow> (bool, 'w) run" where
  "client_move env dir =
     andthen (from_res dir_map) (\<lambda>tab.
       case hash_lookup tab dir of
         Some val \<Rightarrow>
           andthen (send_master env REQ_MOVE (int_bytes (int (dir_num val)))) (\<lambda>_.
             get (\<lambda>st. cl_reqdata st = TYPE_BOOLEAN True))
       | None \<Rightarrow> andthen (out (''Unknown direction.'' @ newline)) (\<lambda>_. ret False))"

definition client_look :: "'w client_env \<Rightarrow> (unit, 'w) run" where
  "client_look env =
     andthen (send_master env REQ_GETROOMNAME []) (\<lambda>_.
     andthen (out newline) (\<lambda>_. send_master env REQ_GETROOMDESC []))"

definition client_look_at :: "'w client_env \<Rightarrow> string \<Rightarrow> (unit, 'w) run" where
  "client_look_at env obj = send_master env REQ_LOOKAT (all_lower obj @ [NUL])"

definition client_take :: "'w client_env \<Rightarrow> string option \<Rightarrow> (unit, 'w) run" where
  "client_take env obj =
     (case obj of
        Some obj \<Rightarrow> send_master env REQ_TAKE (all_lower obj @ [NUL])
      | None \<Rightarrow> out (''You must supply an object.'' @ newline))"

definition client_inventory :: "'w client_env \<Rightarrow> (unit, 'w) run" where
  "client_inventory env = send_master env REQ_PRINTINVENTORY []"

definition client_drop :: "'w client_env \<Rightarrow> string \<Rightarrow> (unit, 'w) run" where
  "client_drop env what = send_master env REQ_DROP (what @ [NUL])"

definition client_user_list :: "'w client_env \<Rightarrow> (unit, 'w) run" where
  "client_user_list env = send_master env REQ_LISTUSERS []"

section \<open>Accounts\<close>

text \<open>The union \<open>returned_reqdata\<close> read as a boolean: the first byte of whatever it holds.\<close>

definition reqdata_boolean :: "reqdata \<Rightarrow> bool" where
  "reqdata_boolean r =
     (case r of TYPE_NONE \<Rightarrow> False | TYPE_USERDATA ud \<Rightarrow> ud_username ud \<noteq> [] | TYPE_BOOLEAN b \<Rightarrow> b)"

definition userdb_request_lookup :: "'w client_env \<Rightarrow> string \<Rightarrow> (userdata_t option, 'w) run" where
  "userdb_request_lookup env name =
     andthen (send_master env REQ_GETUSERDATA (name @ [NUL])) (\<lambda>_.
     andthen (get cl_reqdata) (\<lambda>r.
       case r of
         TYPE_USERDATA ud \<Rightarrow>
           let ud = ud\<lparr>ud_objects := None\<rparr> in
           andthen (upd (\<lambda>st. st\<lparr>cl_reqdata := TYPE_USERDATA ud\<rparr>)) (\<lambda>_. ret (Some ud))
       | _ \<Rightarrow> ret None))"

definition userdb_request_add :: "'w client_env \<Rightarrow> userdata_t \<Rightarrow> (bool, 'w) run" where
  "userdb_request_add env data =
     andthen (send_master env REQ_ADDUSERDATA (userdata_bytes data)) (\<lambda>_. get (\<lambda>st. reqdata_boolean (cl_reqdata st)))"

definition userdb_request_remove :: "'w client_env \<Rightarrow> string \<Rightarrow> (bool, 'w) run" where
  "userdb_request_remove env name =
     andthen (send_master env REQ_DELUSERDATA (name @ [NUL])) (\<lambda>_. get (\<lambda>st. reqdata_boolean (cl_reqdata st)))"

text \<open>\<open>time(0)\<close> and the \<open>rand\<close> of a new salt.\<close>

definition clock :: "'w client_env \<Rightarrow> (int, 'w) run" where
  "clock env st = (Inr (ce_time env (cl_times st)), st\<lparr>cl_times := cl_times st + 1\<rparr>)"

definition draw_salt :: "'w client_env \<Rightarrow> (nat \<Rightarrow> nat, 'w) run" where
  "draw_salt env st = (Inr (\<lambda>i. ce_rand env (cl_rands st + i)), st\<lparr>cl_rands := cl_rands st + SALT_LEN\<rparr>)"

definition child_add_user_internal :: "'w client_env \<Rightarrow> string \<Rightarrow> string \<Rightarrow> int \<Rightarrow> (unit, 'w) run" where
  "child_add_user_internal env name pass authlevel =
     andthen (draw_salt env) (\<lambda>rnd.
     andthen (clock env) (\<lambda>now.
     andthen (userdb_request_add env (new_userdata (ce_sha env) rnd now name pass authlevel)) (\<lambda>_. ret ())))"

definition child_auth_user_add :: "'w client_env \<Rightarrow> string \<Rightarrow> string \<Rightarrow> int \<Rightarrow> (bool, 'w) run" where
  "child_auth_user_add env user2 pass2 level =
     (let user = remove_cruft user2; pass = remove_cruft pass2 in
      if \<not> valid_login_name user then ret False
      else andthen (child_add_user_internal env user pass level) (\<lambda>_. ret True))"

definition child_auth_user_del :: "'w client_env \<Rightarrow> string \<Rightarrow> (bool, 'w) run" where
  "child_auth_user_del env user2 =
     (let user = remove_cruft user2 in
      if valid_login_name user then userdb_request_remove env user else ret False)"

text \<open>\<open>auth_check\<close>; a failure costs two seconds. The address \<open>data->salt\<close> is computed before \<open>data\<close> is compared with
  NULL, and only used after it.\<close>

definition auth_check :: "'w client_env \<Rightarrow> string \<Rightarrow> string \<Rightarrow> (userdata_t option, 'w) run" where
  "auth_check env name2 pass2 =
     (let name = remove_cruft name2; pass = remove_cruft pass2 in
      andthen (userdb_request_lookup env name) (\<lambda>data.
        case data of
          Some data \<Rightarrow> ret (if password_ok (ce_sha env) data pass then Some data else None)
        | None \<Rightarrow> ret None))"

section \<open>What the requests do\<close>

lemma client_packet_quiet: "quiet st (snd (client_packet cmd data st))"
proof -
  define q where "q m \<longleftrightarrow> quiet st (snd (m st))" for m :: "(unit, 'a) run"
  have "q (andthen (out_format data) (\<lambda>_. halt (Crash Exit_Process)))"
    unfolding q_def using andthen_cases[of "out_format data" st "\<lambda>_. halt (Crash Exit_Process)"] out_format_quiet[of st data]
    by (metis run_simps(2) snd_conv)
  moreover have "q (out_format data)" "q (out newline)" "q (ret ())"
    by (simp_all add: q_def out_format_quiet out_quiet)
  moreover have "q (upd (\<lambda>st. st\<lparr>cl_rawmode := \<not> cl_rawmode st\<rparr>))" "q (upd (\<lambda>st. st\<lparr>cl_reqdata := r\<rparr>))" for r
    by (simp_all add: q_def quietI)
  ultimately have "q (client_packet cmd data)" by (simp add: client_packet_def)
  then show ?thesis by (simp add: q_def)
qed

lemma andthen_halt: "fst (andthen m (\<lambda>_. halt e') st) = Inl e \<Longrightarrow> fst (m st) = Inl e \<or> e = e'"
  by (auto simp: andthen_def split: prod.splits sum.splits)

lemma client_packet_stops: "fst (client_packet cmd data st) = Inl e \<Longrightarrow> out_stop st e"
proof -
  define stops where "stops m \<longleftrightarrow> (\<forall>e. fst (m st) = Inl e \<longrightarrow> out_stop st e)" for m :: "(unit, 'a) run"
  have "stops (andthen (out_format data) (\<lambda>_. halt (Crash Exit_Process)))"
    unfolding stops_def using out_format_stops[of data st] andthen_halt by blast
  moreover have "stops (out_format data)" "stops (out newline)" "stops (ret ())" "stops (upd f)" for f
    using out_format_stops[of data st] out_stops[of newline st] by (simp_all add: stops_def)
  ultimately have "stops (client_packet cmd data)" by (simp add: client_packet_def)
  then show "fst (client_packet cmd data st) = Inl e \<Longrightarrow> out_stop st e" by (simp add: stops_def)
qed

text \<open>A packet on which the child stops listening, or exits.\<close>

definition terminator :: "string \<Rightarrow> bool" where
  "terminator packet \<longleftrightarrow> (case take MSG_MAX packet of [] \<Rightarrow> True | c # _ \<Rightarrow> code c = REQ_ALLDONE)"

lemma poll_packets_quiet:
  "quiet (st\<lparr>cl_inbox := []\<rparr>) ((snd (poll_packets packets st))\<lparr>cl_inbox := []\<rparr>) \<and>
   (fst (poll_packets packets st) = Inl e \<longrightarrow> out_stop st e \<or> e = Waits_Master \<and> \<not> Bex (set packets) terminator)"
proof (induction packets arbitrary: st)
  case (Cons packet packets)
  let ?st = "st\<lparr>cl_inbox := packets\<rparr>"
  show ?case
  proof (cases "take MSG_MAX packet")
    case Nil
    then show ?thesis unfolding poll_packets.simps Let_def Nil list.case by auto
  next
    case c: (Cons c data)
    obtain r st1 where p: "client_packet (code c) data ?st = (r, st1)" by fastforce
    have q0: "quiet ?st st1" using client_packet_quiet[of ?st "code c" data] p by simp
    then have q: "quiet (st\<lparr>cl_inbox := []\<rparr>) (st1\<lparr>cl_inbox := []\<rparr>)" by (auto simp: quiet_def term_ok_def)
    have ok: "term_ok ?st = term_ok st" "term_ok st \<Longrightarrow> term_ok st1" using q0 by (auto simp: quiet_def term_ok_def)
    show ?thesis
    proof (cases "code c = REQ_ALLDONE")
      case True
      then show ?thesis unfolding poll_packets.simps Let_def c list.case by simp
    next
      case False
      then have run: "poll_packets (packet # packets) st = (case r of Inl e \<Rightarrow> (Inl e, st1) | Inr _ \<Rightarrow> poll_packets packets st1)"
        unfolding poll_packets.simps Let_def c list.case by (simp add: p split: sum.split)
      have nterm: "terminator packet = False" using c False by (simp add: terminator_def)
      show ?thesis
      proof (cases r)
        case (Inl e')
        then show ?thesis unfolding run using q client_packet_stops[of "code c" data ?st e'] p ok by auto
      next
        case (Inr u)
        then show ?thesis unfolding run using quiet_trans[OF q] Cons.IH[of st1] nterm ok by auto
      qed
    qed
  qed
qed (simp add: quiet_def term_ok_def)

lemma poll_requests_ok:
  assumes "poll_requests st = (r, st')"
  shows "quiet (st\<lparr>cl_inbox := []\<rparr>) (st'\<lparr>cl_inbox := []\<rparr>)"
    "r = Inl e \<Longrightarrow> out_stop st e \<or> e = Waits_Master \<and> \<not> Bex (set (cl_inbox st)) terminator"
  using poll_packets_quiet[of st "cl_inbox st" e] assms by (simp_all add: poll_requests_def)

lemma packet_cmd_child [simp]: "cmd < 256 \<Longrightarrow> packet_cmd (child_packet pid cmd data) = cmd"
  by (simp add: packet_cmd_def child_packet_def nth_append)

text \<open>A map made from an array of pairs, as the tables of directions and of commands are.\<close>

lemma pairs_table: "\<exists>tab. hash_insert_pairs (hash_init n hash_djb compare_strings) ps = Inr tab \<and> hash_lookup tab = map_of ps"
  using str_map.insert_skipping_ok[OF exact_table_init, of n ps] by (auto simp: hash_insert_pairs_skipping)

section \<open>A frame for runs\<close>

text \<open>
  A run keeps an invariant \<open>I\<close>, moves along a relation \<open>R\<close> and stops in no other way than
  \<open>ok_stop\<close> allows.
\<close>

definition run_holds ::
  "('w client_state \<Rightarrow> bool) \<Rightarrow> ('w client_state \<Rightarrow> 'w client_state \<Rightarrow> bool) \<Rightarrow> (stop \<Rightarrow> bool) \<Rightarrow> ('a, 'w) run \<Rightarrow> bool" where
  "run_holds I R ok_stop m \<longleftrightarrow>
     (\<forall>st r st'. m st = (r, st') \<longrightarrow> I st \<longrightarrow> I st' \<and> R st st' \<and> (\<forall>e. r = Inl e \<longrightarrow> ok_stop e))"

lemma run_holdsI:
  "(\<And>st r st'. m st = (r, st') \<Longrightarrow> I st \<Longrightarrow> I st' \<and> R st st' \<and> (\<forall>e. r = Inl e \<longrightarrow> ok_stop e)) \<Longrightarrow> run_holds I R ok_stop m"
  by (simp add: run_holds_def)

lemma run_holdsD:
  assumes "run_holds I R ok_stop m" "m st = (r, st')" "I st"
  shows "I st'" "R st st'" "r = Inl e \<Longrightarrow> ok_stop e"
  using assms unfolding run_holds_def by blast+

lemma run_holds_if: "(b \<Longrightarrow> run_holds I R ok_stop m) \<Longrightarrow> (\<not> b \<Longrightarrow> run_holds I R ok_stop n) \<Longrightarrow> run_holds I R ok_stop (if b then m else n)"
  by simp

lemma run_holds_option:
  "(x = None \<Longrightarrow> run_holds I R ok_stop m) \<Longrightarrow> (\<And>y. x = Some y \<Longrightarrow> run_holds I R ok_stop (f y)) \<Longrightarrow>
   run_holds I R ok_stop (case x of None \<Rightarrow> m | Some y \<Rightarrow> f y)"
  by (cases x) simp_all

lemma run_holds_pair: "(\<And>a b. x = (a, b) \<Longrightarrow> run_holds I R ok_stop (f a b)) \<Longrightarrow> run_holds I R ok_stop (case x of (a, b) \<Rightarrow> f a b)"
  by (cases x) simp

text \<open>
  What a frame has to promise: quiet steps are allowed, and so are the exchanges with the
  master (asking for something in \<open>A\<close> and listening) and with the player.
\<close>

locale client_frame =
  fixes env :: "'w client_env" and A :: "nat set"
    and I :: "'w client_state \<Rightarrow> bool" and R :: "'w client_state \<Rightarrow> 'w client_state \<Rightarrow> bool" and ok_stop :: "stop \<Rightarrow> bool"
  assumes R_trans: "R st st1 \<Longrightarrow> R st1 st2 \<Longrightarrow> R st st2"
    and stops: "ok_stop (Crash c)" "ok_stop Waits_Client"
    and display: "I st \<Longrightarrow> \<not> term_ok st \<Longrightarrow> ok_stop Never_Returns"
    and quiet_step: "I st \<Longrightarrow> quiet st st' \<Longrightarrow> I st' \<and> R st st'"
    and ask: "I st \<Longrightarrow> cmd \<in> A \<Longrightarrow> cmd < 256 \<Longrightarrow>
      poll_requests (write_request env (child_packet (cl_pid st) cmd data) st) = (r, st') \<Longrightarrow>
      I st' \<and> R st st' \<and> (\<forall>e. r = Inl e \<longrightarrow> ok_stop e)"
    and listen: "I st \<Longrightarrow> cl_events st = From_Master ps # events \<Longrightarrow>
      poll_requests (st\<lparr>cl_events := events, cl_inbox := cl_inbox st @ ps\<rparr>) = (r, st') \<Longrightarrow>
      I st' \<and> R st st' \<and> (\<forall>e. r = Inl e \<longrightarrow> ok_stop e)"
    and hear: "I st \<Longrightarrow> cl_events st = From_Client bytes # events \<Longrightarrow>
      I (st\<lparr>cl_events := (if drop n bytes = [] then events else From_Client (drop n bytes) # events)\<rparr>) \<and>
      R st (st\<lparr>cl_events := (if drop n bytes = [] then events else From_Client (drop n bytes) # events)\<rparr>)"
begin

abbreviation (input) "holds \<equiv> run_holds I R ok_stop"

lemma holds_quiet:
  assumes "\<And>st. quiet st (snd (m st))" "\<And>st e. I st \<Longrightarrow> fst (m st) = Inl e \<Longrightarrow> ok_stop e"
  shows "run_holds I R ok_stop m"
proof (rule run_holdsI)
  fix st r st' assume "m st = (r, st')" "I st"
  then show "I st' \<and> R st st' \<and> (\<forall>e. r = Inl e \<longrightarrow> ok_stop e)"
    using quiet_step[of st st'] assms(1)[of st] assms(2)[of st] by auto
qed

lemma holds_ret [simp, intro]: "run_holds I R ok_stop (ret x)"
  by (rule holds_quiet) simp_all

lemma holds_get [simp, intro]: "run_holds I R ok_stop (get f)"
  by (rule holds_quiet) simp_all

lemma holds_halt [simp, intro]: "run_holds I R ok_stop (halt (Crash c))"
  by (rule holds_quiet) (auto simp: stops)

lemma holds_from_res [simp, intro]: "run_holds I R ok_stop (from_res x)"
  by (cases x) (simp_all add: from_res_def)

lemma holds_andthen:
  assumes "run_holds I R ok_stop m" "\<And>x. run_holds I R ok_stop (f x)"
  shows "run_holds I R ok_stop (andthen m f)"
proof (rule run_holdsI)
  fix st r st' assume run: "andthen m f st = (r, st')" and I: "I st"
  from andthen_cases[of m st f] show "I st' \<and> R st st' \<and> (\<forall>e. r = Inl e \<longrightarrow> ok_stop e)"
  proof (elim disjE exE conjE)
    fix e st1 assume "m st = (Inl e, st1)" "andthen m f st = (Inl e, st1)"
    then show ?thesis using run_holdsD[OF assms(1) _ I] run by auto
  next
    fix x st1 assume m: "m st = (Inr x, st1)" "andthen m f st = f x st1"
    note 1 = run_holdsD[OF assms(1) m(1) I]
    have "f x st1 = (r, st')" using m(2) run by simp
    note 2 = run_holdsD[OF assms(2) this 1(1)]
    show ?thesis using 2 R_trans[OF 1(2) 2(2)] by blast
  qed
qed

lemma holds_out_raw [simp, intro]: "run_holds I R ok_stop (out_raw buf)"
  by (rule holds_quiet) (auto simp: out_raw_def intro: quietI split: if_splits)

lemma holds_out [simp, intro]: "run_holds I R ok_stop (out msg)"
  by (rule holds_quiet[OF out_quiet]) (use out_stops stops display in blast)

lemma holds_clock [simp, intro]: "run_holds I R ok_stop (clock env)" "run_holds I R ok_stop (draw_salt env)"
  by (rule holds_quiet; auto simp: clock_def draw_salt_def intro: quietI)+

lemma holds_rate_limited [simp, intro]: "run_holds I R ok_stop (rate_limited env)"
  by (rule holds_quiet) (auto simp: rate_limited_def Let_def intro: quietI)

lemma holds_send_master:
  assumes "cmd \<in> A" "cmd < 256"
  shows "run_holds I R ok_stop (send_master env cmd data)"
proof -
  have "I st' \<and> R st st' \<and> (\<forall>e. r = Inl e \<longrightarrow> ok_stop e)"
    if "andthen (get cl_pid) (\<lambda>our_pid.
           if \<not> 1 + 4 + length data \<le> MSG_MAX then halt (Crash Assert_Failed)
           else andthen (upd (write_request env (child_packet our_pid cmd data))) (\<lambda>_. poll_requests)) st = (r, st')" "I st"
    for st r st'
    using that ask[OF that(2) assms, of data r st'] quiet_step[OF that(2) quiet_refl] stops(1)[of Assert_Failed]
    by (simp split: if_splits) blast
  note inner = run_holdsI[OF this]
  show ?thesis
    unfolding send_master_def
    by (rule holds_andthen[OF holds_get holds_andthen[OF run_holds_if run_holds_if]])
      (rule holds_ret holds_rate_limited holds_out inner, assumption?)+
qed

lemmas holds_rules = holds_andthen run_holds_if run_holds_option run_holds_pair holds_ret holds_get holds_halt holds_from_res
  holds_out holds_out_raw holds_clock

text \<open>The requests of each operation.\<close>

lemma holds_requests:
  "REQ_CHANGESTATE \<in> A \<Longrightarrow> run_holds I R ok_stop (client_change_state env state)"
  "REQ_CHANGEUSER \<in> A \<Longrightarrow> run_holds I R ok_stop (client_change_user env user)"
  "REQ_SETROOM \<in> A \<Longrightarrow> run_holds I R ok_stop (client_change_room env room)"
  "REQ_MOVE \<in> A \<Longrightarrow> run_holds I R ok_stop (client_move env dir)"
  "REQ_GETROOMNAME \<in> A \<Longrightarrow> REQ_GETROOMDESC \<in> A \<Longrightarrow> run_holds I R ok_stop (client_look env)"
  "REQ_LOOKAT \<in> A \<Longrightarrow> run_holds I R ok_stop (client_look_at env obj)"
  "REQ_TAKE \<in> A \<Longrightarrow> run_holds I R ok_stop (client_take env what)"
  "REQ_PRINTINVENTORY \<in> A \<Longrightarrow> run_holds I R ok_stop (client_inventory env)"
  "REQ_DROP \<in> A \<Longrightarrow> run_holds I R ok_stop (client_drop env obj)"
  "REQ_LISTUSERS \<in> A \<Longrightarrow> run_holds I R ok_stop (client_user_list env)"
  "REQ_ADDUSERDATA \<in> A \<Longrightarrow> run_holds I R ok_stop (userdb_request_add env data)"
  "REQ_DELUSERDATA \<in> A \<Longrightarrow> run_holds I R ok_stop (userdb_request_remove env name)"
  unfolding client_change_state_def client_change_user_def client_change_room_def client_move_def client_look_def
    client_look_at_def client_take_def client_inventory_def client_drop_def client_user_list_def
    userdb_request_add_def userdb_request_remove_def
  by (intro holds_rules holds_send_master; (assumption | simp add: req_codes))+

lemma holds_lookup: "REQ_GETUSERDATA \<in> A \<Longrightarrow> run_holds I R ok_stop (userdb_request_lookup env name)"
proof -
  have u: "run_holds I R ok_stop (upd (\<lambda>st. st\<lparr>cl_reqdata := r\<rparr>))" for r
    by (rule holds_quiet) (auto intro: quietI)
  show "REQ_GETUSERDATA \<in> A \<Longrightarrow> ?thesis"
    unfolding userdb_request_lookup_def Let_def
    by (intro holds_andthen holds_send_master holds_get) (auto simp: req_codes u split: reqdata.split intro!: holds_andthen)
qed

lemma holds_accounts:
  "REQ_GETUSERDATA \<in> A \<Longrightarrow> run_holds I R ok_stop (auth_check env name pass)"
  "REQ_ADDUSERDATA \<in> A \<Longrightarrow> run_holds I R ok_stop (child_auth_user_add env name pass level)"
  "REQ_DELUSERDATA \<in> A \<Longrightarrow> run_holds I R ok_stop (child_auth_user_del env name)"
  unfolding auth_check_def child_auth_user_add_def child_add_user_internal_def child_auth_user_del_def Let_def
  by (intro holds_rules holds_lookup holds_requests; assumption)+

end

text \<open>The requests an operation sends, and the input it uses up.\<close>

lemma within_poll:
  assumes "poll_requests st = (r, st')"
  shows "within A st st'"
  using poll_requests_ok(1)[OF assms] by (auto simp: within_def quiet_def input_size_def term_ok_def)

lemma frame_within:
  assumes R: "\<And>st st'. within A st st' \<Longrightarrow> R st st'" and trans: "\<And>st st1 st2. R st st1 \<Longrightarrow> R st1 st2 \<Longrightarrow> R st st2"
  shows "client_frame env A (\<lambda>_. True) R (\<lambda>_. True)"
proof
  fix st st1 st2 :: "'a client_state"
  show "R st st1 \<Longrightarrow> R st1 st2 \<Longrightarrow> R st st2" by (rule trans)
next
  fix st st' :: "'a client_state" and cmd data r
  assume a: "cmd \<in> A" "cmd < 256"
    and p: "poll_requests (write_request env (child_packet (cl_pid st) cmd data) st) = (r, st')"
  have "within A st (write_request env (child_packet (cl_pid st) cmd data) st)"
    using a by (auto simp: write_request_def within_def input_size_def term_ok_def split: prod.splits)
  from R[OF within_trans[OF this within_poll[OF p]]] show "True \<and> R st st' \<and> (\<forall>e. r = Inl e \<longrightarrow> True)" by simp
next
  fix st st' :: "'a client_state" and ps events r
  assume e: "cl_events st = From_Master ps # events"
    and p: "poll_requests (st\<lparr>cl_events := events, cl_inbox := cl_inbox st @ ps\<rparr>) = (r, st')"
  have "within A st (st\<lparr>cl_events := events, cl_inbox := cl_inbox st @ ps\<rparr>)"
    using e by (simp add: within_def input_size_def term_ok_def)
  from R[OF within_trans[OF this within_poll[OF p]]] show "True \<and> R st st' \<and> (\<forall>e. r = Inl e \<longrightarrow> True)" by simp
next
  fix st st' :: "'a client_state"
  show "quiet st st' \<Longrightarrow> True \<and> R st st'" by (simp add: within_quiet R)
next
  fix st :: "'a client_state" and bytes events n
  assume "cl_events st = From_Client bytes # events"
  then have "within A st (st\<lparr>cl_events := (if drop n bytes = [] then events else From_Client (drop n bytes) # events)\<rparr>)"
    by (auto simp: within_def input_size_def term_ok_def)
  from R[OF this] show "True \<and> R st (st\<lparr>cl_events := (if drop n bytes = [] then events else From_Client (drop n bytes) # events)\<rparr>)"
    by simp
qed simp_all

interpretation sends: client_frame env A "\<lambda>_. True" "within A" "\<lambda>_. True" for env A
  by (rule frame_within) (assumption, rule within_trans)

section \<open>The rate limit\<close>

text \<open>Whether a request at this moment is over the limit.\<close>

definition over_limit :: "'w client_env \<Rightarrow> 'w client_state \<Rightarrow> bool" where
  "over_limit env st \<longleftrightarrow> \<not> cl_is_admin st \<and> cl_ts st = ce_time env (cl_times st) \<and> 10 < cl_reqs_since_ts st"

text \<open>The state after the account of the rate limit.\<close>

definition counted :: "'w client_env \<Rightarrow> 'w client_state \<Rightarrow> 'w client_state" where
  "counted env st =
     (if cl_is_admin st then st
      else st\<lparr>cl_times := cl_times st + 1, cl_ts := ce_time env (cl_times st),
        cl_reqs_since_ts := (if cl_ts st = ce_time env (cl_times st) then cl_reqs_since_ts st + 1 else 1)\<rparr>)"

lemma send_master_eq:
  "send_master env cmd data st =
     (if over_limit env st then out (''Rate limit exceeded.'' @ newline) (counted env st)
      else if MSG_MAX < 5 + length data then (Inl (Crash Assert_Failed), counted env st)
      else poll_requests (write_request env (child_packet (cl_pid st) cmd data) (counted env st)))"
proof (cases "cl_is_admin st")
  case True
  then show ?thesis by (auto simp: send_master_def over_limit_def counted_def not_le)
next
  case False
  have "rate_limited env st = (Inr (over_limit env st), counted env st)"
    using False by (auto simp: rate_limited_def over_limit_def counted_def Let_def)
  then show ?thesis using False by (auto simp: send_master_def not_le counted_def)
qed

lemma write_request_simps [simp]:
  "cl_sent (write_request env packet st) = cl_sent st @ [packet]" "cl_ts (write_request env packet st) = cl_ts st"
  "cl_reqs_since_ts (write_request env packet st) = cl_reqs_since_ts st" "cl_is_admin (write_request env packet st) = cl_is_admin st"
  "cl_pid (write_request env packet st) = cl_pid st" "cl_events (write_request env packet st) = cl_events st"
  "cl_reqdata (write_request env packet st) = cl_reqdata st" "cl_term (write_request env packet st) = cl_term st"
  by (simp_all add: write_request_def split: prod.splits)

lemma counted_simps [simp]:
  "cl_sent (counted env st) = cl_sent st" "cl_is_admin (counted env st) = cl_is_admin st" "cl_pid (counted env st) = cl_pid st"
  "cl_events (counted env st) = cl_events st" "cl_inbox (counted env st) = cl_inbox st" "cl_master (counted env st) = cl_master st"
  "cl_reqdata (counted env st) = cl_reqdata st" "cl_term (counted env st) = cl_term st"
  by (simp_all add: counted_def)

definition limit_account :: "'w client_state \<Rightarrow> int \<times> nat" where
  "limit_account st = (cl_ts st, cl_reqs_since_ts st)"

lemma out_account: "limit_account (snd (out msg st)) = limit_account st" "limit_account (snd (out_format data st)) = limit_account st"
  by (auto simp: out_def out_format_def Let_def limit_account_def split: option.splits sum.splits prod.splits)

lemma client_packet_account: "limit_account (snd (client_packet cmd data st)) = limit_account st"
proof -
  define q where "q m \<longleftrightarrow> limit_account (snd (m st)) = limit_account st" for m :: "(unit, 'a) run"
  have "q (andthen (out_format data) (\<lambda>_. halt (Crash Exit_Process)))"
    unfolding q_def using andthen_cases[of "out_format data" st "\<lambda>_. halt (Crash Exit_Process)"] out_account(2)[of data st]
    by (metis run_simps(2) snd_conv)
  moreover have "q (out_format data)" "q (out newline)" "q (ret ())"
    by (simp_all add: q_def out_account)
  moreover have "q (upd (\<lambda>st. st\<lparr>cl_rawmode := \<not> cl_rawmode st\<rparr>))" "q (upd (\<lambda>st. st\<lparr>cl_reqdata := r\<rparr>))" for r
    by (simp_all add: q_def limit_account_def)
  ultimately have "q (client_packet cmd data)" by (simp add: client_packet_def)
  then show ?thesis by (simp add: q_def)
qed

lemma poll_packets_account: "limit_account (snd (poll_packets packets st)) = limit_account st"
proof (induction packets arbitrary: st)
  case (Cons packet packets)
  let ?st = "st\<lparr>cl_inbox := packets\<rparr>"
  have i: "limit_account (s\<lparr>cl_inbox := p\<rparr>) = limit_account s" for s :: "'a client_state" and p by (simp add: limit_account_def)
  show ?case
  proof (cases "take MSG_MAX packet")
    case Nil
    then show ?thesis unfolding poll_packets.simps Let_def Nil list.case by (simp add: i)
  next
    case c: (Cons c data)
    obtain r st1 where p: "client_packet (code c) data ?st = (r, st1)" by fastforce
    have "limit_account st1 = limit_account st" using client_packet_account[of "code c" data ?st] p by (simp add: i)
    then show ?thesis unfolding poll_packets.simps Let_def c list.case using Cons.IH by (cases r) (simp_all add: p i)
  qed
qed (simp add: limit_account_def)

lemma poll_account:
  assumes "poll_requests st = (r, st')"
  shows "limit_account st' = limit_account st" "cl_sent st' = cl_sent st" "cl_is_admin st' = cl_is_admin st"
  using poll_packets_account[of "cl_inbox st" st] poll_requests_ok(1)[OF assms] assms
  by (simp_all add: poll_requests_def quiet_def)

text \<open>A series of requests, to see how many get through.\<close>

fun send_all :: "'w client_env \<Rightarrow> (nat \<times> string) list \<Rightarrow> (unit, 'w) run" where
  "send_all env [] = ret ()"
| "send_all env (req # reqs) = andthen (send_master env (fst req) (snd req)) (\<lambda>_. send_all env reqs)"

lemma send_all_within_limit:
  assumes "\<forall>i. ce_time env i = t" "\<not> cl_is_admin st" "send_all env reqs st = (r, st')"
  shows "length (cl_sent st') \<le> length (cl_sent st) + (11 - (if cl_ts st = t then cl_reqs_since_ts st else 0))"
  using assms(2-)
proof (induction reqs arbitrary: st)
  case (Cons req reqs)
  obtain r1 st1 where s: "send_master env (fst req) (snd req) st = (r1, st1)" by fastforce
  have acc: "limit_account (counted env st) = (t, if cl_ts st = t then cl_reqs_since_ts st + 1 else 1)"
    using assms(1) Cons.prems(1) by (simp add: counted_def limit_account_def)
  have st1: "limit_account st1 = limit_account (counted env st) \<and> \<not> cl_is_admin st1 \<and>
      length (cl_sent st1) \<le> length (cl_sent st) + (if over_limit env st then 0 else 1)"
  proof (cases "over_limit env st \<or> MSG_MAX < 5 + length (snd req)")
    case True
    then show ?thesis
      using s Cons.prems(1) out_account(1)[of "''Rate limit exceeded.'' @ newline" "counted env st"] out_quiet[of "counted env st" "''Rate limit exceeded.'' @ newline"]
      by (auto simp: send_master_eq quiet_def split: if_splits)
  next
    case False
    let ?st = "write_request env (child_packet (cl_pid st) (fst req) (snd req)) (counted env st)"
    have "poll_requests ?st = (r1, st1)" using s False by (simp add: send_master_eq)
    from poll_account[OF this] show ?thesis using Cons.prems(1) False by (simp add: limit_account_def)
  qed
  have over: "over_limit env st \<longleftrightarrow> cl_ts st = t \<and> 10 < cl_reqs_since_ts st"
    using assms(1) Cons.prems(1) by (simp add: over_limit_def)
  have run: "case r1 of Inl e \<Rightarrow> r = Inl e \<and> st' = st1 | Inr _ \<Rightarrow> send_all env reqs st1 = (r, st')"
    using Cons.prems(2) s by (cases r1) (auto simp: andthen_def)
  have "length (cl_sent st') \<le> length (cl_sent st1) + (11 - cl_reqs_since_ts st1) \<and> cl_ts st1 = t"
    using run Cons.IH[of st1] st1 acc by (cases r1) (auto simp: limit_account_def split: if_splits)
  then show ?case using st1 acc over by (auto simp: limit_account_def split: if_splits)
qed simp

text \<open>C26: a request becomes exactly one packet, with the pid of the child in front, unless the rate limit
  or the size of a packet forbids it, which stops the request or the child; and however many
  requests a user without privileges makes within one second, at most eleven packets reach the
  master.\<close>

theorem send_master_correct:
  "(over_limit env st \<longrightarrow> cl_sent (snd (send_master env cmd data st)) = cl_sent st) \<and>
   (\<not> over_limit env st \<and> 5 + length data \<le> MSG_MAX \<longrightarrow>
      cl_sent (snd (send_master env cmd data st)) = cl_sent st @ [child_packet (cl_pid st) cmd data]) \<and>
   (\<not> over_limit env st \<and> MSG_MAX < 5 + length data \<longrightarrow> fst (send_master env cmd data st) = Inl (Crash Assert_Failed)) \<and>
   ((\<forall>i. ce_time env i = t) \<and> \<not> cl_is_admin st \<longrightarrow>
      length (cl_sent (snd (send_all env reqs st))) \<le> length (cl_sent st) + 11)"
proof (intro conjI impI)
  show "cl_sent (snd (send_master env cmd data st)) = cl_sent st" if "over_limit env st"
    using that out_quiet[of "counted env st" "''Rate limit exceeded.'' @ newline"] by (simp add: send_master_eq quiet_def)
  show "cl_sent (snd (send_master env cmd data st)) = cl_sent st @ [child_packet (cl_pid st) cmd data]"
    if "\<not> over_limit env st \<and> 5 + length data \<le> MSG_MAX"
    using that poll_account(2)[OF surjective_pairing, of "write_request env (child_packet (cl_pid st) cmd data) (counted env st)"]
    by (simp add: send_master_eq)
  show "fst (send_master env cmd data st) = Inl (Crash Assert_Failed)" if "\<not> over_limit env st \<and> MSG_MAX < 5 + length data"
    using that by (simp add: send_master_eq)
  show "length (cl_sent (snd (send_all env reqs st))) \<le> length (cl_sent st) + 11" if "(\<forall>i. ce_time env i = t) \<and> \<not> cl_is_admin st"
    using send_all_within_limit[of env t st reqs, OF _ _ surjective_pairing] that by auto
qed

definition sample_env :: "unit client_env" where
  "sample_env =
     \<lparr>ce_serve = (\<lambda>packet w. ([[char_of REQ_ALLDONE]], w)), ce_time = (\<lambda>i. 5), ce_rand = (\<lambda>i. i), ce_sha = sample_sha,
      ce_ctime = (\<lambda>t. ''today'')\<rparr>"

theorem send_master_correct_witness:
  "cl_sent (snd (send_master sample_env REQ_LOOKAT ''lamp'' sample_client)) = [child_packet 77 REQ_LOOKAT ''lamp''] \<and>
   length (cl_sent (snd (send_all sample_env (replicate 50 (REQ_LOOKAT, ''lamp'')) sample_client))) \<le> 11"
  using send_master_correct[of sample_env sample_client REQ_LOOKAT "''lamp''" 5 "replicate 50 (REQ_LOOKAT, ''lamp'')"]
  by (simp add: over_limit_def sample_client_def sample_env_def MSG_MAX_def)

section \<open>Directions\<close>

lemma dir_map_ok: "\<exists>tab. dir_map = Inr tab \<and> hash_lookup tab = map_of dirs"
  unfolding dir_map_def by (rule pairs_table)

text \<open>What the names of directions mean.\<close>

definition compass :: "(string \<times> direction_t) list" where
  "compass =
     [(''N'', DIR_N), (''NE'', DIR_NE), (''E'', DIR_E), (''SE'', DIR_SE), (''S'', DIR_S), (''SW'', DIR_SW), (''W'', DIR_W),
      (''NW'', DIR_NW), (''U'', DIR_UP), (''D'', DIR_DN), (''NORTH'', DIR_N), (''NORTHEAST'', DIR_NE), (''EAST'', DIR_E),
      (''SOUTHEAST'', DIR_SE), (''SOUTH'', DIR_S), (''SOUTHWEST'', DIR_SW), (''WEST'', DIR_W), (''NORTHWEST'', DIR_NW),
      (''UP'', DIR_UP), (''DOWN'', DIR_DN), (''IN'', DIR_IN), (''OUT'', DIR_OT)]"

lemma dirs_compass: "map_of dirs = (map_of compass)(''NORTHEAST'' \<mapsto> DIR_N)"
proof -
  have "map_of dirs = map_of ((''NORTHEAST'', DIR_N) # compass)"
  proof (rule map_of_eqI)
    show "set (map fst dirs) = set (map fst ((''NORTHEAST'', DIR_N) # compass))" by code_simp
    show "\<forall>k\<in>set (map fst dirs). map_of dirs k = map_of ((''NORTHEAST'', DIR_N) # compass) k" by code_simp
  qed
  then show ?thesis by simp
qed

text \<open>One short answer, then the end.\<close>

lemma poll_answer:
  assumes "cl_inbox st = [char_of cmd # data, [char_of REQ_ALLDONE]]" "length data < MSG_MAX" "cmd < 256" "cmd \<noteq> REQ_ALLDONE"
    and "client_packet cmd data (st\<lparr>cl_inbox := [[char_of REQ_ALLDONE]]\<rparr>) = (Inr (), st1)"
  shows "poll_requests st = (Inr (), st1\<lparr>cl_inbox := []\<rparr>)"
proof -
  have t: "take MSG_MAX (char_of cmd # data) = char_of cmd # data" "take MSG_MAX [c] = [c]" for c :: char
    using assms(2) by (simp_all add: MSG_MAX_def)
  show ?thesis
    unfolding poll_requests_def assms(1) poll_packets.simps Let_def t list.case
    using assms(3-) by (simp add: req_codes)
qed

lemma poll_done: "cl_inbox st = [[char_of REQ_ALLDONE]] \<Longrightarrow> poll_requests st = (Inr (), st\<lparr>cl_inbox := []\<rparr>)"
  by (simp add: poll_requests_def MSG_MAX_def req_codes)

lemma int_bytes_length [simp]: "length (int_bytes i) = 4"
  by (simp add: int_bytes_def)

text \<open>Texts before the answer are printed, and change nothing else.\<close>

definition printable :: "string \<Rightarrow> bool" where
  "printable msg \<longleftrightarrow> length msg < MSG_MAX \<and> printf_plain (c_str msg) \<noteq> None"

lemma poll_texts:
  assumes "term_ok st" "\<forall>msg\<in>set msgs. printable msg" "cl_inbox st = map ((#) (char_of REQ_BCASTMSG)) msgs @ tail"
  shows "\<exists>w pos. poll_requests st = poll_requests (st\<lparr>cl_inbox := tail, cl_written := w, cl_pos := pos\<rparr>)"
  using assms
proof (induction msgs arbitrary: st)
  case Nil
  then have "st\<lparr>cl_inbox := tail, cl_written := cl_written st, cl_pos := cl_pos st\<rparr> = st" by simp
  then show ?case by metis
next
  case (Cons msg msgs)
  let ?rest = "map ((#) (char_of REQ_BCASTMSG)) msgs @ tail"
  let ?st = "st\<lparr>cl_inbox := ?rest\<rparr>"
  obtain plain where plain: "printf_plain (c_str msg) = Some plain" "length msg < MSG_MAX" using Cons.prems(2) by (auto simp: printable_def)
  have "term_ok ?st" using Cons.prems(1) by (simp add: term_ok_def)
  from out_ok[OF this, of plain] obtain ls rest pos where
    o: "out plain ?st = (Inr (), ?st\<lparr>cl_written := cl_written st @ lines_of ls @ rest, cl_pos := pos\<rparr>)" "pos \<le> unat (fst (cl_term st))"
    by auto
  let ?st1 = "?st\<lparr>cl_written := cl_written st @ lines_of ls @ rest, cl_pos := pos\<rparr>"
  have "client_packet REQ_BCASTMSG msg ?st = (Inr (), ?st1)" using o(1) plain(1) by (simp add: client_packet_def out_format_def req_codes)
  moreover have t: "take MSG_MAX (char_of REQ_BCASTMSG # msg) = char_of REQ_BCASTMSG # msg" using plain(2) by simp
  moreover have "cl_inbox st = (char_of REQ_BCASTMSG # msg) # ?rest" using Cons.prems(3) by simp
  ultimately have one: "poll_requests st = poll_requests ?st1"
    unfolding poll_requests_def by (simp only: poll_packets.simps t Let_def list.case) (simp add: req_codes)
  have "term_ok ?st1" using Cons.prems(1) o(2) by (simp add: term_ok_def)
  moreover have "cl_inbox ?st1 = ?rest" "\<forall>msg\<in>set msgs. printable msg" using Cons.prems(2) by simp_all
  ultimately obtain w pos where "poll_requests ?st1 = poll_requests (?st1\<lparr>cl_inbox := tail, cl_written := w, cl_pos := pos\<rparr>)"
    using Cons.IH by blast
  then show ?case using one by (intro exI[of _ w] exI[of _ pos]) simp
qed

text \<open>C29: what \<open>client_move\<close> does, on a terminal of a sound size and with nothing left in the pipe from the master. A name of a direction,
  in capitals, makes it ask the master to move that way, with one packet, and it reports what the master answers, whatever texts the master
  sends before the answer, as it does when it refuses or a hook has something to say. A name that means no direction is refused
  without a request. Two things are wrong: \<open>NORTHEAST\<close> goes north; and when the rate limit holds the request back, nothing
  is sent, but what is reported is the answer to some earlier request, so a move that worked seems to work again. The texts of the master have no conversions of
  \<open>printf\<close> but \<open>%%\<close>. The table of directions is taken to be right at each call: it points into an array on the stack of
  the first one, which later calls, all from the same place in the command loop, fill again.\<close>

theorem client_move_correct:
  assumes "term_ok st" "cl_inbox st = []"
  shows "case if dir = ''NORTHEAST'' then Some DIR_N else map_of compass dir of
      Some d \<Rightarrow>
        if over_limit env st then
          (\<exists>st'. client_move env dir st = (Inr (cl_reqdata st = TYPE_BOOLEAN True), st') \<and> cl_sent st' = cl_sent st)
        else
          let packet = child_packet (cl_pid st) REQ_MOVE (int_bytes (int (dir_num d))) in
          \<forall>msgs status w. (\<forall>msg\<in>set msgs. printable msg) \<and> fits_int status \<and> ce_serve env packet (cl_master st) =
              (map ((#) (char_of REQ_BCASTMSG)) msgs @ [char_of REQ_MOVE # int_bytes status, [char_of REQ_ALLDONE]], w) \<longrightarrow>
            (\<exists>st'. client_move env dir st = (Inr (status = 1), st') \<and> cl_sent st' = cl_sent st @ [packet] \<and>
               cl_reqdata st' = TYPE_BOOLEAN (status = 1))
    | None \<Rightarrow> client_move env dir st = andthen (out (''Unknown direction.'' @ newline)) (\<lambda>_. ret False) st \<and>
        (\<exists>st'. client_move env dir st = (Inr False, st') \<and> cl_sent st' = cl_sent st)"
proof -
  obtain tab where tab: "dir_map = Inr tab" "hash_lookup tab = map_of dirs" using dir_map_ok by blast
  have l: "hash_lookup tab dir = (if dir = ''NORTHEAST'' then Some DIR_N else map_of compass dir)"
    unfolding tab(2) dirs_compass by simp
  have prints: "\<exists>w pos. out msg s = (Inr (), s\<lparr>cl_written := w, cl_pos := pos\<rparr>)" if "term_ok s" for msg and s :: "'a client_state"
    using out_ok[OF that] by blast
  show ?thesis
  proof (cases "hash_lookup tab dir")
    case None
    then have n: "(if dir = ''NORTHEAST'' then Some DIR_N else map_of compass dir) = None" using l by simp
    have m: "client_move env dir = andthen (out (''Unknown direction.'' @ newline)) (\<lambda>_. ret False)"
      unfolding client_move_def from_res_def tab(1) sum.case andthen_simps(1) None option.case ..
    obtain w pos where "out (''Unknown direction.'' @ newline) st = (Inr (), st\<lparr>cl_written := w, cl_pos := pos\<rparr>)" using prints[OF assms(1)] by blast
    then show ?thesis unfolding n option.case m by simp
  next
    case (Some d)
    have m: "client_move env dir = andthen (send_master env REQ_MOVE (int_bytes (int (dir_num d)))) (\<lambda>_. get (\<lambda>st. cl_reqdata st = TYPE_BOOLEAN True))"
      unfolding client_move_def from_res_def tab(1) sum.case andthen_simps(1) Some option.case ..
    have s: "(if dir = ''NORTHEAST'' then Some DIR_N else map_of compass dir) = Some d" using Some l by simp
    let ?packet = "child_packet (cl_pid st) REQ_MOVE (int_bytes (int (dir_num d)))"
    have ok: "term_ok (counted env st)" using assms(1) by (simp add: term_ok_def counted_def)
    show ?thesis
    proof (cases "over_limit env st")
      case True
      obtain w pos where "out (''Rate limit exceeded.'' @ newline) (counted env st) = (Inr (), (counted env st)\<lparr>cl_written := w, cl_pos := pos\<rparr>)"
        using prints[OF ok] by blast
      then have "client_move env dir st = (Inr (cl_reqdata st = TYPE_BOOLEAN True), (counted env st)\<lparr>cl_written := w, cl_pos := pos\<rparr>)"
        unfolding m by (simp add: send_master_eq True)
      then show ?thesis unfolding s option.case if_P[OF True] by simp
    next
      case False
      have "\<exists>st'. client_move env dir st = (Inr (status = 1), st') \<and> cl_sent st' = cl_sent st @ [?packet] \<and> cl_reqdata st' = TYPE_BOOLEAN (status = 1)"
        if msgs: "\<forall>msg\<in>set msgs. printable msg" and fits: "fits_int status" and answer: "ce_serve env ?packet (cl_master st) =
            (map ((#) (char_of REQ_BCASTMSG)) msgs @ [char_of REQ_MOVE # int_bytes status, [char_of REQ_ALLDONE]], w)" for msgs status w
      proof -
        let ?st = "write_request env ?packet (counted env st)"
        have inbox: "cl_inbox ?st = map ((#) (char_of REQ_BCASTMSG)) msgs @ [char_of REQ_MOVE # int_bytes status, [char_of REQ_ALLDONE]]"
          using answer assms(2) by (simp add: write_request_def)
        have "cl_pos ?st = cl_pos (counted env st)" by (simp add: write_request_def split: prod.splits)
        then have "term_ok ?st" using ok by (simp add: term_ok_def)
        from poll_texts[OF this msgs inbox] obtain out pos where
          texts: "poll_requests ?st = poll_requests (?st\<lparr>cl_inbox := [char_of REQ_MOVE # int_bytes status, [char_of REQ_ALLDONE]], cl_written := out, cl_pos := pos\<rparr>)"
          by blast
        let ?after = "?st\<lparr>cl_inbox := [char_of REQ_MOVE # int_bytes status, [char_of REQ_ALLDONE]], cl_written := out, cl_pos := pos\<rparr>"
        let ?st1 = "?after\<lparr>cl_inbox := [[char_of REQ_ALLDONE]], cl_reqdata := TYPE_BOOLEAN (status = 1)\<rparr>"
        have "client_packet REQ_MOVE (int_bytes status) (?after\<lparr>cl_inbox := [[char_of REQ_ALLDONE]]\<rparr>) = (Inr (), ?st1)"
          using fits by (simp add: client_packet_def req_codes char_array_def)
        then have "poll_requests ?after = (Inr (), ?st1\<lparr>cl_inbox := []\<rparr>)"
          by (intro poll_answer[where cmd = REQ_MOVE and data = "int_bytes status"]) (simp_all add: req_codes MSG_MAX_def)
        then have poll: "poll_requests ?st = (Inr (), ?st1\<lparr>cl_inbox := []\<rparr>)" using texts by argo
        have "send_master env REQ_MOVE (int_bytes (int (dir_num d))) st = (Inr (), ?st1\<lparr>cl_inbox := []\<rparr>)"
          using False poll by (simp add: send_master_eq MSG_MAX_def)
        then have "client_move env dir st = (Inr (status = 1), ?st1\<lparr>cl_inbox := []\<rparr>)" unfolding m by simp
        then show ?thesis by simp
      qed
      then show ?thesis unfolding s option.case if_not_P[OF False] Let_def by blast
    qed
  qed
qed

theorem client_move_correct_witness:
  "(\<exists>st'. client_move (sample_env\<lparr>ce_serve := \<lambda>packet w.
        ([char_of REQ_BCASTMSG # ''You cannot go that way.'', char_of REQ_MOVE # int_bytes 0, [char_of REQ_ALLDONE]], w)\<rparr>) ''NORTHEAST'' sample_client =
      (Inr False, st') \<and> cl_sent st' = [child_packet 77 REQ_MOVE (int_bytes (int (dir_num DIR_N)))]) \<and>
   fst (client_move (sample_env\<lparr>ce_time := \<lambda>_. 5\<rparr>) ''UP'' (sample_client\<lparr>cl_ts := 5, cl_reqs_since_ts := 11, cl_reqdata := TYPE_BOOLEAN True\<rparr>)) = Inr True"
proof
  let ?env = "sample_env\<lparr>ce_serve := \<lambda>packet w.
    ([char_of REQ_BCASTMSG # ''You cannot go that way.'', char_of REQ_MOVE # int_bytes 0, [char_of REQ_ALLDONE]], w)\<rparr>"
  have h: "\<not> over_limit ?env sample_client" "cl_inbox sample_client = []" "cl_sent sample_client = []" "cl_pid sample_client = 77" "fits_int 0"
    "term_ok sample_client"
    by (simp_all add: over_limit_def sample_client_def fits_int_def term_ok_def OUT_BUF_def)
  have p: "\<forall>msg\<in>set [''You cannot go that way.'']. printable msg"
  proof -
    have "printf_plain (c_str ''You cannot go that way.'') \<noteq> None" by code_simp
    then show ?thesis by (simp add: printable_def MSG_MAX_def)
  qed
  show "\<exists>st'. client_move ?env ''NORTHEAST'' sample_client =
      (Inr False, st') \<and> cl_sent st' = [child_packet 77 REQ_MOVE (int_bytes (int (dir_num DIR_N)))]"
    using client_move_correct[OF h(6,2), where dir = "''NORTHEAST''" and env = ?env, unfolded if_P[OF refl] option.case if_not_P[OF h(1)] Let_def,
        rule_format, of "[''You cannot go that way.'']" 0 "cl_master sample_client"] p h(3-5)
    by auto
  let ?st = "sample_client\<lparr>cl_ts := 5, cl_reqs_since_ts := 11, cl_reqdata := TYPE_BOOLEAN True\<rparr>"
  have late: "over_limit (sample_env\<lparr>ce_time := \<lambda>_. 5\<rparr>) ?st" "term_ok ?st" "cl_inbox ?st = []"
    by (simp_all add: over_limit_def sample_client_def term_ok_def OUT_BUF_def)
  have up: "(if ''UP'' = ''NORTHEAST'' then Some DIR_N else map_of compass ''UP'') = Some DIR_UP" by code_simp
  show "fst (client_move (sample_env\<lparr>ce_time := \<lambda>_. 5\<rparr>) ''UP'' ?st) = Inr True"
    using client_move_correct[OF late(2,3), where dir = "''UP''" and env = "sample_env\<lparr>ce_time := \<lambda>_. 5\<rparr>"] unfolding up option.case if_P[OF late(1)] by auto
qed

section \<open>Looking up an account\<close>

text \<open>
  What \<open>auth_check\<close> concludes from the answer: with a record, the password decides; without
  one, a record that an earlier request left behind is taken for the answer.
\<close>

lemma auth_check_answers:
  assumes "\<not> over_limit env st" "cl_inbox st = []" "length (remove_cruft name) \<le> MSG_MAX - 6"
    and serve: "ce_serve env (child_packet (cl_pid st) REQ_GETUSERDATA (remove_cruft name @ [NUL])) (cl_master st) = (answer, w)"
  shows "userdata_fits ud \<Longrightarrow> answer = [char_of REQ_GETUSERDATA # userdata_bytes ud, [char_of REQ_ALLDONE]] \<Longrightarrow>
      fst (auth_check env name pass st) = Inr (if password_ok (ce_sha env) ud (remove_cruft pass) then Some (ud\<lparr>ud_objects := None\<rparr>) else None)"
    "answer = [[char_of REQ_ALLDONE]] \<Longrightarrow>
      fst (auth_check env name pass st) =
        Inr (case cl_reqdata st of
               TYPE_USERDATA old \<Rightarrow> if password_ok (ce_sha env) old (remove_cruft pass) then Some (old\<lparr>ud_objects := None\<rparr>) else None
             | _ \<Rightarrow> None)"
proof -
  let ?st = "write_request env (child_packet (cl_pid st) REQ_GETUSERDATA (remove_cruft name @ [NUL])) (counted env st)"
  have send: "send_master env REQ_GETUSERDATA (remove_cruft name @ [NUL]) st = poll_requests ?st"
    using assms(1,3) by (simp add: send_master_eq MSG_MAX_def)
  have inbox: "cl_inbox ?st = answer" using serve assms(2) by (simp add: write_request_def)
  have objs: "password_ok sha (u\<lparr>ud_objects := q\<rparr>) p = password_ok sha u p" for sha u q p
    by (simp add: password_ok_def)
  {
    assume fits: "userdata_fits ud" and a: "answer = [char_of REQ_GETUSERDATA # userdata_bytes ud, [char_of REQ_ALLDONE]]"
    let ?st1 = "?st\<lparr>cl_inbox := [[char_of REQ_ALLDONE]], cl_reqdata := TYPE_USERDATA ud\<rparr>"
    have b: "length (userdata_bytes ud) = USERDATA_SIZE" "userdata_parse (userdata_bytes ud) = ud"
      using userdata_round_trip_ok[OF fits] by simp_all
    have "client_packet REQ_GETUSERDATA (userdata_bytes ud) (?st\<lparr>cl_inbox := [[char_of REQ_ALLDONE]]\<rparr>) = (Inr (), ?st1)"
      using b by (simp add: client_packet_def req_codes)
    from poll_answer[OF inbox[unfolded a] _ _ _ this] b(1) have "poll_requests ?st = (Inr (), ?st1\<lparr>cl_inbox := []\<rparr>)"
      by (simp add: req_codes MSG_MAX_def USERDATA_SIZE_def)
    then show "fst (auth_check env name pass st) = Inr (if password_ok (ce_sha env) ud (remove_cruft pass) then Some (ud\<lparr>ud_objects := None\<rparr>) else None)"
      using send by (simp add: auth_check_def userdb_request_lookup_def andthen_assoc objs Let_def)
  }
  {
    assume "answer = [[char_of REQ_ALLDONE]]"
    then have "poll_requests ?st = (Inr (), ?st\<lparr>cl_inbox := []\<rparr>)" using poll_done inbox by simp
    then show "fst (auth_check env name pass st) =
        Inr (case cl_reqdata st of
               TYPE_USERDATA old \<Rightarrow> if password_ok (ce_sha env) old (remove_cruft pass) then Some (old\<lparr>ud_objects := None\<rparr>) else None
             | _ \<Rightarrow> None)"
      using send by (cases "cl_reqdata st") (simp_all add: auth_check_def userdb_request_lookup_def andthen_assoc objs Let_def)
  }
qed

end
