(* ===== verification/Nc_Client.thy ===== *)
theory Nc_Client
  imports Nc_Client_Reqs
begin

text \<open>
  The process of one client (\<open>src/client.c\<close>): reading from the player, the commands, the login
  and the command loop. What a command still has to read of its line, which the code keeps in
  \<open>save\<close>, is an argument.
\<close>

section \<open>Reading from the player\<close>

definition CLIENT_READ_SZ :: nat where "CLIENT_READ_SZ = 128"

lemma take_input:
  assumes "cl_events st = From_Client bytes # events" "take n bytes \<noteq> []"
  shows "input_size (st\<lparr>cl_events := (if drop n bytes = [] then events else From_Client (drop n bytes) # events)\<rparr>) < input_size st"
  using assms by (cases n; cases bytes) (auto simp: input_size_def)

lemma take_input_le:
  assumes "cl_events st = From_Client bytes # events"
  shows "input_size (st\<lparr>cl_events := (if drop n bytes = [] then events else From_Client (drop n bytes) # events)\<rparr>) \<le> input_size st"
  using assms by (simp add: input_size_def)

lemma within_input: "within A st st' \<Longrightarrow> input_size st' \<le> input_size st"
  by (simp add: within_def)

lemma poll_input: "poll_requests st = (r, st') \<Longrightarrow> input_size st' \<le> input_size st"
  using within_input within_poll by metis

lemma input_size_term [simp]: "input_size (st\<lparr>cl_term := sz\<rparr>) = input_size st"
  by (simp add: input_size_def)

text \<open>
  \<open>client_read\<close>. A \<open>read\<close> takes what fits in the buffer and leaves the rest; with a full buffer
  it takes nothing, which counts as the end of the connection, as no bytes do.
\<close>

function client_read_loop :: "string \<Rightarrow> (string, 'w) run" where
  "client_read_loop buf st =
     (case cl_events st of
        [] \<Rightarrow> (Inl Waits_Client, st)
      | From_Master packets # events \<Rightarrow>
          (case poll_requests (st\<lparr>cl_events := events, cl_inbox := cl_inbox st @ packets\<rparr>) of
             (Inl e, st') \<Rightarrow> (Inl e, st')
           | (Inr _, st') \<Rightarrow> client_read_loop buf st')
      | From_Client bytes # events \<Rightarrow>
          let n = CLIENT_READ_SZ - length buf - 1; data = take n bytes; left = drop n bytes;
              st = st\<lparr>cl_events := (if left = [] then events else From_Client left # events)\<rparr> in
          if data = [] then (Inl (Crash (Error ''lost connection'')), st)
          else
            (case telnet_parse_data (cl_term st) data of
               Inl e \<Rightarrow> (Inl (Crash e), st)
             | Inr (status, data, sz) \<Rightarrow>
                 let st = st\<lparr>cl_term := sz\<rparr> in
                 (case status of
                    TELNET_EXIT \<Rightarrow> (Inl (Crash Exit_Process), st)
                  | TELNET_FOUNDCMD \<Rightarrow> client_read_loop [] st
                  | TELNET_DATA \<Rightarrow> client_read_loop (buf @ data) st
                  | TELNET_LINEOVER \<Rightarrow> (Inr (remove_cruft (c_str (buf @ data))), st))))"
  by pat_completeness auto

termination
proof (relation "measure (\<lambda>(_, st). input_size st)", goal_cases)
  case (2 buf st e events packets x st')
  have "input_size st' \<le> input_size (st\<lparr>cl_events := events, cl_inbox := cl_inbox st @ packets\<rparr>)"
    using poll_input 2(3) by metis
  then show ?case using 2(1,2) by (simp add: input_size_def)
next
  case (3 buf st e events bytes n data left st1 b status y d sz st2)
  have "input_size st1 < input_size st"
    unfolding 3(6) unfolding 3(5) by (rule take_input) (use 3(1,2,4,7) in simp_all)
  then show ?case using 3(11) by simp
next
  case (4 buf st e events bytes n data left st1 b status y d sz st2)
  have "input_size st1 < input_size st"
    unfolding 4(6) unfolding 4(5) by (rule take_input) (use 4(1,2,4,7) in simp_all)
  then show ?case using 4(11) by simp
qed simp

declare client_read_loop.simps [simp del]

definition client_read :: "(string, 'w) run" where
  "client_read = client_read_loop []"

definition client_read_password :: "(string, 'w) run" where
  "client_read_password =
     andthen (out_raw telnet_echo_off_seq) (\<lambda>_.
     andthen client_read (\<lambda>s.
     andthen (out_raw telnet_echo_on_seq) (\<lambda>_.
     andthen (out newline) (\<lambda>_. ret s))))"

section \<open>Commands\<close>

datatype cmd_result = CMD_OK | CMD_LOGOUT | CMD_QUIT

definition WSPACE :: string where "WSPACE = '' '' @ [char_of (9::nat)] @ crlf"

definition outln :: "string \<Rightarrow> (unit, 'w) run" where
  "outln msg = out (msg @ newline)"

text \<open>\<open>current_user\<close> where it is used as a string.\<close>

definition current_user :: "(string, 'w) run" where
  "current_user = andthen (get cl_user) (\<lambda>u. case u of None \<Rightarrow> halt (Crash Null_Deref) | Some user \<Rightarrow> ret user)"

definition done_ok :: "(unit, 'w) run \<Rightarrow> (cmd_result, 'w) run" where
  "done_ok m = andthen m (\<lambda>_. ret CMD_OK)"

definition user_del :: "'w client_env \<Rightarrow> string option \<Rightarrow> (unit, 'w) run" where
  "user_del env user =
     (case user of
        None \<Rightarrow> outln ''Usage: USER DEL <USERNAME>''
      | Some user \<Rightarrow>
          andthen current_user (\<lambda>current.
          andthen (if strcmp user current \<noteq> 0 then child_auth_user_del env user else ret False) (\<lambda>success.
            outln (if success then ''Success.'' else ''Failure.''))))"

definition user_modify :: "'w client_env \<Rightarrow> string option \<Rightarrow> (unit, 'w) run" where
  "user_modify env user =
     (case user of
        None \<Rightarrow> outln ''Usage: USER <ADD|MODIFY> <USERNAME>''
      | Some user \<Rightarrow>
          andthen current_user (\<lambda>current.
          if strcmp user current = 0 then outln ''Do not modify your own password using USER. User CHPASS instead.''
          else
            andthen (outln (''Editing user '' @ [CHR 0x27] @ user @ [CHR 0x27])) (\<lambda>_.
            andthen (out ''New Password (_DO_NOT_USE_A_VALUABLE_PASSWORD_): '') (\<lambda>_.
            andthen client_read_password (\<lambda>pass.
            andthen (out ''Verify Password: '') (\<lambda>_.
            andthen client_read_password (\<lambda>pass2.
            if strcmp pass pass2 \<noteq> 0 then outln ''Failure.''
            else
              andthen (out ''Admin privileges [y/N]? '') (\<lambda>_.
              andthen client_read (\<lambda>allow_admin.
              let priv = (case allow_admin of [] \<Rightarrow> PRIV_USER | c # _ \<Rightarrow> if toupper c = CHR ''Y'' then PRIV_ADMIN else PRIV_USER) in
              andthen (child_auth_user_add env user pass priv) (\<lambda>success.
                outln (if success then ''Success.'' else ''Failure.'')))))))))))"

definition user_cb :: "'w client_env \<Rightarrow> string \<Rightarrow> (cmd_result, 'w) run" where
  "user_cb env save =
     done_ok
       (case strtok_r WSPACE save of
          (None, _) \<Rightarrow> outln ''Usage: USER <ADD|DEL|MODIFY|LIST> <ARGS>''
        | (Some what, save) \<Rightarrow>
            let what = all_upper what in
            if strcmp what ''DEL'' = 0 then user_del env (fst (strtok_r WSPACE save))
            else if strcmp what ''ADD'' = 0 \<or> strcmp what ''MODIFY'' = 0 then user_modify env (fst (strtok_r WSPACE save))
            else if strcmp what ''LIST'' = 0 then client_user_list env
            else outln ''Usage: USER <ADD|DEL|MODIFY|LIST> <ARGS>'')"

text \<open>\<open>strtol\<close> with base 0, without the limits of \<open>long\<close>: the value and what \<open>end\<close> points to.\<close>

definition digit_value :: "char \<Rightarrow> nat" where
  "digit_value c =
     (if isdigit c then code c - 48 else if isalpha c then code (tolower c) - 87 else 36)"

fun digits_base :: "nat \<Rightarrow> int \<Rightarrow> string \<Rightarrow> int \<times> string" where
  "digits_base base acc [] = (acc, [])"
| "digits_base base acc (c # s) =
     (if digit_value c < base then digits_base base (acc * int base + int (digit_value c)) s else (acc, c # s))"

definition strtol0 :: "string \<Rightarrow> int \<times> string" where
  "strtol0 str =
     (let s = dropWhile isspace str;
          (neg, s) = (case s of c # t \<Rightarrow> if c = CHR ''-'' then (True, t) else if c = CHR ''+'' then (False, t) else (False, s)
                      | [] \<Rightarrow> (False, s));
          (base, s) =
            (case s of
               c # x # d # t \<Rightarrow> if c = CHR ''0'' \<and> tolower x = CHR ''x'' \<and> digit_value d < 16 then (16, d # t)
                               else if c = CHR ''0'' then (8, s) else (10, s)
             | c # t \<Rightarrow> if c = CHR ''0'' then (8, s) else (10, s)
             | [] \<Rightarrow> (10, s)) in
      case s of
        [] \<Rightarrow> (0, str)
      | c # _ \<Rightarrow> if digit_value c < base then (let (v, rest) = digits_base base 0 s in (if neg then - v else v, rest)) else (0, str))"

definition client_kick :: "'w client_env \<Rightarrow> string option \<Rightarrow> (unit, 'w) run" where
  "client_kick env pid_s =
     (case pid_s of
        None \<Rightarrow> outln ''Usage: CLIENT KICK <PID|ALL>''
      | Some pid_s \<Rightarrow>
          let pid_s = all_upper pid_s in
          if strcmp pid_s ''ALL'' = 0 then
            andthen (send_master env REQ_KICKALL (''Kicking everyone...'' @ newline)) (\<lambda>_. outln ''All clients kicked.'')
          else
            let (v, rest) = strtol0 pid_s; pid = sint (word_of_int v :: u32) in
            andthen (get cl_pid) (\<lambda>our_pid.
              if pid = our_pid then outln ''You cannot kick yourself. Use EXIT instead.''
              else if rest \<noteq> [] then outln ''Expected a child PID after KICK.''
              else send_master env REQ_KICK (int_bytes pid @ ''You were kicked.'' @ newline)))"

definition client_cb :: "'w client_env \<Rightarrow> string \<Rightarrow> (cmd_result, 'w) run" where
  "client_cb env save =
     done_ok
       (case strtok_r WSPACE save of
          (None, _) \<Rightarrow> outln ''Usage: CLIENT <LIST|KICK> <PID>''
        | (Some what, save) \<Rightarrow>
            let what = all_upper what in
            if strcmp what ''LIST'' = 0 then send_master env REQ_LISTCLIENTS []
            else if strcmp what ''KICK'' = 0 then client_kick env (fst (strtok_r WSPACE save))
            else ret ())"

definition quit_cb :: "'w client_env \<Rightarrow> string \<Rightarrow> (cmd_result, 'w) run" where
  "quit_cb env save = ret CMD_QUIT"

text \<open>A NULL prints as \<open>(null)\<close> in the C library of the program.\<close>

definition say_cb :: "'w client_env \<Rightarrow> string \<Rightarrow> (cmd_result, 'w) run" where
  "say_cb env save =
     andthen current_user (\<lambda>user.
       let what = (case fst (strtok_r [] save) of None \<Rightarrow> ''(null)'' | Some what \<Rightarrow> what) in
       done_ok (send_master env REQ_BCASTMSG (user @ '' says '' @ what @ newline)))"

definition date_cb :: "'w client_env \<Rightarrow> string \<Rightarrow> (cmd_result, 'w) run" where
  "date_cb env save = andthen (clock env) (\<lambda>t. done_ok (out (ce_ctime env t)))"

definition logout_cb :: "'w client_env \<Rightarrow> string \<Rightarrow> (cmd_result, 'w) run" where
  "logout_cb env save =
     andthen (outln ''Logged out.'') (\<lambda>_. andthen (out_raw telnet_clear_seq) (\<lambda>_. ret CMD_LOGOUT))"

definition look_cb :: "'w client_env \<Rightarrow> string \<Rightarrow> (cmd_result, 'w) run" where
  "look_cb env save =
     done_ok (case fst (strtok_r [] save) of None \<Rightarrow> client_look env | Some what \<Rightarrow> client_look_at env what)"

definition inventory_cb :: "'w client_env \<Rightarrow> string \<Rightarrow> (cmd_result, 'w) run" where
  "inventory_cb env save = done_ok (client_inventory env)"

definition take_cb :: "'w client_env \<Rightarrow> string \<Rightarrow> (cmd_result, 'w) run" where
  "take_cb env save = done_ok (client_take env (fst (strtok_r [] save)))"

definition wait_cb :: "'w client_env \<Rightarrow> string \<Rightarrow> (cmd_result, 'w) run" where
  "wait_cb env save = done_ok (send_master env REQ_WAIT [])"

definition go_cb :: "'w client_env \<Rightarrow> string \<Rightarrow> (cmd_result, 'w) run" where
  "go_cb env save =
     done_ok
       (case fst (strtok_r WSPACE save) of
          Some dir \<Rightarrow> andthen (client_move env (all_upper dir)) (\<lambda>moved. if moved then client_look env else ret ())
        | None \<Rightarrow> outln (''I don'' @ [CHR 0x27] @ ''t understand where you want me to go.''))"

definition drop_cb :: "'w client_env \<Rightarrow> string \<Rightarrow> (cmd_result, 'w) run" where
  "drop_cb env save =
     done_ok
       (case fst (strtok_r [] save) of
          Some what \<Rightarrow> client_drop env what
        | None \<Rightarrow> outln ''You must supply an object.'')"

definition chpass_cb :: "'w client_env \<Rightarrow> string \<Rightarrow> (cmd_result, 'w) run" where
  "chpass_cb env save =
     done_ok
       (andthen current_user (\<lambda>user.
        andthen (outln (''Changing password for '' @ user)) (\<lambda>_.
        andthen (out ''Enter current password: '') (\<lambda>_.
        andthen client_read_password (\<lambda>current.
        andthen (auth_check env user current) (\<lambda>current_data.
        case current_data of
          None \<Rightarrow> outln ''Authentication failed.''
        | Some current_data \<Rightarrow>
            andthen (out ''Enter new password: '') (\<lambda>_.
            andthen client_read_password (\<lambda>pass1.
            andthen (out ''Retype new password: '') (\<lambda>_.
            andthen client_read_password (\<lambda>pass2.
            if strcmp pass1 pass2 \<noteq> 0 then outln ''Passwords do not match.''
            else
              andthen (child_auth_user_add env user pass1 (ud_priv current_data)) (\<lambda>_.
                outln ''Password updated.'')))))))))))"

section \<open>The command loop\<close>

record 'w client_cmd =
  cc_cmd :: string
  cc_cb :: "string \<Rightarrow> (cmd_result, 'w) run"
  cc_admin_only :: bool

definition cmds :: "'w client_env \<Rightarrow> 'w client_cmd list" where
  "cmds env =
     [\<lparr>cc_cmd = ''USER'', cc_cb = user_cb env, cc_admin_only = True\<rparr>,
      \<lparr>cc_cmd = ''CLIENT'', cc_cb = client_cb env, cc_admin_only = True\<rparr>,
      \<lparr>cc_cmd = ''EXIT'', cc_cb = quit_cb env, cc_admin_only = False\<rparr>,
      \<lparr>cc_cmd = ''QUIT'', cc_cb = quit_cb env, cc_admin_only = False\<rparr>,
      \<lparr>cc_cmd = ''SAY'', cc_cb = say_cb env, cc_admin_only = False\<rparr>,
      \<lparr>cc_cmd = ''DATE'', cc_cb = date_cb env, cc_admin_only = False\<rparr>,
      \<lparr>cc_cmd = ''LOGOUT'', cc_cb = logout_cb env, cc_admin_only = False\<rparr>,
      \<lparr>cc_cmd = ''LOOK'', cc_cb = look_cb env, cc_admin_only = False\<rparr>,
      \<lparr>cc_cmd = ''INVENTORY'', cc_cb = inventory_cb env, cc_admin_only = False\<rparr>,
      \<lparr>cc_cmd = ''TAKE'', cc_cb = take_cb env, cc_admin_only = False\<rparr>,
      \<lparr>cc_cmd = ''WAIT'', cc_cb = wait_cb env, cc_admin_only = True\<rparr>,
      \<lparr>cc_cmd = ''GO'', cc_cb = go_cb env, cc_admin_only = False\<rparr>,
      \<lparr>cc_cmd = ''DROP'', cc_cb = drop_cb env, cc_admin_only = False\<rparr>,
      \<lparr>cc_cmd = ''CHPASS'', cc_cb = chpass_cb env, cc_admin_only = False\<rparr>]"

text \<open>\<open>client_init\<close>: the map from names to entries.\<close>

definition cmd_map :: "'w client_env \<Rightarrow> (string, 'w client_cmd, unit) hash_map res" where
  "cmd_map env =
     hash_insert_pairs (hash_init (length (cmds env)) hash_djb compare_strings) (map (\<lambda>cmd. (cc_cmd cmd, cmd)) (cmds env))"

definition exec_verb :: "'w client_env \<Rightarrow> string \<Rightarrow> (cmd_result, 'w) run" where
  "exec_verb env orig = done_ok (send_master env REQ_EXECVERB (orig @ [NUL]))"

text \<open>What is done with a line.\<close>

definition client_command :: "'w client_env \<Rightarrow> string \<Rightarrow> (cmd_result, 'w) run" where
  "client_command env line =
     andthen (get cl_rawmode) (\<lambda>rawmode.
     if rawmode then exec_verb env line
     else
       case strtok_r WSPACE line of
         (None, _) \<Rightarrow> ret CMD_OK
       | (Some tok, save) \<Rightarrow>
           andthen (from_res (cmd_map env)) (\<lambda>tab.
           andthen (get cl_is_admin) (\<lambda>are_admin.
           case hash_lookup tab (all_upper tok) of
             Some cmd \<Rightarrow>
               if \<not> cc_admin_only cmd \<or> (cc_admin_only cmd \<and> are_admin) then cc_cb cmd save
               else andthen (outln ''You are not allowed to do that.'') (\<lambda>_. ret CMD_OK)
           | None \<Rightarrow> exec_verb env line)))"

text \<open>One round of the loop.\<close>

definition command_round :: "'w client_env \<Rightarrow> (cmd_result, 'w) run" where
  "command_round env =
     andthen (get cl_rawmode) (\<lambda>rawmode.
     andthen (if rawmode then ret () else out ''>> '') (\<lambda>_.
     andthen client_read (client_command env)))"

section \<open>Logging in\<close>

definition MAX_FAILURES :: nat where "MAX_FAILURES = 3"

text \<open>One round of the login loop: asking for the name and the password, and what follows.\<close>

definition login_check :: "'w client_env \<Rightarrow> (userdata_t option, 'w) run" where
  "login_check env =
     andthen (out ''login: '') (\<lambda>_.
     andthen client_read (\<lambda>line.
     let user = remove_cruft line in
     andthen (upd (\<lambda>st. st\<lparr>cl_user := Some user\<rparr>)) (\<lambda>_.
     andthen (out ''Password: '') (\<lambda>_.
     andthen client_read_password (\<lambda>pass.
     andthen (client_change_state env STATE_CHECKING) (\<lambda>_. auth_check env user pass))))))"

definition login_failed :: "'w client_env \<Rightarrow> (int option, 'w) run" where
  "login_failed env =
     andthen (client_change_state env STATE_FAILED) (\<lambda>_.
     andthen (upd (\<lambda>st. st\<lparr>cl_user := None\<rparr>)) (\<lambda>_.
     andthen (outln (''Login incorrect'' @ newline)) (\<lambda>_. ret None)))"

definition login_attempt :: "'w client_env \<Rightarrow> (int option, 'w) run" where
  "login_attempt env =
     andthen (login_check env) (\<lambda>current_data.
     case current_data of
       None \<Rightarrow> login_failed env
     | Some current_data \<Rightarrow>
         andthen (out (''Last login: '' @ ce_ctime env (ud_last_login current_data))) (\<lambda>_.
         andthen (clock env) (\<lambda>now.
         andthen (userdb_request_add env (current_data\<lparr>ud_last_login := now\<rparr>)) (\<lambda>_.
           ret (Some (ud_priv current_data))))))"

text \<open>The login loop, which gives up after \<open>MAX_FAILURES\<close> failures.\<close>

function login_loop :: "'w client_env \<Rightarrow> nat \<Rightarrow> (int option, 'w) run" where
  "login_loop env failures st =
     (case login_attempt env st of
        (Inl e, st') \<Rightarrow> (Inl e, st')
      | (Inr (Some authlevel), st') \<Rightarrow> (Inr (Some authlevel), st')
      | (Inr None, st') \<Rightarrow> if failures + 1 \<ge> MAX_FAILURES then (Inr None, st') else login_loop env (failures + 1) st')"
  by pat_completeness auto
termination
  by (relation "measure (\<lambda>(_, failures, _). MAX_FAILURES - failures)") auto

declare login_loop.simps [simp del]

text \<open>\<open>printf\<close> of the number of clients, and what follows a login.\<close>

definition greeting :: "'w client_env \<Rightarrow> int \<Rightarrow> (unit, 'w) run" where
  "greeting env n_clients =
     andthen (outln ''NetCosm 0.5.2'') (\<lambda>_.
     andthen (outln (decimal_int n_clients @ (if n_clients > 1 then '' clients connected.'' else '' client connected.''))) (\<lambda>_.
     andthen (out (newline @ ''Please authenticate to continue.'' @ newline @ newline)) (\<lambda>_.
       client_change_state env STATE_AUTH)))"

definition enter_game :: "'w client_env \<Rightarrow> int \<Rightarrow> (bool, 'w) run" where
  "enter_game env authlevel =
     (if authlevel = PRIV_NONE then ret False
      else
        let are_admin = (authlevel = PRIV_ADMIN) in
        andthen (upd (\<lambda>st. st\<lparr>cl_is_admin := are_admin\<rparr>)) (\<lambda>_.
        andthen (client_change_state env (if are_admin then STATE_ADMIN else STATE_LOGGEDIN)) (\<lambda>_.
        andthen current_user (\<lambda>user.
        andthen (client_change_user env user) (\<lambda>_.
        andthen (upd (\<lambda>st. st\<lparr>cl_room := 0\<rparr>)) (\<lambda>_.
        andthen (client_change_room env 0) (\<lambda>_.
        andthen (client_look env) (\<lambda>_. ret True))))))))"

text \<open>From \<open>auth:\<close> to the command loop; false when \<open>client_main\<close> returns.\<close>

definition login :: "'w client_env \<Rightarrow> int \<Rightarrow> (bool, 'w) run" where
  "login env n_clients =
     andthen (greeting env n_clients) (\<lambda>_.
     andthen (login_loop env 0) (\<lambda>authlevel.
       case authlevel of None \<Rightarrow> ret False | Some authlevel \<Rightarrow> enter_game env authlevel))"

section \<open>Lemmas\<close>

text \<open>One step of the reading loop.\<close>

lemma client_read_loop_step:
  assumes "client_read_loop buf st = (r, st')"
  obtains (none) "cl_events st = []" "r = Inl Waits_Client" "st' = st"
  | (master) ps events r1 st1 where "cl_events st = From_Master ps # events"
      "poll_requests (st\<lparr>cl_events := events, cl_inbox := cl_inbox st @ ps\<rparr>) = (r1, st1)"
      "case r1 of Inl e \<Rightarrow> r = Inl e \<and> st' = st1 | Inr _ \<Rightarrow> client_read_loop buf st1 = (r, st')"
  | (client) bytes events n st1 where "cl_events st = From_Client bytes # events"
      "st1 = st\<lparr>cl_events := (if drop n bytes = [] then events else From_Client (drop n bytes) # events)\<rparr>"
      "(\<exists>c. r = Inl (Crash c)) \<and> st' = st1 \<or>
       take n bytes \<noteq> [] \<and> ((\<exists>line. r = Inr line) \<and> st' = st1 \<or> (\<exists>buf'. client_read_loop buf' st1 = (r, st')))"
proof (cases "cl_events st")
  case Nil
  then have "client_read_loop buf st = (Inl Waits_Client, st)" by (subst client_read_loop.simps) simp
  then show thesis using none Nil assms by simp
next
  case (Cons e events)
  show thesis
  proof (cases e)
    case (From_Master ps)
    let ?st = "st\<lparr>cl_events := events, cl_inbox := cl_inbox st @ ps\<rparr>"
    obtain r1 st1 where p: "poll_requests ?st = (r1, st1)" by fastforce
    have "client_read_loop buf st = (case r1 of Inl e \<Rightarrow> (Inl e, st1) | Inr _ \<Rightarrow> client_read_loop buf st1)"
      using Cons From_Master p by (subst client_read_loop.simps) (cases r1; simp)
    then show thesis using master[OF Cons[unfolded From_Master] p] assms by (cases r1) simp_all
  next
    case (From_Client bytes)
    let ?n = "CLIENT_READ_SZ - length buf - 1"
    let ?st = "st\<lparr>cl_events := (if drop ?n bytes = [] then events else From_Client (drop ?n bytes) # events)\<rparr>"
    obtain status data where t: "telnet_parse_data (cl_term st) (take ?n bytes) = Inr (status, data, cl_term st)"
      using telnet_parse_data_total by blast
    have same: "cl_term (st\<lparr>cl_events := x\<rparr>) = cl_term st" "st\<lparr>cl_events := x, cl_term := cl_term st\<rparr> = st\<lparr>cl_events := x\<rparr>" for x
      by simp_all
    have run: "client_read_loop buf st =
        (if take ?n bytes = [] then (Inl (Crash (Error ''lost connection'')), ?st)
         else
           (case status of
              TELNET_EXIT \<Rightarrow> (Inl (Crash Exit_Process), ?st)
            | TELNET_FOUNDCMD \<Rightarrow> client_read_loop [] ?st
            | TELNET_DATA \<Rightarrow> client_read_loop (buf @ data) ?st
            | TELNET_LINEOVER \<Rightarrow> (Inr (remove_cruft (c_str (buf @ data))), ?st)))"
      unfolding client_read_loop.simps[of buf st] Cons From_Client list.case event.case Let_def same t sum.case prod.case ..
    show thesis
    proof (rule client[OF Cons[unfolded From_Client], of ?st ?n], rule refl, cases "take ?n bytes = []")
      case True
      then show "(\<exists>c. r = Inl (Crash c)) \<and> st' = ?st \<or>
          take ?n bytes \<noteq> [] \<and> ((\<exists>line. r = Inr line) \<and> st' = ?st \<or> (\<exists>buf'. client_read_loop buf' ?st = (r, st')))"
        using run[unfolded if_P[OF True]] assms by (simp only: prod.inject) blast
    next
      case False
      then show "(\<exists>c. r = Inl (Crash c)) \<and> st' = ?st \<or>
          take ?n bytes \<noteq> [] \<and> ((\<exists>line. r = Inr line) \<and> st' = ?st \<or> (\<exists>buf'. client_read_loop buf' ?st = (r, st')))"
        using run[unfolded if_not_P[OF False]] assms by (cases status) (simp_all only: telnet_status.case prod.inject, blast+)
    qed
  qed
qed

text \<open>Reading a line uses up input.\<close>

lemma client_read_loop_consumes: "client_read_loop buf st = (Inr line, st') \<Longrightarrow> input_size st' < input_size st"
proof (induction "input_size st" arbitrary: buf st rule: less_induct)
  case less
  from less.prems show ?case
  proof (cases rule: client_read_loop_step)
    case (master ps events r1 st1)
    have "input_size st1 < input_size st"
      using poll_input[OF master(2)] master(1) by (simp add: input_size_def)
    then show ?thesis using less.hyps[of st1 buf] master(3) by (cases r1) auto
  next
    case (client bytes events n st1)
    then have n: "take n bytes \<noteq> []" by auto
    have "input_size st1 < input_size st" using take_input[OF client(1) n] client(2) by simp
    then show ?thesis using less.hyps[of st1] client(3) by (auto intro: less_trans)
  qed simp
qed

context client_frame
begin

lemma holds_client_read: "run_holds I R ok_stop client_read"
proof -
  have "I st' \<and> R st st' \<and> (\<forall>e. r = Inl e \<longrightarrow> ok_stop e)" if "client_read_loop buf st = (r, st')" "I st" for buf st r st'
    using that
  proof (induction "input_size st" arbitrary: buf st rule: less_induct)
    case less
    from less.prems(1) show ?case
    proof (cases rule: client_read_loop_step)
      case none
      then show ?thesis using quiet_step[OF less.prems(2) quiet_refl] less.prems(2) stops by auto
    next
      case (master ps events r1 st1)
      have lt: "input_size st1 < input_size st"
        using poll_input[OF master(2)] master(1) by (simp add: input_size_def)
      note l = listen[OF less.prems(2) master(1,2)]
      show ?thesis
      proof (cases r1)
        case (Inr u)
        then show ?thesis using less.hyps[OF lt, of buf] master(3) l R_trans by auto
      qed (use l master(3) in auto)
    next
      case (client bytes events n st1)
      have h: "I st1" "R st st1" using hear[OF less.prems(2) client(1), of n] client(2) by simp_all
      show ?thesis
      proof (cases "\<exists>buf'. client_read_loop buf' st1 = (r, st') \<and> take n bytes \<noteq> []")
        case True
        then obtain buf' where b: "client_read_loop buf' st1 = (r, st')" "take n bytes \<noteq> []" by blast
        have lt: "input_size st1 < input_size st" using take_input[OF client(1) b(2)] client(2) by simp
        show ?thesis using less.hyps[OF lt b(1) h(1)] h(2) R_trans by blast
      qed (use client(3) h stops in auto)
    qed
  qed
  then show ?thesis unfolding client_read_def by (intro run_holdsI)
qed

lemma holds_client_read_password: "run_holds I R ok_stop client_read_password"
  unfolding client_read_password_def by (intro holds_rules holds_client_read)

end

section \<open>What the commands do\<close>

text \<open>The requests of an ordinary user in the game, and those only an administrator may send.\<close>

definition user_reqs :: "nat set" where
  "user_reqs = {REQ_BCASTMSG, REQ_GETROOMNAME, REQ_GETROOMDESC, REQ_LOOKAT, REQ_PRINTINVENTORY, REQ_TAKE, REQ_MOVE,
     REQ_DROP, REQ_GETUSERDATA, REQ_ADDUSERDATA, REQ_EXECVERB}"

definition admin_reqs :: "nat set" where
  "admin_reqs = {REQ_LISTCLIENTS, REQ_KICK, REQ_KICKALL, REQ_WAIT, REQ_DELUSERDATA, REQ_LISTUSERS}"

lemma cmd_map_ok: "\<exists>tab. cmd_map env = Inr tab \<and> hash_lookup tab = map_of (map (\<lambda>cmd. (cc_cmd cmd, cmd)) (cmds env))"
  unfolding cmd_map_def by (rule pairs_table)

lemma cmd_map_in: "cmd_map env = Inr tab \<Longrightarrow> hash_lookup tab name = Some cmd \<Longrightarrow> cmd \<in> set (cmds env)"
  using cmd_map_ok[of env] by (auto dest: map_of_SomeD)

context client_frame
begin

lemma holds_small:
  "run_holds I R ok_stop (outln msg)" "run_holds I R ok_stop current_user"
  "run_holds I R ok_stop m \<Longrightarrow> run_holds I R ok_stop (done_ok m)"
  unfolding outln_def current_user_def done_ok_def by (intro holds_rules; assumption?)+

lemmas holds_more = holds_rules holds_small holds_client_read holds_client_read_password

lemma holds_user_commands:
  assumes "user_reqs \<subseteq> A"
  shows "run_holds I R ok_stop (quit_cb env save)" "run_holds I R ok_stop (say_cb env save)"
    "run_holds I R ok_stop (date_cb env save)" "run_holds I R ok_stop (logout_cb env save)"
    "run_holds I R ok_stop (look_cb env save)" "run_holds I R ok_stop (inventory_cb env save)"
    "run_holds I R ok_stop (take_cb env save)" "run_holds I R ok_stop (go_cb env save)"
    "run_holds I R ok_stop (drop_cb env save)" "run_holds I R ok_stop (chpass_cb env save)"
    "run_holds I R ok_stop (exec_verb env orig)"
proof -
  have a: "REQ_BCASTMSG \<in> A" "REQ_GETROOMNAME \<in> A" "REQ_GETROOMDESC \<in> A" "REQ_LOOKAT \<in> A" "REQ_PRINTINVENTORY \<in> A"
    "REQ_TAKE \<in> A" "REQ_MOVE \<in> A" "REQ_DROP \<in> A" "REQ_GETUSERDATA \<in> A" "REQ_ADDUSERDATA \<in> A" "REQ_EXECVERB \<in> A"
    using assms by (simp_all add: user_reqs_def)
  note rules = holds_more holds_requests holds_accounts holds_send_master a
  show "run_holds I R ok_stop (quit_cb env save)" "run_holds I R ok_stop (say_cb env save)"
    "run_holds I R ok_stop (date_cb env save)" "run_holds I R ok_stop (logout_cb env save)"
    "run_holds I R ok_stop (look_cb env save)" "run_holds I R ok_stop (inventory_cb env save)"
    "run_holds I R ok_stop (take_cb env save)" "run_holds I R ok_stop (go_cb env save)"
    "run_holds I R ok_stop (drop_cb env save)" "run_holds I R ok_stop (chpass_cb env save)"
    "run_holds I R ok_stop (exec_verb env orig)"
    unfolding quit_cb_def say_cb_def date_cb_def logout_cb_def look_cb_def inventory_cb_def take_cb_def go_cb_def drop_cb_def
      chpass_cb_def exec_verb_def Let_def
    by (intro rules; simp add: req_codes)+
qed

lemma holds_admin_commands:
  assumes "user_reqs \<subseteq> A" "admin_reqs \<subseteq> A"
  shows "run_holds I R ok_stop (user_cb env save)" "run_holds I R ok_stop (client_cb env save)"
    "run_holds I R ok_stop (wait_cb env save)"
proof -
  have a: "REQ_DELUSERDATA \<in> A" "REQ_ADDUSERDATA \<in> A" "REQ_LISTUSERS \<in> A" "REQ_LISTCLIENTS \<in> A" "REQ_KICK \<in> A"
    "REQ_KICKALL \<in> A" "REQ_WAIT \<in> A"
    using assms by (simp_all add: user_reqs_def admin_reqs_def)
  have del: "run_holds I R ok_stop (user_del env user)" for user
    unfolding user_del_def by (intro holds_more holds_accounts a)
  have modify: "run_holds I R ok_stop (user_modify env user)" for user
    unfolding user_modify_def Let_def by (intro holds_more holds_accounts a)
  have kick: "run_holds I R ok_stop (client_kick env pid_s)" for pid_s
    unfolding client_kick_def Let_def by (intro holds_more holds_send_master a) (simp_all add: req_codes)
  show "run_holds I R ok_stop (user_cb env save)" "run_holds I R ok_stop (client_cb env save)"
    "run_holds I R ok_stop (wait_cb env save)"
    unfolding user_cb_def client_cb_def wait_cb_def Let_def
    by (intro holds_more holds_requests holds_send_master del modify kick a; simp add: req_codes)+
qed

lemma holds_commands:
  assumes "cmd \<in> set (cmds env)" "user_reqs \<subseteq> A" "cc_admin_only cmd \<Longrightarrow> admin_reqs \<subseteq> A"
  shows "run_holds I R ok_stop (cc_cb cmd save)"
  using assms(1,3) holds_user_commands[OF assms(2)] holds_admin_commands[OF assms(2)] by (auto simp: cmds_def)

lemma holds_set_user: "run_holds I R ok_stop (upd (\<lambda>st. st\<lparr>cl_user := u\<rparr>))" "run_holds I R ok_stop (upd (\<lambda>st. st\<lparr>cl_room := r\<rparr>))"
  by (rule holds_quiet; auto intro: quietI)+

lemma holds_get_andthen:
  assumes "\<And>st. I st \<Longrightarrow> run_holds I R ok_stop (f (g st))"
  shows "run_holds I R ok_stop (andthen (get g) f)"
proof (rule run_holdsI)
  fix st r st' assume "andthen (get g) f st = (r, st')" and I: "I st"
  then have "f (g st) st = (r, st')" by simp
  from run_holdsD[OF assms[OF I] this I] show "I st' \<and> R st st' \<and> (\<forall>e. r = Inl e \<longrightarrow> ok_stop e)" by blast
qed

lemma holds_login_check:
  assumes "REQ_CHANGESTATE \<in> A" "REQ_GETUSERDATA \<in> A"
  shows "run_holds I R ok_stop (login_check env)" "run_holds I R ok_stop (login_failed env)"
  unfolding login_check_def login_failed_def Let_def
  by (intro holds_more holds_requests holds_accounts holds_set_user; rule assms)+

lemma holds_login_attempt:
  assumes "REQ_CHANGESTATE \<in> A" "REQ_GETUSERDATA \<in> A" "REQ_ADDUSERDATA \<in> A"
  shows "run_holds I R ok_stop (login_attempt env)"
  unfolding login_attempt_def
  by (intro holds_more holds_requests holds_login_check; rule assms)

lemma holds_login_loop:
  assumes "REQ_CHANGESTATE \<in> A" "REQ_GETUSERDATA \<in> A" "REQ_ADDUSERDATA \<in> A"
  shows "run_holds I R ok_stop (login_loop env failures)"
proof (rule run_holdsI)
  fix st r st' assume "login_loop env failures st = (r, st')" "I st"
  then show "I st' \<and> R st st' \<and> (\<forall>e. r = Inl e \<longrightarrow> ok_stop e)"
  proof (induction "MAX_FAILURES - failures" arbitrary: failures st rule: less_induct)
    case less
    obtain r1 st1 where a: "login_attempt env st = (r1, st1)" by fastforce
    note h = run_holdsD[OF holds_login_attempt[OF assms] a less.prems(2)]
    have again: "I st' \<and> R st st' \<and> (\<forall>e. r = Inl e \<longrightarrow> ok_stop e)"
      if "failures + 1 < MAX_FAILURES" "login_loop env (failures + 1) st1 = (r, st')"
    proof -
      have "MAX_FAILURES - (failures + 1) < MAX_FAILURES - failures" using that(1) by simp
      from less.hyps[OF this that(2) h(1)] show ?thesis using R_trans[OF h(2)] by blast
    qed
    have run: "login_loop env failures st =
        (case r1 of
           Inl e \<Rightarrow> (Inl e, st1)
         | Inr (Some level) \<Rightarrow> (Inr (Some level), st1)
         | Inr None \<Rightarrow> if failures + 1 \<ge> MAX_FAILURES then (Inr None, st1) else login_loop env (failures + 1) st1)"
      by (subst login_loop.simps) (simp add: a split: sum.split option.split)
    show ?case
    proof (cases "r1 = Inr None \<and> failures + 1 < MAX_FAILURES")
      case True
      then show ?thesis using less.prems(1) run again by simp
    next
      case False
      then have "r = r1 \<and> st' = st1"
        using less.prems(1) run by (auto split: sum.splits option.splits)
      then show ?thesis using h by blast
    qed
  qed
qed

end

text \<open>A frame in which users play: what they may send depends on their privileges.\<close>

locale user_frame = client_frame +
  assumes user_requests: "user_reqs \<subseteq> A"
    and admin_requests: "I st \<Longrightarrow> cl_is_admin st \<Longrightarrow> admin_reqs \<subseteq> A"
begin

lemma holds_client_command: "run_holds I R ok_stop (client_command env line)"
proof -
  have cmd: "run_holds I R ok_stop
      (if \<not> cc_admin_only cmd \<or> (cc_admin_only cmd \<and> cl_is_admin st) then cc_cb cmd save
       else andthen (outln ''You are not allowed to do that.'') (\<lambda>_. ret CMD_OK))"
    if "cmd \<in> set (cmds env)" "I st" for cmd st save
    using holds_commands[OF that(1) user_requests] admin_requests[OF that(2)]
    by (intro run_holds_if holds_andthen holds_small holds_ret) auto
  show ?thesis
    unfolding client_command_def
  proof (intro holds_andthen[OF holds_get] run_holds_if run_holds_pair, goal_cases)
    case (2 rawmode tok save)
    show ?case
    proof (cases tok)
      case (Some t)
      have "run_holds I R ok_stop (andthen (get cl_is_admin) (\<lambda>are_admin.
          case hash_lookup tab (all_upper t) of
            Some cmd \<Rightarrow>
              if \<not> cc_admin_only cmd \<or> (cc_admin_only cmd \<and> are_admin) then cc_cb cmd save
              else andthen (outln ''You are not allowed to do that.'') (\<lambda>_. ret CMD_OK)
          | None \<Rightarrow> exec_verb env line))" if "cmd_map env = Inr tab" for tab
        by (rule holds_get_andthen, rule run_holds_option) (use holds_user_commands(11)[OF user_requests] cmd cmd_map_in[OF that] in auto)
      moreover obtain tab where tab: "cmd_map env = Inr tab" using cmd_map_ok[of env] by blast
      ultimately show ?thesis
        unfolding Some option.case from_res_def tab sum.case andthen_simps(1) by blast
    qed simp
  qed (rule holds_user_commands(11)[OF user_requests])
qed

lemma holds_command_round: "run_holds I R ok_stop (command_round env)"
  unfolding command_round_def
  by (intro holds_more holds_client_command)

end

text \<open>A frame for whole sessions, where a login decides about the privileges.\<close>

definition login_reqs :: "nat set" where
  "login_reqs = {REQ_CHANGESTATE, REQ_CHANGEUSER, REQ_SETROOM}"

locale session_frame = user_frame +
  assumes login_requests: "login_reqs \<subseteq> A"
    and set_admin: "I st \<Longrightarrow> I (st\<lparr>cl_is_admin := b\<rparr>) \<and> R st (st\<lparr>cl_is_admin := b\<rparr>)"
begin

lemma holds_login: "run_holds I R ok_stop (login env n_clients)"
proof -
  have a: "REQ_CHANGESTATE \<in> A" "REQ_CHANGEUSER \<in> A" "REQ_SETROOM \<in> A" "REQ_GETUSERDATA \<in> A" "REQ_ADDUSERDATA \<in> A"
    "REQ_GETROOMNAME \<in> A" "REQ_GETROOMDESC \<in> A"
    using login_requests user_requests by (simp_all add: login_reqs_def user_reqs_def)
  have "run_holds I R ok_stop (upd (\<lambda>st. st\<lparr>cl_is_admin := b\<rparr>))" for b
    by (rule run_holdsI) (use set_admin in auto)
  then have "run_holds I R ok_stop (enter_game env level)" for level
    unfolding enter_game_def Let_def by (intro holds_more holds_requests holds_set_user a)
  moreover have "run_holds I R ok_stop (greeting env n_clients)"
    unfolding greeting_def by (intro holds_more holds_requests a)
  ultimately show ?thesis
    unfolding login_def by (intro holds_andthen run_holds_option holds_ret holds_login_loop a)
qed

end

text \<open>Every run uses up input, whatever the privileges.\<close>

interpretation uses: session_frame env UNIV "\<lambda>_. True" "\<lambda>st st'. input_size st' \<le> input_size st" "\<lambda>_. True" for env
proof -
  have "client_frame env UNIV (\<lambda>_. True) (\<lambda>st st'. input_size st' \<le> input_size st) (\<lambda>_. True)"
    by (rule frame_within) (auto dest: within_input)
  then show "session_frame env UNIV (\<lambda>_. True) (\<lambda>st st'. input_size st' \<le> input_size st) (\<lambda>_. True)"
    by (simp add: session_frame_def session_frame_axioms_def user_frame_def user_frame_axioms_def input_size_def)
qed

lemma command_round_consumes:
  assumes "command_round env st = (Inr c, st')"
  shows "input_size st' < input_size st"
proof -
  obtain st1 line st2 where s: "(if cl_rawmode st then ret () else out ''>> '') st = (Inr (), st1)"
    "client_read st1 = (Inr line, st2)" "client_command env line st2 = (Inr c, st')"
    using assms by (auto simp: command_round_def andthen_Inr)
  have "input_size st1 \<le> input_size st"
    using s(1) out_quiet[of st "''>> ''"] by (auto simp: quiet_def input_size_def split: if_splits)
  moreover have "input_size st2 < input_size st1"
    using client_read_loop_consumes s(2) unfolding client_read_def by blast
  moreover have "input_size st' \<le> input_size st2"
    using run_holdsD(2)[OF uses.holds_client_command s(3)] by simp
  ultimately show ?thesis by linarith
qed

section \<open>Sessions\<close>

text \<open>The command loop, which ends with a logout (true) or the end of the session.\<close>

function command_loop :: "'w client_env \<Rightarrow> (bool, 'w) run" where
  "command_loop env st =
     (case command_round env st of
        (Inl e, st') \<Rightarrow> (Inl e, st')
      | (Inr CMD_OK, st') \<Rightarrow> command_loop env st'
      | (Inr CMD_LOGOUT, st') \<Rightarrow> (Inr True, st')
      | (Inr CMD_QUIT, st') \<Rightarrow> (Inr False, st'))"
  by pat_completeness auto
termination
  by (relation "measure (\<lambda>(_, st). input_size st)") (auto dest!: command_round_consumes[OF sym])

declare command_loop.simps [simp del]

lemma command_loop_consumes: "command_loop env st = (Inr b, st') \<Longrightarrow> input_size st' < input_size st"
proof (induction env st rule: command_loop.induct)
  case (1 env st)
  then show ?case
    by (subst (asm) (2) command_loop.simps)
      (fastforce dest: command_round_consumes intro: less_trans split: prod.splits sum.splits cmd_result.splits)
qed

text \<open>From \<open>auth:\<close> to the end of \<open>client_main\<close>; a logout starts again.\<close>

function client_session :: "'w client_env \<Rightarrow> int \<Rightarrow> (unit, 'w) run" where
  "client_session env n_clients st =
     (case login env n_clients st of
        (Inl e, st') \<Rightarrow> (Inl e, st')
      | (Inr False, st') \<Rightarrow> (Inr (), st')
      | (Inr True, st') \<Rightarrow>
          (case command_loop env st' of
             (Inl e, st'') \<Rightarrow> (Inl e, st'')
           | (Inr True, st'') \<Rightarrow> client_session env n_clients st''
           | (Inr False, st'') \<Rightarrow> (Inr (), st''\<lparr>cl_user := None\<rparr>)))"
  by pat_completeness auto
termination
proof (relation "measure (\<lambda>(_, _, st). input_size st)", goal_cases)
  case (2 env n_clients st r st1 b r2 st2 b2)
  have "input_size st1 \<le> input_size st" using run_holdsD(2)[OF uses.holds_login] 2 by metis
  moreover have "input_size st2 < input_size st1" using command_loop_consumes 2 by metis
  ultimately show ?case by simp
qed simp

declare client_session.simps [simp del]

definition client_main :: "'w client_env \<Rightarrow> int \<Rightarrow> (unit, 'w) run" where
  "client_main env n_clients =
     andthen (upd (\<lambda>st. st\<lparr>cl_term := telnet_init_size\<rparr>)) (\<lambda>_.
     andthen (out_raw telnet_init_seq) (\<lambda>_. client_session env n_clients))"

text \<open>The state of a new child: what is inherited from the master, and nothing exchanged yet.\<close>

definition new_client :: "int \<Rightarrow> event list \<Rightarrow> 'w \<Rightarrow> 'w client_state" where
  "new_client pid events w =
     \<lparr>cl_pid = pid, cl_term = (0, 0), cl_written = [], cl_pos = 0, cl_is_admin = False, cl_room = 0, cl_user = None,
      cl_rawmode = False, cl_reqdata = TYPE_NONE, cl_ts = 0, cl_reqs_since_ts = 0, cl_inbox = [], cl_sent = [],
      cl_master = w, cl_events = events, cl_times = 0, cl_rands = 0\<rparr>"

context user_frame
begin

lemma holds_command_loop: "run_holds I R ok_stop (command_loop env)"
proof (rule run_holdsI)
  fix st r st' assume "command_loop env st = (r, st')" "I st"
  then show "I st' \<and> R st st' \<and> (\<forall>e. r = Inl e \<longrightarrow> ok_stop e)"
  proof (induction "input_size st" arbitrary: st rule: less_induct)
    case less
    obtain r1 st1 where a: "command_round env st = (r1, st1)" by fastforce
    note h = run_holdsD[OF holds_command_round a less.prems(2)]
    have run: "command_loop env st =
        (case r1 of
           Inl e \<Rightarrow> (Inl e, st1)
         | Inr CMD_OK \<Rightarrow> command_loop env st1
         | Inr CMD_LOGOUT \<Rightarrow> (Inr True, st1)
         | Inr CMD_QUIT \<Rightarrow> (Inr False, st1))"
      by (subst command_loop.simps) (simp add: a split: sum.split cmd_result.split)
    show ?case
    proof (cases "r1 = Inr CMD_OK")
      case True
      have "input_size st1 < input_size st" using command_round_consumes a True by blast
      from less.hyps[OF this _ h(1)] show ?thesis using less.prems(1) run True R_trans[OF h(2)] by simp
    next
      case False
      then have "st' = st1 \<and> (\<forall>e. r = Inl e \<longrightarrow> r1 = Inl e)"
        using less.prems(1) run by (auto split: sum.splits cmd_result.splits)
      then show ?thesis using h by blast
    qed
  qed
qed

end

context session_frame
begin

lemma holds_client_session: "run_holds I R ok_stop (client_session env n_clients)"
proof (rule run_holdsI)
  fix st r st' assume "client_session env n_clients st = (r, st')" "I st"
  then show "I st' \<and> R st st' \<and> (\<forall>e. r = Inl e \<longrightarrow> ok_stop e)"
  proof (induction "input_size st" arbitrary: st rule: less_induct)
    case less
    obtain r1 st1 where l: "login env n_clients st = (r1, st1)" by fastforce
    note h1 = run_holdsD[OF holds_login l less.prems(2)]
    have in1: "input_size st1 \<le> input_size st" using run_holdsD(2)[OF uses.holds_login l] by simp
    obtain r2 st2 where c: "command_loop env st1 = (r2, st2)" by fastforce
    note h2 = run_holdsD[OF holds_command_loop c h1(1)]
    note R2 = R_trans[OF h1(2) h2(2)]
    have "quiet st2 (st2\<lparr>cl_user := None\<rparr>)" by (rule quietI) simp_all
    note h3 = quiet_step[OF h2(1) this]
    have run: "client_session env n_clients st =
        (case r1 of
           Inl e \<Rightarrow> (Inl e, st1)
         | Inr False \<Rightarrow> (Inr (), st1)
         | Inr True \<Rightarrow>
             (case r2 of
                Inl e \<Rightarrow> (Inl e, st2)
              | Inr True \<Rightarrow> client_session env n_clients st2
              | Inr False \<Rightarrow> (Inr (), st2\<lparr>cl_user := None\<rparr>)))"
      by (subst client_session.simps) (simp add: l c split: sum.split bool.split)
    show ?case
    proof (cases "r1 = Inr True \<and> r2 = Inr True")
      case True
      then have lt: "input_size st2 < input_size st" using command_loop_consumes c in1 by fastforce
      have "client_session env n_clients st2 = (r, st')" using less.prems(1) run True by simp
      from less.hyps[OF lt this h2(1)] show ?thesis using R_trans[OF R2] by blast
    next
      case False
      then have "(st' = st1 \<and> (\<forall>e. r = Inl e \<longrightarrow> r1 = Inl e)) \<or> (st' = st2 \<and> (\<forall>e. r = Inl e \<longrightarrow> r2 = Inl e)) \<or>
          (st' = st2\<lparr>cl_user := None\<rparr> \<and> r = Inr ())"
        using less.prems(1) run by (auto split: sum.splits bool.splits)
      then show ?thesis using h1 h2 h3 R2 R_trans[OF R2] by blast
    qed
  qed
qed

end

section \<open>Who may do what\<close>

interpretation ordinary: user_frame env user_reqs "\<lambda>st. \<not> cl_is_admin st" "within user_reqs" "\<lambda>_. True" for env
proof
  fix st st' :: "'a client_state" and cmd data r
  assume "\<not> cl_is_admin st" "cmd \<in> user_reqs" "cmd < 256"
    and p: "poll_requests (write_request env (child_packet (cl_pid st) cmd data) st) = (r, st')"
  then have "within user_reqs st st'" using sends.ask[where A = user_reqs] by blast
  then show "\<not> cl_is_admin st' \<and> within user_reqs st st' \<and> (\<forall>e. r = Inl e \<longrightarrow> True)"
    using \<open>\<not> cl_is_admin st\<close> by (auto simp: within_def)
next
  fix st st' :: "'a client_state" and ps events r
  assume "\<not> cl_is_admin st" "cl_events st = From_Master ps # events"
    and "poll_requests (st\<lparr>cl_events := events, cl_inbox := cl_inbox st @ ps\<rparr>) = (r, st')"
  then have "within user_reqs st st'" using sends.listen[where A = user_reqs] by blast
  then show "\<not> cl_is_admin st' \<and> within user_reqs st st' \<and> (\<forall>e. r = Inl e \<longrightarrow> True)"
    using \<open>\<not> cl_is_admin st\<close> by (auto simp: within_def)
next
  fix st :: "'a client_state" and bytes events n
  assume "\<not> cl_is_admin st" "cl_events st = From_Client bytes # events"
  then show "\<not> cl_is_admin (st\<lparr>cl_events := (if drop n bytes = [] then events else From_Client (drop n bytes) # events)\<rparr>) \<and>
      within user_reqs st (st\<lparr>cl_events := (if drop n bytes = [] then events else From_Client (drop n bytes) # events)\<rparr>)"
    using sends.hear[where A = user_reqs, of st bytes events n] by simp
next
  fix st st' :: "'a client_state"
  show "\<not> cl_is_admin st \<Longrightarrow> quiet st st' \<Longrightarrow> \<not> cl_is_admin st' \<and> within user_reqs st st'"
    by (simp add: within_quiet) (simp add: quiet_def)
qed (auto intro: within_trans)

text \<open>C3: a user without privileges cannot reach the administrator's part of the master: however the
  command loop runs and ends, the packets it sends are those of the ordinary commands, so none
  of them lists or kicks clients, lists or deletes users, or stalls the server; and the user
  does not gain privileges.\<close>

theorem ordinary_user_requests:
  assumes "\<not> cl_is_admin st"
  shows "\<exists>new. cl_sent (snd (command_loop env st)) = cl_sent st @ new \<and> packet_cmd ` set new \<subseteq> user_reqs \<and>
    packet_cmd ` set new \<inter> admin_reqs = {} \<and> \<not> cl_is_admin (snd (command_loop env st))"
proof -
  have "user_reqs \<inter> admin_reqs = {}" by (simp add: user_reqs_def admin_reqs_def req_codes)
  moreover have "\<not> cl_is_admin (snd (command_loop env st)) \<and> within user_reqs st (snd (command_loop env st))"
    using run_holdsD(1,2)[OF ordinary.holds_command_loop surjective_pairing assms] by blast
  ultimately show ?thesis by (fastforce simp: within_def)
qed

theorem ordinary_user_requests_witness:
  "\<exists>new. cl_sent (snd (command_loop sample_env (sample_client\<lparr>cl_events := [From_Client (''client kick all'' @ crlf)]\<rparr>))) = new \<and>
     packet_cmd ` set new \<inter> admin_reqs = {}"
  using ordinary_user_requests[of "sample_client\<lparr>cl_events := [From_Client (''client kick all'' @ crlf)]\<rparr>" sample_env]
  by (force simp: sample_client_def)

section \<open>Who gets in\<close>

abbreviation asking :: "nat set" where "asking \<equiv> {REQ_CHANGESTATE, REQ_GETUSERDATA}"

text \<open>An account that was accepted: its record came from \<open>auth_check\<close> somewhere on the way.\<close>

definition accepted :: "'w client_env \<Rightarrow> int \<Rightarrow> 'w client_state \<Rightarrow> 'w client_state \<Rightarrow> bool" where
  "accepted env level st st' \<longleftrightarrow>
     (\<exists>st1 st2 name pass ud. within asking st st1 \<and> auth_check env name pass st1 = (Inr (Some ud), st2) \<and>
        within {REQ_ADDUSERDATA} st2 st' \<and> password_ok (ce_sha env) ud (remove_cruft pass) \<and> ud_priv ud = level)"

lemma auth_check_password: "auth_check env name pass st = (Inr (Some ud), st') \<Longrightarrow> password_ok (ce_sha env) ud (remove_cruft pass)"
  by (auto simp: auth_check_def Let_def andthen_Inr split: option.splits if_splits)

lemma sends_within: "run_holds (\<lambda>_. True) (within A) (\<lambda>_. True) m \<Longrightarrow> m st = (r, st') \<Longrightarrow> within A st st'"
  by (simp add: run_holds_def)

lemma login_check_cases:
  assumes "login_check env st = (Inr d, st')"
  obtains st1 name pass where "within asking st st1" "auth_check env name pass st1 = (Inr d, st')"
proof -
  obtain line pass st1 st2 where s: "andthen (out ''login: '') (\<lambda>_. client_read) st = (Inr line, st1)"
    "andthen (upd (\<lambda>st. st\<lparr>cl_user := Some (remove_cruft line)\<rparr>)) (\<lambda>_.
     andthen (out ''Password: '') (\<lambda>_.
     andthen client_read_password (\<lambda>pass.
     andthen (client_change_state env STATE_CHECKING) (\<lambda>_. ret pass)))) st1 = (Inr pass, st2)"
    "auth_check env (remove_cruft line) pass st2 = (Inr d, st')"
    using assms unfolding login_check_def Let_def andthen_Inr by (auto simp: andthen_Inr)
  have h1: "run_holds (\<lambda>_. True) (within asking) (\<lambda>_. True) (andthen (out ''login: '') (\<lambda>_. client_read))"
    by (intro sends.holds_andthen sends.holds_out sends.holds_client_read)
  have h2: "run_holds (\<lambda>_. True) (within asking) (\<lambda>_. True)
     (andthen (upd (\<lambda>st. st\<lparr>cl_user := Some (remove_cruft line)\<rparr>)) (\<lambda>_.
      andthen (out ''Password: '') (\<lambda>_.
      andthen client_read_password (\<lambda>pass.
      andthen (client_change_state env STATE_CHECKING) (\<lambda>_. ret pass)))))"
    by (intro sends.holds_more sends.holds_requests sends.holds_set_user) simp
  have "within asking st st2" using within_trans[OF sends_within[OF h1 s(1)] sends_within[OF h2 s(2)]] .
  then show thesis using that s(3) by blast
qed

lemma login_attempt_cases:
  "login_attempt env st = (Inr None, st') \<Longrightarrow> within asking st st'"
  "login_attempt env st = (Inr (Some level), st') \<Longrightarrow> accepted env level st st'"
proof -
  have check: "within asking st st1" if "login_check env st = (Inr d, st1)" for d st1
    using run_holdsD(2)[OF sends.holds_login_check(1)[where A = asking] that] by simp
  have failed: "within asking st1 st'" if "login_failed env st1 = (r, st')" for r st1
    using run_holdsD(2)[OF sends.holds_login_check(2)[where A = asking] that] by simp
  {
    assume "login_attempt env st = (Inr None, st')"
    then obtain st1 where "login_check env st = (Inr None, st1)" "login_failed env st1 = (Inr None, st')"
      by (auto simp: login_attempt_def andthen_Inr split: option.splits)
    then show "within asking st st'" using within_trans check failed by blast
  next
    assume "login_attempt env st = (Inr (Some level), st')"
    then obtain ud st1 where c: "login_check env st = (Inr (Some ud), st1)" "ud_priv ud = level"
      "andthen (out (''Last login: '' @ ce_ctime env (ud_last_login ud))) (\<lambda>_.
         andthen (clock env) (\<lambda>now.
         andthen (userdb_request_add env (ud\<lparr>ud_last_login := now\<rparr>)) (\<lambda>_. ret (Some (ud_priv ud))))) st1 = (Inr (Some level), st')"
      by (auto simp: login_attempt_def login_failed_def andthen_Inr split: option.splits)
    have h: "run_holds (\<lambda>_. True) (within {REQ_ADDUSERDATA}) (\<lambda>_. True)
        (andthen (out (''Last login: '' @ ce_ctime env (ud_last_login ud))) (\<lambda>_.
         andthen (clock env) (\<lambda>now.
         andthen (userdb_request_add env (ud\<lparr>ud_last_login := now\<rparr>)) (\<lambda>_. ret (Some (ud_priv ud))))))"
      by (intro sends.holds_more sends.holds_requests) simp
    note sends_within[OF h c(3)]
    moreover obtain st0 name pass where "within asking st st0" "auth_check env name pass st0 = (Inr (Some ud), st1)"
      using login_check_cases[OF c(1)] .
    ultimately show "accepted env level st st'"
      unfolding accepted_def using auth_check_password c(2) by blast
  }
qed

text \<open>C11: a login needs a password: whatever the login loop is given, it only changes the state of the
  child and looks up accounts, until \<open>auth_check\<close> has accepted a password for a record. Only
  then it writes a record back, and the privileges it grants are those of that record. When it
  gives up after three failures, nothing has been written.\<close>

theorem login_needs_password:
  "within {REQ_CHANGESTATE, REQ_GETUSERDATA, REQ_ADDUSERDATA} st (snd (login_loop env failures st)) \<and>
   (fst (login_loop env failures st) = Inr None \<longrightarrow> within asking st (snd (login_loop env failures st))) \<and>
   (\<forall>level. fst (login_loop env failures st) = Inr (Some level) \<longrightarrow> accepted env level st (snd (login_loop env failures st)))"
proof -
  have step: "accepted env level st st2" if "within asking st st1" "accepted env level st1 st2" for env :: "'a client_env" and level st st1 st2
    using that within_trans unfolding accepted_def by metis
  have "(fst (login_loop env failures st) = Inr None \<longrightarrow> within asking st (snd (login_loop env failures st))) \<and>
   (\<forall>level. fst (login_loop env failures st) = Inr (Some level) \<longrightarrow> accepted env level st (snd (login_loop env failures st)))"
  proof (induction env failures st rule: login_loop.induct)
    case (1 env failures st)
    obtain r1 st1 where a: "login_attempt env st = (r1, st1)" by fastforce
    note c = login_attempt_cases[of env st]
    have run: "login_loop env failures st =
        (case r1 of
           Inl e \<Rightarrow> (Inl e, st1)
         | Inr (Some level) \<Rightarrow> (Inr (Some level), st1)
         | Inr None \<Rightarrow> if failures + 1 \<ge> MAX_FAILURES then (Inr None, st1) else login_loop env (failures + 1) st1)"
      by (subst login_loop.simps) (simp add: a split: sum.split option.split)
    show ?case
    proof (cases "r1 = Inr None \<and> \<not> failures + 1 \<ge> MAX_FAILURES")
      case True
      then have w: "within asking st st1" using c(1) a by simp
      have "login_loop env failures st = login_loop env (failures + 1) st1" using run True by simp
      then show ?thesis using 1[OF a[symmetric] _ refl] True within_trans[OF w] step[OF w] by auto
    next
      case False
      then show ?thesis using run c a by (cases r1) (auto split: option.splits)
    qed
  qed
  moreover have "within {REQ_CHANGESTATE, REQ_GETUSERDATA, REQ_ADDUSERDATA} st (snd (login_loop env failures st))"
    using run_holdsD(2)[OF sends.holds_login_loop surjective_pairing, of "{REQ_CHANGESTATE, REQ_GETUSERDATA, REQ_ADDUSERDATA}"] by simp
  ultimately show ?thesis by blast
qed

theorem login_needs_password_witness:
  "within {REQ_CHANGESTATE, REQ_GETUSERDATA, REQ_ADDUSERDATA} sample_client
     (snd (login_loop sample_env 0 (sample_client\<lparr>cl_events := []\<rparr>)))"
  using login_needs_password[of "sample_client\<lparr>cl_events := []\<rparr>" sample_env 0] by (simp add: sample_client_def)

section \<open>Lines\<close>

definition plain_text :: "string \<Rightarrow> bool" where
  "plain_text s \<longleftrightarrow> (\<forall>c\<in>set s. code c \<noteq> IAC \<and> code c \<noteq> 0)"

lemma plain_text_append [simp]: "plain_text (a @ b) \<longleftrightarrow> plain_text a \<and> plain_text b"
  by (auto simp: plain_text_def)

lemma plain_text_crlf [simp]: "plain_text crlf"
  by (simp add: plain_text_def crlf_def IAC_def)

text \<open>One \<open>read\<close> of plain bytes, and the one for which no space is left.\<close>

lemma client_read_loop_portion:
  assumes "cl_events st = From_Client bytes # events" "length buf + n = CLIENT_READ_SZ - 1"
    and "take n bytes \<noteq> []" "plain_text (take n bytes)"
  shows "client_read_loop buf st =
    (let st = st\<lparr>cl_events := if drop n bytes = [] then events else From_Client (drop n bytes) # events\<rparr> in
     if set (take n bytes) \<inter> set crlf \<noteq> {} then (Inr (remove_cruft (c_str (buf @ take n bytes))), st)
     else client_read_loop (buf @ take n bytes) st)"
proof -
  have n: "CLIENT_READ_SZ - length buf - 1 = n" using assms(2) by simp
  have t: "telnet_parse_data sz (take n bytes) =
      Inr (if set (take n bytes) \<inter> set crlf \<noteq> {} then TELNET_LINEOVER else TELNET_DATA, take n bytes, sz)" for sz
    using telnet_plain assms(4) by (simp add: plain_text_def)
  have same: "cl_term (st\<lparr>cl_events := x\<rparr>) = cl_term st" "st\<lparr>cl_events := x, cl_term := cl_term st\<rparr> = st\<lparr>cl_events := x\<rparr>" for x
    by simp_all
  show ?thesis
    unfolding client_read_loop.simps[of buf st] assms(1) list.case event.case Let_def n t same sum.case prod.case
    using assms(3) by simp
qed

lemma client_read_loop_text:
  assumes "cl_events st = From_Client bytes # events" "bytes \<noteq> []" "length buf + length bytes < CLIENT_READ_SZ" "plain_text bytes"
  shows "client_read_loop buf st =
    (if set bytes \<inter> set crlf \<noteq> {} then (Inr (remove_cruft (c_str (buf @ bytes))), st\<lparr>cl_events := events\<rparr>)
     else client_read_loop (buf @ bytes) (st\<lparr>cl_events := events\<rparr>))"
  using client_read_loop_portion[OF assms(1), of buf "CLIENT_READ_SZ - 1 - length buf"] assms(2-4) by (simp add: Let_def)

lemma client_read_loop_full:
  assumes "cl_events st = From_Client bytes # events" "length buf = CLIENT_READ_SZ - 1"
  shows "fst (client_read_loop buf st) = Inl (Crash (Error ''lost connection''))"
  using assms by (subst client_read_loop.simps) (simp add: Let_def)

lemma remove_cruft_line:
  assumes "line \<noteq> []" "set line \<inter> set crlf = {}" "eol \<in> set crlf"
  shows "remove_cruft (line @ eol # rest) = line"
proof -
  have drop: "dropWhile (\<lambda>c. c \<in> set crlf) (line @ x) = line @ x" and take: "takeWhile (\<lambda>c. c \<in> set crlf) (line @ x) = []" for x
    using assms(1,2) by (cases line; auto)+
  have "takeWhile (\<lambda>c. c \<notin> set crlf) (line @ eol # rest) = line @ takeWhile (\<lambda>c. c \<notin> set crlf) (eol # rest)"
    by (rule takeWhile_append2) (use assms(2) in auto)
  then show ?thesis unfolding remove_cruft_def drop take using assms(3) by simp
qed

lemma crlf_simps [simp]: "length crlf = 2" "crlf \<noteq> []" "set crlf \<noteq> {}"
  by (simp_all add: crlf_def)

lemma c_str_plain: "plain_text s \<Longrightarrow> c_str s = s"
  by (auto simp: c_str_def plain_text_def takeWhile_eq_all_conv)

lemma client_read_loop_line:
  assumes "cl_events st = map From_Client chunks @ From_Client (last_part @ eol # rest) # events" "eol \<in> set crlf"
    and "\<forall>chunk\<in>set chunks. chunk \<noteq> [] \<and> set chunk \<inter> set crlf = {} \<and> plain_text chunk"
    and "plain_text last_part" "plain_text rest" "length (buf @ concat chunks @ last_part @ eol # rest) < CLIENT_READ_SZ"
  shows "client_read_loop buf st =
    (Inr (remove_cruft (c_str (buf @ concat chunks @ last_part @ eol # rest))), st\<lparr>cl_events := events\<rparr>)"
  using assms
proof (induction chunks arbitrary: buf st)
  case Nil
  have "eol \<in> set (last_part @ eol # rest) \<inter> set crlf" using assms(2) by simp
  then have "set (last_part @ eol # rest) \<inter> set crlf \<noteq> {}" by blast
  moreover have "plain_text (last_part @ eol # rest)"
    using assms(2) Nil.prems(4,5) plain_text_crlf by (auto simp: plain_text_def)
  ultimately show ?case
    using client_read_loop_text[of st "last_part @ eol # rest" events buf] Nil.prems by simp
next
  case (Cons chunk chunks)
  have "client_read_loop buf st = client_read_loop (buf @ chunk) (st\<lparr>cl_events := map From_Client chunks @ From_Client (last_part @ eol # rest) # events\<rparr>)"
    using client_read_loop_text[of st chunk "map From_Client chunks @ From_Client (last_part @ eol # rest) # events" buf] Cons.prems by simp
  then show ?case
    using Cons.IH[of "st\<lparr>cl_events := map From_Client chunks @ From_Client (last_part @ eol # rest) # events\<rparr>" "buf @ chunk"] Cons.prems
    by simp
qed

lemma client_read_loop_overflow:
  assumes "cl_events st = map From_Client chunks @ events" "length buf + n = CLIENT_READ_SZ - 1" "n < length (concat chunks)"
    and "\<forall>chunk\<in>set chunks. chunk \<noteq> []" "plain_text (take n (concat chunks))" "set (take n (concat chunks)) \<inter> set crlf = {}"
  shows "fst (client_read_loop buf st) = Inl (Crash (Error ''lost connection''))"
  using assms
proof (induction chunks arbitrary: buf n st)
  case (Cons chunk chunks)
  let ?events = "map From_Client chunks @ events"
  have ev: "cl_events st = From_Client chunk # ?events" using Cons.prems(1) by simp
  show ?case
  proof (cases "n = 0")
    case True
    then show ?thesis using client_read_loop_full[OF ev] Cons.prems(2) by simp
  next
    case False
    let ?st = "st\<lparr>cl_events := if drop n chunk = [] then ?events else From_Client (drop n chunk) # ?events\<rparr>"
    have ne: "take n chunk \<noteq> []" using False Cons.prems(4) by simp
    have plain: "plain_text (take n chunk)" "set (take n chunk) \<inter> set crlf = {}" using Cons.prems(5,6) by auto
    have run: "client_read_loop buf st = client_read_loop (buf @ take n chunk) ?st"
      using client_read_loop_portion[OF ev Cons.prems(2) ne plain(1)] plain(2) by (simp add: Let_def)
    show ?thesis
    proof (cases "drop n chunk = []")
      case True
      have "fst (client_read_loop (buf @ take n chunk) ?st) = Inl (Crash (Error ''lost connection''))"
        by (rule Cons.IH[of _ _ "n - length chunk"]) (use True Cons.prems in \<open>auto simp: take_all_iff\<close>)
      then show ?thesis using run by simp
    next
      case left: False
      then have "cl_events ?st = From_Client (drop n chunk) # ?events" "length (buf @ take n chunk) = CLIENT_READ_SZ - 1"
        using Cons.prems(2) by simp_all
      from client_read_loop_full[OF this] show ?thesis using run by simp
    qed
  qed
qed simp

text \<open>C27: how the bytes of a player become lines, while the master sends nothing. The bytes come in packets, without telnet commands
  and NULs, cut anywhere. The first packet with a carriage return or a line feed ends the line: \<open>client_read\<close> returns what
  came before it, in this packet and the earlier ones, if that is not empty and all of it fits the buffer, and what the packet has behind it
  is lost. So when the network parts the carriage return from its line feed, the line feed stays behind; a line that begins with a line end
  is returned with it, and the next call returns the line feed alone, as an empty line. When no line end is among the first
  127 bytes, the 128th ends the connection, however the packets are cut.\<close>

theorem client_read_correct:
  assumes "\<forall>chunk\<in>set chunks. chunk \<noteq> []"
  shows "(plain_text (concat chunks @ last_part @ rest) \<and> set (concat chunks @ last_part) \<inter> set crlf = {} \<and> eol \<in> set crlf \<and>
      length (concat chunks @ last_part @ eol # rest) < CLIENT_READ_SZ \<and>
      cl_events st = map From_Client chunks @ From_Client (last_part @ eol # rest) # events \<longrightarrow>
      client_read st =
        (Inr (if concat chunks @ last_part \<noteq> [] then concat chunks @ last_part else remove_cruft (eol # rest)), st\<lparr>cl_events := events\<rparr>)) \<and>
    (cl_events st = From_Client [LF] # events \<longrightarrow> client_read st = (Inr [LF], st\<lparr>cl_events := events\<rparr>)) \<and>
    (plain_text (take (CLIENT_READ_SZ - 1) (concat chunks)) \<and> set (take (CLIENT_READ_SZ - 1) (concat chunks)) \<inter> set crlf = {} \<and>
      CLIENT_READ_SZ \<le> length (concat chunks) \<and> cl_events st = map From_Client chunks @ events \<longrightarrow>
      fst (client_read st) = Inl (Crash (Error ''lost connection'')))"
proof (intro conjI)
  have line: "client_read st =
      (Inr (if concat chunks @ last_part \<noteq> [] then concat chunks @ last_part else remove_cruft (eol # rest)), st\<lparr>cl_events := events\<rparr>)"
    if ne: "\<forall>chunk\<in>set chunks. chunk \<noteq> []"
      and a: "plain_text (concat chunks @ last_part @ rest)" "set (concat chunks @ last_part) \<inter> set crlf = {}" "eol \<in> set crlf"
        "length (concat chunks @ last_part @ eol # rest) < CLIENT_READ_SZ"
        "cl_events st = map From_Client chunks @ From_Client (last_part @ eol # rest) # events"
    for chunks last_part eol rest
  proof -
    have plain: "\<forall>chunk\<in>set chunks. chunk \<noteq> [] \<and> set chunk \<inter> set crlf = {} \<and> plain_text chunk"
      using ne a(1,2) by (auto simp: plain_text_def)
    have "client_read st = (Inr (remove_cruft (c_str (concat chunks @ last_part @ eol # rest))), st\<lparr>cl_events := events\<rparr>)"
      using client_read_loop_line[OF a(5,3) plain, of "[]"] a(1,4) by (simp add: client_read_def)
    also have "c_str (concat chunks @ last_part @ eol # rest) = (concat chunks @ last_part) @ eol # rest"
    proof -
      have "plain_text (concat chunks @ last_part @ eol # rest)" using a(1,3) plain_text_crlf by (auto simp: plain_text_def)
      then show ?thesis by (simp add: c_str_plain)
    qed
    finally have run: "client_read st = (Inr (remove_cruft ((concat chunks @ last_part) @ eol # rest)), st\<lparr>cl_events := events\<rparr>)" .
    show ?thesis
    proof (cases "concat chunks @ last_part = []")
      case True
      then show ?thesis using run by (simp only: True append_Nil simp_thms if_False)
    next
      case False
      from remove_cruft_line[OF this a(2,3)] show ?thesis using run False by (simp only: simp_thms if_True)
    qed
  qed
  show "plain_text (concat chunks @ last_part @ rest) \<and> set (concat chunks @ last_part) \<inter> set crlf = {} \<and> eol \<in> set crlf \<and>
      length (concat chunks @ last_part @ eol # rest) < CLIENT_READ_SZ \<and>
      cl_events st = map From_Client chunks @ From_Client (last_part @ eol # rest) # events \<longrightarrow>
      client_read st =
        (Inr (if concat chunks @ last_part \<noteq> [] then concat chunks @ last_part else remove_cruft (eol # rest)), st\<lparr>cl_events := events\<rparr>)"
    using line[OF assms] by blast
  show "cl_events st = From_Client [LF] # events \<longrightarrow> client_read st = (Inr [LF], st\<lparr>cl_events := events\<rparr>)"
    using line[of "[]" "[]" "[]" LF] by (simp add: plain_text_def NUL_visible(3) CLIENT_READ_SZ_def remove_cruft_def)
  show "plain_text (take (CLIENT_READ_SZ - 1) (concat chunks)) \<and> set (take (CLIENT_READ_SZ - 1) (concat chunks)) \<inter> set crlf = {} \<and>
      CLIENT_READ_SZ \<le> length (concat chunks) \<and> cl_events st = map From_Client chunks @ events \<longrightarrow>
      fst (client_read st) = Inl (Crash (Error ''lost connection''))"
  proof (rule impI, elim conjE)
    assume a: "plain_text (take (CLIENT_READ_SZ - 1) (concat chunks))" "set (take (CLIENT_READ_SZ - 1) (concat chunks)) \<inter> set crlf = {}"
      "CLIENT_READ_SZ \<le> length (concat chunks)" "cl_events st = map From_Client chunks @ events"
    have "CLIENT_READ_SZ - 1 < length (concat chunks)" using a(3) by (simp add: CLIENT_READ_SZ_def)
    from client_read_loop_overflow[OF a(4) _ this assms a(1,2), of "[]"]
    show "fst (client_read st) = Inl (Crash (Error ''lost connection''))" by (simp add: client_read_def)
  qed
qed

theorem client_read_correct_witness:
  "client_read (sample_client\<lparr>cl_events := [From_Client ''lo'', From_Client (''ok'' @ [hd crlf]), From_Client [LF], From_Client ''quit'']\<rparr>) =
     (Inr ''look'', sample_client\<lparr>cl_events := [From_Client [LF], From_Client ''quit'']\<rparr>) \<and>
   fst (client_read (sample_client\<lparr>cl_events := [From_Client (replicate 100 CHR ''a''), From_Client (replicate 27 CHR ''a'' @ crlf)]\<rparr>)) =
     Inl (Crash (Error ''lost connection''))"
proof
  have h: "plain_text (concat [''lo''] @ ''ok'' @ [])" "\<forall>chunk\<in>set [''lo'']. chunk \<noteq> []" "set (concat [''lo''] @ ''ok'') \<inter> set crlf = {}"
    "hd crlf \<in> set crlf" "length (concat [''lo''] @ ''ok'' @ [hd crlf]) < CLIENT_READ_SZ"
    by (simp_all add: plain_text_def crlf_def code_def IAC_def char_of_def CLIENT_READ_SZ_def)
  show "client_read (sample_client\<lparr>cl_events := [From_Client ''lo'', From_Client (''ok'' @ [hd crlf]), From_Client [LF], From_Client ''quit'']\<rparr>) =
     (Inr ''look'', sample_client\<lparr>cl_events := [From_Client [LF], From_Client ''quit'']\<rparr>)"
    using client_read_correct[OF h(2), of "''ok''" "[]" "hd crlf"
        "sample_client\<lparr>cl_events := [From_Client ''lo'', From_Client (''ok'' @ [hd crlf]), From_Client [LF], From_Client ''quit'']\<rparr>"
        "[From_Client [LF], From_Client ''quit'']", THEN conjunct1] h(1,3-5)
    by simp
  let ?chunks = "[replicate 100 CHR ''a'', replicate 27 CHR ''a'' @ crlf]"
  have "replicate 100 CHR ''a'' @ replicate 27 CHR ''a'' = replicate 127 CHR ''a''" by (simp flip: replicate_add)
  then have "take (CLIENT_READ_SZ - 1) (concat ?chunks) = replicate 127 CHR ''a''" by (simp add: CLIENT_READ_SZ_def)
  moreover have "plain_text (replicate 127 CHR ''a'')" "set (replicate 127 CHR ''a'') \<inter> set crlf = {}"
    by (simp_all add: plain_text_def crlf_def code_def IAC_def char_of_def)
  ultimately show "fst (client_read (sample_client\<lparr>cl_events := [From_Client (replicate 100 CHR ''a''), From_Client (replicate 27 CHR ''a'' @ crlf)]\<rparr>)) =
     Inl (Crash (Error ''lost connection''))"
    using client_read_correct[of ?chunks "[]" "[]" LF "sample_client\<lparr>cl_events := map From_Client ?chunks\<rparr>" "[]", THEN conjunct2, THEN conjunct2]
    by (simp add: CLIENT_READ_SZ_def)
qed

end
