(* ===== verification/Nc_Frame.thy ===== *)
theory Nc_Frame
  imports Nc_Requests
begin

text \<open>
  What requests leave alone. The table of children belongs to \<open>server.c\<close>: a handler of
  \<open>server_reqs.c\<close> may change the state, the room or the name of a child and write to its pipe,
  but no handler registers or removes one, or changes its pid. The lemmas here are one per
  operation; a world module keeps to the rule if its hooks do (\<open>hooks_keep\<close>).
\<close>

section \<open>Partial correctness\<close>

text \<open>What holds of the value of a computation, if it has one.\<close>

definition post :: "'a res \<Rightarrow> ('a \<Rightarrow> bool) \<Rightarrow> bool" where
  "post r Q \<longleftrightarrow> (\<forall>x. r = Inr x \<longrightarrow> Q x)"

lemma postI: "(\<And>x. r = Inr x \<Longrightarrow> Q x) \<Longrightarrow> post r Q"
  by (simp add: post_def)

lemma postD: "post r Q \<Longrightarrow> r = Inr x \<Longrightarrow> Q x"
  by (simp add: post_def)

lemma post_Inl: "post (Inl e) Q"
  by (simp add: post_def)

lemma post_Inr: "Q x \<Longrightarrow> post (Inr x) Q"
  by (simp add: post_def)

lemma post_bind: "post r P \<Longrightarrow> (\<And>x. P x \<Longrightarrow> post (g x) Q) \<Longrightarrow> post (res_bind r g) Q"
  by (auto simp: post_def res_bind_eq_Inr)

lemma post_bind_pair:
  "post r (\<lambda>x. P (snd x)) \<Longrightarrow> (\<And>a b. P b \<Longrightarrow> post (f a b) Q) \<Longrightarrow> post (res_bind r (\<lambda>(a, b). f a b)) Q"
  by (fastforce simp: post_def res_bind_eq_Inr)

lemma post_pair: "(\<And>a b. x = (a, b) \<Longrightarrow> post (f a b) Q) \<Longrightarrow> post (case x of (a, b) \<Rightarrow> f a b) Q"
  by (cases x) simp

lemma post_if: "(c \<Longrightarrow> post a Q) \<Longrightarrow> (\<not> c \<Longrightarrow> post b Q) \<Longrightarrow> post (if c then a else b) Q"
  by simp

lemma post_option:
  "(x = None \<Longrightarrow> post a Q) \<Longrightarrow> (\<And>y. x = Some y \<Longrightarrow> post (f y) Q) \<Longrightarrow> post (case x of None \<Rightarrow> a | Some y \<Rightarrow> f y) Q"
  by (cases x) simp_all

lemma post_let: "(\<And>y. y = x \<Longrightarrow> post (f y) Q) \<Longrightarrow> post (let y = x in f y) Q"
  by (simp add: Let_def)

lemma post_skip: "(\<And>x. post (g x) Q) \<Longrightarrow> post (res_bind r g) Q"
  by (auto simp: post_def res_bind_eq_Inr)

lemma post_skip_pair: "(\<And>a b. post (f a b) Q) \<Longrightarrow> post (res_bind r (\<lambda>(a, b). f a b)) Q"
  by (auto simp: post_def res_bind_eq_Inr)

lemma post_any: "post r (\<lambda>_. True)"
  by (simp add: post_def)

lemma post_fold: "(\<And>x s. x \<in> set xs \<Longrightarrow> P s \<Longrightarrow> post (f x s) P) \<Longrightarrow> P s \<Longrightarrow> post (res_fold f xs s) P"
  by (induction xs arbitrary: s) (auto intro!: post_bind post_Inr)

lemmas post_rules = post_Inl post_Inr post_if post_option post_let

section \<open>The part that stays\<close>

definition kids ::
  "('u, 'm) server_state \<Rightarrow> (int, user_ptr, user_ptr \<rightharpoonup> child_data) hash_map \<times> (user_ptr \<Rightarrow> int option) \<times> user_ptr \<times> int" where
  "kids st = (sv_child_map st, \<lambda>c. map_option cd_pid (sv_children st c), sv_next_child st, sv_num_clients st)"

text \<open>Rules of the form: if the operation returns, the children are the same.\<close>

named_theorems kept \<open>operations that keep the table of children\<close>

lemma kids_updates [simp]:
  "kids (st\<lparr>sv_heap := h\<rparr>) = kids st" "kids (st\<lparr>sv_world := w\<rparr>) = kids st"
  "kids (st\<lparr>sv_global_verbs := v\<rparr>) = kids st" "kids (st\<lparr>sv_db_map := d\<rparr>) = kids st"
  "kids (st\<lparr>sv_worldfile := f\<rparr>) = kids st" "kids (st\<lparr>sv_userfile := f\<rparr>) = kids st"
  "kids (st\<lparr>sv_save_n := n\<rparr>) = kids st" "kids (st\<lparr>sv_verb_classes := vs\<rparr>) = kids st"
  "kids (st\<lparr>sv_module := m\<rparr>) = kids st"
  by (simp_all add: kids_def)

lemma kids_set_obj [simp]: "kids (sv_set_obj os st) = kids st"
  by (simp add: sv_set_obj_def)

lemma kids_room_set [simp]: "kids (room_set rid room st) = kids st"
  by (simp add: room_set_def)

lemma kids_child_set: "child_get c st = Inr child \<Longrightarrow> cd_pid child' = cd_pid child \<Longrightarrow> kids (child_set c child' st) = kids st"
  by (auto simp: kids_def child_set_def child_get_def fun_eq_iff split: option.splits)

definition hooks_keep :: "('u, 'm) world_module \<Rightarrow> bool" where
  "hooks_keep wm \<longleftrightarrow>
     (\<forall>rd\<in>set (wm_world wm). \<forall>f\<in>set_option (rd_hook_enter rd) \<union> set_option (rd_hook_leave rd).
        \<forall>rid c st b st'. f rid c st = Inr (b, st') \<longrightarrow> kids st' = kids st) \<and>
     (\<forall>oc\<in>set (wm_obj_classes wm).
        (\<forall>f\<in>set_option (oc_hook_take oc) \<union> set_option (oc_hook_drop oc).
          \<forall>p c st b st'. f p c st = Inr (b, st') \<longrightarrow> kids st' = kids st) \<and>
        (\<forall>f\<in>set_option (oc_hook_desc oc). \<forall>p c st s st'. f p c st = Inr (s, st') \<longrightarrow> kids st' = kids st)) \<and>
     (\<forall>vc\<in>set (wm_verb_classes wm). \<forall>verb args c st st'. vc_hook_exec vc verb args c st = Inr st' \<longrightarrow> kids st' = kids st) \<and>
     (\<forall>cb c data st st'. wm_raw_mode_cb wm cb c data st = Inr st' \<longrightarrow> kids st' = kids st) \<and>
     (\<forall>f\<in>set_option (wm_simulation_cb wm). \<forall>st st'. f st = Inr st' \<longrightarrow> kids st' = kids st)"

section \<open>Packets\<close>

lemma kids_write_packets [kept]: "kids st = k \<Longrightarrow> post (write_packets c pkts st) (\<lambda>st. kids st = k)"
  by (auto simp: post_def write_packets_def res_bind_eq_Inr kids_child_set)

lemma kids_send_packet [kept]: "kids st = k \<Longrightarrow> post (send_packet c cmd data st) (\<lambda>st. kids st = k)"
  unfolding send_packet_def by (rule post_rules kids_write_packets | assumption)+

lemma kids_send_msg [kept]: "kids st = k \<Longrightarrow> post (send_msg c s st) (\<lambda>st. kids st = k)"
  by (simp add: send_msg_def kids_send_packet)

section \<open>Rooms, worlds and users\<close>

lemma kids_room_objects [kept]: "kids st = k \<Longrightarrow> post (room_objects rid f st) (\<lambda>x. kids (snd x) = k)"
  by (auto simp: post_def room_objects_def res_bind_eq_Inr)

lemma kids_room_obj_ops [kept]:
  "kids st = k \<Longrightarrow> post (room_obj_add rid p st) (\<lambda>x. kids (snd x) = k)"
  "kids st = k \<Longrightarrow> post (room_obj_del_by_ptr rid p st) (\<lambda>x. kids (snd x) = k)"
  by (simp_all add: room_obj_add_def room_obj_del_by_ptr_def kids_room_objects)

lemma kids_map_run [kept]: "kids st = k \<Longrightarrow> post (map_run q f st) (\<lambda>x. kids (snd x) = k)"
  by (auto simp: post_def map_run_def res_bind_eq_Inr split: option.splits)

lemma kids_user_objects [kept]: "kids st = k \<Longrightarrow> post (user_objects name f st) (\<lambda>x. kids (snd x) = k)"
  unfolding user_objects_def by (rule post_bind[OF post_any]) (rule kids_map_run)

lemma kids_user_ops [kept]:
  "kids st = k \<Longrightarrow> post (userdb_add_obj name p st) (\<lambda>x. kids (snd x) = k)"
  "kids st = k \<Longrightarrow> post (userdb_del_obj_by_ptr name p st) (\<lambda>x. kids (snd x) = k)"
  by (simp_all add: userdb_add_obj_def userdb_del_obj_by_ptr_def kids_user_objects)

lemma kids_world_verb_map: "world_verb_map st = (m, st') \<Longrightarrow> kids st' = kids st"
  by (auto simp: world_verb_map_def init_map_def Let_def split: option.splits)

lemma kids_world_save [kept]: "kids st = k \<Longrightarrow> post (world_save wm st) (\<lambda>st. kids st = k)"
  by (auto simp: post_def world_save_def res_bind_eq_Inr Let_def dest!: kids_world_verb_map split: prod.splits)

lemma kids_userdb_write [kept]: "kids st = k \<Longrightarrow> post (userdb_write wm st) (\<lambda>x. kids (snd x) = k)"
  by (auto simp: post_def userdb_write_def res_bind_eq_Inr)

lemma kids_server_save_state [kept]: "kids st = k \<Longrightarrow> post (server_save_state wm force st) (\<lambda>st. kids st = k)"
  unfolding server_save_state_def
  by (rule post_bind_pair post_bind post_rules kids_world_save kids_userdb_write | simp)+

lemma kids_userdb_remove [kept]: "kids st = k \<Longrightarrow> post (userdb_remove wm key st) (\<lambda>x. kids (snd x) = k)"
  by (auto simp: post_def userdb_remove_def res_bind_eq_Inr Let_def
      dest!: postD[OF kids_server_save_state[OF refl]] split: if_splits)

lemma kids_userdb_add [kept]: "kids st = k \<Longrightarrow> post (userdb_add wm data st) (\<lambda>x. kids (snd x) = k)"
  by (auto simp: post_def userdb_add_def inherit_objects_def new_map_def res_bind_eq_Inr Let_def
      dest!: postD[OF kids_server_save_state[OF refl]] split: option.splits)

section \<open>Hooks\<close>

lemma kids_call_hook:
  assumes "hooks_keep wm" "room_data wm rid = Inr rd" "hook = rd_hook_enter rd \<or> hook = rd_hook_leave rd" "kids st = k"
  shows "post (call_hook hook rid' c st) (\<lambda>st. kids st = k)" "post (hook_allows hook rid' c st) (\<lambda>x. kids (snd x) = k)"
proof -
  have "rd \<in> set (wm_world wm)" using assms(2) by (auto simp: room_data_def split: if_splits)
  then have keep: "kids st' = k" if "hook = Some f" "f rid' c st = Inr (b, st')" for f b st'
    using assms(1,3,4) that unfolding hooks_keep_def by fastforce
  then show "post (call_hook hook rid' c st) (\<lambda>st. kids st = k)" "post (hook_allows hook rid' c st) (\<lambda>x. kids (snd x) = k)"
    using assms(4) by (auto simp: post_def call_hook_def hook_allows_def res_bind_eq_Inr split: option.splits)
qed

lemma obj_class_of_in: "post (obj_class_of wm p st) (\<lambda>oc. oc \<in> set (wm_obj_classes wm))"
  by (auto simp: post_def obj_class_of_def res_bind_eq_Inr split: if_splits)

lemma kids_obj_hook:
  assumes "hooks_keep wm" "oc \<in> set (wm_obj_classes wm)" "kids st = k"
  shows "post (obj_hook_allows (oc_hook_take oc) p c st) (\<lambda>x. kids (snd x) = k)"
    "post (obj_hook_allows (oc_hook_drop oc) p c st) (\<lambda>x. kids (snd x) = k)"
    "oc_hook_desc oc = Some f \<Longrightarrow> post (f p c st) (\<lambda>x. kids (snd x) = k)"
  using assms unfolding hooks_keep_def
  by (fastforce simp: post_def obj_hook_allows_def split: option.splits)+

lemma verb_class_of_in: "post (verb_class_of wm verb) (\<lambda>vc. vc \<in> set (wm_verb_classes wm))"
  by (auto simp: post_def verb_class_of_def split: if_splits)

lemma kids_verb_exec:
  "hooks_keep wm \<Longrightarrow> vc \<in> set (wm_verb_classes wm) \<Longrightarrow> kids st = k \<Longrightarrow> post (vc_hook_exec vc verb args c st) (\<lambda>st. kids st = k)"
  unfolding hooks_keep_def post_def by blast

lemma kids_simulation: "hooks_keep wm \<Longrightarrow> wm_simulation_cb wm = Some f \<Longrightarrow> f st = Inr st' \<Longrightarrow> kids st' = kids st"
  unfolding hooks_keep_def by auto

lemma kids_raw_mode: "hooks_keep wm \<Longrightarrow> kids st = k \<Longrightarrow> post (wm_raw_mode_cb wm cb c data st) (\<lambda>st. kids st = k)"
  unfolding hooks_keep_def post_def by blast

lemma room_data_eq: "post (room_data wm rid) (\<lambda>rd. room_data wm rid = Inr rd)"
  by (simp add: post_def)

lemma child_get_eq: "post (child_get c st) (\<lambda>child. child_get c st = Inr child)"
  by (simp add: post_def)

section \<open>Handlers\<close>

lemma kids_room_user_add: "hooks_keep wm \<Longrightarrow> kids st = k \<Longrightarrow> post (room_user_add wm rid c st) (\<lambda>x. kids (snd x) = k)"
  unfolding room_user_add_def
  apply (rule post_bind[OF post_any])
  apply (rule post_bind[OF room_data_eq])
  apply (rule post_bind[OF post_any])
  apply (rule post_option, simp add: post_def)
  apply (rule post_bind_pair[OF post_any])
  apply (rule post_bind, erule kids_call_hook(1), assumption)
    apply (simp_all add: post_def)
  done

lemma kids_room_user_del: "hooks_keep wm \<Longrightarrow> kids st = k \<Longrightarrow> post (room_user_del wm rid c st) (\<lambda>x. kids (snd x) = k)"
  unfolding room_user_del_def
  apply (rule post_bind[OF post_any])
  apply (rule post_bind[OF room_data_eq])
  apply (rule post_bind[OF post_any])
  apply (rule post_option, simp add: post_def)
  apply (rule post_bind_pair[OF post_any], rule post_pair)
  apply (rule post_bind, erule kids_call_hook(1), assumption)
    apply (simp_all add: post_def)
  done

lemma kids_child_set_room: "hooks_keep wm \<Longrightarrow> kids st = k \<Longrightarrow> post (child_set_room wm c rid st) (\<lambda>st. kids st = k)"
  unfolding child_set_room_def
  by (rule post_bind[OF child_get_eq], rule post_bind_pair[where P = "\<lambda>st. kids st = k"], rule kids_room_user_add)
    (simp_all add: kids_child_set post_def)

text \<open>
  The steps of a handler, in the order they are tried: an operation that returns a state, one
  that returns a value and a state, the lookups whose result matters later, and any other.
\<close>

lemmas run_kids =
  post_bind_pair[where P = "\<lambda>st. kids st = k" for k, OF kids_room_obj_ops(1)]
  post_bind_pair[where P = "\<lambda>st. kids st = k" for k, OF kids_room_obj_ops(2)]
  post_bind_pair[where P = "\<lambda>st. kids st = k" for k, OF kids_user_ops(1)]
  post_bind_pair[where P = "\<lambda>st. kids st = k" for k, OF kids_user_ops(2)]
  post_bind[OF kids_send_msg] post_bind[OF kids_send_packet] post_bind[OF kids_server_save_state]
  post_bind[OF obj_class_of_in] post_bind[OF child_get_eq] post_bind[OF room_data_eq]
lemmas run_lookup =
  post_skip[where r = "sender_name c st" for c st] post_skip[where r = "sender_room c st" for c st]
  post_skip[where r = "obj_deref p os" for p os] post_skip[where r = "room_get rid st" for rid st]
  post_skip[where r = "room_obj_get rid n st" for rid n st] post_skip[where r = "user_map_ptr n st" for n st]
  post_skip[where r = "room_obj_get_size rid n st" for rid n st] post_skip[where r = "user_obj_list n key st" for n key st]
  post_skip[where r = "format_noun sz n i d c" for sz n i d c] post_skip_pair[where r = "obj_dup p os" for p os]
lemmas end_kids = kids_send_msg kids_send_packet kids_server_save_state

lemma kids_move: "hooks_keep wm \<Longrightarrow> kids st = k \<Longrightarrow> post (req_move_room wm data c st) (\<lambda>st. kids st = k)"
  unfolding req_move_room_def
  apply (rule post_let run_kids run_lookup post_if post_Inl | assumption)+
  apply (rule post_bind_pair[where P = "\<lambda>st. kids st = k"])
   apply (rule post_if)
    apply (rule run_kids, assumption, rule post_Inr, simp)
   apply (rule run_kids run_lookup)+
   apply (rule post_bind_pair[where P = "\<lambda>st. kids st = k", OF kids_call_hook(2)], assumption+, blast, assumption)
   apply (rule post_if, rule post_Inr, simp)
   apply (rule run_kids run_lookup)+
   apply (rule post_bind_pair[where P = "\<lambda>st. kids st = k", OF kids_call_hook(2)], assumption+, blast, assumption)
   apply (rule post_if, rule post_Inr, simp)
   apply (rule run_kids run_lookup)+
   apply (rule post_bind_pair[where P = "\<lambda>st. kids st = k", OF kids_room_user_del], assumption+)
   apply (rule post_bind[OF kids_child_set_room], assumption+)
   apply (simp add: post_def)
  apply (rule kids_send_packet, assumption)
  done

lemma kids_take_cells:
  assumes "hooks_keep wm"
  shows "kids st = k \<Longrightarrow> post (take_cells wm c rid name cells st) (\<lambda>st. kids st = k)"
proof (induction cells arbitrary: st)
  case (Cons cell cells)
  show ?case
    unfolding take_cells.simps
    apply (rule run_lookup post_if post_Inl post_let run_kids)+
    apply (rule post_bind_pair[where P = "\<lambda>st. kids st = k", OF kids_obj_hook(1)[OF assms]], assumption, rule Cons.prems)
    apply (rule post_bind[where P = "\<lambda>st. kids st = k"])
     apply (rule post_if end_kids run_kids run_lookup | assumption)+
    apply (rule Cons.IH, assumption)
    done
qed (simp add: post_def)

lemma kids_drop_cells:
  assumes "hooks_keep wm"
  shows "kids st = k \<Longrightarrow> post (drop_cells wm c q name cells st) (\<lambda>st. kids st = k)"
proof (induction cells arbitrary: st)
  case (Cons cell cells)
  show ?case
    unfolding drop_cells.simps
    apply (rule post_option, rule post_Inl, rule post_if, rule post_Inl, rule post_let)
    apply (rule run_lookup run_kids | simp add: Cons.prems)+
    apply (rule post_bind_pair[where P = "\<lambda>st. kids st = k", OF kids_obj_hook(2)[OF assms]], assumption, assumption)
    apply (rule post_bind[where P = "\<lambda>st. kids st = k"])
     apply (rule post_if end_kids run_kids run_lookup | assumption)+
      apply (rule run_kids run_lookup | simp)+
     apply (rule post_Inr | assumption | rule end_kids)+
    apply (rule Cons.IH, assumption)
    done
qed (simp add: post_def)

lemma kids_send_lists: "kids st = k \<Longrightarrow> post (send_lists c ls st) (\<lambda>st. kids st = k)"
proof (induction ls arbitrary: st)
  case (Cons l ls)
  obtain cells n where l: "l = (cells, n)" by (cases l)
  show ?case
  proof (cases cells)
    case (Cons cell iter)
    show ?thesis
      unfolding l Cons
      apply (cases cell, simp only: send_lists.simps)
      apply (rule run_lookup, rule post_bind[where P = "\<lambda>st. kids st = k"])
       apply (rule post_if post_Inr end_kids | rule Cons.prems)+
      apply (erule Cons.IH)
      done
  qed (simp add: l post_def Cons.prems)
qed (simp add: post_def)

lemma kids_inventory_lists: "kids st = k \<Longrightarrow> post (inventory_lists c ls st) (\<lambda>st. kids st = k)"
proof (induction ls arbitrary: st)
  case (Cons l ls)
  obtain cells n where l: "l = (cells, n)" by (cases l)
  show ?case
  proof (cases cells)
    case (Cons cell iter)
    show ?thesis
      unfolding l Cons
      apply (cases cell, simp only: inventory_lists.simps)
      apply (rule run_lookup, rule post_bind[where P = "\<lambda>st. kids st = k"])
       apply (rule post_if post_Inr run_lookup end_kids | rule Cons.prems)+
      apply (erule Cons.IH)
      done
  qed (simp add: l post_def Cons.prems)
qed (simp add: post_def)

lemma kids_send_users: "kids st = k \<Longrightarrow> post (send_users ctime c us st) (\<lambda>st. kids st = k)"
proof (induction us arbitrary: st)
  case (Cons u us)
  show ?case
    by (cases u, simp only: send_users.simps) (rule post_bind[OF kids_send_msg[OF Cons.prems]], erule Cons.IH)
qed (simp add: post_def)

lemmas kids_lists = kids_send_lists kids_inventory_lists kids_send_users

lemma kids_print_objlist:
  assumes "hooks_keep wm"
  shows "kids st = k \<Longrightarrow> post (print_objlist wm c cells idx n st) (\<lambda>x. kids (snd x) = k)"
proof (induction cells arbitrary: idx st)
  case (Cons cell cells)
  show ?case
    apply (cases cell, simp only: print_objlist.simps)
    apply (rule post_bind[OF obj_class_of_in], rule post_option, rule post_Inl)
    apply (rule post_bind_pair[where P = "\<lambda>st. kids st = k", OF kids_obj_hook(3)[OF assms _ Cons.prems]], assumption+)
    apply (rule run_kids, assumption, rule Cons.IH, assumption)
    done
qed (simp add: post_def)

lemma kids_look_at: "hooks_keep wm \<Longrightarrow> kids st = k \<Longrightarrow> post (req_look_at wm data c st) (\<lambda>st. kids st = k)"
  unfolding req_look_at_def
  apply (rule run_lookup post_let)+
  apply (rule post_bind_pair[where P = "\<lambda>st. kids st = k"])
   apply (rule post_option, simp add: post_def, rule post_pair)
   apply (rule run_kids, assumption, erule kids_print_objlist, assumption)
  apply (rule post_bind[where P = "\<lambda>st. kids st = k"])
   apply (rule post_option, simp add: post_def, rule post_pair)
   apply (rule run_kids, assumption)
   apply (rule post_bind_pair[where P = "\<lambda>st. kids st = k", OF kids_print_objlist], assumption+, simp add: post_def)
  apply (rule post_if, erule kids_send_msg, simp add: post_def)
  done

lemma kids_take: "hooks_keep wm \<Longrightarrow> kids st = k \<Longrightarrow> post (req_take wm data c st) (\<lambda>st. kids st = k)"
  unfolding req_take_def
  by (rule run_lookup post_option kids_send_msg post_bind[OF kids_take_cells] kids_server_save_state | assumption)+

lemma kids_drop: "hooks_keep wm \<Longrightarrow> kids st = k \<Longrightarrow> post (req_drop wm data c st) (\<lambda>st. kids st = k)"
  unfolding req_drop_def
  by (rule run_lookup post_option post_pair kids_send_msg post_bind[OF kids_drop_cells] kids_server_save_state post_Inr | assumption)+

lemma kids_inventory: "kids st = k \<Longrightarrow> post (req_inventory data c st) (\<lambda>st. kids st = k)"
  unfolding req_inventory_def
  by (rule run_lookup post_option post_Inl run_kids post_bind[OF kids_lists(2)] post_if kids_send_msg post_Inr | assumption)+

lemma kids_execverb: "hooks_keep wm \<Longrightarrow> kids st = k \<Longrightarrow> post (req_execverb wm data c st) (\<lambda>st. kids st = k)"
  unfolding req_execverb_def
  apply (rule post_bind[OF child_get_eq], rule post_option)
   apply (rule post_let, rule post_pair, rule post_option, rule post_Inl, rule post_let, rule post_skip, rule post_let, rule post_option)
    apply (rule post_let, rule post_pair, rule post_option)
     apply (rule kids_send_msg, metis kids_world_verb_map)
    apply (simp, rule post_bind[OF verb_class_of_in], rule kids_verb_exec, assumption+, metis kids_world_verb_map)
   apply (simp, rule post_bind[OF verb_class_of_in], rule kids_verb_exec, assumption+)
  apply (erule (1) kids_raw_mode)
  done

lemma kids_simple_requests:
  "kids st = k \<Longrightarrow> post (req_pass_msg data c d st) (\<lambda>st. kids st = k)"
  "kids st = k \<Longrightarrow> post (req_send_clientinfo data c d st) (\<lambda>st. kids st = k)"
  "kids st = k \<Longrightarrow> post (req_kick_client data c d st) (\<lambda>st. kids st = k)"
  "kids st = k \<Longrightarrow> post (req_kick_always data c d st) (\<lambda>st. kids st = k)"
  "kids st = k \<Longrightarrow> post (req_send_desc data c st) (\<lambda>st. kids st = k)"
  "kids st = k \<Longrightarrow> post (req_send_roomname data c st) (\<lambda>st. kids st = k)"
  "kids st = k \<Longrightarrow> post (req_send_user data c st) (\<lambda>st. kids st = k)"
  "kids st = k \<Longrightarrow> post (req_listusers ctime data c st) (\<lambda>st. kids st = k)"
  "kids st = k \<Longrightarrow> post (req_send_geninfo data c st) (\<lambda>st. kids st = k)"
  "kids st = k \<Longrightarrow> post (req_wait data c st) (\<lambda>st. kids st = k)"
  unfolding req_pass_msg_def req_send_clientinfo_def req_kick_client_def req_kick_always_def req_send_desc_def
    req_send_roomname_def req_send_user_def req_listusers_def req_send_geninfo_def req_wait_def
  by (rule run_kids run_lookup post_if post_let post_option post_Inl post_Inr end_kids kids_lists | assumption)+

lemma kids_user_requests:
  "kids st = k \<Longrightarrow> post (req_del_user wm data c st) (\<lambda>st. kids st = k)"
  "kids st = k \<Longrightarrow> post (req_add_user wm data c st) (\<lambda>st. kids st = k)"
  unfolding req_del_user_def req_add_user_def
  by (rule post_bind_pair[where P = "\<lambda>st. kids st = k"], rule post_if, (rule kids_userdb_remove kids_userdb_add, assumption),
      simp add: post_def, erule kids_send_packet)+

lemma kids_change_requests:
  "kids st = k \<Longrightarrow> post (req_change_state data c d st) (\<lambda>st. kids st = k)"
  "kids st = k \<Longrightarrow> post (req_change_user data c d st) (\<lambda>st. kids st = k)"
  by (auto simp: post_def req_change_state_def req_change_user_def res_bind_eq_Inr kids_child_set split: if_splits)

lemma kids_set_room: "hooks_keep wm \<Longrightarrow> kids st = k \<Longrightarrow> post (req_set_room wm data c st) (\<lambda>st. kids st = k)"
  unfolding req_set_room_def by (rule kids_child_set_room)

lemmas kids_requests = kids_simple_requests kids_user_requests kids_change_requests kids_inventory
lemmas kids_hooked_requests = kids_set_room kids_move kids_look_at kids_take kids_drop kids_execverb

section \<open>Dispatch\<close>

text \<open>Every row of the table of requests.\<close>

lemma requests_keep:
  assumes "hooks_keep wm" "req \<in> set (requests wm ctime)"
  shows "rq_handle_child req = Some f \<Longrightarrow> kids st = k \<Longrightarrow> post (f data c d st) (\<lambda>st. kids st = k)"
    and "rq_finalize req = Some g \<Longrightarrow> kids st = k \<Longrightarrow> post (g data c st) (\<lambda>st. kids st = k)"
proof -
  assume k: "kids st = k"
  note ks = kids_requests[OF k] kids_hooked_requests[OF assms(1) k]
  show "post (f data c d st) (\<lambda>st. kids st = k)" if "rq_handle_child req = Some f"
    using assms(2) that unfolding requests_def request_def by (auto intro: ks)
  show "post (g data c st) (\<lambda>st. kids st = k)" if "rq_finalize req = Some g"
    using assms(2) that unfolding requests_def request_def by (auto intro: ks)
qed

lemma kids_pass_to_others:
  assumes "hooks_keep wm" "req \<in> set (requests wm ctime)"
  shows "kids st = k \<Longrightarrow> post (pass_to_others req data sender cs st) (\<lambda>st. kids st = k)"
proof (induction cs arbitrary: st)
  case (Cons c cs)
  show ?case
    unfolding pass_to_others.simps
    by (rule post_skip, rule post_skip, rule post_bind[where P = "\<lambda>st. kids st = k"])
      (use Cons requests_keep(1)[OF assms] in \<open>auto split: option.splits child_which.splits intro: post_Inl post_Inr\<close>)
qed (simp add: post_def)

lemma kids_run_handle_child:
  assumes "hooks_keep wm" "req \<in> set (requests wm ctime)" "kids st = k"
  shows "post (run_handle_child req data sender st) (\<lambda>st. kids st = k)"
proof -
  have snd: "post (case rq_handle_child req of None \<Rightarrow> Inl Null_Deref | Some f \<Rightarrow> f data sender sender st) (\<lambda>st. kids st = k)"
    using requests_keep(1)[OF assms(1,2) _ assms(3)] by (auto split: option.splits intro: post_Inl)
  show ?thesis
    using snd post_bind[OF snd kids_pass_to_others[OF assms(1,2)]] kids_pass_to_others[OF assms(1,2,3)] assms(3)
    unfolding run_handle_child_def Let_def by (cases "rq_which req") (simp_all add: post_Inr)
qed

text \<open>The whole of one packet. The map of requests must only lead to rows of the table.\<close>

lemma kids_handle_child_req:
  assumes "hooks_keep wm" "reqmap_ok (requests wm ctime) m" "kids st = k"
  shows "post (handle_child_req wm ctime m packet st) (\<lambda>x. kids (snd x) = k)"
proof -
  have row: "requests wm ctime ! i \<in> set (requests wm ctime)" if "hash_lookup m cmd = Some i" for cmd i
  proof -
    have "i \<in> set [0..<length (requests wm ctime)]"
      using that assms(2) unfolding reqmap_ok_def by (metis in_set_zipE map_of_SomeD)
    then show ?thesis by simp
  qed
  show ?thesis
    unfolding handle_child_req_def
    apply (rule post_if, simp add: post_def assms(3), rule post_option, simp add: post_def assms(3))
    apply (rule post_let, rule post_let, rule post_bind[where P = "\<lambda>st. kids st = k"])
     apply (rule post_option, simp add: post_def assms(3), rule post_let, simp only:)
     apply (rule post_bind[OF kids_run_handle_child[OF assms(1) row assms(3)]], assumption)
     apply (rule post_option, simp add: post_def)
     apply (rule requests_keep(2)[OF assms(1) row], assumption+)
    apply (rule post_bind[OF kids_send_packet], assumption, simp add: post_def)
    done
qed

end
