(* ===== verification/Nc_Server.thy ===== *)
theory Nc_Server
  imports Nc_Frame Nc_Auth
begin

text \<open>
  The master process (\<open>src/server.c\<close>): its command line, its start, the children it forks, and
  the events of its loop. What libev and the kernel do is the environment: which event comes
  next, the pid that \<open>fork\<close> returns, the packets on the pipes, and the exited children that
  \<open>waitpid\<close> reports. \<open>server_step\<close> is one turn of the event loop; a handler that kills the master
  has no step.

  Not modelled: the creation of sockets and pipes, whose failure stops the server, the signal
  setup, and the reports on the terminal. What \<open>dlopen\<close> finds under a name is a parameter. A child of the event loop is a process whose pipe to the master may hold any packet.
\<close>

section \<open>The command line\<close>

text \<open>
  \<open>argv[argc]\<close> is NULL, and the checks for missing arguments are off by one: \<open>i + 1 > argc\<close> is
  never true. \<open>atoi10\<close> is \<open>strtol(s, NULL, 10)\<close>, saturating at the limits of \<open>long\<close>.
\<close>

fun digits_val :: "int \<Rightarrow> string \<Rightarrow> int" where
  "digits_val acc [] = acc"
| "digits_val acc (c # s) = (if isdigit c then digits_val (acc * 10 + int (code c - 48)) s else acc)"

definition atoi10 :: "string \<Rightarrow> int" where
  "atoi10 s =
     (let s = dropWhile isspace s;
          (neg, s) = (case s of c # t \<Rightarrow> if c = CHR ''-'' then (True, t) else if c = CHR ''+'' then (False, t) else (False, s)
                      | [] \<Rightarrow> (False, s));
          v = digits_val 0 s in
      if neg then max (- v) (- (2 ^ 63)) else min v (2 ^ 63 - 1))"

record options =
  op_autoconfig :: bool
  op_autouser :: "string option"
  op_autopass :: "string option"
  op_data_prefix :: "string option"
  op_port :: "16 word"
  op_world_module :: "string option"

definition DEFAULT_PORT :: "16 word" where "DEFAULT_PORT = 1234"

definition default_options :: options where
  "default_options = \<lparr>op_autoconfig = False, op_autouser = None, op_autopass = None, op_data_prefix = None,
     op_port = DEFAULT_PORT, op_world_module = Some ''build/worlds/dunnet.so''\<rparr>"

text \<open>\<open>argv[++i]\<close>: the next argument, NULL at the end.\<close>

definition next_arg :: "string list \<Rightarrow> string option \<times> string list" where
  "next_arg args = (case args of [] \<Rightarrow> (None, []) | a # rest \<Rightarrow> (Some a, rest))"

lemma next_arg_shorter [termination_simp]: "(a, rest) = next_arg args \<Longrightarrow> length rest \<le> length args"
  by (cases args) (simp_all add: next_arg_def)

text \<open>Printing the help and refusing an unknown argument end the program.\<close>

function parse_args :: "options \<Rightarrow> string list \<Rightarrow> options res" where
  "parse_args opts [] = Inr opts"
| "parse_args opts ([] # args) = Inl Exit_Process"
| "parse_args opts ((c0 # arg) # args) =
     (if c0 \<noteq> CHR ''-'' then Inl Exit_Process
      else
        case arg of
          [] \<Rightarrow> parse_args opts args
        | c # _ \<Rightarrow>
            if c = CHR ''a'' then
              (if args = [] then Inl Exit_Process
               else
                 let (user, args) = next_arg args; (pass, args) = next_arg args in
                 parse_args (opts\<lparr>op_autoconfig := True, op_autouser := user, op_autopass := pass\<rparr>) args)
            else if c = CHR ''d'' then
              (let (prefix, args) = next_arg args in parse_args (opts\<lparr>op_data_prefix := prefix\<rparr>) args)
            else if c = CHR ''p'' then
              (let (p, args) = next_arg args in
               case p of
                 None \<Rightarrow> Inl Null_Deref
               | Some p \<Rightarrow> parse_args (opts\<lparr>op_port := word_of_int (atoi10 p)\<rparr>) args)
            else if c = CHR ''w'' then
              (let (m, args) = next_arg args in parse_args (opts\<lparr>op_world_module := m\<rparr>) args)
            else Inl Exit_Process)"
  by pat_completeness auto
termination
  by (relation "measure (length \<circ> snd)") (auto simp: next_arg_def split: list.splits)

section \<open>Starting\<close>

text \<open>
  The symbols of a shared object, \<open>None\<close> where \<open>dlsym\<close> finds nothing. An array stands together with
  its size, which is read through the pointer that \<open>dlsym\<close> returned. The callbacks of the raw mode are
  no symbols, but code of the module that its verbs refer to.
\<close>

record ('u, 'm) symbols =
  ls_verb_classes :: "('u, 'm) server_state verb_class_t list option"
  ls_obj_classes :: "('u, ('u, 'm) server_state) obj_class_t list option"
  ls_world :: "('u, 'm) roomdata_t list option"
  ls_world_name :: "string option"
  ls_simulation_cb :: "(('u, 'm) server_state \<Rightarrow> ('u, 'm) server_state res) option"
  ls_simulation_interval :: "u32 option"
  ls_write_userdata_cb :: "(nat \<Rightarrow> ('u, 'm) server_state \<Rightarrow> string) option"
  ls_read_userdata_cb :: "(string \<Rightarrow> ('u, 'm) server_state \<Rightarrow> (nat \<times> string \<times> ('u, 'm) server_state) res) option"
  ls_raw_mode_cb :: "nat \<Rightarrow> user_ptr \<Rightarrow> string \<Rightarrow> ('u, 'm) server_state \<Rightarrow> ('u, 'm) server_state res"

definition sym_deref :: "'a option \<Rightarrow> 'a res" where
  "sym_deref ptr = (case ptr of None \<Rightarrow> Inl Null_Deref | Some x \<Rightarrow> Inr x)"

definition load_symbols :: "('u, 'm) symbols option \<Rightarrow> ('u, 'm) world_module res" where
  "load_symbols module_handle =
     (case module_handle of
        None \<Rightarrow> Inl (Error ''cannot load world module'')
      | Some syms \<Rightarrow>
          res_bind (sym_deref (ls_verb_classes syms)) (\<lambda>verb_classes.
          res_bind (sym_deref (ls_obj_classes syms)) (\<lambda>obj_classes.
          res_bind (sym_deref (ls_world syms)) (\<lambda>world.
          res_bind (sym_deref (ls_world_name syms)) (\<lambda>world_name.
          res_bind (case ls_simulation_interval syms of
                      Some interval \<Rightarrow> Inr interval
                    | None \<Rightarrow>
                        if ls_simulation_cb syms \<noteq> None
                        then Inl (Error ''have simulation callback, but no interval specified'') else Inr 0) (\<lambda>interval.
            Inr \<lparr>wm_verb_classes = verb_classes, wm_obj_classes = obj_classes, wm_world = world,
                 wm_world_name = world_name, wm_write_userdata_cb = ls_write_userdata_cb syms,
                 wm_read_userdata_cb = ls_read_userdata_cb syms, wm_raw_mode_cb = ls_raw_mode_cb syms,
                 wm_simulation_cb = ls_simulation_cb syms, wm_simulation_interval = interval\<rparr>))))))"

text \<open>The rest of \<open>load_worldfile\<close>: a new world is built and saved, an old one is loaded.\<close>

definition load_worldfile ::
  "('u, 'm) world_module \<Rightarrow> ('u, 'm) server_state \<Rightarrow> ('u, 'm) server_state res" where
  "load_worldfile wm st =
     (case sv_worldfile st of
        None \<Rightarrow> res_bind (world_init wm st) (\<lambda>(_, st). world_save wm st)
      | Some _ \<Rightarrow>
          res_bind (world_load wm st) (\<lambda>(ok, st).
            if ok then Inr st else Inl (Error ''Failed to load world from disk.'')))"

text \<open>
  Changing to the data directory makes other files the world and user files: \<open>prefix\<close> is what
  they contain there.
\<close>

definition enter_prefix ::
  "options \<Rightarrow> string option \<times> string option \<Rightarrow> ('u, 'm) server_state \<Rightarrow> ('u, 'm) server_state" where
  "enter_prefix opts prefix st =
     (if op_data_prefix opts = None then st else st\<lparr>sv_worldfile := fst prefix, sv_userfile := snd prefix\<rparr>)"

definition check_userfile ::
  "('u, 'm) world_module \<Rightarrow> (string \<Rightarrow> string) \<Rightarrow> (nat \<Rightarrow> nat) \<Rightarrow> int \<Rightarrow> string list \<Rightarrow> options \<Rightarrow>
   ('u, 'm) server_state \<Rightarrow> ('u, 'm) server_state res" where
  "check_userfile wm sha rnd now input opts st =
     (if sv_userfile st = None \<or> userdb_size st = 0 then
        res_bind
          (if \<not> op_autoconfig opts then first_run_setup wm sha rnd now input st
           else
             (case (op_autouser opts, op_autopass opts) of
                (Some user, Some pass) \<Rightarrow>
                  res_bind (auth_user_add wm sha rnd now user pass PRIV_ADMIN st) (\<lambda>(_, st). Inr st)
              | _ \<Rightarrow> Inl Null_Deref)) (\<lambda>st.
        res_bind (userdb_write wm st) (\<lambda>(_, st). Inr st))
      else Inr st)"

definition free_child_data :: "user_ptr \<Rightarrow> (user_ptr \<rightharpoonup> child_data) \<Rightarrow> (user_ptr \<rightharpoonup> child_data) res" where
  "free_child_data c children = (if children c = None then Inl Use_After_Free else Inr (children(c := None)))"

text \<open>The keys are copies of the pids; freeing them is freeing nothing in the model.\<close>

definition child_map_init :: "(int, user_ptr, user_ptr \<rightharpoonup> child_data) hash_map" where
  "child_map_init = hash_setfreedata_cb (hash_init 16 simp_hash simp_equal) (Some free_child_data)"

text \<open>\<open>server_main\<close> up to the event loop: the module, the map of requests and the state.\<close>

definition server_start ::
  "(string \<Rightarrow> ('u, 'm) symbols option) \<Rightarrow> (int \<Rightarrow> string) \<Rightarrow> (string \<Rightarrow> string) \<Rightarrow> (nat \<Rightarrow> nat) \<Rightarrow> int \<Rightarrow> string list \<Rightarrow>
   string list \<Rightarrow> string option \<times> string option \<Rightarrow> ('u, 'm) server_state \<Rightarrow>
   (('u, 'm) world_module \<times> (int, nat, unit) hash_map \<times> ('u, 'm) server_state) res" where
  "server_start dlopen ctime sha rnd now input args prefix st =
     res_bind (parse_args default_options args) (\<lambda>opts.
     case op_world_module opts of
       None \<Rightarrow> Inl (Error ''no world module specified'')
     | Some world_module \<Rightarrow>
         res_bind (load_symbols (dlopen world_module)) (\<lambda>wm.
         res_bind (load_worldfile wm st) (\<lambda>st.
         res_bind (userdb_init wm (enter_prefix opts prefix st)) (\<lambda>st.
         res_bind (check_userfile wm sha rnd now input opts st) (\<lambda>st.
         res_bind (reqmap_init (requests wm ctime)) (\<lambda>request_map.
           Inr (wm, request_map, st\<lparr>sv_child_map := child_map_init\<rparr>)))))))"

text \<open>
  What a new child frees of the image it got from the master, before it serves its client, and
  what the master frees at exit.
\<close>

definition shutdown_modules :: "('u, 'm) world_module \<Rightarrow> ('u, 'm) server_state \<Rightarrow> ('u, 'm) server_state res" where
  "shutdown_modules wm st =
     res_bind (userdb_shutdown (sv_set_obj (obj_shutdown (sv_obj st)) st)) (\<lambda>st.
     res_bind (world_free wm (st\<lparr>sv_verb_classes := verb_shutdown (sv_verb_classes st)\<rparr>)) (\<lambda>st.
     res_bind (hash_free (sv_child_map st) (sv_children st)) (\<lambda>children.
       Inr (st\<lparr>sv_child_map := hash_init 1 simp_hash simp_equal, sv_children := children\<rparr>))))"

text \<open>\<open>server_shutdown\<close> in the master, run at exit.\<close>

definition server_shutdown :: "('u, 'm) world_module \<Rightarrow> ('u, 'm) server_state \<Rightarrow> ('u, 'm) server_state res" where
  "server_shutdown wm st = res_bind (server_save_state wm True st) (shutdown_modules wm)"

section \<open>Children\<close>

text \<open>\<open>new_connection_cb\<close> in the parent, after \<open>fork\<close> has returned \<open>pid\<close>.\<close>

definition new_connection ::
  "int \<Rightarrow> string \<Rightarrow> ('u, 'm) server_state \<Rightarrow> ('u, 'm) server_state res" where
  "new_connection pid addr st =
     (let st = st\<lparr>sv_num_clients := sv_num_clients st + 1\<rparr>; c = sv_next_child st;
          new = \<lparr>cd_pid = pid, cd_outpipe = [], cd_state = STATE_INIT, cd_room = 0, cd_user = None,
                 cd_raw_mode_cb = None, cd_addr = addr\<rparr>;
          st = st\<lparr>sv_children := (sv_children st)(c \<mapsto> new), sv_next_child := Suc c\<rparr> in
      res_bind (hash_insert (sv_child_map st) pid c) (\<lambda>(_, tab). Inr (st\<lparr>sv_child_map := tab\<rparr>)))"

text \<open>The loop of \<open>handle_disconnects\<close> over the pids that \<open>waitpid\<close> yields.\<close>

fun handle_disconnects ::
  "('u, 'm) world_module \<Rightarrow> int list \<Rightarrow> ('u, 'm) server_state \<Rightarrow> ('u, 'm) server_state res" where
  "handle_disconnects wm [] st = Inr st"
| "handle_disconnects wm (pid # pids) st =
     (case hash_lookup (sv_child_map st) pid of
        None \<Rightarrow> Inl Null_Deref
      | Some c \<Rightarrow>
          res_bind (child_get c st) (\<lambda>child.
          res_bind (room_user_del wm (cd_room child) c st) (\<lambda>(_, st).
          let st = st\<lparr>sv_num_clients := sv_num_clients st - 1\<rparr> in
          res_bind (hash_remove (sv_child_map st) pid (sv_children st)) (\<lambda>(_, tab, children).
            handle_disconnects wm pids (st\<lparr>sv_child_map := tab, sv_children := children\<rparr>)))))"

text \<open>
  \<open>childreq_cb\<close>: one packet, then the exited children if the pipe was broken or a signal has
  ever reported an exit (\<open>reap_children\<close> is never reset). The result has the exited children
  that are still to be waited for.
\<close>

definition childreq_cb ::
  "('u, 'm) world_module \<Rightarrow> (int \<Rightarrow> string) \<Rightarrow> (int, nat, unit) hash_map \<Rightarrow> string \<Rightarrow> bool \<Rightarrow> int list \<Rightarrow>
   ('u, 'm) server_state \<Rightarrow> (int list \<times> ('u, 'm) server_state) res" where
  "childreq_cb wm ctime request_map packet reap_children zombies st =
     res_bind (handle_child_req wm ctime request_map packet st) (\<lambda>(ok, st).
     res_bind (if \<not> ok then res_bind (handle_disconnects wm zombies st) (\<lambda>st. Inr ([], st)) else Inr (zombies, st)) (\<lambda>(zombies, st).
       if reap_children then res_bind (handle_disconnects wm zombies st) (\<lambda>st. Inr ([], st)) else Inr (zombies, st)))"

section \<open>The event loop\<close>

text \<open>The master among its children: those running, and those that exited and wait to be reaped.\<close>

record ('u, 'm) system =
  sy_state :: "('u, 'm) server_state"
  sy_running :: "int set"
  sy_zombies :: "int list"
  sy_reap_children :: bool

text \<open>
  The pid of a new process is not that of a process that exists, the exited ones included, as
  they keep their pid until they are waited for.
\<close>

inductive server_step ::
  "('u, 'm) world_module \<Rightarrow> (int \<Rightarrow> string) \<Rightarrow> (int, nat, unit) hash_map \<Rightarrow> ('u, 'm) system \<Rightarrow> ('u, 'm) system \<Rightarrow> bool"
  for wm ctime request_map where
  connect: "pid \<notin> sy_running s \<Longrightarrow> pid \<notin> set (sy_zombies s) \<Longrightarrow> new_connection pid addr (sy_state s) = Inr st \<Longrightarrow>
    server_step wm ctime request_map s (s\<lparr>sy_state := st, sy_running := insert pid (sy_running s)\<rparr>)"
| exits: "pid \<in> sy_running s \<Longrightarrow>
    server_step wm ctime request_map s
      (s\<lparr>sy_running := sy_running s - {pid}, sy_zombies := sy_zombies s @ [pid], sy_reap_children := True\<rparr>)"
| serve: "childreq_cb wm ctime request_map packet (sy_reap_children s) (sy_zombies s) (sy_state s) = Inr (zombies, st) \<Longrightarrow>
    server_step wm ctime request_map s (s\<lparr>sy_state := st, sy_zombies := zombies\<rparr>)"
| simulate: "start_sim_callback wm = Some sim_cb \<Longrightarrow> sim_cb (sy_state s) = Inr st \<Longrightarrow>
    server_step wm ctime request_map s (s\<lparr>sy_state := st\<rparr>)"

inductive_cases server_stepE: "server_step wm ctime request_map s s'"

inductive_simps server_step_simps: "server_step wm ctime request_map s s'"

definition listening :: "('u, 'm) system \<Rightarrow> bool" where
  "listening s \<longleftrightarrow> sv_child_map (sy_state s) = child_map_init \<and> sv_children (sy_state s) = Map.empty \<and>
     sv_num_clients (sy_state s) = 0 \<and> sy_running s = {} \<and> sy_zombies s = []"

section \<open>The table of children\<close>

abbreviation child_table_ok :: "(int, user_ptr, user_ptr \<rightharpoonup> child_data) hash_map \<Rightarrow> bool" where
  "child_table_ok \<equiv> owned_table simp_hash simp_equal free_child_data"

interpretation child_table: owning_map child_table_ok hash_lookup hash_insert hash_entries hash_overwrite hash_remove free_child_data
  by (rule owned_table_laws) simp

text \<open>
  The registered pids are those of the running and of the exited children; a registered child
  has its record, a record its child, and the clients are counted.
\<close>

definition kids_ok :: "int set \<Rightarrow> int list \<Rightarrow> ('u, 'm) server_state \<Rightarrow> bool" where
  "kids_ok running zombies st \<longleftrightarrow>
     child_table_ok (sv_child_map st) \<and> finite running \<and> distinct zombies \<and> running \<inter> set zombies = {} \<and>
     dom (hash_lookup (sv_child_map st)) = running \<union> set zombies \<and>
     (\<forall>pid c. hash_lookup (sv_child_map st) pid = Some c \<longrightarrow> map_option cd_pid (sv_children st c) = Some pid) \<and>
     (\<forall>c pid. map_option cd_pid (sv_children st c) = Some pid \<longrightarrow> hash_lookup (sv_child_map st) pid = Some c \<and> c < sv_next_child st) \<and>
     sv_num_clients st = int (card running) + int (length zombies)"

lemma kids_okI:
  assumes "child_table_ok (sv_child_map st)" "finite r" "distinct z" "r \<inter> set z = {}"
    "dom (hash_lookup (sv_child_map st)) = r \<union> set z"
    "\<And>pid c. hash_lookup (sv_child_map st) pid = Some c \<Longrightarrow> map_option cd_pid (sv_children st c) = Some pid"
    "\<And>c pid. map_option cd_pid (sv_children st c) = Some pid \<Longrightarrow> hash_lookup (sv_child_map st) pid = Some c \<and> c < sv_next_child st"
    "sv_num_clients st = int (card r) + int (length z)"
  shows "kids_ok r z st"
  unfolding kids_ok_def using assms by blast

lemma kids_okD:
  assumes "kids_ok r z st"
  shows "child_table_ok (sv_child_map st)" "finite r" "distinct z" "r \<inter> set z = {}"
    "dom (hash_lookup (sv_child_map st)) = r \<union> set z"
    "\<And>pid c. hash_lookup (sv_child_map st) pid = Some c \<Longrightarrow> map_option cd_pid (sv_children st c) = Some pid"
    "\<And>c pid. map_option cd_pid (sv_children st c) = Some pid \<Longrightarrow> hash_lookup (sv_child_map st) pid = Some c \<and> c < sv_next_child st"
    "sv_num_clients st = int (card r) + int (length z)"
  using assms unfolding kids_ok_def by blast+

lemma kids_ok_cong:
  assumes "kids st' = kids st"
  shows "kids_ok r z st' = kids_ok r z st"
proof -
  have "sv_child_map st' = sv_child_map st" "sv_next_child st' = sv_next_child st" "sv_num_clients st' = sv_num_clients st"
    and "\<And>c. map_option cd_pid (sv_children st' c) = map_option cd_pid (sv_children st c)"
    using assms by (auto simp: kids_def dest: fun_cong)
  then show ?thesis by (simp add: kids_ok_def)
qed

lemma child_map_init_ok: "child_table_ok child_map_init" "hash_lookup child_map_init = Map.empty"
proof -
  show ok: "child_table_ok child_map_init" unfolding child_map_init_def by (rule owned_table_init)
  have "hash_entries child_map_init = []"
    by (simp add: child_map_init_def hash_setfreedata_cb_def hash_init_def hash_entries_def)
  then show "hash_lookup child_map_init = Map.empty" using child_table.entries_lookup[OF ok] by simp
qed

lemma kids_ok_initial:
  "sv_child_map st = child_map_init \<Longrightarrow> sv_children st = Map.empty \<Longrightarrow> sv_num_clients st = 0 \<Longrightarrow> kids_ok {} [] st"
  by (simp add: kids_ok_def child_map_init_ok)

lemma new_connection_ok:
  assumes "kids_ok r z st" "pid \<notin> r" "pid \<notin> set z"
  shows "\<exists>st'. new_connection pid addr st = Inr st' \<and> kids_ok (insert pid r) z st' \<and>
    (\<exists>child. sv_children st' = (sv_children st)(sv_next_child st \<mapsto> child) \<and> sv_children st (sv_next_child st) = None \<and>
       cd_pid child = pid \<and> cd_state child = STATE_INIT \<and> cd_room child = 0 \<and> cd_user child = None \<and> cd_outpipe child = []) \<and>
    sv_world st' = sv_world st \<and> sv_heap st' = sv_heap st \<and> sv_db_map st' = sv_db_map st"
proof -
  let ?c = "sv_next_child st"
  have tab: "child_table_ok (sv_child_map st)" and none: "hash_lookup (sv_child_map st) pid = None"
    using kids_okD(1,5)[OF assms(1)] assms(2,3) by (auto simp: dom_def)
  obtain tab' where tab': "hash_insert (sv_child_map st) pid ?c = Inr (None, tab')" "child_table_ok tab'"
    "hash_lookup tab' = (hash_lookup (sv_child_map st))(pid \<mapsto> ?c)"
    using child_table.insert_absent[OF tab none] by blast
  let ?new = "\<lparr>cd_pid = pid, cd_outpipe = [], cd_state = STATE_INIT, cd_room = 0, cd_user = None, cd_raw_mode_cb = None, cd_addr = addr\<rparr>"
  let ?st = "st\<lparr>sv_num_clients := sv_num_clients st + 1, sv_children := (sv_children st)(?c \<mapsto> ?new), sv_next_child := Suc ?c, sv_child_map := tab'\<rparr>"
  note k = kids_okD[OF assms(1)]
  have fresh: "sv_children st ?c = None"
  proof (cases "sv_children st ?c")
    case (Some child)
    then show ?thesis using k(7)[of ?c "cd_pid child"] by simp
  qed
  have old: "hash_lookup (sv_child_map st) p \<noteq> Some ?c" for p
    using k(6)[of p ?c] fresh by auto
  have "kids_ok (insert pid r) z ?st"
  proof (rule kids_okI)
    show "child_table_ok (sv_child_map ?st)" using tab'(2) by simp
    show "dom (hash_lookup (sv_child_map ?st)) = insert pid r \<union> set z" using k(5) tab'(3) by simp
    show "map_option cd_pid (sv_children ?st c) = Some p" if "hash_lookup (sv_child_map ?st) p = Some c" for p c
      using that k(6)[of p c] old[of p] tab'(3) by (auto split: if_splits)
    show "hash_lookup (sv_child_map ?st) p = Some c \<and> c < sv_next_child ?st" if "map_option cd_pid (sv_children ?st c) = Some p" for c p
      using that k(7)[of c p] tab'(3) none by (auto split: if_splits)
    show "sv_num_clients ?st = int (card (insert pid r)) + int (length z)" using k(2,8) assms(2) by simp
  qed (use k assms in auto)
  moreover have "new_connection pid addr st = Inr ?st"
    using tab'(1) by (simp add: new_connection_def Let_def)
  ultimately show ?thesis using fresh by auto
qed

text \<open>Forgetting one exited child.\<close>

lemma forget_child_ok:
  assumes "kids_ok r (pid # z) st" "hash_lookup (sv_child_map st) pid = Some c"
  shows "\<exists>tab. hash_remove (sv_child_map st) pid (sv_children st) = Inr (True, tab, (sv_children st)(c := None)) \<and>
    kids_ok r z (st\<lparr>sv_num_clients := sv_num_clients st - 1, sv_child_map := tab, sv_children := (sv_children st)(c := None)\<rparr>)"
proof -
  have tab: "child_table_ok (sv_child_map st)" and pid: "map_option cd_pid (sv_children st c) = Some pid"
    using kids_okD(1,6)[OF assms(1)] assms(2) by blast+
  have "free_child_data c (sv_children st) = Inr ((sv_children st)(c := None))"
    using pid by (auto simp: free_child_data_def)
  from child_table.remove_known[OF tab assms(2) this]
  obtain tab' where tab': "hash_remove (sv_child_map st) pid (sv_children st) = Inr (True, tab', (sv_children st)(c := None))"
    "child_table_ok tab'" "hash_lookup tab' = (hash_lookup (sv_child_map st))(pid := None)"
    by blast
  note k = kids_okD[OF assms(1)]
  have uniq: "p = pid" if "hash_lookup (sv_child_map st) p = Some c" for p
    using k(6)[OF that] pid by simp
  let ?st = "st\<lparr>sv_num_clients := sv_num_clients st - 1, sv_child_map := tab', sv_children := (sv_children st)(c := None)\<rparr>"
  have "kids_ok r z ?st"
  proof (rule kids_okI)
    show "child_table_ok (sv_child_map ?st)" using tab'(2) by simp
    show "dom (hash_lookup (sv_child_map ?st)) = r \<union> set z" using k(3-5) tab'(3) by auto
    show "map_option cd_pid (sv_children ?st d) = Some p" if "hash_lookup (sv_child_map ?st) p = Some d" for p d
      using that k(6)[of p d] uniq[of p] tab'(3) by (auto split: if_splits)
    show "hash_lookup (sv_child_map ?st) p = Some d \<and> d < sv_next_child ?st" if "map_option cd_pid (sv_children ?st d) = Some p" for d p
      using that k(7)[of d p] tab'(3) assms(2) by (auto split: if_splits)
    show "sv_num_clients ?st = int (card r) + int (length z)" using k(8) by simp
  qed (use k in auto)
  then show ?thesis using tab'(1) by blast
qed

lemma handle_disconnects_ok:
  assumes "hooks_keep wm"
  shows "kids_ok r z st \<Longrightarrow> post (handle_disconnects wm z st) (kids_ok r [])"
proof (induction z arbitrary: st)
  case (Cons pid z)
  obtain c where c: "hash_lookup (sv_child_map st) pid = Some c"
    using kids_okD(5)[OF Cons.prems] by (auto simp: dom_def)
  have forget: "post (res_bind (hash_remove (sv_child_map st1) pid (sv_children st1)) (\<lambda>(_, tab, children).
      handle_disconnects wm z (st1\<lparr>sv_num_clients := sv_num_clients st1 - 1, sv_child_map := tab, sv_children := children\<rparr>)))
      (kids_ok r [])" if "kids st1 = kids st" for st1
  proof -
    have "kids_ok r (pid # z) st1" "hash_lookup (sv_child_map st1) pid = Some c"
      using Cons.prems c kids_ok_cong[OF that] that by (simp_all add: kids_def)
    from forget_child_ok[OF this] show ?thesis using Cons.IH by auto
  qed
  show ?case
    unfolding handle_disconnects.simps c option.case
    apply (rule post_skip)
    apply (rule post_bind_pair[where P = "\<lambda>st1. kids st1 = kids st", OF kids_room_user_del[OF assms refl]])
    apply (simp add: Let_def forget)
    done
qed (simp add: post_Inr)

section \<open>Reachable states\<close>

lemma childreq_cb_ok:
  assumes "hooks_keep wm" "reqmap_ok (requests wm ctime) m" "kids_ok r z st"
    and run: "childreq_cb wm ctime m packet reap z st = Inr (z', st')"
  shows "kids_ok r z' st'" "reap \<Longrightarrow> z' = []"
proof -
  obtain ok st1 where st1: "handle_child_req wm ctime m packet st = Inr (ok, st1)"
    "res_bind (if \<not> ok then res_bind (handle_disconnects wm z st1) (\<lambda>st. Inr ([], st)) else Inr (z, st1)) (\<lambda>(zombies, st).
       if reap then res_bind (handle_disconnects wm zombies st) (\<lambda>st. Inr ([], st)) else Inr (zombies, st)) = Inr (z', st')"
    using run by (auto simp: childreq_cb_def res_bind_eq_Inr)
  have "kids st1 = kids st"
    using postD[OF kids_handle_child_req[OF assms(1,2) refl] st1(1)] by simp
  then have "kids_ok r z st1" using assms(3) kids_ok_cong by blast
  then show "kids_ok r z' st'" "reap \<Longrightarrow> z' = []"
    using st1(2) postD[OF handle_disconnects_ok[OF assms(1)]] by (auto simp: res_bind_eq_Inr split: if_splits)
qed

lemma server_step_ok:
  assumes "hooks_keep wm" "reqmap_ok (requests wm ctime) m"
    and "server_step wm ctime m s s'" "kids_ok (sy_running s) (sy_zombies s) (sy_state s)"
  shows "kids_ok (sy_running s') (sy_zombies s') (sy_state s')"
  using assms(3)
proof (cases rule: server_step.cases)
  case (connect pid addr st)
  then show ?thesis using new_connection_ok[OF assms(4), of pid addr] by auto
next
  case (exits pid)
  have "int (card (sy_running s - {pid})) = int (card (sy_running s)) - 1"
    using kids_okD(2)[OF assms(4)] exits(2) card_Suc_Diff1[of "sy_running s" pid] by simp
  note k = kids_okD[OF assms(4)] and card = this
  have "kids_ok (sy_running s - {pid}) (sy_zombies s @ [pid]) (sy_state s)"
  proof (rule kids_okI)
    show "sv_num_clients (sy_state s) = int (card (sy_running s - {pid})) + int (length (sy_zombies s @ [pid]))"
      using k(8) card by simp
    show "dom (hash_lookup (sv_child_map (sy_state s))) = sy_running s - {pid} \<union> set (sy_zombies s @ [pid])"
      using k(5) exits(2) by auto
    show "finite (sy_running s - {pid})" "distinct (sy_zombies s @ [pid])"
      "(sy_running s - {pid}) \<inter> set (sy_zombies s @ [pid]) = {}"
      using k(2-4) exits(2) by auto
  qed (rule k, assumption?)+
  then show ?thesis using exits(1) by simp
next
  case (serve packet zombies st)
  then show ?thesis using childreq_cb_ok(1)[OF assms(1,2,4)] by auto
next
  case (simulate sim_cb st)
  then have "kids st = kids (sy_state s)"
    using kids_simulation[OF assms(1)] by (auto simp: start_sim_callback_def split: option.splits if_splits)
  from kids_ok_cong[OF this] show ?thesis using simulate(1) assms(4) by simp
qed

lemma server_reachable_ok:
  assumes "hooks_keep wm" "reqmap_ok (requests wm ctime) m" "listening s0" "(server_step wm ctime m)\<^sup>*\<^sup>* s0 s"
  shows "kids_ok (sy_running s) (sy_zombies s) (sy_state s)"
  using assms(4)
proof (induction rule: rtranclp_induct)
  case base
  then show ?case using assms(3) by (simp add: listening_def kids_ok_initial)
next
  case (step s s')
  then show ?case using server_step_ok[OF assms(1,2)] by blast
qed

section \<open>Disconnecting\<close>

text \<open>
  Every child is in a room of the world, the tables of users are sound, and no room has a hook
  that could fail when somebody leaves.
\<close>

definition placed :: "('u, 'm) world_module \<Rightarrow> ('u, 'm) server_state \<Rightarrow> bool" where
  "placed wm st \<longleftrightarrow> length (wm_world wm) = length (sv_world st) \<and>
     (\<forall>rd\<in>set (wm_world wm). rd_hook_leave rd = None) \<and>
     (\<forall>room\<in>set (sv_world st). str_table (rm_users room)) \<and>
     (\<forall>c child. sv_children st c = Some child \<longrightarrow> 0 \<le> cd_room child \<and> nat (cd_room child) < length (sv_world st))"

lemma placed_leave:
  assumes "placed wm st" "sv_children st c = Some child"
  shows "\<exists>b st1. room_user_del wm (cd_room child) c st = Inr (b, st1) \<and> placed wm st1 \<and> kids st1 = kids st \<and>
    sv_children st1 = sv_children st"
proof -
  let ?r = "cd_room child" let ?room = "sv_world st ! nat ?r" let ?rd = "wm_world wm ! nat ?r"
  have r: "0 \<le> ?r" "nat ?r < length (sv_world st)" "nat ?r < length (wm_world wm)"
    using assms by (auto simp: placed_def)
  have room: "room_get ?r st = Inr ?room" "room_data wm ?r = Inr ?rd" "rd_hook_leave ?rd = None" "str_table (rm_users ?room)"
    using assms(1) r by (auto simp: room_get_def room_data_def placed_def)
  show ?thesis
  proof (cases "cd_user child")
    case None
    then have "room_user_del wm ?r c st = Inr (False, st)"
      using room assms(2) by (simp add: room_user_del_def child_get_def)
    then show ?thesis using assms(1) by blast
  next
    case (Some user)
    have "\<exists>b users s. hash_remove (rm_users ?room) user () = Inr (b, users, s) \<and> str_table users"
      using str_map.remove_absent[OF room(4), of user "()"] str_map.remove_present[OF room(4), of user _ "()"] room(4)
      by (cases "hash_lookup (rm_users ?room) user") blast+
    then obtain b users where u: "hash_remove (rm_users ?room) user () = Inr (b, users, ())" "str_table users" by auto
    let ?st = "room_set ?r (?room\<lparr>rm_users := users\<rparr>) st"
    have "room_user_del wm ?r c st = Inr (b, ?st)"
      using room assms(2) Some u(1) by (simp add: room_user_del_def call_hook_def child_get_def)
    moreover have "placed wm ?st"
      using assms(1) u(2) by (auto simp: placed_def room_set_def dest!: set_update_subset_insert[THEN subsetD])
    ultimately show ?thesis by auto
  qed
qed

lemma handle_disconnects_total:
  "kids_ok r z st \<Longrightarrow> placed wm st \<Longrightarrow> \<exists>st'. handle_disconnects wm z st = Inr st' \<and> kids_ok r [] st' \<and> placed wm st' \<and>
    (\<forall>c child. sv_children st' c = Some child \<longleftrightarrow> sv_children st c = Some child \<and> cd_pid child \<notin> set z)"
proof (induction z arbitrary: st)
  case (Cons pid z)
  obtain c where c: "hash_lookup (sv_child_map st) pid = Some c"
    using kids_okD(5)[OF Cons.prems(1)] by (auto simp: dom_def)
  obtain child where child: "sv_children st c = Some child" "cd_pid child = pid"
    using kids_okD(6)[OF Cons.prems(1) c] by auto
  obtain b st1 where st1: "room_user_del wm (cd_room child) c st = Inr (b, st1)" "placed wm st1" "kids st1 = kids st"
    "sv_children st1 = sv_children st"
    using placed_leave[OF Cons.prems(2) child(1)] by blast
  have k1: "kids_ok r (pid # z) st1" "hash_lookup (sv_child_map st1) pid = Some c"
    using Cons.prems(1) c kids_ok_cong[OF st1(3)] st1(3) by (simp_all add: kids_def)
  obtain tab where tab: "hash_remove (sv_child_map st1) pid (sv_children st1) = Inr (True, tab, (sv_children st1)(c := None))"
    "kids_ok r z (st1\<lparr>sv_num_clients := sv_num_clients st1 - 1, sv_child_map := tab, sv_children := (sv_children st1)(c := None)\<rparr>)"
    using forget_child_ok[OF k1] by blast
  let ?st2 = "st1\<lparr>sv_num_clients := sv_num_clients st1 - 1, sv_child_map := tab, sv_children := (sv_children st1)(c := None)\<rparr>"
  have placed2: "placed wm ?st2" using st1(2) by (auto simp: placed_def split: if_splits)
  obtain st' where st': "handle_disconnects wm z ?st2 = Inr st'" "kids_ok r [] st'" "placed wm st'"
    "\<forall>d child. sv_children st' d = Some child \<longleftrightarrow> sv_children ?st2 d = Some child \<and> cd_pid child \<notin> set z"
    using Cons.IH[OF tab(2) placed2] by blast
  have "handle_disconnects wm (pid # z) st = Inr st'"
    using c child(1) st1(1) tab(1) st'(1) by (simp add: child_get_def)
  moreover have "cd_pid ch = pid \<longleftrightarrow> d = c" if "sv_children st d = Some ch" for d ch
    using kids_okD(7)[OF Cons.prems(1), of d "cd_pid ch"] that c child by auto
  then have "sv_children st' d = Some ch \<longleftrightarrow> sv_children st d = Some ch \<and> cd_pid ch \<notin> set (pid # z)" for d ch
    using st'(4) st1(4) by auto
  ultimately show ?case using st'(2,3) by blast
qed simp

section \<open>Properties\<close>

text \<open>C24: whatever happens from the moment the server listens, connections, exits of children and
  any packets at all, the master knows its children: the registered pids are those of the running
  and the exited children, each with a record of its own and no record without a child, and the
  number of clients is right. In particular the lookup in \<open>handle_disconnects\<close>, whose result is
  used without a check, never fails. The hooks of the world module must not touch the table of
  children.\<close>

theorem server_children_invariant:
  assumes "hooks_keep wm" "reqmap_ok (requests wm ctime) m" "listening s0" "(server_step wm ctime m)\<^sup>*\<^sup>* s0 s"
  shows "dom (hash_lookup (sv_child_map (sy_state s))) = sy_running s \<union> set (sy_zombies s) \<and>
    sy_running s \<inter> set (sy_zombies s) = {} \<and> distinct (sy_zombies s) \<and>
    (\<forall>pid c. hash_lookup (sv_child_map (sy_state s)) pid = Some c \<longleftrightarrow>
       (\<exists>child. sv_children (sy_state s) c = Some child \<and> cd_pid child = pid)) \<and>
    sv_num_clients (sy_state s) = int (card (sy_running s)) + int (length (sy_zombies s))"
proof -
  note k = kids_okD[OF server_reachable_ok[OF assms]]
  have "hash_lookup (sv_child_map (sy_state s)) pid = Some c \<longleftrightarrow>
      (\<exists>child. sv_children (sy_state s) c = Some child \<and> cd_pid child = pid)" for pid c
    using k(6)[of pid c] k(7)[of c pid] by auto
  then show ?thesis using k(3-5,8) by blast
qed

text \<open>C25: exited children are reaped, in a world where every child is in a room, the tables of users of the rooms
  are sound, and no room has a hook for leaving it, as in \<open>dunnet\<close> (such a hook runs for every child that exits, and could
  stop the server): \<open>handle_disconnects\<close>
  returns, and afterwards exactly the children that exited are forgotten, the others and their
  records are as before, and the number of clients is that of the running ones.\<close>

theorem handle_disconnects_reaps:
  assumes "kids_ok running zombies st" "placed wm st"
  shows "\<exists>st'. handle_disconnects wm zombies st = Inr st' \<and> kids_ok running [] st' \<and>
    dom (hash_lookup (sv_child_map st')) = running \<and> sv_num_clients st' = int (card running) \<and>
    (\<forall>c child. sv_children st' c = Some child \<longleftrightarrow> sv_children st c = Some child \<and> cd_pid child \<notin> set zombies)"
  using handle_disconnects_total[OF assms] kids_okD(5,8) by fastforce

text \<open>A new connection is registered under its pid with a record nobody else points to, in the
  initial state, not logged in and with nothing sent to it; no other child and no other part of
  the game changes.\<close>

theorem new_connection_correct:
  assumes "kids_ok running zombies st" "pid \<notin> running" "pid \<notin> set zombies"
  shows "\<exists>st' child. new_connection pid addr st = Inr st' \<and> kids_ok (insert pid running) zombies st' \<and>
    sv_children st (sv_next_child st) = None \<and> sv_children st' = (sv_children st)(sv_next_child st \<mapsto> child) \<and>
    hash_lookup (sv_child_map st') pid = Some (sv_next_child st) \<and>
    cd_pid child = pid \<and> cd_state child = STATE_INIT \<and> cd_room child = 0 \<and> cd_user child = None \<and> cd_outpipe child = [] \<and>
    sv_world st' = sv_world st \<and> sv_heap st' = sv_heap st \<and> sv_db_map st' = sv_db_map st"
proof -
  obtain st' child where st': "new_connection pid addr st = Inr st'" "kids_ok (insert pid running) zombies st'"
    "sv_children st' = (sv_children st)(sv_next_child st \<mapsto> child)" "sv_children st (sv_next_child st) = None"
    "cd_pid child = pid" "cd_state child = STATE_INIT" "cd_room child = 0" "cd_user child = None" "cd_outpipe child = []"
    "sv_world st' = sv_world st" "sv_heap st' = sv_heap st" "sv_db_map st' = sv_db_map st"
    using new_connection_ok[OF assms, of addr] by blast
  have "hash_lookup (sv_child_map st') pid = Some (sv_next_child st)"
    using kids_okD(7)[OF st'(2), of "sv_next_child st" pid] st'(3,5) by simp
  then show ?thesis using st' by blast
qed

section \<open>A sample run\<close>

lemma sample_hooks_keep: "hooks_keep sample_module"
  by (auto simp: hooks_keep_def sample_module_def plain_room_def plain_class_def)

definition sample_listening :: "(unit, unit) system" where
  "sample_listening = \<lparr>sy_state = sample_db\<lparr>sv_children := Map.empty, sv_child_map := child_map_init\<rparr>,
     sy_running = {}, sy_zombies = [], sy_reap_children = False\<rparr>"

lemma sample_listening_ok: "listening sample_listening" "sv_world (sy_state sample_listening) = sample_rooms"
  by (simp_all add: sample_listening_def listening_def sample_db_def sample_state_def initial_state_def)

lemma sample_rooms_cases:
  assumes "r \<in> set sample_rooms"
  obtains "r = sample_rooms ! 0" | "r = sample_rooms ! 1"
  using assms by (auto simp: sample_rooms_def)

text \<open>A client connects and its process exits.\<close>

lemma sample_run:
  "\<exists>st. new_connection 77 ''10.0.0.1'' (sy_state sample_listening) = Inr st \<and> kids_ok {77} [] st \<and> kids_ok {} [77] st \<and> placed sample_module st \<and>
     (server_step sample_module ctime m)\<^sup>*\<^sup>* sample_listening
       (sample_listening\<lparr>sy_state := st, sy_running := {}, sy_zombies := [77], sy_reap_children := True\<rparr>)"
proof -
  let ?s = sample_listening
  have k: "kids_ok {} [] (sy_state ?s)"
    using kids_ok_initial sample_listening_ok(1) unfolding listening_def by blast
  obtain st child where st: "new_connection 77 ''10.0.0.1'' (sy_state ?s) = Inr st" "kids_ok {77} [] st"
    "sv_children st = (sv_children (sy_state ?s))(sv_next_child (sy_state ?s) \<mapsto> child)" "sv_world st = sv_world (sy_state ?s)"
    and room: "cd_room child = 0"
    using new_connection_ok[OF k, of 77 "''10.0.0.1''"] by auto
  have kids: "sv_children st = [sv_next_child (sy_state ?s) \<mapsto> child]" and world: "sv_world st = sample_rooms"
    using st(3,4) sample_listening_ok by (simp_all add: sample_listening_def)
  have "str_table (rm_users r)" if "r \<in> set sample_rooms" for r
    using that sample_tables(1,2) by (elim sample_rooms_cases) simp_all
  then have placed: "placed sample_module st"
    unfolding placed_def kids world using room
    by (simp add: sample_module_def plain_room_def) (simp add: sample_rooms_def)
  let ?s1 = "?s\<lparr>sy_state := st, sy_running := {77}\<rparr>"
  have empty: "sy_running ?s = {}" "sy_zombies ?s = []" by (simp_all add: sample_listening_def)
  have "server_step sample_module ctime m ?s ?s1"
    using server_step.connect[of 77 ?s "''10.0.0.1''" st sample_module ctime m] st(1) empty by simp
  moreover have exit: "server_step sample_module ctime m ?s1 (?s1\<lparr>sy_running := {}, sy_zombies := [77], sy_reap_children := True\<rparr>)"
    using server_step.exits[of 77 ?s1 sample_module ctime m] empty by simp
  ultimately have run: "(server_step sample_module ctime m)\<^sup>*\<^sup>* ?s (?s1\<lparr>sy_running := {}, sy_zombies := [77], sy_reap_children := True\<rparr>)"
    by (rule converse_rtranclp_into_rtranclp[OF _ r_into_rtranclp])
  note k77 = kids_okD[OF st(2)]
  have "kids_ok {} [77] st"
    by (rule kids_okI[OF k77(1) _ _ _ _ k77(6) k77(7)]) (use k77(5,8) in simp_all)
  then show ?thesis using st(1,2) placed run by (intro exI[of _ st] conjI) simp_all
qed

theorem server_children_invariant_witness:
  "\<exists>m s. (server_step sample_module (\<lambda>_. []) m)\<^sup>*\<^sup>* sample_listening s \<and> sy_zombies s = [77] \<and>
     dom (hash_lookup (sv_child_map (sy_state s))) = {77} \<and> sv_num_clients (sy_state s) = 1"
proof -
  obtain m where m: "reqmap_ok (requests sample_module (\<lambda>_. [])) m" using reqmap_init_ok by blast
  obtain st where run: "(server_step sample_module (\<lambda>_. []) m)\<^sup>*\<^sup>* sample_listening
       (sample_listening\<lparr>sy_state := st, sy_running := {}, sy_zombies := [77], sy_reap_children := True\<rparr>)"
    using sample_run[of "\<lambda>_. []" m] by blast
  from server_children_invariant[OF sample_hooks_keep m sample_listening_ok(1) this] run show ?thesis
    by (intro exI[of _ m] exI[of _ "sample_listening\<lparr>sy_state := st, sy_running := {}, sy_zombies := [77], sy_reap_children := True\<rparr>"]) simp
qed

theorem handle_disconnects_reaps_witness:
  "\<exists>st st'. new_connection 77 ''10.0.0.1'' (sy_state sample_listening) = Inr st \<and>
     handle_disconnects sample_module [77] st = Inr st' \<and> sv_num_clients st' = 0 \<and> hash_lookup (sv_child_map st') = Map.empty"
proof -
  obtain st where st: "new_connection 77 ''10.0.0.1'' (sy_state sample_listening) = Inr st" "kids_ok {} [77] st" "placed sample_module st"
    using sample_run by blast
  obtain st' where "handle_disconnects sample_module [77] st = Inr st'" "dom (hash_lookup (sv_child_map st')) = {}" "sv_num_clients st' = 0"
    using handle_disconnects_reaps[OF st(2,3)] by auto
  then show ?thesis using st(1) by (intro exI[of _ st] exI[of _ st']) simp
qed

theorem new_connection_correct_witness:
  "\<exists>st. new_connection 77 ''10.0.0.1'' (sy_state sample_listening) = Inr st \<and> kids_ok {77} [] st \<and>
     hash_lookup (sv_child_map st) 77 = Some 0"
proof -
  have k: "kids_ok {} [] (sy_state sample_listening)"
    using kids_ok_initial sample_listening_ok(1) unfolding listening_def by blast
  have "sv_next_child (sy_state sample_listening) = 0"
    by (simp add: sample_listening_def sample_db_def sample_state_def initial_state_def)
  then show ?thesis using new_connection_correct[OF k, of 77 "''10.0.0.1''"] by fastforce
qed

end
