(* ===== verification/Nc_Link.thy ===== *)
theory Nc_Link
  imports Nc_Client Nc_Server
begin

text \<open>
  A child and the master together. The interface between them is the locale \<open>master_link\<close>: what
  a master promises to the child that sends it a packet. The model of the master is shown to
  keep the promise, so that what was proved about sessions holds for sessions with it.
\<close>

section \<open>What a child may expect\<close>

locale master_link =
  fixes env :: "'w client_env" and pid :: int and good :: "'w \<Rightarrow> bool"
  assumes answers: "good w \<Longrightarrow> cmd < 256 \<Longrightarrow> ce_serve env (child_packet pid cmd data) w = (ps, w') \<Longrightarrow>
    good w' \<and> (\<exists>p\<in>set ps. terminator p)"
begin

abbreviation (input) served :: "'w client_state \<Rightarrow> bool" where
  "served st \<equiv> cl_pid st = pid \<and> good (cl_master st) \<and> term_ok st \<and>
     (\<forall>ps. From_Master ps \<in> set (cl_events st) \<longrightarrow> (\<exists>p\<in>set ps. terminator p))"

lemma served_quiet: "quiet st st' \<Longrightarrow> served st \<Longrightarrow> served st'"
  by (auto simp: quiet_def)

lemma served_poll:
  assumes "served st" "\<exists>p\<in>set (cl_inbox st). terminator p" "poll_requests st = (r, st')"
  shows "served st' \<and> (\<forall>e. r = Inl e \<longrightarrow> e \<noteq> Waits_Master \<and> e \<noteq> Never_Returns)"
proof -
  have "term_ok (st\<lparr>cl_inbox := []\<rparr>) = term_ok st" "term_ok (st'\<lparr>cl_inbox := []\<rparr>) = term_ok st'"
    by (simp_all add: term_ok_def)
  then have "served st'"
    using poll_requests_ok(1)[OF assms(3)] assms(1) by (simp add: quiet_def)
  moreover have "e \<noteq> Waits_Master \<and> e \<noteq> Never_Returns" if "r = Inl e" for e
    using poll_requests_ok(2)[OF assms(3) that] assms(1,2) by blast
  ultimately show ?thesis by blast
qed

end

sublocale master_link \<subseteq> session_frame env UNIV served "\<lambda>_ _. True" "\<lambda>e. e \<noteq> Waits_Master \<and> e \<noteq> Never_Returns"
proof
  fix st st' cmd data r
  assume s: "served st" and "cmd < 256"
    and p: "poll_requests (write_request env (child_packet (cl_pid st) cmd data) st) = (r, st')"
  obtain ps w' where a: "ce_serve env (child_packet pid cmd data) (cl_master st) = (ps, w')" by fastforce
  note l = answers[OF _ \<open>cmd < 256\<close> a]
  have "served (write_request env (child_packet (cl_pid st) cmd data) st)"
    using s l a by (auto simp: write_request_def term_ok_def)
  moreover have "\<exists>p\<in>set (cl_inbox (write_request env (child_packet (cl_pid st) cmd data) st)). terminator p"
    using s l a by (auto simp: write_request_def)
  ultimately show "served st' \<and> True \<and> (\<forall>e. r = Inl e \<longrightarrow> e \<noteq> Waits_Master \<and> e \<noteq> Never_Returns)"
    using served_poll p by blast
next
  fix st st' ps events r
  assume s: "served st" and e: "cl_events st = From_Master ps # events"
    and p: "poll_requests (st\<lparr>cl_events := events, cl_inbox := cl_inbox st @ ps\<rparr>) = (r, st')"
  have "served (st\<lparr>cl_events := events, cl_inbox := cl_inbox st @ ps\<rparr>)"
    using s e by (simp add: term_ok_def)
  moreover have "\<exists>p\<in>set (cl_inbox (st\<lparr>cl_events := events, cl_inbox := cl_inbox st @ ps\<rparr>)). terminator p"
    using s e by auto
  ultimately show "served st' \<and> True \<and> (\<forall>e. r = Inl e \<longrightarrow> e \<noteq> Waits_Master \<and> e \<noteq> Never_Returns)"
    using served_poll p by blast
next
  fix st st'
  show "served st \<Longrightarrow> quiet st st' \<Longrightarrow> served st' \<and> True" using served_quiet by blast
qed (auto simp: term_ok_def)

section \<open>The model of the master\<close>

text \<open>
  The child writes a packet, the master serves it, and the child reads what is then in its pipe.
  A master that dies closes the pipe, which reads as an empty packet.
\<close>

definition master_serve ::
  "('u, 'm) world_module \<Rightarrow> (int \<Rightarrow> string) \<Rightarrow> (int, nat, unit) hash_map \<Rightarrow> int \<Rightarrow> string \<Rightarrow> ('u, 'm) server_state \<Rightarrow>
   string list \<times> ('u, 'm) server_state" where
  "master_serve wm ctime m pid packet st =
     (case handle_child_req wm ctime m packet st of
        Inl _ \<Rightarrow> ([[]], st)
      | Inr (_, st) \<Rightarrow>
          (case hash_lookup (sv_child_map st) pid of
             None \<Rightarrow> ([[]], st)
           | Some c \<Rightarrow>
               (case sv_children st c of
                  None \<Rightarrow> ([[]], st)
                | Some child \<Rightarrow> (cd_outpipe child, child_set c (child\<lparr>cd_outpipe := []\<rparr>) st))))"

text \<open>The master knows the child.\<close>

definition knows :: "int \<Rightarrow> ('u, 'm) server_state \<Rightarrow> bool" where
  "knows pid st \<longleftrightarrow> (\<exists>c. hash_lookup (sv_child_map st) pid = Some c \<and> sv_children st c \<noteq> None)"

lemma knows_kids:
  fixes st st' :: "('u, 'm) server_state"
  assumes "kids st' = kids st"
  shows "knows pid st' = knows pid st"
proof -
  have "knows pid s \<longleftrightarrow> (\<exists>c. hash_lookup (sv_child_map s) pid = Some c \<and> map_option cd_pid (sv_children s c) \<noteq> None)"
    for s :: "('u, 'm) server_state"
    by (simp add: knows_def)
  note k = this
  have "sv_child_map st' = sv_child_map st" "map_option cd_pid (sv_children st' c) = map_option cd_pid (sv_children st c)" for c
    using assms by (simp_all add: kids_def fun_eq_iff)
  then show ?thesis unfolding k by simp
qed

lemma all_done_terminator: "terminator [char_of REQ_ALLDONE]" "terminator []"
  by (simp_all add: terminator_def MSG_MAX_def req_codes)

lemma master_serve_answers:
  assumes "hooks_keep wm" "reqmap_ok (requests wm ctime) m" "fits_int pid"
    and "knows pid st" "cmd < 256" "master_serve wm ctime m pid (child_packet pid cmd data) st = (ps, st')"
  shows "knows pid st' \<and> (\<exists>p\<in>set ps. terminator p)"
proof (cases "handle_child_req wm ctime m (child_packet pid cmd data) st")
  case (Inl e)
  then show ?thesis using assms(4,6) all_done_terminator by (auto simp: master_serve_def)
next
  case (Inr x)
  obtain b st1 where x: "x = (b, st1)" by fastforce
  obtain c where c: "hash_lookup (sv_child_map st) pid = Some c" using assms(4) by (auto simp: knows_def)
  have k: "kids st1 = kids st"
    using postD[OF kids_handle_child_req[OF assms(1,2) refl] Inr] x by simp
  have c1: "hash_lookup (sv_child_map st1) pid = Some c" using c k by (simp add: kids_def)
  obtain child pkts where child: "sv_children st1 c = Some child" "cd_outpipe child = pkts @ [[char_of REQ_ALLDONE]]"
    using handle_child_req_alldone[OF assms(3,5) c] Inr x by blast
  then have "ps = pkts @ [[char_of REQ_ALLDONE]]" "st' = child_set c (child\<lparr>cd_outpipe := []\<rparr>) st1"
    using assms(6) Inr x c1 by (simp_all add: master_serve_def)
  then show ?thesis using c1 all_done_terminator by (auto simp: knows_def child_set_def)
qed

interpretation linked: master_link "env\<lparr>ce_serve := master_serve wm ctime m pid\<rparr>" pid
    "\<lambda>st. knows pid st \<and> hooks_keep wm \<and> reqmap_ok (requests wm ctime) m \<and> fits_int pid"
  for env :: "('u, 'm) server_state client_env" and wm ctime m pid
proof
  fix w w' :: "('u, 'm) server_state" and cmd data ps
  assume "knows pid w \<and> hooks_keep wm \<and> reqmap_ok (requests wm ctime) m \<and> fits_int pid" "cmd < 256"
    "ce_serve (env\<lparr>ce_serve := master_serve wm ctime m pid\<rparr>) (child_packet pid cmd data) w = (ps, w')"
  then show "(knows pid w' \<and> hooks_keep wm \<and> reqmap_ok (requests wm ctime) m \<and> fits_int pid) \<and> (\<exists>p\<in>set ps. terminator p)"
    using master_serve_answers[of wm ctime m pid w cmd data ps w'] by simp
qed

text \<open>C2: a child never waits for the master for ever, nor gets caught in its own output. However a
  session with the model of the master runs, it ends because the player's input does, because
  the process ends, or because \<open>client_main\<close> returns: every request is answered, provided that
  what the master sends on its own account ends with a \<open>REQ_ALLDONE\<close> or the end of the pipe.\<close>

theorem session_is_answered:
  assumes "hooks_keep wm" "reqmap_ok (requests wm ctime) m" "fits_int pid"
    and "hash_lookup (sv_child_map st) pid = Some c" "sv_children st c = Some child"
    and "ce_serve env = master_serve wm ctime m pid"
    and "\<forall>ps. From_Master ps \<in> set events \<longrightarrow> (\<exists>p\<in>set ps. terminator p)"
  shows "fst (client_main env n_clients (new_client pid events st)) \<in> {Inr (), Inl Waits_Client} \<union> range (Inl \<circ> Crash)"
proof -
  let ?env = "env\<lparr>ce_serve := master_serve wm ctime m pid\<rparr>"
  have env: "env = ?env" using assms(6) by simp
  let ?st0 = "(new_client pid events st)\<lparr>cl_term := telnet_init_size\<rparr>"
  let ?st1 = "?st0\<lparr>cl_written := cl_written ?st0 @ telnet_init_seq\<rparr>"
  have "out_raw telnet_init_seq ?st0 = (Inr (), ?st1)" by (simp add: out_raw_def telnet_init_seq_def)
  moreover have "quiet ?st0 ?st1" by (rule quietI) simp_all
  ultimately obtain st1 where st1: "out_raw telnet_init_seq ?st0 = (Inr (), st1)" "quiet ?st0 st1" by blast
  have "knows pid st" using assms(4,5) by (auto simp: knows_def)
  moreover have "term_ok ?st0" by (simp add: term_ok_def telnet_init_size_def new_client_def OUT_BUF_def)
  ultimately have good: "cl_pid st1 = pid \<and> (knows pid (cl_master st1) \<and> hooks_keep wm \<and> reqmap_ok (requests wm ctime) m \<and> fits_int pid) \<and>
      term_ok st1 \<and> (\<forall>ps. From_Master ps \<in> set (cl_events st1) \<longrightarrow> (\<exists>p\<in>set ps. terminator p))"
    using assms(1-3,7) st1(2) by (simp add: quiet_def new_client_def)
  obtain r st2 where run: "client_session ?env n_clients st1 = (r, st2)" by fastforce
  have "client_main env n_clients (new_client pid events st) = (r, st2)"
    using run st1(1) env by (simp add: client_main_def)
  moreover have "e \<noteq> Waits_Master \<and> e \<noteq> Never_Returns" if "r = Inl e" for e
    using run_holdsD(3)[OF linked.holds_client_session run good that] .
  ultimately show ?thesis by (cases r; cases "projl r") auto
qed

theorem session_is_answered_witness:
  "\<exists>env. fst (client_main env 2 (new_client 77 [From_Client (''ann'' @ crlf)] sample_server)) \<in> {Inr (), Inl Waits_Client} \<union> range (Inl \<circ> Crash)"
proof -
  obtain m where m: "reqmap_ok (requests sample_module (\<lambda>_. [])) m" using reqmap_init_ok by blast
  obtain env :: "(unit, unit) server_state client_env" where env: "ce_serve env = master_serve sample_module (\<lambda>_. []) m 77"
    by (metis client_env.select_convs(1))
  have "fits_int 77" "sv_children sample_server 0 = Some sample_child" by (simp_all add: fits_int_def sample_server_def)
  then show ?thesis
    using session_is_answered[OF sample_hooks_keep m _ sample_server_ok(3) _ env, of sample_child "[From_Client (''ann'' @ crlf)]" 2]
    by (intro exI[of _ env]) simp
qed

section \<open>Looking up accounts\<close>

lemma reqmap_getuserdata:
  assumes "reqmap_ok (requests wm ctime) m"
  shows "hash_lookup m (int REQ_GETUSERDATA) = Some 9" "requests wm ctime ! 9 = request REQ_GETUSERDATA True CHILD_NONE None (Some req_send_user)"
proof -
  have n: "9 < length (requests wm ctime)" "rq_code (requests wm ctime ! 9) = REQ_GETUSERDATA"
    by (simp_all add: requests_def request_def)
  show "hash_lookup m (int REQ_GETUSERDATA) = Some 9" using reqmap_row[OF assms n(1)] n(2) by simp
  show "requests wm ctime ! 9 = request REQ_GETUSERDATA True CHILD_NONE None (Some req_send_user)"
    by (simp add: requests_def)
qed

text \<open>What the master answers to a lookup: the record, or nothing but the end.\<close>

lemma master_serve_lookup:
  assumes "reqmap_ok (requests wm ctime) m" "fits_int pid" "hash_lookup (sv_child_map w) pid = Some c"
    and "sv_children w c = Some child" "cd_outpipe child = []" "NUL \<notin> set name"
  shows "master_serve wm ctime m pid (child_packet pid REQ_GETUSERDATA (name @ [NUL])) w =
    (case userdb_lookup name w of
       None \<Rightarrow> ([[char_of REQ_ALLDONE]], w)
     | Some ud \<Rightarrow> if length (userdata_bytes ud) < MSG_MAX then ([char_of REQ_GETUSERDATA # userdata_bytes ud, [char_of REQ_ALLDONE]], w) else ([[]], w))"
proof -
  have name: "c_str (name @ [NUL]) = name" using c_str_padded[OF assms(6), of 1] by simp
  have live: "sv_children w c \<noteq> None" using assms(4) by simp
  have code: "REQ_GETUSERDATA < 256" "REQ_GETUSERDATA \<noteq> REQ_BCASTMSG" by (simp_all add: req_codes)
  have restore: "child_set c (child\<lparr>cd_outpipe := []\<rparr>) (wrote c pkts w) = w" for pkts
  proof -
    have "child\<lparr>cd_outpipe := []\<rparr> = child" using assms(5) by (cases child) simp
    then have "(sv_children (wrote c pkts w))(c \<mapsto> child\<lparr>cd_outpipe := []\<rparr>) = sv_children w"
      using assms(4) by (auto simp: fun_eq_iff map_option_case split: option.splits)
    then show ?thesis by (simp add: child_set_def) (simp add: wrote_def)
  qed
  have read: "master_serve wm ctime m pid packet w = (pkts, w)"
    if "handle_child_req wm ctime m packet w = Inr (True, wrote c pkts w)" for packet pkts
    using that assms(3-5) restore[of pkts] by (simp add: master_serve_def)
  have run: "handle_child_req wm ctime m (child_packet pid REQ_GETUSERDATA (name @ [NUL])) w =
      res_bind (req_send_user (name @ [NUL]) c w) (\<lambda>st. res_bind (send_packet c REQ_ALLDONE [] st) (\<lambda>st. Inr (True, st)))"
    unfolding handle_packet[OF assms(2) code(1) assms(3)] reqmap_getuserdata(1)[OF assms(1)] option.case Let_def
      reqmap_getuserdata(2)[OF assms(1)]
    by (simp add: request_def run_handle_child_def)
  have fin: "send_packet c REQ_ALLDONE [] (wrote c pkts w) = Inr (wrote c (pkts @ [[char_of REQ_ALLDONE]]) w)" for pkts
    using send_packet_wrote[of "wrote c pkts w" c "[]" REQ_ALLDONE] live
    by (simp add: MSG_MAX_def packets_of_short wrote_wrote)
  show ?thesis
  proof (cases "userdb_lookup name w")
    case None
    then have "req_send_user (name @ [NUL]) c w = Inr (wrote c [] w)" by (simp add: req_send_user_def name)
    then show ?thesis using None run fin[of "[]"] read by simp
  next
    case (Some ud)
    show ?thesis
    proof (cases "length (userdata_bytes ud) < MSG_MAX")
      case True
      have "req_send_user (name @ [NUL]) c w = Inr (wrote c [char_of REQ_GETUSERDATA # userdata_bytes ud] w)"
        using Some True send_packet_wrote[OF live, of "userdata_bytes ud" REQ_GETUSERDATA]
        by (simp add: req_send_user_def name packets_of_short)
      then show ?thesis using Some True run fin read by simp
    next
      case False
      then have "req_send_user (name @ [NUL]) c w = Inl Assert_Failed"
        using Some code(2) by (simp add: req_send_user_def name send_packet_def)
      then show ?thesis using Some False run by (simp add: master_serve_def)
    qed
  qed
qed



section \<open>What a child may say\<close>

text \<open>The packets sent on the way from one state to another are packets of the child itself, with a code of \<open>A\<close>.\<close>

definition spoke :: "nat set \<Rightarrow> 'w client_state \<Rightarrow> 'w client_state \<Rightarrow> bool" where
  "spoke A st st' \<longleftrightarrow> cl_pid st' = cl_pid st \<and>
     (\<exists>new. cl_sent st' = cl_sent st @ new \<and> (\<forall>p\<in>set new. \<exists>cmd\<in>A. \<exists>data. p = child_packet (cl_pid st) cmd data))"

lemma spoke_trans: "spoke A st st1 \<Longrightarrow> spoke A st1 st2 \<Longrightarrow> spoke A st st2"
  unfolding spoke_def by fastforce

lemma spoke_silent: "cl_pid st' = cl_pid st \<Longrightarrow> cl_sent st' = cl_sent st \<Longrightarrow> spoke A st st'"
  by (simp add: spoke_def)

definition session_reqs :: "nat set" where
  "session_reqs = user_reqs \<union> admin_reqs \<union> login_reqs"

interpretation speaks: session_frame env session_reqs "\<lambda>_. True" "spoke session_reqs" "\<lambda>_. True" for env
proof
  fix st st' :: "'a client_state" and cmd data r
  assume cmd: "cmd \<in> session_reqs"
    and p: "poll_requests (write_request env (child_packet (cl_pid st) cmd data) st) = (r, st')"
  have "spoke session_reqs st (write_request env (child_packet (cl_pid st) cmd data) st)"
    using cmd by (auto simp: spoke_def)
  moreover have "spoke session_reqs (write_request env (child_packet (cl_pid st) cmd data) st) st'"
    using poll_requests_ok(1)[OF p] by (intro spoke_silent) (simp_all add: quiet_def)
  ultimately show "True \<and> spoke session_reqs st st' \<and> (\<forall>e. r = Inl e \<longrightarrow> True)" using spoke_trans by blast
next
  fix st st' :: "'a client_state" and ps events r
  assume p: "poll_requests (st\<lparr>cl_events := events, cl_inbox := cl_inbox st @ ps\<rparr>) = (r, st')"
  show "True \<and> spoke session_reqs st st' \<and> (\<forall>e. r = Inl e \<longrightarrow> True)"
    using poll_requests_ok(1)[OF p] by (simp add: spoke_silent quiet_def)
qed (auto simp: session_reqs_def spoke_silent quiet_def intro: spoke_trans)

lemma session_reqs_known: "cmd \<in> session_reqs \<Longrightarrow> cmd < 256 \<and> cmd \<in> rq_code ` set (requests wm ctime)"
  by (auto simp: session_reqs_def user_reqs_def admin_reqs_def login_reqs_def requests_def request_def req_codes)

text \<open>C5: a child speaks the language of the master and only for itself. Whatever a session reads from
  its player, its pipe, the clock and the random numbers, and however it ends, each packet it has sent is its own
  pid, the code of a row of the master's table of requests, and data.\<close>

theorem child_packets_typed:
  "set (cl_sent (snd (client_main env n_clients (new_client pid events w)))) \<subseteq>
     {child_packet pid cmd data | cmd data. cmd < 256 \<and> cmd \<in> rq_code ` set (requests wm ctime)}"
proof -
  have "run_holds (\<lambda>_. True) (spoke session_reqs) (\<lambda>_. True) (client_main env n_clients)"
    unfolding client_main_def
    by (intro speaks.holds_andthen speaks.holds_client_session run_holdsI)
      (auto simp: out_raw_def spoke_silent split: if_splits)
  from run_holdsD(2)[OF this surjective_pairing TrueI]
  have "spoke session_reqs (new_client pid events w) (snd (client_main env n_clients (new_client pid events w)))" .
  then show ?thesis using session_reqs_known[of _ wm ctime] by (fastforce simp: spoke_def new_client_def)
qed

end
