(* ===== verification/Nc_Dunnet.thy ===== *)
theory Nc_Dunnet
  imports Nc_Link
begin

text \<open>
  The world module that comes with the server (\<open>worlds/dunnet.c\<close>), as a value of the type of
  world modules: its rooms, its classes of objects and verbs with their hooks, and the console
  of its computer. An object's \<open>userdata\<close> is its description. What the module allocates itself,
  the flags of rooms and the records of users, is the module's part of the state.
\<close>

section \<open>State\<close>

definition NO_CONSOLE :: int where "NO_CONSOLE = 0"
definition POKEY_LOGIN :: int where "POKEY_LOGIN = 1"
definition POKEY_SHELL :: int where "POKEY_SHELL = 2"
definition POKEY_FTP :: int where "POKEY_FTP = 3"
definition GAMMA_FTP :: int where "GAMMA_FTP = 4"

lemmas console_states = NO_CONSOLE_def POKEY_LOGIN_def POKEY_SHELL_def POKEY_FTP_def GAMMA_FTP_def

record dunnet_user =
  du_console_state :: int
  du_prompt_pass :: bool
  du_correct_user :: bool
  du_fails :: int

text \<open>
  \<open>room->userdata\<close> is NULL or points to a flag; a user's \<open>userdata\<close> is the number of a record, 0
  being NULL.
\<close>

record dunnet =
  dn_flag :: "room_id \<Rightarrow> bool option"
  dn_user :: "nat \<Rightarrow> dunnet_user option"
  dn_next :: nat

definition dunnet_start :: dunnet where
  "dunnet_start = \<lparr>dn_flag = Map.empty, dn_user = Map.empty, dn_next = 1\<rparr>"

type_synonym dn_state = "(string, dunnet) server_state"

definition flag_set :: "room_id \<Rightarrow> bool option \<Rightarrow> dn_state \<Rightarrow> dn_state" where
  "flag_set rid b st = st\<lparr>sv_module := (sv_module st)\<lparr>dn_flag := (dn_flag (sv_module st))(rid := b)\<rparr>\<rparr>"

definition flag_get :: "room_id \<Rightarrow> dn_state \<Rightarrow> bool res" where
  "flag_get rid st = (case dn_flag (sv_module st) rid of None \<Rightarrow> Inl Null_Deref | Some b \<Rightarrow> Inr b)"

definition du_set :: "nat \<Rightarrow> dunnet_user \<Rightarrow> dn_state \<Rightarrow> dn_state" where
  "du_set q du st = st\<lparr>sv_module := (sv_module st)\<lparr>dn_user := (dn_user (sv_module st))(q \<mapsto> du)\<rparr>\<rparr>"

definition du_get :: "nat \<Rightarrow> dn_state \<Rightarrow> dunnet_user res" where
  "du_get q st =
     (if q = 0 then Inl Null_Deref
      else case dn_user (sv_module st) q of None \<Rightarrow> Inl Use_After_Free | Some du \<Rightarrow> Inr du)"

text \<open>A new object: \<open>obj_new\<close>, then its fields; and where it goes with its aliases.\<close>

definition new_object ::
  "(string, dn_state) obj_class_t list \<Rightarrow> string \<Rightarrow> (string object_t \<Rightarrow> string object_t) \<Rightarrow> dn_state \<Rightarrow> (obj_ptr \<times> dn_state) res" where
  "new_object classes cls setup st =
     res_bind (obj_new classes cls (sv_obj st)) (\<lambda>(p, os).
     res_bind (obj_deref p os) (\<lambda>obj. Inr (p, sv_set_obj (obj_store p (setup obj) os) st)))"

definition place_object ::
  "(string, dn_state) obj_class_t list \<Rightarrow> string \<Rightarrow> (string object_t \<Rightarrow> string object_t) \<Rightarrow> string list \<Rightarrow> room_id \<Rightarrow>
   dn_state \<Rightarrow> dn_state res" where
  "place_object classes cls setup aliases rid st =
     res_bind (new_object classes cls setup st) (\<lambda>(p, st).
     res_bind (room_obj_add rid p st) (\<lambda>(_, st).
       res_fold (\<lambda>alias st. res_bind (room_obj_add_alias rid p alias st) (\<lambda>(_, st). Inr st)) aliases st))"

section \<open>Object classes\<close>

text \<open>Every object of the module has its description; without one, \<open>write_string\<close> would read through NULL, which a hook of this
  type cannot report.\<close>

definition generic_ser :: "string object_t \<Rightarrow> string" where
  "generic_ser obj = (case obj_userdata obj of None \<Rightarrow> [] | Some desc \<Rightarrow> write_string desc)"

definition generic_deser :: "string \<Rightarrow> string object_t \<Rightarrow> (string option \<times> string) res" where
  "generic_deser fd obj = res_bind (read_string fd) (\<lambda>(desc, fd). Inr (Some desc, fd))"

definition generic_desc :: "obj_ptr \<Rightarrow> user_ptr \<Rightarrow> dn_state \<Rightarrow> (string \<times> dn_state) res" where
  "generic_desc p user st =
     res_bind (obj_deref p (sv_obj st)) (\<lambda>obj.
       case obj_userdata obj of None \<Rightarrow> Inl Null_Deref | Some desc \<Rightarrow> Inr (desc, st))"

definition generic_dup :: "string object_t \<Rightarrow> string option" where
  "generic_dup obj = obj_userdata obj"

definition no_take :: "obj_ptr \<Rightarrow> user_ptr \<Rightarrow> dn_state \<Rightarrow> (bool \<times> dn_state) res" where
  "no_take obj user st = Inr (False, st)"

text \<open>
  The names of the classes. \<open>food_drop\<close> is a hook of one of them and makes an object of another:
  for \<open>obj_new\<close> only the names matter.
\<close>

definition dunnet_class_names :: "string list" where
  "dunnet_class_names = [''/generic'', ''/generic/notake'', ''/generic/dunnet/food'']"

definition bear_leaves :: string where
  "bear_leaves = ''The bear takes the food and runs away with it. He left something behind.'' @ newline"

definition food_drop :: "obj_ptr \<Rightarrow> user_ptr \<Rightarrow> dn_state \<Rightarrow> (bool \<times> dn_state) res" where
  "food_drop obj user st =
     res_bind (sender_room user st) (\<lambda>rid.
     res_bind (room_obj_get rid ''bear'' st) (\<lambda>bear.
       if bear = None then Inr (True, st)
       else
         res_bind (send_msg user bear_leaves st) (\<lambda>st.
         res_bind (room_obj_del rid ''ferocious bear'' st) (\<lambda>(_, st).
         res_bind (room_obj_del_by_ptr rid obj st) (\<lambda>(_, st).
         res_bind (place_object (map plain_class dunnet_class_names) ''/generic''
             (\<lambda>new. new\<lparr>obj_hidden := False, obj_name := ''shiny brass key'',
                       obj_userdata := Some ''I see nothing special about that.''\<rparr>)
             [''key'', ''shiny key'', ''brass key''] rid st) (\<lambda>st.
           Inr (True, st)))))))"

definition generic_class :: "string \<Rightarrow> (string, dn_state) obj_class_t" where
  "generic_class name =
     \<lparr>oc_class_name = name, oc_hook_serialize = Some generic_ser, oc_hook_deserialize = Some generic_deser,
      oc_hook_take = None, oc_hook_drop = None, oc_hook_desc = Some generic_desc, oc_hook_dupdata = Some generic_dup\<rparr>"

definition dunnet_obj_classes :: "(string, dn_state) obj_class_t list" where
  "dunnet_obj_classes =
     [generic_class ''/generic'',
      (generic_class ''/generic/notake'')\<lparr>oc_hook_take := Some no_take\<rparr>,
      (generic_class ''/generic/dunnet/food'')\<lparr>oc_hook_drop := Some food_drop\<rparr>]"

section \<open>Verbs\<close>

text \<open>\<open>nc->multimap_lookup(userdb_lookup(user->user)->objects, name, ...)\<close>.\<close>

definition carried :: "user_ptr \<Rightarrow> string \<Rightarrow> dn_state \<Rightarrow> ((string \<times> obj_ptr) list \<times> nat) option res" where
  "carried user name st = res_bind (sender_name user st) (\<lambda>u. user_obj_list u name st)"

definition dig_exec :: "verb_t \<Rightarrow> string option \<Rightarrow> user_ptr \<Rightarrow> dn_state \<Rightarrow> dn_state res" where
  "dig_exec verb args user st =
     res_bind (carried user ''shovel'' st) (\<lambda>shovel.
     if shovel = None then send_msg user (''You have nothing with which to dig.'' @ newline) st
     else
       res_bind (sender_room user st) (\<lambda>rid.
       res_bind (room_get rid st) (\<lambda>room.
       if strcmp (rm_name room) ''Fork'' = 0 then
         res_bind (flag_get rid st) (\<lambda>dug.
         if \<not> dug then
           res_bind (place_object dunnet_obj_classes ''/generic''
               (\<lambda>new. new\<lparr>obj_name := ''CPU card'',
                  obj_userdata := Some ''The CPU board has a VAX chip on it.  It seems to have 2 Megabytes of RAM onboard.''\<rparr>)
               [''cpu'', ''chip'', ''card''] rid (flag_set rid (Some True) st)) (\<lambda>st.
             send_msg user (''I think you found something.'' @ newline) st)
         else send_msg user (''Digging here reveals nothing.'' @ newline) st)
       else send_msg user (''Digging here reveals nothing.'' @ newline) st)))"

text \<open>
  \<open>strtok_r(args, WSPACE, &save)\<close>, the first call of a verb. With no arguments \<open>args\<close> is NULL, and
  \<open>strtok_r\<close> goes on at \<open>save\<close>, which is not initialised.
\<close>

definition first_arg :: "string option \<Rightarrow> (string option \<times> string) res" where
  "first_arg args = (case args of None \<Rightarrow> Inl Use_After_Free | Some s \<Rightarrow> Inr (strtok_r WSPACE s))"

text \<open>\<open>list->val\<close>.\<close>

definition first_obj :: "(string \<times> obj_ptr) list \<Rightarrow> dn_state \<Rightarrow> (obj_ptr \<times> string object_t) res" where
  "first_obj cells st =
     (case cells of [] \<Rightarrow> Inl Null_Deref | (_, p) # _ \<Rightarrow> res_bind (obj_deref p (sv_obj st)) (\<lambda>obj. Inr (p, obj)))"

definition computer_desc :: "string \<Rightarrow> string" where
  "computer_desc lights =
     ''You are in a computer room.  It seems like most of the equipment has been removed.  There is a VAX 11/780 in front of you, however, with one of the cabinets wide open.  A sign on the front of the machine says: This VAX is named 'pokey'.  To type on the console, use the 'type' command.  The exit is to the east.''
     @ newline @ ''The panel lights are '' @ lights"

definition computer_starts :: string where
  "computer_starts = ''As you put the CPU board in the computer, it immediately springs to life.  The lights start flashing, and the fans seem to startup.'' @ newline"

definition no_combination :: string where
  "no_combination = ''I don't know how to combine those objects.  Perhaps you should just try dropping it.'' @ newline"

definition put_exec :: "verb_t \<Rightarrow> string option \<Rightarrow> user_ptr \<Rightarrow> dn_state \<Rightarrow> dn_state res" where
  "put_exec verb args user st =
     res_bind (first_arg args) (\<lambda>(tok, save).
     case tok of
       None \<Rightarrow> send_msg user (''You must supply an object'' @ newline) st
     | Some oname \<Rightarrow>
         res_bind (carried user oname st) (\<lambda>list.
         case list of
           None \<Rightarrow> send_msg user (''You don't have that.'' @ newline) st
         | Some (cells, _) \<Rightarrow>
             res_bind (first_obj cells st) (\<lambda>(p, obj).
             let (prep, save) = strtok_r WSPACE save; (ind_obj_name, save) = strtok_r WSPACE save in
             case ind_obj_name of
               None \<Rightarrow> send_msg user (''You must supply an indirect object.'' @ newline) st
             | Some iname \<Rightarrow>
                 res_bind (sender_room user st) (\<lambda>rid.
                 res_bind (room_obj_get rid iname st) (\<lambda>list.
                 case list of
                   None \<Rightarrow> send_msg user (''I don't know what that indirect object is.'' @ newline) st
                 | Some cells \<Rightarrow>
                     res_bind (first_obj cells st) (\<lambda>(_, ind_obj).
                     if strcmp (obj_name obj) ''CPU card'' = 0 \<and> strcmp (obj_name ind_obj) ''computer'' = 0 \<and>
                        rid = room_get_id ''computer_room'' st then
                       res_bind (sender_name user st) (\<lambda>u.
                       res_bind (userdb_del_obj_by_ptr u p st) (\<lambda>(_, st).
                       res_bind (send_msg user computer_starts st) (\<lambda>st.
                       res_bind (flag_get rid st) (\<lambda>_.
                       let st = flag_set rid (Some True) st in
                       res_bind (room_get rid st) (\<lambda>room.
                         Inr (room_set rid (room\<lparr>rm_desc := computer_desc ''flashing in a seemingly organized pattern.''\<rparr>) st))))))
                     else
                       send_msg user no_combination st))))))"

definition eat_exec :: "verb_t \<Rightarrow> string option \<Rightarrow> user_ptr \<Rightarrow> dn_state \<Rightarrow> dn_state res" where
  "eat_exec verb args user st =
     res_bind (first_arg args) (\<lambda>(tok, save).
     case tok of
       None \<Rightarrow> send_msg user (''You must supply an object.'' @ newline) st
     | Some oname \<Rightarrow>
         res_bind (carried user oname st) (\<lambda>list.
         case list of
           None \<Rightarrow>
             res_bind (sender_room user st) (\<lambda>rid.
             res_bind (room_obj_get rid oname st) (\<lambda>here.
               if here = None then send_msg user (''I don't know what that is.'' @ newline) st
               else send_msg user (''You don't have that.'' @ newline) st))
         | Some (cells, n_objs) \<Rightarrow>
             res_bind (first_obj cells st) (\<lambda>(p, obj).
             res_bind
               (if strcmp (obj_name obj) ''some food'' = 0 then send_msg user (''That tasted horrible.'' @ newline) st
                else
                  res_bind (format_noun MSG_MAX (obj_name obj) n_objs (obj_default_article obj) False) (\<lambda>noun.
                    send_msg user (''You forcibly shove '' @ noun @ '' down your throat, and start choking.'' @ newline) st)) (\<lambda>st.
             res_bind (sender_name user st) (\<lambda>u.
             res_bind (userdb_del_obj u oname st) (\<lambda>(_, st). Inr st))))))"

definition coconut_falls :: string where
  "coconut_falls = ''You begin to shake a tree, and notice a coconut begin to fall from the air.  As you try to get your hand up to block it, you feel the impact as it lands on your head.'' @ newline"

definition shake_exec :: "verb_t \<Rightarrow> string option \<Rightarrow> user_ptr \<Rightarrow> dn_state \<Rightarrow> dn_state res" where
  "shake_exec verb args user st =
     res_bind (first_arg args) (\<lambda>(tok, save).
     case tok of
       None \<Rightarrow> send_msg user (''You must supply an object.'' @ newline) st
     | Some oname \<Rightarrow>
         res_bind (sender_room user st) (\<lambda>rid.
         res_bind (room_obj_get_size rid oname st) (\<lambda>list_room.
         res_bind (carried user oname st) (\<lambda>list_inv.
         case list_room of
           Some (cells, _) \<Rightarrow>
             res_bind (first_obj cells st) (\<lambda>(_, obj).
               if strcmp (obj_name obj) ''trees'' = 0 then
                 send_msg user coconut_falls st
               else send_msg user (''You don't have that.'' @ newline) st)
         | None \<Rightarrow>
             (case list_inv of
                None \<Rightarrow> send_msg user (''I don't know what that is.'' @ newline) st
              | Some (cells, n_objs) \<Rightarrow>
                  res_bind (first_obj cells st) (\<lambda>(_, obj).
                  res_bind (format_noun MSG_MAX (obj_name obj) n_objs (obj_default_article obj) False) (\<lambda>noun.
                    send_msg user (''Shaking '' @ noun @ '' seems to have no effect.'' @ newline) st)))))))"

subsection \<open>The console of the computer\<close>

definition pokey_prompt :: string where
  "pokey_prompt = newline @ newline @ newline @ ''UNIX System V, Release 2.2 (pokey)'' @ newline @ newline @ ''login: ''"

definition pokey_motd :: string where
  "pokey_motd = newline @ newline @ ''Welcome to Unix'' @ newline @ newline
     @ ''Please clean up your directories.  The filesystem is getting full.'' @ newline
     @ ''Our tcp/ip link to gamma is a little flaky, but seems to work.'' @ newline
     @ ''The current version of ftp can only send files from your home'' @ newline
     @ ''directory, and deletes them after they are sent!  Be careful.'' @ newline @ newline
     @ ''Note: Restricted bourne shell in use.'' @ newline @ newline"

text \<open>\<open>pokey_unix_command\<close> takes the command off the line and does nothing with it.\<close>

definition pokey_unix_command :: "user_ptr \<Rightarrow> string \<Rightarrow> dn_state \<Rightarrow> dn_state res" where
  "pokey_unix_command user data st = (let (cmd, save) = strtok_r WSPACE data in Inr st)"

text \<open>The only callback of the module, by its address.\<close>

definition CONSOLE_CB :: nat where "CONSOLE_CB = 1"

text \<open>\<open>nc->userdb_lookup(user->user)\<close>, dereferenced.\<close>

definition user_record :: "user_ptr \<Rightarrow> dn_state \<Rightarrow> userdata_t res" where
  "user_record user st =
     res_bind (sender_name user st) (\<lambda>u. case userdb_lookup u st of None \<Rightarrow> Inl Null_Deref | Some data \<Rightarrow> Inr data)"

definition console_cb :: "user_ptr \<Rightarrow> string \<Rightarrow> dn_state \<Rightarrow> dn_state res" where
  "console_cb user data st =
     res_bind (user_record user st) (\<lambda>ud.
     let q = ud_userdata ud; data = c_str data in
     res_bind (du_get q st) (\<lambda>du.
     if du_console_state du = POKEY_LOGIN then
       if \<not> du_prompt_pass du then
         let du = (if strcmp data ''toukmond'' = 0 then du\<lparr>du_correct_user := True\<rparr> else du) in
         send_msg user ''password: '' (du_set q (du\<lparr>du_prompt_pass := True\<rparr>) st)
       else if strcmp data ''robert'' = 0 \<and> du_correct_user du then
         res_bind (send_msg user pokey_motd (du_set q (du\<lparr>du_console_state := POKEY_SHELL\<rparr>) st)) (send_msg user ''$ '')
       else
         res_bind (send_msg user (''login incorrect'' @ newline) st) (\<lambda>st.
         let du = du\<lparr>du_fails := du_fails du + 1\<rparr>; st = du_set q du st in
         if du_fails du \<ge> 3 then child_toggle_rawmode user None st
         else send_msg user pokey_prompt (du_set q (du\<lparr>du_prompt_pass := False\<rparr>) st))
     else if du_console_state du = POKEY_SHELL then
       res_bind (pokey_unix_command user data st) (send_msg user ''$ '')
     else send_msg user ''FIXME'' st))"

text \<open>The unique ids of the rooms, in the order of the array of rooms.\<close>

definition dunnet_ids :: "string list" where
  "dunnet_ids = [''dead_end'', ''ew_road'', ''fork'', ''senw_road'', ''bear_hangout'', ''hidden_area'', ''nesw_road'',
     ''building_front'', ''building_hallway'', ''mailroom'', ''computer_room'']"

text \<open>The record of a user, allocated at the first use of the console.\<close>

definition user_console :: "user_ptr \<Rightarrow> dn_state \<Rightarrow> (nat \<times> dn_state) res" where
  "user_console user st =
     res_bind (sender_name user st) (\<lambda>u.
     res_bind (user_record user st) (\<lambda>ud.
     if ud_userdata ud \<noteq> 0 then Inr (ud_userdata ud, st)
     else
       let q = dn_next (sv_module st); tab = sv_db_map st in
       case hash_find tab u of
         None \<Rightarrow> Inl Null_Deref
       | Some i \<Rightarrow>
           let (key, ud) = hash_chain tab u ! i;
               st = st\<lparr>sv_db_map := hash_set_node tab (hash_index tab u) i (key, ud\<lparr>ud_userdata := q\<rparr>)\<rparr>;
               st = st\<lparr>sv_module := (sv_module st)\<lparr>dn_next := q + 1\<rparr>\<rparr> in
           Inr (q, du_set q \<lparr>du_console_state = 0, du_prompt_pass = False, du_correct_user = False, du_fails = 0\<rparr> st)))"

definition type_exec :: "verb_t \<Rightarrow> string option \<Rightarrow> user_ptr \<Rightarrow> dn_state \<Rightarrow> dn_state res" where
  "type_exec verb args user st =
     res_bind (sender_room user st) (\<lambda>rid.
     res_bind (room_get rid st) (\<lambda>room.
     if \<not> nat rid < length dunnet_ids then Inl Out_Of_Bounds
     else if strcmp (dunnet_ids ! nat rid) ''computer_room'' \<noteq> 0 then
       send_msg user (''There is nothing here on which you could type.'' @ newline) st
     else
       res_bind (flag_get rid st) (\<lambda>active.
       if \<not> active then
         send_msg user (''You type on the keyboard, but your characters do not even echo.'' @ newline) st
       else
         res_bind (user_console user st) (\<lambda>(q, st).
         res_bind (du_get q st) (\<lambda>du.
         res_bind
           (if du_console_state du \<noteq> POKEY_LOGIN \<and> du_console_state du \<noteq> POKEY_SHELL \<and> du_console_state du \<noteq> POKEY_FTP then
              send_msg user pokey_prompt
                (du_set q (du\<lparr>du_console_state := POKEY_LOGIN, du_prompt_pass := False, du_fails := 0\<rparr>) st)
            else if du_console_state du = POKEY_LOGIN then
              (if du_prompt_pass du then send_msg user ''password: '' st else send_msg user pokey_prompt st)
            else Inr st) (\<lambda>st.
           child_toggle_rawmode user (Some CONSOLE_CB) st))))))"

definition dunnet_verb_classes :: "dn_state verb_class_t list" where
  "dunnet_verb_classes =
     [\<lparr>vc_class_name = ''dig'', vc_hook_exec = dig_exec\<rparr>, \<lparr>vc_class_name = ''put'', vc_hook_exec = put_exec\<rparr>,
      \<lparr>vc_class_name = ''eat'', vc_hook_exec = eat_exec\<rparr>, \<lparr>vc_class_name = ''shake'', vc_hook_exec = shake_exec\<rparr>,
      \<lparr>vc_class_name = ''type'', vc_hook_exec = type_exec\<rparr>]"

section \<open>Rooms\<close>

definition described :: "string \<Rightarrow> string \<Rightarrow> string object_t \<Rightarrow> string object_t" where
  "described name desc new = new\<lparr>obj_name := name, obj_userdata := Some desc\<rparr>"

definition add_verb :: "string \<Rightarrow> dn_state \<Rightarrow> dn_state res" where
  "add_verb name st =
     res_bind (verb_new dunnet_verb_classes name (sv_verb_classes st)) (\<lambda>(verb, vs).
     res_bind (world_verb_add (verb\<lparr>vb_name := name\<rparr>) (st\<lparr>sv_verb_classes := vs\<rparr>)) (\<lambda>(_, st). Inr st))"

definition deadend_init :: "room_id \<Rightarrow> dn_state \<Rightarrow> dn_state res" where
  "deadend_init rid st =
     res_bind (place_object dunnet_obj_classes ''/generic''
       (described ''shovel'' ''It is a normal shovel with a price tag attached that says $19.99.'') [] rid st) (\<lambda>st.
     res_bind (place_object dunnet_obj_classes ''/generic/notake''
       (\<lambda>new. (described ''trees'' ''They are palm trees with a bountiful supply of coconuts in them.'' new)\<lparr>obj_hidden := True\<rparr>)
       [''tree'', ''palm'', ''palm tree''] rid st) (\<lambda>st.
       res_fold add_verb [''dig'', ''put'', ''eat'', ''shake'', ''type''] st))"

definition ew_road_init :: "room_id \<Rightarrow> dn_state \<Rightarrow> dn_state res" where
  "ew_road_init =
     place_object dunnet_obj_classes ''/generic/notake''
       (described ''large boulder'' ''It is just a boulder.  It cannot be moved.'') [''boulder'', ''rock'']"

definition fork_init :: "room_id \<Rightarrow> dn_state \<Rightarrow> dn_state res" where
  "fork_init rid st = res_bind (room_get rid st) (\<lambda>_. Inr (flag_set rid (Some False) st))"

text \<open>The hooks of a flag. Without one, the code reads through NULL, which a hook of this type cannot report.\<close>

definition bool_ser :: "room_id \<Rightarrow> dn_state \<Rightarrow> string" where
  "bool_ser rid st = (case dn_flag (sv_module st) rid of None \<Rightarrow> [] | Some b \<Rightarrow> write_bool b)"

definition bool_deser :: "room_id \<Rightarrow> string \<Rightarrow> dn_state \<Rightarrow> (string \<times> dn_state) res" where
  "bool_deser rid fd st =
     res_bind (read_bool fd) (\<lambda>(b, fd). res_bind (room_get rid st) (\<lambda>_. Inr (fd, flag_set rid (Some b) st)))"

definition bool_destroy :: "room_id \<Rightarrow> dn_state \<Rightarrow> dn_state res" where
  "bool_destroy rid st = res_bind (room_get rid st) (\<lambda>_. Inr (flag_set rid None st))"

definition senw_init :: "room_id \<Rightarrow> dn_state \<Rightarrow> dn_state res" where
  "senw_init =
     place_object dunnet_obj_classes ''/generic/dunnet/food''
       (\<lambda>new. (described ''some food'' ''It looks like some kind of meat.  Smells pretty bad.'' new)\<lparr>obj_default_article := False\<rparr>)
       [''food'', ''meat'']"

definition hangout_init :: "room_id \<Rightarrow> dn_state \<Rightarrow> dn_state res" where
  "hangout_init =
     place_object dunnet_obj_classes ''/generic/notake''
       (described ''ferocious bear'' ''It looks like a grizzly to me.'') [''bear'']"

definition hidden_init :: "room_id \<Rightarrow> dn_state \<Rightarrow> dn_state res" where
  "hidden_init =
     place_object dunnet_obj_classes ''/generic''
       (described ''emerald bracelet'' ''I see nothing special about that.'') [''bracelet'']"

definition building_enter :: "room_id \<Rightarrow> user_ptr \<Rightarrow> dn_state \<Rightarrow> (bool \<times> dn_state) res" where
  "building_enter rid user st =
     res_bind (carried user ''shiny brass key'' st) (\<lambda>key.
       if key \<noteq> None then Inr (True, st)
       else res_bind (send_msg user (''You don't have a key that can open this door.'' @ newline) st) (\<lambda>st. Inr (False, st)))"

text \<open>The lines of names begin with the telnet command for nothing, which keeps the spaces.\<close>

definition bin_names :: string where
  "bin_names =
     concat (map (\<lambda>name. [char_of (255::nat), char_of (241::nat)] @ replicate 19 (CHR '' '') @ name @ newline)
       [''Jeffrey Collier'', ''Robert Toukmond'', ''Thomas Stock''])"

definition mailroom_init :: "room_id \<Rightarrow> dn_state \<Rightarrow> dn_state res" where
  "mailroom_init =
     place_object dunnet_obj_classes ''/generic/notake''
       (\<lambda>new. (described ''bins'' (''All of the bins are empty.  Looking closely you can see that there are names written at the bottom of each bin, but most of them are faded away so that you cannot read them.  You can only make out three names:'' @ newline @ bin_names) new)\<lparr>obj_hidden := True\<rparr>)
       [''mail bins'']"

definition computer_room_init :: "room_id \<Rightarrow> dn_state \<Rightarrow> dn_state res" where
  "computer_room_init rid st =
     res_bind (place_object dunnet_obj_classes ''/generic/notake''
       (\<lambda>new. (described ''computer'' ''I see nothing special about that.'' new)\<lparr>obj_hidden := True\<rparr>)
       [''vax'', ''pokey''] rid st) (\<lambda>st.
     res_bind (room_get rid st) (\<lambda>_. Inr (flag_set rid (Some False) st)))"

text \<open>A row of the array of rooms without hooks; an exit that is not named is NULL.\<close>

definition plain_row :: "string \<Rightarrow> string \<Rightarrow> string \<Rightarrow> (direction_t \<times> string) list \<Rightarrow> (string, dunnet) roomdata_t" where
  "plain_row uid name desc exits =
     \<lparr>rd_uniq_id = uid, rd_name = name, rd_desc = desc, rd_adjacent = map (map_of exits) directions,
      rd_hook_init = None, rd_hook_enter = None, rd_hook_leave = None, rd_hook_serialize = None,
      rd_hook_deserialize = None, rd_hook_destroy = None\<rparr>"

definition dead_end_row :: "(string, dunnet) roomdata_t" where
  "dead_end_row =
     (plain_row ''dead_end'' ''Dead End''
       ''You are at a dead end of a dirt road.  The road goes to the east. In the distance you can see that it will eventually fork off. The trees here are very tall royal palms, and they are spaced equidistant from each other.''
       [(DIR_E, ''ew_road'')])
     \<lparr>rd_hook_init := Some deadend_init\<rparr>"

definition ew_road_row :: "(string, dunnet) roomdata_t" where
  "ew_road_row =
     (plain_row ''ew_road'' ''E/W Dirt road''
       ''You are on the continuation of a dirt road. There are more trees on both sides of you. The road continues to the east and west.''
       [(DIR_E, ''fork''), (DIR_W, ''dead_end'')])
     \<lparr>rd_hook_init := Some ew_road_init\<rparr>"

definition fork_row :: "(string, dunnet) roomdata_t" where
  "fork_row =
     (plain_row ''fork'' ''Fork''
       ''You are at a fork of two passages, one to the northeast, and one to the southeast. The ground here seems very soft. You can also go back west.''
       [(DIR_NE, ''nesw_road''), (DIR_SE, ''senw_road''), (DIR_W, ''ew_road'')])
     \<lparr>rd_hook_init := Some fork_init, rd_hook_serialize := Some bool_ser,
      rd_hook_deserialize := Some bool_deser, rd_hook_destroy := Some bool_destroy\<rparr>"

definition senw_road_row :: "(string, dunnet) roomdata_t" where
  "senw_road_row =
     (plain_row ''senw_road'' ''SE/NW road''
       ''You are on a southeast/northwest road.''
       [(DIR_SE, ''bear_hangout''), (DIR_NW, ''fork'')])
     \<lparr>rd_hook_init := Some senw_init\<rparr>"

definition bear_hangout_row :: "(string, dunnet) roomdata_t" where
  "bear_hangout_row =
     (plain_row ''bear_hangout'' ''Bear Hangout''
       ''You are standing at the end of a road. A passage leads back to the northwest.''
       [(DIR_SW, ''hidden_area''), (DIR_NW, ''senw_road'')])
     \<lparr>rd_hook_init := Some hangout_init\<rparr>"

definition hidden_area_row :: "(string, dunnet) roomdata_t" where
  "hidden_area_row =
     (plain_row ''hidden_area'' ''Hidden Area''
       ''You are in a well-hidden area off to the side of a road.  Back to the northeast through the brush you can see the bear hangout.''
       [(DIR_NE, ''bear_hangout'')])
     \<lparr>rd_hook_init := Some hidden_init\<rparr>"

definition nesw_road_row :: "(string, dunnet) roomdata_t" where
  "nesw_road_row =
     plain_row ''nesw_road'' ''NE/SW road''
       ''You are on a northeast/southwest road.''
       [(DIR_NE, ''building_front''), (DIR_SW, ''fork'')]"

definition building_front_row :: "(string, dunnet) roomdata_t" where
  "building_front_row =
     plain_row ''building_front'' ''Building Front''
       ''You are at the end of the road.  There is a building in front of you to the northeast, and the road leads back to the southwest.''
       [(DIR_NE, ''building_hallway''), (DIR_SW, ''nesw_road''), (DIR_IN, ''building_hallway'')]"

definition building_hallway_row :: "(string, dunnet) roomdata_t" where
  "building_hallway_row =
     (plain_row ''building_hallway'' ''Old Building hallway''
       ''You are in the hallway of an old building.  There are rooms to the east and west, and doors leading out to the north and south.''
       [(DIR_E, ''mailroom''), (DIR_S, ''building_front''), (DIR_W, ''computer_room''), (DIR_OT, ''building_front'')])
     \<lparr>rd_hook_enter := Some building_enter\<rparr>"

definition mailroom_row :: "(string, dunnet) roomdata_t" where
  "mailroom_row =
     (plain_row ''mailroom'' ''Mailroom''
       ''You are in a mailroom.  There are many bins where the mail is usually kept.  The exit is to the west.''
       [(DIR_W, ''building_hallway'')])
     \<lparr>rd_hook_init := Some mailroom_init\<rparr>"

definition computer_room_row :: "(string, dunnet) roomdata_t" where
  "computer_room_row =
     (plain_row ''computer_room'' ''Computer room''
       (computer_desc ''steady and motionless.'')
       [(DIR_E, ''building_hallway'')])
     \<lparr>rd_hook_init := Some computer_room_init, rd_hook_serialize := Some bool_ser,
      rd_hook_deserialize := Some bool_deser, rd_hook_destroy := Some bool_destroy\<rparr>"

definition netcosm_world :: "(string, dunnet) roomdata_t list" where
  "netcosm_world = [dead_end_row, ew_road_row, fork_row, senw_road_row,
     bear_hangout_row, hidden_area_row, nesw_road_row, building_front_row,
     building_hallway_row, mailroom_row, computer_room_row]"

section \<open>Users and the module\<close>

text \<open>Writing needs a pointer that is NULL or points to a record, as all that the module hands out do.\<close>

definition netcosm_write_userdata_cb :: "nat \<Rightarrow> dn_state \<Rightarrow> string" where
  "netcosm_write_userdata_cb q st =
     (case (if q = 0 then None else dn_user (sv_module st) q) of
        Some du \<Rightarrow> write_bool True @ write_int (du_console_state du)
      | None \<Rightarrow> write_bool False)"

definition netcosm_read_userdata_cb :: "string \<Rightarrow> dn_state \<Rightarrow> (nat \<times> string \<times> dn_state) res" where
  "netcosm_read_userdata_cb fd st =
     res_bind (read_bool fd) (\<lambda>(present, fd).
     if present then
       let q = dn_next (sv_module st) in
       res_bind (read_int fd) (\<lambda>(console, fd).
         Inr (q, fd, du_set q \<lparr>du_console_state = console, du_prompt_pass = False, du_correct_user = False, du_fails = 0\<rparr>
           (st\<lparr>sv_module := (sv_module st)\<lparr>dn_next := q + 1\<rparr>\<rparr>)))
     else Inr (0, fd, st))"

text \<open>The simulation callback does nothing, ten times a second.\<close>

definition netcosm_world_simulation_cb :: "dn_state \<Rightarrow> dn_state res" where
  "netcosm_world_simulation_cb st = Inr st"

definition netcosm_world_simulation_interval :: u32 where
  "netcosm_world_simulation_interval = 100"

definition dunnet_module :: "(string, dunnet) world_module" where
  "dunnet_module =
     \<lparr>wm_verb_classes = dunnet_verb_classes, wm_obj_classes = dunnet_obj_classes, wm_world = netcosm_world,
      wm_world_name = ''Dunnet 0.1'', wm_write_userdata_cb = Some netcosm_write_userdata_cb,
      wm_read_userdata_cb = Some netcosm_read_userdata_cb,
      wm_raw_mode_cb = (\<lambda>cb. if cb = CONSOLE_CB then console_cb else (\<lambda>_ _ _. Inl Use_After_Free)),
      wm_simulation_cb = Some netcosm_world_simulation_cb, wm_simulation_interval = netcosm_world_simulation_interval\<rparr>"

section \<open>What the hooks leave alone\<close>

lemma kids_module_sets [simp]: "kids (flag_set rid b st) = kids st" "kids (du_set q du st) = kids st"
  by (simp_all add: flag_set_def du_set_def)

lemma kids_room_obj_del [kept]: "kids st = k \<Longrightarrow> post (room_obj_del rid name st) (\<lambda>x. kids (snd x) = k)"
  unfolding room_obj_del_def by (rule post_skip post_pair post_option kids_room_objects post_Inr | simp)+

lemma kids_userdb_del_obj [kept]: "kids st = k \<Longrightarrow> post (userdb_del_obj u name st) (\<lambda>x. kids (snd x) = k)"
  unfolding userdb_del_obj_def by (rule kids_user_objects)

lemma kids_room_obj_add_alias [kept]: "kids st = k \<Longrightarrow> post (room_obj_add_alias rid p alias st) (\<lambda>x. kids (snd x) = k)"
  unfolding room_obj_add_alias_def
  apply (rule post_skip, rule post_skip, rule post_bind[where P = "\<lambda>st. kids st = k"])
   apply (rule post_if, rule post_bind_pair[OF kids_room_obj_ops(1)], assumption, simp add: post_def, simp add: post_def)
  apply (rule post_skip, rule post_if, simp add: post_def, rule post_if, simp add: post_def)
  apply (rule post_let, rule kids_room_objects, simp)
  done

lemma kids_new_object [kept]: "kids st = k \<Longrightarrow> post (new_object classes cls setup st) (\<lambda>x. kids (snd x) = k)"
  unfolding new_object_def by (rule post_skip_pair, rule post_skip, rule post_Inr) simp

lemma kids_place_object [kept]: "kids st = k \<Longrightarrow> post (place_object classes cls setup aliases rid st) (\<lambda>st. kids st = k)"
  unfolding place_object_def
  apply (rule post_bind_pair[OF kids_new_object], assumption)
  apply (rule post_bind_pair[OF kids_room_obj_ops(1)], assumption)
  apply (rule post_fold)
   apply (rule post_bind_pair[OF kids_room_obj_add_alias], assumption, simp add: post_def)
  apply assumption
  done

lemma kids_toggle [kept]: "kids st = k \<Longrightarrow> post (child_toggle_rawmode c cb st) (\<lambda>st. kids st = k)"
  unfolding child_toggle_rawmode_def
  by (rule post_bind[OF kids_send_packet], assumption, rule post_bind[OF child_get_eq], rule post_Inr)
    (simp add: kids_child_set)

lemma kids_user_console [kept]: "kids st = k \<Longrightarrow> post (user_console user st) (\<lambda>x. kids (snd x) = k)"
  unfolding user_console_def
  by (rule post_skip post_if post_let post_option post_pair post_Inl post_Inr | simp)+

lemmas run_dunnet =
  post_bind[OF kids_send_msg] post_bind[OF kids_place_object]
  post_bind_pair[where P = "\<lambda>st. kids st = k" for k, OF kids_room_obj_del]
  post_bind_pair[where P = "\<lambda>st. kids st = k" for k, OF kids_room_obj_ops(2)]
  post_bind_pair[where P = "\<lambda>st. kids st = k" for k, OF kids_user_ops(2)]
  post_bind_pair[where P = "\<lambda>st. kids st = k" for k, OF kids_userdb_del_obj]
  post_bind_pair[where P = "\<lambda>st. kids st = k" for k, OF kids_user_console]
  post_skip_pair[where r = "first_arg a" for a] post_skip_pair[where r = "first_obj cs st" for cs st]
  post_skip[where r = "carried u n st" for u n st] post_skip[where r = "flag_get r st" for r st]
  post_skip[where r = "du_get q st" for q st] post_skip[where r = "user_record u st" for u st]
  run_lookup
lemmas end_dunnet = kids_send_msg kids_toggle post_Inl post_Inr

lemma kids_food_drop: "kids st = k \<Longrightarrow> post (food_drop p user st) (\<lambda>x. kids (snd x) = k)"
  unfolding food_drop_def by (rule run_dunnet post_if post_Inr | assumption | simp)+

lemma kids_building_enter: "kids st = k \<Longrightarrow> post (building_enter rid user st) (\<lambda>x. kids (snd x) = k)"
  unfolding building_enter_def by (rule run_dunnet post_if post_Inr | assumption | simp)+

lemma kids_dig: "kids st = k \<Longrightarrow> post (dig_exec verb args user st) (\<lambda>st. kids st = k)"
  unfolding dig_exec_def by (rule run_dunnet post_if end_dunnet | assumption | simp)+

lemma kids_put: "kids st = k \<Longrightarrow> post (put_exec verb args user st) (\<lambda>st. kids st = k)"
  unfolding put_exec_def by (rule run_dunnet post_if post_let post_pair post_option end_dunnet | assumption | simp)+

lemma kids_eat: "kids st = k \<Longrightarrow> post (eat_exec verb args user st) (\<lambda>st. kids st = k)"
  unfolding eat_exec_def
  apply (rule run_dunnet post_option end_dunnet | assumption)+
   apply (rule run_dunnet post_if end_dunnet | assumption)+
  apply (rule post_pair, rule run_dunnet, rule post_bind[where P = "\<lambda>st. kids st = k"])
   apply (rule post_if run_dunnet end_dunnet | assumption)+
  done

lemma kids_shake: "kids st = k \<Longrightarrow> post (shake_exec verb args user st) (\<lambda>st. kids st = k)"
  unfolding shake_exec_def by (rule run_dunnet post_if post_pair post_option end_dunnet | assumption | simp)+

lemma kids_console: "kids st = k \<Longrightarrow> post (console_cb user data st) (\<lambda>st. kids st = k)"
  unfolding console_cb_def pokey_unix_command_def
  apply (rule run_dunnet post_let post_if | assumption)+
        apply (rule run_dunnet post_let post_if post_pair end_dunnet | assumption | simp)+
  done

lemma kids_type: "kids st = k \<Longrightarrow> post (type_exec verb args user st) (\<lambda>st. kids st = k)"
  unfolding type_exec_def
  apply (rule run_dunnet post_if end_dunnet | assumption)+
  apply (rule post_bind[where P = "\<lambda>st. kids st = k"])
   apply (rule run_dunnet post_if end_dunnet | assumption | simp)+
  done

lemmas kids_hooks = kids_food_drop kids_building_enter kids_dig kids_put kids_eat kids_shake kids_console kids_type

lemma rows_hooks:
  assumes "rd \<in> set netcosm_world"
  shows "rd_hook_leave rd = None" "rd_hook_enter rd \<in> {None, Some building_enter}"
  using assms
  by (auto simp: netcosm_world_def plain_row_def dead_end_row_def ew_road_row_def fork_row_def senw_road_row_def
      bear_hangout_row_def hidden_area_row_def nesw_road_row_def building_front_row_def building_hallway_row_def
      mailroom_row_def computer_room_row_def simp del: list.map)

lemma dunnet_hooks_keep: "hooks_keep dunnet_module"
  unfolding hooks_keep_def
proof (intro conjI)
  show "\<forall>rd\<in>set (wm_world dunnet_module). \<forall>f\<in>set_option (rd_hook_enter rd) \<union> set_option (rd_hook_leave rd).
      \<forall>rid c st b st'. f rid c st = Inr (b, st') \<longrightarrow> kids st' = kids st"
  proof (intro ballI allI impI)
    fix rd f rid c st b and st' :: dn_state
    assume "rd \<in> set (wm_world dunnet_module)" "f \<in> set_option (rd_hook_enter rd) \<union> set_option (rd_hook_leave rd)"
      "f rid c st = Inr (b, st')"
    then show "kids st' = kids st"
      using rows_hooks[of rd] postD[OF kids_building_enter[OF refl], of rid c st "(b, st')"]
      by (auto simp: dunnet_module_def)
  qed
  show "\<forall>oc\<in>set (wm_obj_classes dunnet_module).
      (\<forall>f\<in>set_option (oc_hook_take oc) \<union> set_option (oc_hook_drop oc). \<forall>p c st b st'. f p c st = Inr (b, st') \<longrightarrow> kids st' = kids st) \<and>
      (\<forall>f\<in>set_option (oc_hook_desc oc). \<forall>p c st s st'. f p c st = Inr (s, st') \<longrightarrow> kids st' = kids st)"
    using postD[OF kids_food_drop[OF refl]]
    by (fastforce simp: dunnet_module_def dunnet_obj_classes_def generic_class_def no_take_def generic_desc_def res_bind_eq_Inr
        split: option.splits)
  show "\<forall>vc\<in>set (wm_verb_classes dunnet_module). \<forall>verb args c st st'. vc_hook_exec vc verb args c st = Inr st' \<longrightarrow> kids st' = kids st"
    using kids_hooks(3-6,8)[OF refl, THEN postD] by (auto simp: dunnet_module_def dunnet_verb_classes_def)
  show "\<forall>cb c data st st'. wm_raw_mode_cb dunnet_module cb c data st = Inr st' \<longrightarrow> kids st' = kids st"
    using kids_console[OF refl, THEN postD] by (auto simp: dunnet_module_def)
  show "\<forall>f\<in>set_option (wm_simulation_cb dunnet_module). \<forall>st st'. f st = Inr st' \<longrightarrow> kids st' = kids st"
    by (simp add: dunnet_module_def netcosm_world_simulation_cb_def)
qed

end
