(* ===== verification/Nc_Dunnet_Play.thy ===== *)
theory Nc_Dunnet_Play
  imports Nc_Dunnet
begin

text \<open>
  Playing the world of \<open>worlds/dunnet.c\<close>: the login of its computer, verbs without an argument, and
  the locked door of its building.
\<close>

section \<open>The console\<close>

text \<open>A user at the console: logged in as someone whose record is \<open>du\<close>, with the raw mode callback \<open>cb\<close>.\<close>

definition at_console :: "user_ptr \<Rightarrow> nat \<Rightarrow> dunnet_user \<Rightarrow> nat option \<Rightarrow> dn_state \<Rightarrow> bool" where
  "at_console user q du cb st \<longleftrightarrow>
     (\<exists>child name data. sv_children st user = Some child \<and> cd_user child = Some name \<and> cd_raw_mode_cb child = cb \<and>
        userdb_lookup name st = Some data \<and> ud_userdata data = q \<and> q \<noteq> 0 \<and> dn_user (sv_module st) q = Some du)"

text \<open>What a line does to the record, and whether it ends the session.\<close>

definition console_step :: "string \<Rightarrow> dunnet_user \<Rightarrow> dunnet_user" where
  "console_step line du =
     (if du_console_state du \<noteq> POKEY_LOGIN then du
      else if \<not> du_prompt_pass du then du\<lparr>du_correct_user := du_correct_user du \<or> line = ''toukmond'', du_prompt_pass := True\<rparr>
      else if line = ''robert'' \<and> du_correct_user du then du\<lparr>du_console_state := POKEY_SHELL\<rparr>
      else du\<lparr>du_fails := du_fails du + 1, du_prompt_pass := du_fails du + 1 \<ge> 3\<rparr>)"

definition console_ends :: "string \<Rightarrow> dunnet_user \<Rightarrow> bool" where
  "console_ends line du \<longleftrightarrow> du_console_state du = POKEY_LOGIN \<and> du_prompt_pass du \<and>
     \<not> (line = ''robert'' \<and> du_correct_user du) \<and> du_fails du + 1 \<ge> 3"

lemma wrote_module [simp]: "sv_module (wrote c pkts st) = sv_module st"
  by (simp add: wrote_def)

lemma send_msg_wrote: "sv_children st c \<noteq> None \<Longrightarrow> send_msg c s st = Inr (wrote c (packets_of REQ_BCASTMSG s) st)"
  by (simp add: send_msg_def send_packet_wrote)

lemma at_console_wrote [simp]: "at_console user q du cb (wrote user pkts st) = at_console user q du cb st"
  by (auto simp: at_console_def userdb_lookup_def)

lemma at_console_live: "at_console user q du cb st \<Longrightarrow> sv_children st user \<noteq> None"
  by (auto simp: at_console_def)

lemma send_msg_at:
  "at_console user q du cb st \<Longrightarrow> \<exists>st'. send_msg user s st = Inr st' \<and> at_console user q du cb st'"
  using send_msg_wrote[OF at_console_live] by fastforce

lemma du_set_at: "at_console user q du cb st \<Longrightarrow> at_console user q du' cb (du_set q du' st)"
  by (auto simp: at_console_def du_set_def userdb_lookup_def)

lemma toggle_at:
  assumes "at_console user q du (Some cb) st"
  shows "\<exists>st'. child_toggle_rawmode user x st = Inr st' \<and> at_console user q du None st'"
proof -
  have "at_console user q du (Some cb) (wrote user (packets_of REQ_RAWMODE []) st)" using assms by simp
  then show ?thesis
    using send_packet_wrote[OF at_console_live[OF assms], of "[]" REQ_RAWMODE]
    by (fastforce simp: child_toggle_rawmode_def MSG_MAX_def at_console_def child_get_def userdb_lookup_def child_set_def)
qed

lemma at_console_reads:
  assumes "at_console user q du cb st"
  shows "\<exists>data. user_record user st = Inr data \<and> ud_userdata data = q" "du_get q st = Inr du"
  using assms by (auto simp: at_console_def user_record_def sender_name_def child_get_def du_get_def)

lemma console_cb_ok:
  assumes at: "at_console user q du (Some cb) st"
  shows "\<exists>st'. console_cb user data st = Inr st' \<and>
    at_console user q (console_step (c_str data) du) (if console_ends (c_str data) du then None else Some cb) st'"
proof -
  obtain ud where ud: "user_record user st = Inr ud" "ud_userdata ud = q" using at_console_reads(1)[OF at] by blast
  note reads = ud at_console_reads(2)[OF at]
  let ?s = "c_str data"
  consider (name) "du_console_state du = POKEY_LOGIN" "\<not> du_prompt_pass du"
    | (granted) "du_console_state du = POKEY_LOGIN" "du_prompt_pass du" "?s = ''robert''" "du_correct_user du"
    | (refused) "du_console_state du = POKEY_LOGIN" "du_prompt_pass du" "\<not> (?s = ''robert'' \<and> du_correct_user du)"
    | (other) "du_console_state du \<noteq> POKEY_LOGIN" by blast
  then show ?thesis
  proof cases
    case name
    then have "console_cb user data st = send_msg user ''password: '' (du_set q (console_step ?s du) st)"
      using reads by (auto simp: console_cb_def console_step_def Let_def)
    then show ?thesis using send_msg_at[OF du_set_at[OF at]] name by (simp add: console_ends_def)
  next
    case granted
    then have "console_cb user data st =
        res_bind (send_msg user pokey_motd (du_set q (console_step ?s du) st)) (send_msg user ''$ '')"
      using reads by (simp add: console_cb_def console_step_def Let_def)
    moreover obtain st1 where "send_msg user pokey_motd (du_set q (console_step ?s du) st) = Inr st1"
      "at_console user q (console_step ?s du) (Some cb) st1" using send_msg_at[OF du_set_at[OF at]] by blast
    ultimately show ?thesis using send_msg_at granted by (simp add: console_ends_def)
  next
    case refused
    obtain st1 where st1: "send_msg user (''login incorrect'' @ newline) st = Inr st1" "at_console user q du (Some cb) st1"
      using send_msg_at[OF at] by blast
    let ?du = "du\<lparr>du_fails := du_fails du + 1\<rparr>"
    note at1 = du_set_at[OF st1(2), of ?du]
    show ?thesis
    proof (cases "du_fails du + 1 \<ge> 3")
      case True
      then have "console_cb user data st = child_toggle_rawmode user None (du_set q ?du st1)"
        using reads refused st1(1) by (auto simp: console_cb_def Let_def)
      moreover have "console_step ?s du = ?du" "console_ends ?s du"
        using refused True by (auto simp: console_step_def console_ends_def)
      ultimately show ?thesis using toggle_at[OF at1] by simp
    next
      case False
      then have "console_cb user data st = send_msg user pokey_prompt (du_set q (?du\<lparr>du_prompt_pass := False\<rparr>) (du_set q ?du st1))"
        using reads refused st1(1) by (auto simp: console_cb_def Let_def)
      moreover have "console_step ?s du = ?du\<lparr>du_prompt_pass := False\<rparr>" "\<not> console_ends ?s du"
        using refused False by (auto simp: console_step_def console_ends_def)
      ultimately show ?thesis using send_msg_at[OF du_set_at[OF at1]] by simp
    qed
  next
    case other
    then have "\<exists>s. console_cb user data st = send_msg user s st"
      using reads by (auto simp: console_cb_def Let_def pokey_unix_command_def split: prod.split)
    then show ?thesis using send_msg_at[OF at] other by (auto simp: console_step_def console_ends_def)
  qed
qed

text \<open>A line that the child sends, as \<open>REQ_EXECVERB\<close> brings it.\<close>

definition type_line :: "user_ptr \<Rightarrow> string \<Rightarrow> dn_state \<Rightarrow> dn_state res" where
  "type_line user line = req_execverb dunnet_module (line @ [NUL]) user"

lemma type_line_ok:
  assumes at: "at_console user q du (Some CONSOLE_CB) st" and "NUL \<notin> set line"
  shows "\<exists>st'. type_line user line st = Inr st' \<and>
    at_console user q (console_step line du) (if console_ends line du then None else Some CONSOLE_CB) st'"
proof -
  have "type_line user line st = console_cb user (line @ [NUL]) st"
    using at by (auto simp: type_line_def req_execverb_def at_console_def child_get_def dunnet_module_def)
  moreover have "c_str (line @ [NUL]) = line" using c_str_padded[OF assms(2), of 1] by simp
  ultimately show ?thesis using console_cb_ok[OF at, of "line @ [NUL]"] by simp
qed

lemma shell_keeps:
  assumes "at_console user q du (Some CONSOLE_CB) st" "du_console_state du = POKEY_SHELL" "\<forall>line\<in>set lines. NUL \<notin> set line"
  shows "\<exists>st'. res_fold (type_line user) lines st = Inr st' \<and> at_console user q du (Some CONSOLE_CB) st'"
proof (rule res_fold_invariant[where P = "at_console user q du (Some CONSOLE_CB)"])
  fix line s
  assume "line \<in> set lines" "at_console user q du (Some CONSOLE_CB) s"
  then show "\<exists>s'. type_line user line s = Inr s' \<and> at_console user q du (Some CONSOLE_CB) s'"
    using type_line_ok[of user q du s line] assms(2,3)
    by (simp add: console_step_def console_ends_def console_states)
qed (rule assms(1))

text \<open>Attempts to log in, each a name and a password; whether the last one opens the shell.\<close>

definition opens :: "bool \<Rightarrow> (string \<times> string) list \<Rightarrow> bool" where
  "opens known attempts \<longleftrightarrow> attempts \<noteq> [] \<and> snd (last attempts) = ''robert'' \<and> (known \<or> ''toukmond'' \<in> fst ` set attempts)"

definition typed :: "(string \<times> string) list \<Rightarrow> string list" where
  "typed attempts = concat (map (\<lambda>(name, pass). [name, pass]) attempts)"

lemma opens_Cons: "opens known ((name, pass) # rest) \<longleftrightarrow>
    (if rest = [] then pass = ''robert'' \<and> (known \<or> name = ''toukmond'') else opens (known \<or> name = ''toukmond'') rest)"
  by (auto simp: opens_def)

lemma typed_simps [simp]: "typed [] = []" "typed ((name, pass) # rest) = name # pass # typed rest"
  by (simp_all add: typed_def)

lemma console_attempts:
  assumes "at_console user q du (Some CONSOLE_CB) st" "du_console_state du = POKEY_LOGIN" "\<not> du_prompt_pass du" "du_fails du < 3"
    and "du_fails du + int (length attempts) \<le> 3" "\<forall>k<length attempts. \<not> opens (du_correct_user du) (take k attempts)"
    and "\<forall>line\<in>set (typed attempts). NUL \<notin> set line"
  shows "\<exists>st' du'. res_fold (type_line user) (typed attempts) st = Inr st' \<and>
    at_console user q du'
      (if \<not> opens (du_correct_user du) attempts \<and> du_fails du + int (length attempts) = 3 then None else Some CONSOLE_CB) st' \<and>
    du_console_state du' = (if opens (du_correct_user du) attempts then POKEY_SHELL else POKEY_LOGIN)"
  using assms
proof (induction attempts arbitrary: st du)
  case Nil
  then show ?case by (auto simp: opens_def)
next
  case (Cons a rest)
  obtain name pass where a: "a = (name, pass)" by fastforce
  define d1 where "d1 = console_step name du"
  define d2 where "d2 = console_step pass d1"
  let ?known = "du_correct_user du \<or> name = ''toukmond''"
  have d1: "d1 = du\<lparr>du_correct_user := ?known, du_prompt_pass := True\<rparr>" "\<not> console_ends name du"
    using Cons.prems(2,3) by (simp_all add: d1_def console_step_def console_ends_def)
  obtain st1 where st1: "type_line user name st = Inr st1" "at_console user q d1 (Some CONSOLE_CB) st1"
    using type_line_ok[OF Cons.prems(1), of name] Cons.prems(7) d1(2) by (auto simp: a d1_def)
  obtain st2 where st2: "type_line user pass st1 = Inr st2"
    "at_console user q d2 (if console_ends pass d1 then None else Some CONSOLE_CB) st2"
    using type_line_ok[OF st1(2), of pass] Cons.prems(7) by (auto simp: a d2_def)
  show ?case
  proof (cases "pass = ''robert'' \<and> ?known")
    case True
    then have "rest = []"
      using Cons.prems(6)[rule_format, of 1] by (cases rest) (auto simp: a opens_def)
    moreover have "du_console_state d2 = POKEY_SHELL" "\<not> console_ends pass d1"
      using True Cons.prems(2) by (simp_all add: d2_def d1(1) console_step_def console_ends_def)
    ultimately show ?thesis using st1(1) st2 True by (auto simp: a opens_Cons)
  next
    case False
    have ends: "console_ends pass d1 \<longleftrightarrow> du_fails du + 1 \<ge> 3"
      using False Cons.prems(2) by (auto simp: d1(1) console_ends_def)
    have d2: "du_console_state d2 = POKEY_LOGIN" "du_prompt_pass d2 \<longleftrightarrow> du_fails du + 1 \<ge> 3"
      "du_fails d2 = du_fails du + 1" "du_correct_user d2 \<longleftrightarrow> ?known"
      using False Cons.prems(2) by (simp_all add: d2_def d1(1) console_step_def del: de_Morgan_conj)
    show ?thesis
    proof (cases rest)
      case Nil
      have "\<not> opens (du_correct_user du) (a # rest)" using False Nil by (simp add: a opens_Cons)
      moreover have "res_fold (type_line user) (typed (a # rest)) st = Inr st2" using st1(1) st2(1) Nil by (simp add: a)
      moreover have "console_ends pass d1 \<longleftrightarrow> du_fails du + int (length (a # rest)) = 3" using ends Cons.prems(4) Nil by auto
      ultimately show ?thesis using st2(2) d2(1) by auto
    next
      case (Cons b rest')
      have more: "du_fails du + 1 < 3" using Cons.prems(5) Cons by simp
      have "opens (du_correct_user d2) (take k rest) \<longleftrightarrow> opens (du_correct_user du) (take (Suc k) (a # rest))" if "k < length rest" for k
        using False that Cons by (cases k) (auto simp: a opens_Cons opens_def d2(4))
      then have no: "\<forall>k<length rest. \<not> opens (du_correct_user d2) (take k rest)" using Cons.prems(6) by auto
      have "opens (du_correct_user d2) rest \<longleftrightarrow> opens (du_correct_user du) (a # rest)"
        using Cons by (simp add: a opens_Cons[of _ name pass] d2(4))
      moreover have "\<exists>st' du'. res_fold (type_line user) (typed rest) st2 = Inr st' \<and>
          at_console user q du' (if \<not> opens (du_correct_user d2) rest \<and> du_fails d2 + int (length rest) = 3 then None else Some CONSOLE_CB) st' \<and>
          du_console_state du' = (if opens (du_correct_user d2) rest then POKEY_SHELL else POKEY_LOGIN)"
        by (rule Cons.IH) (use st2(2) more d2 ends Cons.prems(5,7) no in \<open>auto simp: a\<close>)
      ultimately show ?thesis using st1(1) st2(1) d2(3) by (simp add: a algebra_simps)
    qed
  qed
qed

section \<open>A sample\<close>

text \<open>``ann'' at the computer, which runs, before the login of its console.\<close>

definition dunnet_ann :: userdata_t where
  "dunnet_ann = \<lparr>ud_username = ''ann'', ud_salt = [], ud_passhash = [], ud_priv = PRIV_USER, ud_last_login = 0,
     ud_objects = Some 0, ud_userdata = 1\<rparr>"

definition sample_console :: dn_state where
  "sample_console = (initial_state dunnet_start)\<lparr>
     sv_children := [0 \<mapsto> sample_child\<lparr>cd_raw_mode_cb := Some CONSOLE_CB\<rparr>],
     sv_db_map := (hash_init 1 hash_djb compare_strings)\<lparr>hm_table := [[(''ann'', dunnet_ann)]], hm_n_entries := 1, hm_used_buckets := 1\<rparr>,
     sv_module := dunnet_start\<lparr>dn_user := [1 \<mapsto> \<lparr>du_console_state = POKEY_LOGIN, du_prompt_pass = False, du_correct_user = False, du_fails = 0\<rparr>]\<rparr>\<rparr>"

lemma sample_console_at:
  "at_console 0 1 \<lparr>du_console_state = POKEY_LOGIN, du_prompt_pass = False, du_correct_user = False, du_fails = 0\<rparr> (Some CONSOLE_CB) sample_console"
  by (simp add: at_console_def sample_console_def initial_state_def sample_child_def userdb_lookup_def hash_lookup_def hash_find_def
      hash_chain_def hash_index_def hash_init_def dunnet_ann_def dunnet_start_def)

section \<open>Properties\<close>

text \<open>C4: the login of the computer's console. Three attempts are allowed; the shell opens at the first
  attempt with the password ``robert'' by which the name ``toukmond'' has been given, in this
  attempt or in any earlier one: the code never forgets a right name. After three failures the
  child leaves raw mode. Once the shell is open nothing that is typed changes anything, and the
  child never leaves raw mode again.\<close>

theorem console_login_correct:
  assumes "at_console user q du (Some CONSOLE_CB) st" "du_console_state du = POKEY_LOGIN" "\<not> du_prompt_pass du"
    and "\<not> du_correct_user du" "du_fails du = 0" "length attempts \<le> 3" "\<forall>k<length attempts. \<not> opens False (take k attempts)"
    and "\<forall>line\<in>set (typed attempts @ later). NUL \<notin> set line"
  shows "\<exists>st' du'. res_fold (type_line user) (typed attempts) st = Inr st' \<and>
    (if opens False attempts
     then du_console_state du' = POKEY_SHELL \<and> at_console user q du' (Some CONSOLE_CB) st' \<and>
       (\<exists>st''. res_fold (type_line user) later st' = Inr st'' \<and> at_console user q du' (Some CONSOLE_CB) st'')
     else du_console_state du' = POKEY_LOGIN \<and> at_console user q du' (if length attempts = 3 then None else Some CONSOLE_CB) st')"
proof -
  obtain st' du' where run: "res_fold (type_line user) (typed attempts) st = Inr st'"
    "at_console user q du' (if \<not> opens False attempts \<and> length attempts = 3 then None else Some CONSOLE_CB) st'"
    "du_console_state du' = (if opens False attempts then POKEY_SHELL else POKEY_LOGIN)"
    using console_attempts[OF assms(1-3), of attempts] assms(4-8) by auto
  then show ?thesis
    using shell_keeps[of user q du' st' later] assms(8) by (intro exI[of _ st'] exI[of _ du']) auto
qed

theorem console_login_correct_witness:
  "\<exists>st' du'. res_fold (type_line 0) [''toukmond'', ''x'', ''guest'', ''robert''] sample_console = Inr st' \<and>
    du_console_state du' = POKEY_SHELL \<and> at_console 0 1 du' (Some CONSOLE_CB) st' \<and>
    (\<exists>st''. res_fold (type_line 0) [''exit''] st' = Inr st'' \<and> at_console 0 1 du' (Some CONSOLE_CB) st'')"
proof -
  let ?as = "[(''toukmond'', ''x''), (''guest'', ''robert'')]"
  have "k < length ?as \<Longrightarrow> \<not> opens False (take k ?as)" for k
    by (cases k) (auto simp: opens_def)
  moreover have "opens False ?as" by (simp add: opens_def)
  moreover have "\<forall>line\<in>set (typed ?as @ [''exit'']). NUL \<notin> set line" by code_simp
  ultimately show ?thesis
    using console_login_correct[OF sample_console_at, of ?as "[''exit'']"] by (simp del: res_fold.simps)
qed

text \<open>C10: a verb that needs an argument and is typed without one: \<open>args\<close> is NULL, and \<open>strtok_r\<close>
  continues at a pointer that was never set. Anyone can crash the master with ``eat''.\<close>

theorem verbs_need_argument:
  assumes "sv_children st user = Some child" "cd_raw_mode_cb child = None" "room_get (cd_room child) st = Inr room"
    and "line \<in> {''put'', ''eat'', ''shake''}" "hash_lookup (rm_verbs room) line = None"
    and "sv_global_verbs st = Some tab" "hash_lookup tab line = Some verb"
    and "vb_class verb < 5" "vc_class_name (dunnet_verb_classes ! vb_class verb) = line"
  shows "type_line user line st = Inl Use_After_Free"
proof -
  have tok: "strtok_r ('' '' @ [char_of (9::nat)]) (c_str (line @ [NUL])) = (Some line, [])" "all_lower line = line"
  proof -
    have "\<forall>line\<in>{''put'', ''eat'', ''shake''}. strtok_r ('' '' @ [char_of (9::nat)]) (c_str (line @ [NUL])) = (Some line, []) \<and> all_lower line = line"
      by code_simp
    then show "strtok_r ('' '' @ [char_of (9::nat)]) (c_str (line @ [NUL])) = (Some line, [])" "all_lower line = line"
      using assms(4) by blast+
  qed
  have "vb_class verb \<in> {0, 1, 2, 3, 4}" using assms(8) by auto
  then have "vc_hook_exec (dunnet_verb_classes ! vb_class verb) verb None user st = Inl Use_After_Free"
    using assms(4,9) by (auto simp: dunnet_verb_classes_def put_exec_def eat_exec_def shake_exec_def first_arg_def)
  then show ?thesis
    using assms(1-3,5-8) tok
    by (simp add: type_line_def req_execverb_def child_get_def room_verb_map_def world_verb_map_def init_map_def Let_def
        verb_class_of_def dunnet_module_def dunnet_verb_classes_def strtok_r_def)
qed

theorem verbs_need_argument_witness:
  "type_line 0 ''eat'' (sample_console\<lparr>sv_children := [0 \<mapsto> sample_child], sv_world := [room_zero],
     sv_global_verbs := Some ((hash_init 1 hash_djb compare_strings)\<lparr>hm_table := [[(''eat'', \<lparr>vb_name = ''eat'', vb_class = 2\<rparr>)]]\<rparr>)\<rparr>)
   = Inl Use_After_Free"
proof -
  let ?tab = "(hash_init 1 hash_djb compare_strings)\<lparr>hm_table := [[(''eat'', \<lparr>vb_name = ''eat'', vb_class = 2\<rparr>)]]\<rparr> :: verb_map"
  have "hash_lookup ?tab ''eat'' = Some \<lparr>vb_name = ''eat'', vb_class = 2\<rparr>" "hash_lookup (rm_verbs room_zero) ''eat'' = None"
    by (simp_all add: hash_lookup_def hash_find_def hash_chain_def hash_index_def hash_init_def room_zero_def)
  then show ?thesis
    by (intro verbs_need_argument[where child = sample_child and room = room_zero and tab = ?tab
          and verb = "\<lparr>vb_name = ''eat'', vb_class = 2\<rparr>"])
      (simp_all add: sample_child_def room_get_def dunnet_verb_classes_def)
qed

section \<open>The door of the building\<close>

text \<open>Where the children are.\<close>

definition places :: "('u, 'm) server_state \<Rightarrow> user_ptr \<Rightarrow> (room_id \<times> string option) option" where
  "places st c = map_option (\<lambda>child. (cd_room child, cd_user child)) (sv_children st c)"

lemma places_child_set:
  "child_get c st = Inr child \<Longrightarrow> cd_room child' = cd_room child \<Longrightarrow> cd_user child' = cd_user child \<Longrightarrow>
   places (child_set c child' st) = places st"
  by (auto simp: places_def fun_eq_iff)

lemma places_send_packet: "places st = k \<Longrightarrow> post (send_packet c cmd data st) (\<lambda>st. places st = k)"
  unfolding send_packet_def write_packets_def
  by (rule post_if post_Inl post_bind[OF child_get_eq] post_Inr | simp add: places_child_set)+

lemma places_send_msg: "places st = k \<Longrightarrow> post (send_msg c s st) (\<lambda>st. places st = k)"
  by (simp add: send_msg_def places_send_packet)

lemma places_building_enter: "places st = k \<Longrightarrow> post (building_enter rid user st) (\<lambda>x. places (snd x) = k)"
  unfolding building_enter_def
  by (rule post_skip post_if post_Inr post_bind[OF places_send_msg] | assumption | simp)+

lemma room_data_dunnet:
  assumes "room_data dunnet_module rid = Inr rd"
  shows "rd \<in> set netcosm_world" "rd_hook_leave rd = None" "rd_hook_enter rd = None \<or> rd_hook_enter rd = Some building_enter"
    "rd = netcosm_world ! nat rid" "0 \<le> rid" "nat rid < length netcosm_world"
proof -
  show "rd \<in> set netcosm_world" "rd = netcosm_world ! nat rid" "0 \<le> rid" "nat rid < length netcosm_world"
    using assms by (auto simp: room_data_def dunnet_module_def split: if_splits)
  then show "rd_hook_leave rd = None" "rd_hook_enter rd = None \<or> rd_hook_enter rd = Some building_enter"
    using rows_hooks[of rd] by auto
qed

lemma places_room_set [simp]: "places (room_set rid room st) = places st"
  by (simp add: places_def fun_eq_iff)

lemma places_hooks:
  assumes "room_data dunnet_module rid = Inr rd" "places st = k"
  shows "post (call_hook (rd_hook_enter rd) rid' c st) (\<lambda>st. places st = k)"
    "post (call_hook (rd_hook_leave rd) rid' c st) (\<lambda>st. places st = k)"
    "post (hook_allows (rd_hook_enter rd) rid' c st) (\<lambda>x. places (snd x) = k)"
    "hook_allows (rd_hook_leave rd) rid' c st = Inr (True, st)"
proof -
  show "post (call_hook (rd_hook_enter rd) rid' c st) (\<lambda>st. places st = k)"
    "post (hook_allows (rd_hook_enter rd) rid' c st) (\<lambda>x. places (snd x) = k)"
    using room_data_dunnet(3)[OF assms(1)] assms(2)
    by (auto simp: call_hook_def hook_allows_def intro!: post_bind_pair[OF places_building_enter] post_Inr places_building_enter)
  show "post (call_hook (rd_hook_leave rd) rid' c st) (\<lambda>st. places st = k)" "hook_allows (rd_hook_leave rd) rid' c st = Inr (True, st)"
    using room_data_dunnet(2)[OF assms(1)] assms(2) by (simp_all add: call_hook_def hook_allows_def post_Inr)
qed

lemma places_room_user:
  "places st = k \<Longrightarrow> post (room_user_add dunnet_module rid c st) (\<lambda>x. places (snd x) = k)"
  "places st = k \<Longrightarrow> post (room_user_del dunnet_module rid c st) (\<lambda>x. places (snd x) = k)"
  unfolding room_user_add_def room_user_del_def
  by (rule post_skip[where r = "room_get rid st"] post_bind[OF room_data_eq] post_skip[where r = "child_get c st"] post_option
      post_skip_pair post_bind[OF places_hooks(1)] post_bind[OF places_hooks(2)] post_pair post_Inr | assumption | simp)+

lemma places_child_set_room:
  assumes "child_set_room dunnet_module c rid st = Inr st'" "places st c = Some (from, user)"
  shows "places st' c = Some (rid, user)"
proof -
  obtain child b where child: "sv_children st c = Some child" "cd_user child = user"
    and add: "room_user_add dunnet_module rid c (child_set c (child\<lparr>cd_room := rid\<rparr>) st) = Inr (b, st')"
    using assms by (auto simp: child_set_room_def res_bind_eq_Inr places_def)
  show ?thesis
    using postD[OF places_room_user(1)[OF refl] add] child by (simp add: places_def)
qed

text \<open>What the hook of a room that is entered asks for.\<close>

definition key_held :: "user_ptr \<Rightarrow> dn_state \<Rightarrow> bool" where
  "key_held c st \<longleftrightarrow> (\<exists>cells. carried c ''shiny brass key'' st = Inr (Some cells))"

lemma hallway_hook:
  assumes "rd \<in> set netcosm_world" "rd_uniq_id rd = ''building_hallway''"
  shows "rd_hook_enter rd = Some building_enter"
  using assms
  by (auto simp: netcosm_world_def plain_row_def dead_end_row_def ew_road_row_def fork_row_def senw_road_row_def
      bear_hangout_row_def hidden_area_row_def nesw_road_row_def building_front_row_def building_hallway_row_def
      mailroom_row_def computer_room_row_def simp del: list.map)

lemma enter_hallway:
  assumes "room_data dunnet_module rid = Inr rd"
  shows "post (hook_allows (rd_hook_enter rd) rid c st)
    (\<lambda>x. places (snd x) = places st \<and> (fst x \<longrightarrow> rd_uniq_id (netcosm_world ! nat rid) = ''building_hallway'' \<longrightarrow> key_held c st))"
proof (rule postI)
  fix x assume x: "hook_allows (rd_hook_enter rd) rid c st = Inr x"
  have "key_held c st" if "fst x" "rd_uniq_id (netcosm_world ! nat rid) = ''building_hallway''"
    using hallway_hook[of rd] room_data_dunnet[OF assms] that x
    by (auto simp: hook_allows_def building_enter_def res_bind_eq_Inr key_held_def split: if_splits)
  then show "places (snd x) = places st \<and> (fst x \<longrightarrow> rd_uniq_id (netcosm_world ! nat rid) = ''building_hallway'' \<longrightarrow> key_held c st)"
    using postD[OF places_hooks(3)[OF assms refl] x] by blast
qed

lemma move_asks_key:
  assumes "places st c = Some (from, user)"
  defines "K \<equiv> \<lambda>pl. \<forall>to user'. pl c = Some (to, user') \<longrightarrow> from \<noteq> to \<longrightarrow>
      rd_uniq_id (netcosm_world ! nat to) = ''building_hallway'' \<longrightarrow> key_held c st"
  shows "post (req_move_room dunnet_module data c st) (\<lambda>st'. K (places st'))"
proof -
  have stay: "K (places st)" using assms(1) by (simp add: K_def)
  have moved: "post (child_set_room dunnet_module c new s) (\<lambda>s'. K (places s'))"
    if "places s = places st" "rd_uniq_id (netcosm_world ! nat new) = ''building_hallway'' \<longrightarrow> key_held c st" for new s
  proof (rule postI)
    fix s' assume run: "child_set_room dunnet_module c new s = Inr s'"
    have "places s c = Some (from, user)" using that(1) assms(1) by simp
    from places_child_set_room[OF run this] that(2) show "K (places s')" by (simp add: K_def)
  qed
  have sent: "post (send_packet c cmd d s) (\<lambda>s'. K (places s'))" if "K (places s)" for cmd d s
  proof (rule postI)
    fix s' assume "send_packet c cmd d s = Inr s'"
    from postD[OF places_send_packet[OF refl] this] that show "K (places s')" by simp
  qed
  show ?thesis
    unfolding req_move_room_def
    apply (rule post_let, rule post_skip, rule post_skip, rule post_bind[OF room_data_eq], rule post_if, rule post_Inl, rule post_let)
    apply (rule post_bind_pair[where P = "\<lambda>s. K (places s)"])
     apply (rule post_if)
      apply (rule post_bind[OF places_send_msg[OF refl]], rule post_Inr, simp add: stay)
     apply (rule post_skip, rule post_bind[OF room_data_eq])
     apply (rule post_bind[OF enter_hallway], assumption, rule post_pair)
     apply (rule post_if, rule post_Inr, simp add: stay)
     apply (rule post_skip, simp only: places_hooks(4)[OF _ refl] res_bind_simps prod.case not_True_eq_False if_False)
     apply (rule post_skip, rule post_bind_pair[where P = "\<lambda>s. places s = places st"], rule places_room_user(2), simp)
     apply (rule post_bind[OF moved], assumption, simp)
     apply (rule post_Inr, simp)
    apply (rule sent, assumption)
    done
qed

text \<open>C9: the building is locked: whoever moves into its hallway by \<open>REQ_MOVE\<close> from another room carries the
  key, under its own name, at that moment.\<close>

theorem hallway_needs_key:
  assumes "req_move_room dunnet_module data c st = Inr st'" "places st c = Some (from, user)" "places st' c = Some (to, user')"
    and "from \<noteq> to" "rd_uniq_id (netcosm_world ! nat to) = ''building_hallway''"
  shows "\<exists>name cells. user = Some name \<and> user_obj_list name ''shiny brass key'' st = Inr (Some cells)"
proof -
  have "key_held c st" using postD[OF move_asks_key[OF assms(2)] assms(1)] assms(3-5) by blast
  then show ?thesis
    using assms(2) by (auto simp: key_held_def carried_def sender_name_def places_def res_bind_eq_Inr split: option.splits)
qed

text \<open>``ann'' in front of the building, with the key.\<close>

definition sample_key_map :: "string obj_map" where
  "sample_key_map = (obj_map_init 1)\<lparr>mm_hash_tab := (hash_init 1 hash_djb compare_strings_nocase)\<lparr>hm_table :=
     [[(''shiny brass key'', \<lparr>mn_list = [(''shiny brass key'', 5)], mn_n_pairs = 1\<rparr>)]]\<rparr>\<rparr>"

definition sample_door :: dn_state where
  "sample_door = sample_console\<lparr>sv_children := [0 \<mapsto> sample_child\<lparr>cd_room := 7\<rparr>],
     sv_heap := \<lparr>dh_obj = obj_state_init, dh_maps = [0 \<mapsto> sample_key_map], dh_next = 1\<rparr>,
     sv_world := (replicate 11 room_zero)[7 := room_zero\<lparr>rm_adjacent := replicate 12 8\<rparr>]\<rparr>"

lemma sample_door_rooms:
  "room_get 7 sample_door = Inr (room_zero\<lparr>rm_adjacent := replicate 12 8\<rparr>)" "room_get 8 sample_door = Inr room_zero"
  "room_data dunnet_module 7 = Inr building_front_row" "room_data dunnet_module 8 = Inr building_hallway_row"
  "rd_hook_leave building_front_row = None" "rd_hook_enter building_hallway_row = Some building_enter"
  "str_table (rm_users room_zero)" "hash_lookup (rm_users room_zero) = Map.empty"
  by (simp_all add: room_get_def sample_door_def room_data_def dunnet_module_def netcosm_world_def building_front_row_def
      building_hallway_row_def plain_row_def room_zero_def exact_table_init del: list.map)

lemma sample_door_key:
  assumes "sv_heap st = sv_heap sample_door" "sv_db_map st = sv_db_map sample_door" "sv_children st 0 = Some child" "cd_user child = Some ''ann''"
  shows "building_enter rid 0 st = Inr (True, st)" "user_obj_list ''ann'' ''shiny brass key'' st = Inr (Some ([(''shiny brass key'', 5)], 1))"
proof -
  have "hash_lookup (sv_db_map sample_door) ''ann'' = Some dunnet_ann"
    by (simp add: sample_door_def sample_console_def hash_lookup_def hash_find_def hash_chain_def hash_index_def hash_init_def)
  moreover have "multimap_lookup sample_key_map ''shiny brass key'' = Some ([(''shiny brass key'', 5)], 1)"
    by (simp add: sample_key_map_def multimap_lookup_def hash_lookup_def hash_find_def hash_chain_def hash_index_def hash_init_def)
  moreover have "dh_maps (sv_heap sample_door) 0 = Some sample_key_map" by (simp add: sample_door_def)
  ultimately show "building_enter rid 0 st = Inr (True, st)" "user_obj_list ''ann'' ''shiny brass key'' st = Inr (Some ([(''shiny brass key'', 5)], 1))"
    using assms
    by (simp_all add: building_enter_def carried_def sender_name_def child_get_def user_obj_list_def user_map_ptr_def userdb_lookup_def
        dunnet_ann_def)
qed

theorem hallway_needs_key_witness:
  "\<exists>st' user'. req_move_room dunnet_module (int_bytes 1) 0 sample_door = Inr st' \<and> places st' 0 = Some (8, user') \<and>
     places sample_door 0 = Some (7, Some ''ann'') \<and> (\<exists>cells. user_obj_list ''ann'' ''shiny brass key'' sample_door = Inr (Some cells))"
proof -
  let ?child = "sample_child\<lparr>cd_room := 7\<rparr>"
  let ?r7 = "room_zero\<lparr>rm_adjacent := replicate 12 8\<rparr> :: string room_t"
  have child: "sv_children sample_door 0 = Some ?child" "cd_user ?child = Some ''ann''"
    by (simp_all add: sample_door_def sample_child_def)
  have dir: "le_val (take 4 (int_bytes 1)) = 1" by code_simp
  let ?users = "rm_users (room_zero :: string room_t)"
  have "hash_remove ?users ''ann'' () = Inr (False, ?users, ())"
    by (rule hash_remove_absent) (simp add: sample_door_rooms(8))
  moreover have "?r7\<lparr>rm_users := ?users\<rparr> = ?r7" by simp
  ultimately have del: "room_user_del dunnet_module 7 0 sample_door = Inr (False, room_set 7 ?r7 sample_door)"
    using child by (simp add: room_user_del_def sample_door_rooms(1,3,5) child_get_def call_hook_def)
  let ?st1 = "room_set 7 ?r7 sample_door"
  have empty: "str_table ?users" "hash_lookup ?users = Map.empty" by (simp_all add: sample_door_rooms(7,8))
  obtain users where users: "hash_insert ?users ''ann'' 0 = Inr (None, users)"
    using str_map.insert_absent[of ?users "''ann''" 0] empty by auto
  let ?st2 = "room_set 8 (room_zero\<lparr>rm_users := users\<rparr>) (child_set 0 (?child\<lparr>cd_room := 8\<rparr>) ?st1)"
  have "room_get 8 (child_set 0 (?child\<lparr>cd_room := 8\<rparr>) ?st1) = Inr room_zero"
    using room_get_set[OF sample_door_rooms(1), of 8 ?r7] sample_door_rooms(2) by simp
  moreover have "building_enter 8 0 ?st2 = Inr (True, ?st2)"
    by (rule sample_door_key(1)[of _ "?child\<lparr>cd_room := 8\<rparr>"]) (use child in simp_all)
  ultimately have add: "child_set_room dunnet_module 0 8 ?st1 = Inr ?st2"
    using child users sample_door_rooms(4,6)
    by (simp add: child_set_room_def child_get_def room_user_add_def call_hook_def)
  have live: "sv_children ?st2 0 \<noteq> None" by simp
  let ?st3 = "wrote 0 (packets_of REQ_MOVE (int_bytes 1)) ?st2"
  have "send_packet 0 REQ_MOVE (int_bytes 1) ?st2 = Inr ?st3"
    by (rule send_packet_wrote[OF live]) (simp add: MSG_MAX_def)
  moreover have "building_enter 8 0 sample_door = Inr (True, sample_door)"
    by (rule sample_door_key(1)[of _ ?child]) (use child in simp_all)
  ultimately have run: "req_move_room dunnet_module (int_bytes 1) 0 sample_door = Inr ?st3"
    using child del add dir sample_door_rooms
    by (simp add: req_move_room_def child_get_def hook_allows_def ROOM_NONE_def Let_def sample_child_def)
  have p: "places sample_door 0 = Some (7, Some ''ann'')" "places ?st3 0 = Some (8, Some ''ann'')"
    using child by (simp_all add: places_def)
  have "rd_uniq_id (netcosm_world ! nat 8) = ''building_hallway''"
    by (simp add: netcosm_world_def building_hallway_row_def plain_row_def del: list.map)
  from hallway_needs_key[OF run p _ this] run p show ?thesis by auto
qed

end
