(* ===== verification/Nc_Dunnet_World.thy ===== *)
theory Nc_Dunnet_World
  imports Nc_Reload Nc_Dunnet_Play
begin

text \<open>
  The world of \<open>worlds/dunnet.c\<close> as \<open>world_init\<close> builds it: every init hook succeeds, and each room
  has its objects.
\<close>

section \<open>Placing objects\<close>

text \<open>The length of a literal is counted in binary when a string is checked.\<close>

lemma storable_exec [code]:
  "storable s \<longleftrightarrow> list_all (\<lambda>c. c \<noteq> CHR 0x00) s \<and> foldr (\<lambda>_ n. n + 1) s (0 :: int) < 18446744073709551616"
proof -
  have "foldr (\<lambda>_ n. n + 1) s (0 :: int) = int (length s)" by (induction s) simp_all
  moreover have "code c = 0 \<longleftrightarrow> c = CHR 0x00" for c
    using of_char_eq_iff[of c "CHR 0x00", where 'a = nat] by (simp add: code_def)
  ultimately show ?thesis by (auto simp: storable_def list_all_iff)
qed

text \<open>
  What the classes of the module ask of an object that is to survive in the file of the world: a
  class of the table, a name and a description the format has room for.
\<close>

lemma dunnet_storable:
  assumes "obj_class obj < 3" "storable (obj_name obj)" "\<forall>a\<in>set (obj_alias_list obj). storable a \<and> a \<noteq> []"
    and "obj_userdata obj = Some desc" "storable desc"
  shows "obj_storable dunnet_obj_classes obj" "class_round_trips (dunnet_obj_classes ! obj_class obj) obj"
proof -
  have c: "obj_class obj = 0 \<or> obj_class obj = 1 \<or> obj_class obj = 2" using assms(1) by auto
  have "storable (oc_class_name (dunnet_obj_classes ! obj_class obj))"
    using c by (auto simp: dunnet_obj_classes_def generic_class_def storable_def code_def)
  then show "obj_storable dunnet_obj_classes obj"
    using assms(1-3) by (simp add: obj_storable_def dunnet_obj_classes_def)
  from c show "class_round_trips (dunnet_obj_classes ! obj_class obj) obj"
    using assms(4,5)
    by (auto simp: class_round_trips_def dunnet_obj_classes_def generic_class_def generic_ser_def generic_deser_def)
qed

text \<open>What placing an object does to a map and to the heap.\<close>

definition placed_there :: "nat \<Rightarrow> string \<Rightarrow> string list \<Rightarrow> string obj_map \<Rightarrow> string obj_state \<Rightarrow> string obj_map \<Rightarrow> string obj_state \<Rightarrow> bool" where
  "placed_there n name aliases m os m' os' \<longleftrightarrow> roomy n m' \<and> classes_ok dunnet_obj_classes os' \<and>
     os_next os' = Suc (os_next os) \<and> (\<forall>q. q \<noteq> os_next os \<longrightarrow> os_heap os' q = os_heap os q) \<and>
     (\<exists>obj. os_heap os' (os_next os) = Some obj \<and> obj_name obj = name) \<and>
     (\<forall>k\<in>set (name # aliases). om_has m' k (os_next os)) \<and> (\<forall>k q. om_has m k q \<longrightarrow> om_has m' k q) \<and>
     (objs_tidy dunnet_obj_classes m os \<longrightarrow> objs_tidy dunnet_obj_classes m' os')"

text \<open>The setup of an object: name and description, and no aliases yet.\<close>

definition plain_setup :: "(string object_t \<Rightarrow> string object_t) \<Rightarrow> string \<Rightarrow> string list \<Rightarrow> bool" where
  "plain_setup f name aliases \<longleftrightarrow> storable name \<and> (\<forall>a\<in>set aliases. storable a \<and> a \<noteq> []) \<and>
     (\<forall>new. obj_name (f new) = name \<and> obj_alias_list (f new) = obj_alias_list new \<and> obj_class (f new) = obj_class new \<and>
        (\<exists>desc. obj_userdata (f new) = Some desc \<and> storable desc))"

lemma place_object_ok:
  assumes room: "room_get rid st = Inr room" and m: "roomy n (rm_objects room)" "n + length aliases < ROOMY_MAX"
    and cls: "classes_ok dunnet_obj_classes (sv_obj st)" "os_heap (sv_obj st) (os_next (sv_obj st)) = None"
      "cls \<in> {''/generic'', ''/generic/notake'', ''/generic/dunnet/food''}"
    and shape: "plain_setup f name aliases"
  shows "\<exists>m' os'. place_object dunnet_obj_classes cls f aliases rid st = Inr (furnish rid room m' os' st) \<and>
    placed_there (Suc (n + length aliases)) name aliases (rm_objects room) (sv_obj st) m' os'"
proof -
  obtain i where i: "i < length dunnet_obj_classes" "oc_class_name (dunnet_obj_classes ! i) = cls"
  proof -
    have "cls \<in> oc_class_name ` set dunnet_obj_classes" using cls(3) by (auto simp: dunnet_obj_classes_def generic_class_def)
    then show thesis using that by (auto simp: in_set_conv_nth)
  qed
  let ?os = "sv_obj st" and ?m = "rm_objects room"
  let ?p = "os_next ?os"
  obtain new tab where new: "obj_new dunnet_obj_classes cls ?os = Inr (?p, ?os\<lparr>os_heap := (os_heap ?os)(?p \<mapsto> new), os_next := Suc ?p,
      os_idcounter := os_idcounter ?os + 1, os_class_map := Some tab\<rparr>)" "obj_alias_list new = []" "obj_class new = i"
    "\<And>s. os_class_map s = Some tab \<Longrightarrow> classes_ok dunnet_obj_classes s"
    by (rule obj_new_eq[OF cls(1) i(1), unfolded i(2)]) (use that in fastforce)
  have shaped: "obj_name (f new) = name" "obj_alias_list (f new) = []" "obj_class (f new) = i"
    using shape new(2,3) by (simp_all add: plain_setup_def)
  define os1 where "os1 = obj_store ?p (f new) (?os\<lparr>os_heap := (os_heap ?os)(?p \<mapsto> new), os_next := Suc ?p,
      os_idcounter := os_idcounter ?os + 1, os_class_map := Some tab\<rparr>)"
  have made: "new_object dunnet_obj_classes cls f st = Inr (?p, sv_set_obj os1 st)"
    using new(1) by (simp add: new_object_def obj_deref_def os1_def)
  have heap: "os_heap os1 ?p = Some (f new)" by (simp add: os1_def obj_store_def)
  have "n < ROOMY_MAX" using m(2) by simp
  from om_insert_roomy[OF m(1) this, of name ?p os1]
  obtain m1 where ins: "om_insert name ?p (?m, os1) = Inr (mm_list ?m name = [], (m1, os1))" "roomy (Suc n) m1" "om_has m1 name ?p"
    "mset (mm_pairs m1) = add_mset (name, ?p) (mset (mm_pairs ?m))" "\<forall>k q. om_has ?m k q \<longrightarrow> om_has m1 k q" by blast
  note self = furnish_self[OF room, of os1]
  have "res_bind (obj_deref ?p (snd (?m, os1))) (\<lambda>obj. res_bind (om_insert (obj_name obj) ?p (?m, os1))
      (\<lambda>(fresh, mo). om_insert_aliases ?p (obj_alias_list obj) fresh mo)) = Inr (mm_list ?m name = [], (m1, os1))"
    using ins(1) heap shaped by (simp add: obj_deref_def)
  then have added: "room_obj_add rid ?p (sv_set_obj os1 st) = Inr (mm_list ?m name = [], furnish rid room m1 os1 st)"
    unfolding room_obj_add_def self by (rule furnish_objects[OF room])
  have "stocked m1 ?p (f new) (mset (mm_pairs ?m))" using ins(3,4) shaped by (simp add: stocked_def obj_names_def)
  from add_aliases_ok[OF room ins(2) _ heap this, of aliases] m(2)
  obtain m2 obj2 where al: "res_fold (\<lambda>alias st. res_bind (room_obj_add_alias rid ?p alias st) (\<lambda>(_, st). Inr st)) aliases
      (furnish rid room m1 os1 st) = Inr (furnish rid room m2 (os1\<lparr>os_heap := (os_heap os1)(?p \<mapsto> obj2)\<rparr>) st)"
    "roomy (Suc n + length aliases) m2" "same_thing (f new) obj2" "stocked m2 ?p obj2 (mset (mm_pairs ?m))"
    "set (obj_alias_list obj2) \<subseteq> set aliases \<union> set (obj_alias_list (f new))"
    "\<forall>k\<in>set aliases. om_has m2 k ?p" "\<forall>k q. om_has m1 k q \<longrightarrow> om_has m2 k q"
    by auto
  define os2 where "os2 = os1\<lparr>os_heap := (os_heap os1)(?p \<mapsto> obj2)\<rparr>"
  have "place_object dunnet_obj_classes cls f aliases rid st = Inr (furnish rid room m2 os2 st)"
    using made added al(1) by (simp add: place_object_def os2_def)
  moreover have "placed_there (Suc (n + length aliases)) name aliases ?m ?os m2 os2"
  proof -
    have heap2: "os_heap os2 ?p = Some obj2" "os_next os2 = Suc ?p" "\<forall>q. q \<noteq> ?p \<longrightarrow> os_heap os2 q = os_heap ?os q"
      by (simp_all add: os2_def os1_def obj_store_def)
    have "classes_ok dunnet_obj_classes os2" by (rule new(4)) (simp add: os2_def os1_def obj_store_def)
    moreover have "om_has m2 name ?p" "\<forall>k q. om_has ?m k q \<longrightarrow> om_has m2 k q" using al(7) ins(3,5) by blast+
    moreover have "objs_tidy dunnet_obj_classes m2 os2" if "objs_tidy dunnet_obj_classes ?m ?os"
    proof (rule objs_tidy_add[OF that cls(2) heap2(1,3) _ al(4)])
      note same = same_thing_fields[OF al(3)]
      have i3: "i < 3" using i(1) by (simp add: dunnet_obj_classes_def)
      obtain desc where "obj_userdata (f new) = Some desc" "storable desc" using shape by (auto simp: plain_setup_def)
      moreover have "\<forall>a\<in>set (obj_alias_list obj2). storable a \<and> a \<noteq> []" "storable (obj_name obj2)"
        using al(5) shape shaped same by (auto simp: plain_setup_def)
      ultimately show "obj_storable dunnet_obj_classes obj2" "class_round_trips (dunnet_obj_classes ! obj_class obj2) obj2"
        using dunnet_storable[of obj2 desc] same shaped i3 by simp_all
    qed (rule roomy_ok(2)[OF al(2)])
    ultimately show ?thesis using al(2,6) heap2 same_thing_fields(1)[OF al(3)] shaped by (simp add: placed_there_def)
  qed
  ultimately show ?thesis by blast
qed

section \<open>Furnishing the rooms\<close>

text \<open>The objects and verbs of the game: room, name and aliases.\<close>

definition dunnet_objects :: "(nat \<times> string \<times> string list) list" where
  "dunnet_objects =
     [(0, ''shovel'', []), (0, ''trees'', [''tree'', ''palm'', ''palm tree'']), (1, ''large boulder'', [''boulder'', ''rock'']),
      (3, ''some food'', [''food'', ''meat'']), (4, ''ferocious bear'', [''bear'']), (5, ''emerald bracelet'', [''bracelet'']),
      (9, ''bins'', [''mail bins'']), (10, ''computer'', [''vax'', ''pokey''])]"

definition dunnet_verbs :: "string list" where
  "dunnet_verbs = [''dig'', ''put'', ''eat'', ''shake'', ''type'']"

text \<open>
  The static data of the server is fit for making objects and verbs; an object is in a room under
  all its names; a verb is known everywhere.
\<close>

definition fit :: "dn_state \<Rightarrow> bool" where
  "fit st \<longleftrightarrow> classes_ok dunnet_obj_classes (sv_obj st) \<and> (\<forall>p. os_heap (sv_obj st) p \<noteq> None \<longrightarrow> p < os_next (sv_obj st)) \<and>
     verb_classes_ok dunnet_verb_classes (sv_verb_classes st) \<and> (\<forall>tab. sv_global_verbs st = Some tab \<longrightarrow> str_table tab)"

definition offers :: "dn_state \<Rightarrow> nat \<Rightarrow> string \<Rightarrow> string list \<Rightarrow> bool" where
  "offers st i name aliases \<longleftrightarrow> (\<exists>p obj. os_heap (sv_obj st) p = Some obj \<and> obj_name obj = name \<and>
     (\<forall>k\<in>set (name # aliases). om_has (rm_objects (sv_world st ! i)) k p))"

definition has_verb :: "dn_state \<Rightarrow> string \<Rightarrow> bool" where
  "has_verb st name \<longleftrightarrow> (\<exists>tab. sv_global_verbs st = Some tab \<and> hash_lookup tab name \<noteq> None)"

text \<open>What the file of the world can describe: the objects of a room, and the verbs.\<close>

definition tidy_room :: "dn_state \<Rightarrow> nat \<Rightarrow> bool" where
  "tidy_room st i \<longleftrightarrow> objs_tidy dunnet_obj_classes (rm_objects (sv_world st ! i)) (sv_obj st) \<and>
     length (mm_pairs (rm_objects (sv_world st ! i))) \<le> ROOMY_MAX"

definition known_verbs :: "dn_state \<Rightarrow> bool" where
  "known_verbs st \<longleftrightarrow> (\<forall>tab. sv_global_verbs st = Some tab \<longrightarrow>
     (\<forall>e\<in>set (hash_entries tab). fst e = vb_name (snd e) \<and> fst e \<in> set dunnet_verbs \<and> verb_storable dunnet_verb_classes (snd e)))"

lemma known_verbs_same: "sv_global_verbs st' = sv_global_verbs st \<Longrightarrow> known_verbs st' = known_verbs st"
  by (simp only: known_verbs_def)

text \<open>What no init hook changes: the accounts, the files, the clients.\<close>

definition accounts :: "dn_state \<Rightarrow> _" where
  "accounts st = ((sv_db_map st, dh_maps (sv_heap st), dh_next (sv_heap st), dn_user (sv_module st), dn_next (sv_module st)),
     sv_worldfile st, sv_userfile st, sv_save_n st, sv_children st, sv_num_clients st)"

text \<open>What the init hook of room \<open>i\<close> may change.\<close>

definition keeps :: "nat \<Rightarrow> dn_state \<Rightarrow> dn_state \<Rightarrow> bool" where
  "keeps i st st' \<longleftrightarrow> fit st' \<and> length (sv_world st') = length (sv_world st) \<and>
     (\<forall>j<length (sv_world st). (sv_world st' ! j)\<lparr>rm_objects := obj_map_init 1\<rparr> = (sv_world st ! j)\<lparr>rm_objects := obj_map_init 1\<rparr>) \<and>
     (\<forall>j<length (sv_world st). j \<noteq> i \<longrightarrow> sv_world st' ! j = sv_world st ! j) \<and>
     (\<forall>j name aliases. j < length (sv_world st) \<longrightarrow> offers st j name aliases \<longrightarrow> offers st' j name aliases) \<and>
     (\<forall>j<length (sv_world st). tidy_room st j \<longrightarrow> tidy_room st' j) \<and>
     (\<forall>name. has_verb st name \<longrightarrow> has_verb st' name) \<and> (known_verbs st \<longrightarrow> known_verbs st') \<and>
     sv_world_name st' = sv_world_name st \<and>
     (\<forall>j. j \<noteq> int i \<longrightarrow> dn_flag (sv_module st') j = dn_flag (sv_module st) j) \<and> sv_world_map st' = sv_world_map st \<and>
     accounts st' = accounts st"

lemma keeps_trans: "keeps i a b \<Longrightarrow> keeps i b c \<Longrightarrow> keeps i a c"
  unfolding keeps_def by simp

lemma keeps_refl: "fit st \<Longrightarrow> keeps i st st"
  by (simp add: keeps_def)

lemma place_offers:
  assumes fit: "fit st" and i: "i < length (sv_world st)" and m: "roomy n (rm_objects (sv_world st ! i))" "n + length aliases < ROOMY_MAX"
    and cls: "cls \<in> {''/generic'', ''/generic/notake'', ''/generic/dunnet/food''}" and shape: "plain_setup f name aliases"
  shows "\<exists>st'. place_object dunnet_obj_classes cls f aliases (int i) st = Inr st' \<and> keeps i st st' \<and>
    roomy (Suc (n + length aliases)) (rm_objects (sv_world st' ! i)) \<and> offers st' i name aliases \<and> sv_module st' = sv_module st"
proof -
  let ?room = "sv_world st ! i"
  have room: "room_get (int i) st = Inr ?room" using i by (simp add: room_get_def)
  have "os_heap (sv_obj st) (os_next (sv_obj st)) = None" "classes_ok dunnet_obj_classes (sv_obj st)" using fit by (auto simp: fit_def)
  from place_object_ok[OF room m this(2,1) cls shape]
  obtain m' os' where run: "place_object dunnet_obj_classes cls f aliases (int i) st = Inr (furnish (int i) ?room m' os' st)"
    and there: "placed_there (Suc (n + length aliases)) name aliases (rm_objects ?room) (sv_obj st) m' os'" by blast
  let ?st = "furnish (int i) ?room m' os' st"
  have old: "p \<noteq> os_next (sv_obj st)" if "os_heap (sv_obj st) p = Some obj" for p obj
    using fit that by (fastforce simp: fit_def)
  have "p < Suc (os_next (sv_obj st))" if "os_heap os' p \<noteq> None" for p
    using fit there that by (cases "p = os_next (sv_obj st)") (auto simp: fit_def placed_there_def less_Suc_eq)
  then have "fit ?st" using fit there by (simp add: fit_def placed_there_def)
  moreover have "offers ?st j name' as" if "offers st j name' as" "j < length (sv_world st)" for j name' as
  proof -
    obtain p obj where p: "os_heap (sv_obj st) p = Some obj" "obj_name obj = name'"
      "\<forall>k\<in>set (name' # as). om_has (rm_objects (sv_world st ! j)) k p" using \<open>offers st j name' as\<close> by (auto simp: offers_def)
    have "os_heap os' p = Some obj" using there p(1) old[OF p(1)] by (simp add: placed_there_def)
    moreover have "\<forall>k\<in>set (name' # as). om_has (rm_objects (sv_world ?st ! j)) k p"
      using p(3) there that(2) by (cases "j = i") (auto simp: placed_there_def)
    ultimately show ?thesis using p(2) by (auto simp: offers_def)
  qed
  moreover have "tidy_room ?st j" if t: "tidy_room st j" "j < length (sv_world st)" for j
  proof (cases "j = i")
    case True
    have "length (mm_pairs m') \<le> ROOMY_MAX" using there m(2) roomy_pairs[of "Suc (n + length aliases)" m'] by (simp add: placed_there_def)
    then show ?thesis using True t there by (simp add: tidy_room_def placed_there_def)
  next
    case False
    have "os_heap os' (snd e) = os_heap (sv_obj st) (snd e)" if "e \<in> set (mm_pairs (rm_objects (sv_world st ! j)))" for e
    proof -
      have "os_heap (sv_obj st) (snd e) \<noteq> None" using t(1) that by (auto simp: tidy_room_def objs_tidy_def om_live_def)
      then show ?thesis using there old by (auto simp: placed_there_def)
    qed
    then show ?thesis using False t objs_tidy_grows[of dunnet_obj_classes "rm_objects (sv_world st ! j)" "sv_obj st" os']
      by (simp add: tidy_room_def)
  qed
  moreover have "known_verbs st \<Longrightarrow> known_verbs ?st" by (simp add: known_verbs_same[of ?st st])
  moreover have "accounts ?st = accounts st" by (simp add: accounts_def furnish_def room_set_def sv_set_obj_def)
  ultimately have "keeps i st ?st" using i by (auto simp: keeps_def has_verb_def nth_list_update)
  moreover have "roomy (Suc (n + length aliases)) (rm_objects (sv_world ?st ! i))" "offers ?st i name aliases"
    using there i by (auto simp: placed_there_def offers_def)
  ultimately show ?thesis using run by (intro exI[of _ ?st]) simp
qed

lemma add_verb_ok:
  assumes "fit st" "name \<in> {''dig'', ''put'', ''eat'', ''shake'', ''type''}"
  shows "\<exists>st'. add_verb name st = Inr st' \<and> keeps i st st' \<and> has_verb st' name \<and> sv_module st' = sv_module st \<and> sv_world st' = sv_world st"
proof -
  obtain tab where tab: "verb_class_table dunnet_verb_classes (sv_verb_classes st) = Inr tab"
    "hash_lookup tab = map_of (zip (map vc_class_name dunnet_verb_classes) [0..<length dunnet_verb_classes])"
    using verb_class_table_ok[of dunnet_verb_classes "sv_verb_classes st"] assms(1) by (auto simp: fit_def)
  have names: "map vc_class_name dunnet_verb_classes = [''dig'', ''put'', ''eat'', ''shake'', ''type'']"
    by (simp add: dunnet_verb_classes_def)
  then have "hash_lookup tab name \<noteq> None" using assms(2) by (auto simp: tab(2) registry_None simp flip: length_map[of vc_class_name])
  then obtain cls where cls: "hash_lookup tab name = Some cls" by blast
  then have new: "verb_new dunnet_verb_classes name (sv_verb_classes st) = Inr (\<lparr>vb_name = [], vb_class = cls\<rparr>, Some tab)"
    using tab(1) by (simp add: verb_new_def)
  have classes: "verb_classes_ok dunnet_verb_classes (Some tab)" using assms(1) tab(2) by (simp add: verb_classes_ok_def fit_def)
  let ?st = "st\<lparr>sv_verb_classes := Some tab\<rparr>"
  obtain gtab st1 where g: "init_map ?st = (gtab, st1)" by fastforce
  have str: "str_table gtab" "st1 = ?st\<lparr>sv_global_verbs := Some gtab\<rparr>" "\<And>v. has_verb st v \<Longrightarrow> hash_lookup gtab v \<noteq> None"
    using g assms(1) verb_table_init(1)[of GLOBAL_VERBMAP_SZ]
    by (cases "sv_global_verbs st"; auto simp: init_map_def Let_def fit_def has_verb_def)+
  let ?v = "\<lparr>vb_name = name, vb_class = cls\<rparr>"
  obtain old gtab' where ins: "hash_insert gtab name ?v = Inr (old, gtab')" "str_table gtab'" "hash_lookup gtab' name \<noteq> None"
    "\<And>v. hash_lookup gtab v \<noteq> None \<Longrightarrow> hash_lookup gtab' v \<noteq> None"
    "hash_lookup gtab' = hash_lookup gtab \<or> hash_lookup gtab' = (hash_lookup gtab)(name \<mapsto> ?v)"
  proof (cases "hash_lookup gtab name")
    case None
    then show thesis using str_map.insert_absent[OF str(1) None, of ?v] that by fastforce
  next
    case (Some d)
    then show thesis using str_map.insert_present[OF str(1) Some, of ?v] that str(1) by fastforce
  qed
  let ?st' = "st1\<lparr>sv_global_verbs := Some gtab'\<rparr>"
  have "add_verb name st = Inr ?st'" using new g ins(1) by (simp add: add_verb_def world_verb_add_def)
  moreover have "known_verbs ?st'" if "known_verbs st"
  proof -
    have c: "cls < length dunnet_verb_classes" using map_of_SomeD[OF cls[unfolded tab(2)]] by (auto dest: set_zip_rightD)
    moreover have "vc_class_name (dunnet_verb_classes ! cls) \<in> set dunnet_verbs"
      using nth_mem[OF c] names by (metis dunnet_verbs_def image_eqI set_map)
    moreover have "\<forall>s\<in>set dunnet_verbs. storable s" by (simp add: dunnet_verbs_def storable_def code_def)
    ultimately have v: "verb_storable dunnet_verb_classes ?v" "name \<in> set dunnet_verbs"
      using assms(2) by (auto simp: verb_storable_def dunnet_verbs_def)
    have "fst e = vb_name (snd e) \<and> fst e \<in> set dunnet_verbs \<and> verb_storable dunnet_verb_classes (snd e)"
      if "e \<in> set (hash_entries gtab')" for e
    proof -
      have "hash_lookup gtab' (fst e) = Some (snd e)"
        using str_map.entries_lookup[OF ins(2)] str_map.entries_distinct[OF ins(2)] that by (metis map_of_is_SomeI prod.collapse)
      then have "e = (name, ?v) \<or> hash_lookup gtab (fst e) = Some (snd e)"
        using ins(5) by (cases "fst e = name") (auto simp: prod_eq_iff)
      moreover have "sv_global_verbs st = Some gtab \<or> hash_lookup gtab = Map.empty"
        using g verb_table_init(2)[of GLOBAL_VERBMAP_SZ] by (cases "sv_global_verbs st"; auto simp: init_map_def Let_def)
      moreover have "e \<in> set (hash_entries gtab)" if "hash_lookup gtab (fst e) = Some (snd e)"
        using that str_map.entries_lookup[OF str(1)] by (metis map_of_SomeD prod.collapse)
      ultimately show ?thesis using \<open>known_verbs st\<close> v by (auto simp: known_verbs_def)
    qed
    moreover have "tab = gtab'" if "sv_global_verbs ?st' = Some tab" for tab using that by simp
    ultimately show ?thesis unfolding known_verbs_def by blast
  qed
  moreover have "keeps i st ?st'"
    using assms(1) str classes ins(2,4) calculation(2)
    by (auto simp: keeps_def fit_def offers_def has_verb_def tidy_room_def accounts_def)
  ultimately show ?thesis using ins(3) str(2) by (intro exI[of _ ?st']) (simp add: has_verb_def)
qed


definition hook_done :: "nat \<Rightarrow> dn_state \<Rightarrow> bool" where
  "hook_done i st \<longleftrightarrow> (\<forall>(j, name, aliases)\<in>set dunnet_objects. j = i \<longrightarrow> offers st i name aliases) \<and>
     (i = 0 \<longrightarrow> (\<forall>name\<in>set dunnet_verbs. has_verb st name)) \<and> (i = 2 \<or> i = 10 \<longrightarrow> dn_flag (sv_module st) (int i) = Some False)"

lemma hook_done_keeps: "hook_done i st \<Longrightarrow> keeps j st st' \<Longrightarrow> i \<noteq> j \<Longrightarrow> i < length (sv_world st) \<Longrightarrow> hook_done i st'"
  unfolding hook_done_def keeps_def by fastforce

lemma flag_keeps: "fit st \<Longrightarrow> keeps i st (flag_set (int i) b st)"
  using known_verbs_same[of "flag_set (int i) b st" st] by (simp add: keeps_def fit_def offers_def has_verb_def tidy_room_def flag_set_def accounts_def)

lemma add_verbs_ok:
  assumes "fit st" "set names \<subseteq> set dunnet_verbs"
  shows "\<exists>st'. res_fold add_verb names st = Inr st' \<and> keeps i st st' \<and> (\<forall>v\<in>set names. has_verb st' v) \<and>
    sv_module st' = sv_module st \<and> sv_world st' = sv_world st"
  using assms
proof (induction names arbitrary: st)
  case Nil
  then show ?case by (auto intro: keeps_refl)
next
  case (Cons v names)
  obtain st1 where one: "add_verb v st = Inr st1" "keeps i st st1" "has_verb st1 v" "sv_module st1 = sv_module st" "sv_world st1 = sv_world st"
    using add_verb_ok[OF Cons.prems(1), of v i] Cons.prems(2) by (auto simp: dunnet_verbs_def)
  then obtain st2 where two: "res_fold add_verb names st1 = Inr st2" "keeps i st1 st2" "\<forall>v\<in>set names. has_verb st2 v"
    "sv_module st2 = sv_module st1" "sv_world st2 = sv_world st1"
    using Cons.IH[of st1] Cons.prems(2) by (auto simp: keeps_def)
  then have "has_verb st2 v" using one(3) by (simp add: keeps_def)
  then show ?case using one two keeps_trans[OF one(2) two(2)] by auto
qed

lemma one_object:
  assumes "fit st" "i < length (sv_world st)" "rm_objects (sv_world st ! i) = obj_map_init OBJMAP_SIZE" "length aliases < 5"
    and "cls \<in> {''/generic'', ''/generic/notake'', ''/generic/dunnet/food''}" and "plain_setup f name aliases"
  shows "\<exists>st'. place_object dunnet_obj_classes cls f aliases (int i) st = Inr st' \<and> keeps i st st' \<and>
    roomy (Suc (length aliases)) (rm_objects (sv_world st' ! i)) \<and> offers st' i name aliases"
  using place_offers[OF assms(1,2), of 0 aliases cls f name] roomy_start assms(3-6) by (auto simp: ROOMY_MAX_def)

lemma plain_setup_described:
  assumes "storable name" "storable desc" "\<forall>a\<in>set aliases. storable a \<and> a \<noteq> []"
  shows "plain_setup (described name desc) name aliases"
    "plain_setup (\<lambda>new. (described name desc new)\<lparr>obj_hidden := True\<rparr>) name aliases"
    "plain_setup (\<lambda>new. (described name desc new)\<lparr>obj_default_article := False\<rparr>) name aliases"
  using assms by (auto simp: plain_setup_def described_def)

lemmas words = plain_setup_described storable_def code_def

lemma mailroom_bins:
  "\<exists>desc. mailroom_init = place_object dunnet_obj_classes ''/generic/notake''
     (\<lambda>new. (described ''bins'' desc new)\<lparr>obj_hidden := True\<rparr>) [''mail bins''] \<and> storable desc"
  unfolding mailroom_init_def by (intro exI conjI) (rule refl, simp add: storable_def code_def newline_def bin_names_def)

lemma deadend_ok:
  assumes "fit st" "0 < length (sv_world st)" "rm_objects (sv_world st ! 0) = obj_map_init OBJMAP_SIZE"
  shows "\<exists>st'. deadend_init 0 st = Inr st' \<and> keeps 0 st st' \<and> hook_done 0 st'"
proof -
  obtain st1 where one: "place_object dunnet_obj_classes ''/generic''
      (described ''shovel'' ''It is a normal shovel with a price tag attached that says $19.99.'') [] 0 st = Inr st1" "keeps 0 st st1"
    "roomy 1 (rm_objects (sv_world st1 ! 0))" "offers st1 0 ''shovel'' []"
    using one_object[OF assms, of "[]" "''/generic''" "described ''shovel'' ''It is a normal shovel with a price tag attached that says $19.99.''" "''shovel''"]
    by (auto simp: words)
  have len: "length (sv_world st1) = length (sv_world st)" "fit st1" using one(2) by (simp_all add: keeps_def)
  let ?trees = "\<lambda>new. (described ''trees'' ''They are palm trees with a bountiful supply of coconuts in them.'' new)\<lparr>obj_hidden := True\<rparr>"
  obtain st2 where two: "place_object dunnet_obj_classes ''/generic/notake'' ?trees [''tree'', ''palm'', ''palm tree''] 0 st1 = Inr st2"
    "keeps 0 st1 st2" "offers st2 0 ''trees'' [''tree'', ''palm'', ''palm tree'']"
    using place_offers[OF len(2) _ one(3), of "[''tree'', ''palm'', ''palm tree'']" "''/generic/notake''" ?trees "''trees''"] len(1) assms(2)
    by (auto simp: words ROOMY_MAX_def)
  have "fit st2" using two(2) by (simp add: keeps_def)
  then obtain st3 where three: "res_fold add_verb [''dig'', ''put'', ''eat'', ''shake'', ''type''] st2 = Inr st3" "keeps 0 st2 st3"
    "\<forall>v\<in>set dunnet_verbs. has_verb st3 v"
    using add_verbs_ok[of st2 dunnet_verbs 0] by (auto simp: dunnet_verbs_def)
  have "deadend_init 0 st = Inr st3" by (simp only: deadend_init_def one(1) two(1) three(1) res_bind_simps)
  moreover have "offers st3 0 ''shovel'' []" "offers st3 0 ''trees'' [''tree'', ''palm'', ''palm tree'']"
    using one(4) two(2,3) three(2) len(1) assms(2) by (auto simp: keeps_def)
  ultimately show ?thesis
    using keeps_trans[OF keeps_trans[OF one(2) two(2)] three(2)] three(3) by (auto simp: hook_done_def dunnet_objects_def)
qed


definition run_init :: "nat \<Rightarrow> dn_state \<Rightarrow> dn_state res" where
  "run_init i st = (case rd_hook_init (netcosm_world ! i) of None \<Rightarrow> Inr st | Some f \<Rightarrow> f (int i) st)"

lemma run_init_rows:
  "run_init 0 = deadend_init 0" "run_init 1 = ew_road_init 1" "run_init 2 = fork_init 2" "run_init 3 = senw_init 3"
  "run_init 4 = hangout_init 4" "run_init 5 = hidden_init 5" "run_init 6 = Inr" "run_init 7 = Inr" "run_init 8 = Inr"
  "run_init 9 = mailroom_init 9" "run_init 10 = computer_room_init 10"
  by (simp_all add: run_init_def netcosm_world_def dead_end_row_def ew_road_row_def fork_row_def senw_road_row_def
      bear_hangout_row_def hidden_area_row_def nesw_road_row_def building_front_row_def building_hallway_row_def
      mailroom_row_def computer_room_row_def plain_row_def fun_eq_iff del: list.map)

lemmas one_object_rooms =
  one_object[of _ 1 "[''boulder'', ''rock'']" "''/generic/notake''"
    "described ''large boulder'' ''It is just a boulder.  It cannot be moved.''" "''large boulder''"]
  one_object[of _ 3 "[''food'', ''meat'']" "''/generic/dunnet/food''"
    "\<lambda>new. (described ''some food'' ''It looks like some kind of meat.  Smells pretty bad.'' new)\<lparr>obj_default_article := False\<rparr>" "''some food''"]
  one_object[of _ 4 "[''bear'']" "''/generic/notake''" "described ''ferocious bear'' ''It looks like a grizzly to me.''" "''ferocious bear''"]
  one_object[of _ 5 "[''bracelet'']" "''/generic''" "described ''emerald bracelet'' ''I see nothing special about that.''" "''emerald bracelet''"]
  one_object[of _ 9 "[''mail bins'']" "''/generic/notake''" "\<lambda>new. (described ''bins'' desc new)\<lparr>obj_hidden := True\<rparr>" "''bins''" for desc]

lemma plain_hooks:
  assumes "fit st" "i < length (sv_world st)" "rm_objects (sv_world st ! i) = obj_map_init OBJMAP_SIZE" "i \<in> {1, 3, 4, 5, 6, 7, 8, 9}"
  shows "\<exists>st'. run_init i st = Inr st' \<and> keeps i st st' \<and> hook_done i st'"
proof -
  consider "i = 1" | "i = 3" | "i = 4" | "i = 5" | "i \<in> {6, 7, 8}" | "i = 9" using assms(4) by auto
  then show ?thesis
  proof cases
    case 1 then show ?thesis using one_object_rooms(1)[of st] assms(1-3)
      by (auto simp: run_init_rows(2)[unfolded One_nat_def] ew_road_init_def words hook_done_def dunnet_objects_def)
  next
    case 2 then show ?thesis using one_object_rooms(2)[of st] assms(1-3)
      by (auto simp: run_init_rows senw_init_def words hook_done_def dunnet_objects_def)
  next
    case 3 then show ?thesis using one_object_rooms(3)[of st] assms(1-3)
      by (auto simp: run_init_rows hangout_init_def words hook_done_def dunnet_objects_def)
  next
    case 4 then show ?thesis using one_object_rooms(4)[of st] assms(1-3)
      by (auto simp: run_init_rows hidden_init_def words hook_done_def dunnet_objects_def)
  next
    case 5 then show ?thesis using keeps_refl[OF assms(1)]
      by (auto simp: run_init_rows hook_done_def dunnet_objects_def)
  next
    case 6
    obtain desc where "mailroom_init = place_object dunnet_obj_classes ''/generic/notake''
      (\<lambda>new. (described ''bins'' desc new)\<lparr>obj_hidden := True\<rparr>) [''mail bins'']" "storable desc" using mailroom_bins by blast
    then show ?thesis using 6 one_object_rooms(5)[of st desc] assms(1-3)
        plain_setup_described(2)[of "''bins''" desc "[''mail bins'']"]
      by (auto simp: run_init_rows storable_def code_def hook_done_def dunnet_objects_def)
  qed
qed

lemma flag_hooks:
  assumes "fit st" "i < length (sv_world st)" "rm_objects (sv_world st ! i) = obj_map_init OBJMAP_SIZE" "i = 2 \<or> i = 10"
  shows "\<exists>st'. run_init i st = Inr st' \<and> keeps i st st' \<and> hook_done i st'"
  using assms(4)
proof
  assume "i = 2"
  then show ?thesis using flag_keeps[OF assms(1), of i "Some False"] assms(2)
    by (auto simp: run_init_rows fork_init_def room_get_def hook_done_def dunnet_objects_def flag_set_def)
next
  assume i: "i = 10"
  let ?new = "\<lambda>new. (described ''computer'' ''I see nothing special about that.'' new)\<lparr>obj_hidden := True\<rparr>"
  obtain st1 where one: "place_object dunnet_obj_classes ''/generic/notake'' ?new [''vax'', ''pokey''] 10 st = Inr st1" "keeps 10 st st1"
    "offers st1 10 ''computer'' [''vax'', ''pokey'']"
    using one_object[OF assms(1-3), of "[''vax'', ''pokey'']" "''/generic/notake''" ?new "''computer''"] i by (auto simp: words)
  have k: "keeps 10 st1 (flag_set (int 10) (Some False) st1)" using one(2) by (intro flag_keeps) (simp add: keeps_def)
  have "run_init i st = Inr (flag_set (int 10) (Some False) st1)"
    using one(1,2) i assms(2) by (auto simp: run_init_rows computer_room_init_def room_get_def keeps_def)
  moreover have "hook_done i (flag_set (int 10) (Some False) st1)"
    using one(3) i by (auto simp: hook_done_def dunnet_objects_def flag_set_def offers_def)
  ultimately show ?thesis using keeps_trans[OF one(2) k] i by blast
qed

lemma run_init_ok:
  assumes "fit st" "length (sv_world st) = 11" "i < 11" "rm_objects (sv_world st ! i) = obj_map_init OBJMAP_SIZE"
  shows "\<exists>st'. run_init i st = Inr st' \<and> keeps i st st' \<and> hook_done i st'"
proof -
  have len: "i < length (sv_world st)" using assms(2,3) by simp
  consider "i = 0" | "i \<in> {1, 3, 4, 5, 6, 7, 8, 9}" | "i = 2 \<or> i = 10"
    using assms(3) by (auto simp: eval_nat_numeral less_Suc_eq)
  then show ?thesis
    using deadend_ok[OF assms(1)] plain_hooks[OF assms(1) len assms(4)] flag_hooks[OF assms(1) len assms(4)] len assms(4)
    by cases (auto simp: run_init_rows)
qed


section \<open>The whole world\<close>

text \<open>The rooms of the module: their names and exits.\<close>

lemma netcosm_rooms: "length netcosm_world = 11" "uids netcosm_world = dunnet_ids"
  by (simp_all add: netcosm_world_def dead_end_row_def ew_road_row_def fork_row_def senw_road_row_def
      bear_hangout_row_def hidden_area_row_def nesw_road_row_def building_front_row_def building_hallway_row_def
      mailroom_row_def computer_room_row_def plain_row_def uids_def dunnet_ids_def)

definition dunnet_exits :: "(direction_t \<times> string) list list" where
  "dunnet_exits =
     [[(DIR_E, ''ew_road'')], [(DIR_E, ''fork''), (DIR_W, ''dead_end'')],
      [(DIR_NE, ''nesw_road''), (DIR_SE, ''senw_road''), (DIR_W, ''ew_road'')],
      [(DIR_SE, ''bear_hangout''), (DIR_NW, ''fork'')], [(DIR_SW, ''hidden_area''), (DIR_NW, ''senw_road'')],
      [(DIR_NE, ''bear_hangout'')], [(DIR_NE, ''building_front''), (DIR_SW, ''fork'')],
      [(DIR_NE, ''building_hallway''), (DIR_SW, ''nesw_road''), (DIR_IN, ''building_hallway'')],
      [(DIR_E, ''mailroom''), (DIR_S, ''building_front''), (DIR_W, ''computer_room''), (DIR_OT, ''building_front'')],
      [(DIR_W, ''building_hallway'')], [(DIR_E, ''building_hallway'')]]"

lemma netcosm_exits: "map rd_adjacent netcosm_world = map (\<lambda>exits. map (map_of exits) directions) dunnet_exits"
  by (simp add: netcosm_world_def dead_end_row_def ew_road_row_def fork_row_def senw_road_row_def
      bear_hangout_row_def hidden_area_row_def nesw_road_row_def building_front_row_def building_hallway_row_def
      mailroom_row_def computer_room_row_def plain_row_def dunnet_exits_def del: map_of.simps)

definition room_at :: "string \<Rightarrow> int" where
  "room_at name = int (the (map_of (zip dunnet_ids [0..<11]) name))"

definition exit_to :: "nat \<Rightarrow> direction_t \<Rightarrow> int" where
  "exit_to i d = (case map_of (dunnet_exits ! i) d of None \<Rightarrow> ROOM_NONE | Some name \<Rightarrow> room_at name)"

lemma dunnet_linkable: "linkable netcosm_world"
proof -
  have known: "\<forall>exits\<in>set dunnet_exits. \<forall>e\<in>set exits. snd e \<in> set dunnet_ids" by code_simp
  have row: "\<exists>exits\<in>set dunnet_exits. rd_adjacent d = map (map_of exits) directions" if "d \<in> set netcosm_world" for d
  proof -
    have "rd_adjacent d \<in> set (map rd_adjacent netcosm_world)" using that by simp
    then show ?thesis unfolding netcosm_exits by auto
  qed
  have "name \<in> set dunnet_ids" if d: "d \<in> set netcosm_world" "Some name \<in> set (rd_adjacent d)" for d name
  proof -
    obtain exits e where "exits \<in> set dunnet_exits" "map_of exits e = Some name" using row[OF d(1)] d(2) by auto
    then show ?thesis using known map_of_SomeD[of exits e name] by fastforce
  qed
  moreover have "length (rd_adjacent d) = NUM_DIRECTIONS" if "d \<in> set netcosm_world" for d
    using row[OF that] by (auto simp: directions_def NUM_DIRECTIONS_def)
  moreover have "distinct dunnet_ids" by code_simp
  ultimately show ?thesis by (simp add: linkable_def netcosm_rooms)
qed

lemma dunnet_doors:
  "concat (map (\<lambda>i. map (\<lambda>d. (i, dir_num d)) (filter (\<lambda>d. exit_to i d \<noteq> ROOM_NONE \<and> exit_to (nat (exit_to i d)) (opposite d) \<noteq> int i) directions)) [0..<11])
   = [(7, dir_num DIR_NE), (8, dir_num DIR_S)]"
  by code_simp


lemma dunnet_position: "i < 11 \<Longrightarrow> uid_pos netcosm_world (dunnet_ids ! i) = Some i"
proof -
  have "distinct dunnet_ids" "length dunnet_ids = 11" by code_simp+
  then show "i < 11 \<Longrightarrow> uid_pos netcosm_world (dunnet_ids ! i) = Some i"
    using registry_position[of dunnet_ids i] by (simp add: uid_pos_def netcosm_rooms)
qed

lemma dunnet_exit:
  assumes "i < 11"
  shows "link_target netcosm_world (rd_adjacent (netcosm_world ! i) ! dir_num d) = exit_to i d"
proof -
  have "rd_adjacent (netcosm_world ! i) = map (map_of (dunnet_exits ! i)) directions"
  proof -
    have "length dunnet_exits = 11" by (simp add: dunnet_exits_def)
    then show ?thesis using assms arg_cong[OF netcosm_exits, of "\<lambda>xs. xs ! i"] netcosm_rooms(1) by simp
  qed
  moreover have "directions ! dir_num d = d" "dir_num d < length directions" by (cases d; simp add: directions_def)+
  ultimately have "rd_adjacent (netcosm_world ! i) ! dir_num d = map_of (dunnet_exits ! i) d" by simp
  then show ?thesis
    by (simp add: netcosm_rooms link_target_def exit_to_def room_at_def uid_pos_def split: option.splits)
qed

text \<open>A room apart from its objects.\<close>

definition bare :: "string room_t \<Rightarrow> string room_t" where
  "bare r = r\<lparr>rm_objects := obj_map_init 1\<rparr>"

lemma bareD:
  assumes "bare r = bare r'"
  shows "rm_id r = rm_id r'" "rm_name r = rm_name r'" "rm_desc r = rm_desc r'" "rm_adjacent r = rm_adjacent r'"
    "rm_verbs r = rm_verbs r'"
  using arg_cong[OF assms, of rm_id] arg_cong[OF assms, of rm_name] arg_cong[OF assms, of rm_desc] arg_cong[OF assms, of rm_adjacent]
    arg_cong[OF assms, of rm_verbs]
  by (simp_all add: bare_def)

text \<open>After the hooks of the rooms before \<open>k\<close>; \<open>st0\<close> is the state before all of them.\<close>

definition furnished :: "dn_state \<Rightarrow> nat \<Rightarrow> dn_state \<Rightarrow> bool" where
  "furnished st0 k s \<longleftrightarrow> fit s \<and> length (sv_world s) = 11 \<and> (\<forall>i<k. i < 11 \<longrightarrow> hook_done i s) \<and>
    (\<forall>j<11. bare (sv_world s ! j) = bare (sv_world st0 ! j)) \<and> (\<forall>j<11. k \<le> j \<longrightarrow> rm_objects (sv_world s ! j) = obj_map_init OBJMAP_SIZE) \<and>
    (\<forall>j<11. tidy_room s j) \<and> (known_verbs st0 \<longrightarrow> known_verbs s) \<and>
    sv_world_map s = sv_world_map st0 \<and> sv_world_name s = sv_world_name st0 \<and> accounts s = accounts st0"

lemma furnished_step:
  assumes i: "i < 11" and P: "furnished st0 i s" and ids: "\<forall>i<11. rm_id (sv_world st0 ! i) = int i"
  shows "\<exists>s'. (case rd_hook_init (wm_world dunnet_module ! i) of None \<Rightarrow> Inr s | Some f \<Rightarrow> f (rm_id (sv_world s ! i)) s) = Inr s' \<and>
    furnished st0 (Suc i) s'"
proof -
  have "rm_id (sv_world s ! i) = int i" using P i ids bareD(1)[of "sv_world s ! i" "sv_world st0 ! i"] by (simp add: furnished_def)
  then have run: "(case rd_hook_init (wm_world dunnet_module ! i) of None \<Rightarrow> Inr s | Some f \<Rightarrow> f (rm_id (sv_world s ! i)) s) = run_init i s"
    by (simp add: run_init_def dunnet_module_def split: option.split)
  obtain s' where s': "run_init i s = Inr s'" "keeps i s s'" "hook_done i s'"
    using run_init_ok[of s i] P i by (auto simp: furnished_def)
  have "hook_done j s'" if "j < Suc i" "j < 11" for j
    using hook_done_keeps[OF _ s'(2), of j] P that s'(3) by (cases "j = i") (auto simp: furnished_def)
  moreover have "\<forall>j<11. bare (sv_world s' ! j) = bare (sv_world st0 ! j)" using P s'(2) by (simp add: furnished_def keeps_def bare_def)
  moreover have "\<forall>j<11. Suc i \<le> j \<longrightarrow> rm_objects (sv_world s' ! j) = obj_map_init OBJMAP_SIZE" using P s'(2) by (simp add: furnished_def keeps_def)
  ultimately have "furnished st0 (Suc i) s'" using P s'(2) by (simp add: furnished_def keeps_def)
  then show ?thesis unfolding run using s'(1) by blast
qed

text \<open>What the array of rooms holds fits the format of the file.\<close>

lemma dunnet_rows_storable: "\<forall>d\<in>set netcosm_world. storable (rd_name d) \<and> storable (rd_desc d)" "\<forall>s\<in>set dunnet_ids. storable s"
  by code_simp+

lemma dunnet_exits_fit: "\<forall>i\<in>set [0..<11]. \<forall>d\<in>set directions. fits_int (exit_to i d)"
  by code_simp

lemma verbs_tidy_init: "verbs_tidy classes room_verbs_init"
  using verb_table_init(1)[of VERBMAP_SZ]
  by (simp add: verbs_tidy_def) (simp add: hash_setfreedata_cb_def hash_init_def hash_entries_def)

lemma verbs_tidy_known:
  assumes "fit st" "known_verbs st" "sv_global_verbs st = Some tab"
  shows "verbs_tidy dunnet_verb_classes tab"
proof -
  have str: "str_table tab" using assms by (simp add: fit_def)
  have e: "\<forall>e\<in>set (hash_entries tab). fst e = vb_name (snd e) \<and> fst e \<in> set dunnet_verbs \<and> verb_storable dunnet_verb_classes (snd e)"
    using assms(2,3) unfolding known_verbs_def by blast
  have "length (hash_entries tab) = card (set (map fst (hash_entries tab)))"
    using distinct_card[OF str_map.entries_distinct[OF str]] by simp
  also have "\<dots> \<le> card (set dunnet_verbs)" by (rule card_mono) (use e in auto)
  also have "\<dots> \<le> 5" using card_length[of dunnet_verbs] by (simp add: dunnet_verbs_def)
  finally show ?thesis using str e by (auto simp: verbs_tidy_def)
qed

lemma dunnet_map_tidy:
  assumes "str_table tab" "hash_lookup tab = uid_pos netcosm_world"
  shows "length (hash_entries tab) = 11" "\<forall>e\<in>set (hash_entries tab). storable (fst e) \<and> snd e < 11"
proof -
  have look: "map_of (hash_entries tab) = map_of (zip dunnet_ids [0..<11])"
    using str_map.entries_lookup[OF assms(1)] assms(2) by (simp add: uid_pos_def netcosm_rooms)
  have ids: "distinct dunnet_ids" "length dunnet_ids = 11" by code_simp+
  have "fst ` set (hash_entries tab) = set dunnet_ids"
    using ids(2) arg_cong[OF look, of dom] by (simp add: dom_map_of_conv_image_fst flip: set_map)
  then show "length (hash_entries tab) = 11"
    using distinct_card[OF str_map.entries_distinct[OF assms(1)]] distinct_card[OF ids(1)] ids(2) by simp
  show "\<forall>e\<in>set (hash_entries tab). storable (fst e) \<and> snd e < 11"
  proof
    fix e assume "e \<in> set (hash_entries tab)"
    then have "map_of (zip dunnet_ids [0..<11]) (fst e) = Some (snd e)"
      using str_map.entries_distinct[OF assms(1)] look by (metis map_of_is_SomeI prod.collapse)
    then have "(fst e, snd e) \<in> set (zip dunnet_ids [0..<11])" by (rule map_of_SomeD)
    from set_zip_leftD[OF this] set_zip_rightD[OF this] show "storable (fst e) \<and> snd e < 11"
      using dunnet_rows_storable(2) by simp
  qed
qed

lemma furnished_tidy:
  assumes st: "furnished st0 11 s" "known_verbs st0" "sv_world_name st0 = wm_world_name dunnet_module"
    and map: "str_table (sv_world_map st0)" "hash_lookup (sv_world_map st0) = uid_pos netcosm_world"
    and rooms: "\<forall>i<11. rm_id (sv_world st0 ! i) = int i \<and> rm_name (sv_world st0 ! i) = rd_name (netcosm_world ! i) \<and>
       rm_desc (sv_world st0 ! i) = rd_desc (netcosm_world ! i) \<and> rm_verbs (sv_world st0 ! i) = room_verbs_init \<and>
       rm_adjacent (sv_world st0 ! i) = map (link_target netcosm_world) (rd_adjacent (netcosm_world ! i))"
  shows "world_tidy dunnet_module s"
proof -
  have wm: "wm_world dunnet_module = netcosm_world" "length netcosm_world = 11" "wm_obj_classes dunnet_module = dunnet_obj_classes"
    "wm_verb_classes dunnet_module = dunnet_verb_classes"
    by (simp_all add: dunnet_module_def netcosm_rooms)
  have "room_tidy dunnet_module (sv_obj s) (sv_world s ! i) \<and> rm_id (sv_world s ! i) = int i" if i: "i < 11" for i
  proof -
    have b: "bare (sv_world s ! i) = bare (sv_world st0 ! i)" "tidy_room s i" using st(1) i by (simp_all add: furnished_def)
    note same = bareD[OF b(1)]
    have row: "netcosm_world ! i \<in> set netcosm_world" using i wm(2) by simp
    have len: "length (rd_adjacent (netcosm_world ! i)) = NUM_DIRECTIONS" using dunnet_linkable row by (simp add: linkable_def)
    have "fits_int a" if a: "a \<in> set (rm_adjacent (sv_world st0 ! i))" for a
    proof -
      obtain k where k: "k < NUM_DIRECTIONS" "a = link_target netcosm_world (rd_adjacent (netcosm_world ! i) ! k)"
      proof -
        have "a \<in> link_target netcosm_world ` set (rd_adjacent (netcosm_world ! i))" using a rooms i by simp
        then obtain x where "x \<in> set (rd_adjacent (netcosm_world ! i))" "a = link_target netcosm_world x" by blast
        then show thesis using that len by (auto simp: in_set_conv_nth)
      qed
      obtain d where d: "dir_num d = k" using k(1) dir_num_surj by blast
      have "d \<in> set directions" by (cases d) (simp_all add: directions_def)
      then show ?thesis using dunnet_exit[OF i, of d] d k(2) dunnet_exits_fit i by simp
    qed
    then show ?thesis
      using b(2) same rooms i len row dunnet_rows_storable(1) verbs_tidy_init[of dunnet_verb_classes]
      by (auto simp: room_tidy_def tidy_room_def wm fits_int_def)
  qed
  moreover have "verbs_tidy dunnet_verb_classes tab" if "sv_global_verbs s = Some tab" for tab
    using verbs_tidy_known[OF _ _ that] st(1,2) by (simp add: furnished_def)
  moreover have "storable (wm_world_name dunnet_module)" by (simp add: dunnet_module_def storable_def code_def)
  ultimately show ?thesis
    using st(1,3) map dunnet_map_tidy[OF map] by (simp add: world_tidy_def wm furnished_def)
qed

text \<open>The hooks of the module as \<open>world_init\<close> asks for them.\<close>

lemma furnished_start:
  assumes "fit st" "built dunnet_module st s"
  shows "furnished s 0 s" "length (sv_world s) = 11" "\<forall>i<11. rm_id (sv_world s ! i) = int i"
proof -
  have wm: "wm_world dunnet_module = netcosm_world" "length netcosm_world = 11" by (simp_all add: dunnet_module_def netcosm_rooms)
  obtain rooms tab where s: "s = st\<lparr>sv_world := rooms, sv_world_name := wm_world_name dunnet_module, sv_world_map := tab\<rparr>"
    using assms(2) unfolding built_def by blast
  show len: "length (sv_world s) = 11" and "\<forall>i<11. rm_id (sv_world s ! i) = int i"
    using builtD[OF assms(2)] by (simp_all add: wm)
  have r: "rm_objects (sv_world s ! i) = obj_map_init OBJMAP_SIZE" if "i < 11" for i
    using assms(2) that by (simp add: built_def Let_def wm)
  have start: "length (mm_pairs (obj_map_init OBJMAP_SIZE :: string obj_map)) \<le> ROOMY_MAX"
    by (rule order_trans[OF roomy_pairs[OF roomy_start]]) simp
  have "tidy_room s j" if "j < 11" for j
    using objs_tidy_empty[of dunnet_obj_classes "sv_obj s"] start by (simp add: tidy_room_def r[OF that])
  moreover have "fit s" using assms(1) s by (simp add: fit_def)
  ultimately show "furnished s 0 s" using len r by (simp add: furnished_def)
qed

lemma furnished_skeleton:
  assumes "furnished st0 k s" "length (sv_world st0) = 11"
  shows "skeleton s = skeleton st0"
proof -
  have "map (\<lambda>room. (rm_id room, rm_name room, rm_desc room, rm_adjacent room)) (sv_world s) =
      map (\<lambda>room. (rm_id room, rm_name room, rm_desc room, rm_adjacent room)) (sv_world st0)"
    using assms bareD(1-4)[of "sv_world s ! _" "sv_world st0 ! _"] by (intro nth_equalityI) (simp_all add: furnished_def)
  then show ?thesis using assms(1) by (simp add: skeleton_def furnished_def)
qed

lemma dunnet_hooks_run:
  assumes "fit st"
  shows "hooks_run dunnet_module (\<lambda>i s. \<exists>st0. built dunnet_module st st0 \<and> furnished st0 i s)"
  unfolding hooks_run_def
proof (intro allI impI, elim exE conjE)
  fix i s st0 assume i: "i < length (wm_world dunnet_module)" and st0: "built dunnet_module st st0" and P: "furnished st0 i s"
  have i: "i < 11" using i by (simp add: dunnet_module_def netcosm_rooms)
  note start = furnished_start[OF assms st0]
  obtain s' where s': "(case rd_hook_init (wm_world dunnet_module ! i) of None \<Rightarrow> Inr s | Some f \<Rightarrow> f (rm_id (sv_world s ! i)) s) = Inr s'"
    "furnished st0 (Suc i) s'" using furnished_step[OF i P start(3)] by blast
  have "skeleton s' = skeleton s" using furnished_skeleton[OF s'(2) start(2)] furnished_skeleton[OF P start(2)] by simp
  then show "\<exists>s'. (case rd_hook_init (wm_world dunnet_module ! i) of None \<Rightarrow> Inr s | Some f \<Rightarrow> f (rm_id (sv_world s ! i)) s) = Inr s' \<and>
      (\<exists>st0. built dunnet_module st st0 \<and> furnished st0 (Suc i) s') \<and> skeleton s' = skeleton s"
    using s' st0 by blast
qed

text \<open>From a state whose static tables are right, the world builds; with no verbs before, its file describes it.\<close>

lemma dunnet_boot:
  assumes "fit st"
  shows "\<exists>st'. world_init dunnet_module st = Inr ([(7, dir_num DIR_NE), (8, dir_num DIR_S)], st') \<and>
    length (sv_world st') = 11 \<and> fit st' \<and> (\<forall>i<11. hook_done i st') \<and> (known_verbs st \<longrightarrow> world_tidy dunnet_module st') \<and> accounts st' = accounts st \<and>
    (\<forall>i<11. rm_id (sv_world st' ! i) = int i \<and> rm_name (sv_world st' ! i) = rd_name (netcosm_world ! i) \<and>
       rm_desc (sv_world st' ! i) = rd_desc (netcosm_world ! i) \<and>
       (\<forall>d. way (sv_world st') i d = exit_to i d) \<and> room_get_id (dunnet_ids ! i) st' = int i)"
proof -
  have wm: "wm_world dunnet_module = netcosm_world" by (simp add: dunnet_module_def)
  obtain rooms tab m where lk: "world_init dunnet_module st = init_hooks dunnet_module m [0..<11]
       (st\<lparr>sv_world := rooms, sv_world_name := wm_world_name dunnet_module, sv_world_map := tab\<rparr>)"
    "\<forall>d. hash_lookup m (int (dir_num d)) = Some (dir_num (opposite d))" "hash_lookup tab = uid_pos netcosm_world" "length rooms = 11"
    "\<forall>i<11. rm_id (rooms ! i) = int i \<and> rm_name (rooms ! i) = rd_name (netcosm_world ! i) \<and>
       rm_desc (rooms ! i) = rd_desc (netcosm_world ! i) \<and> rm_objects (rooms ! i) = obj_map_init OBJMAP_SIZE \<and>
       rm_verbs (rooms ! i) = room_verbs_init \<and>
       rm_adjacent (rooms ! i) = map (link_target netcosm_world) (rd_adjacent (netcosm_world ! i))" "str_table tab"
    using world_init_linked[of dunnet_module st, unfolded wm netcosm_rooms(1), OF dunnet_linkable] by metis
  define st0 where "st0 = st\<lparr>sv_world := rooms, sv_world_name := wm_world_name dunnet_module, sv_world_map := tab\<rparr>"
  have st0: "sv_world st0 = rooms" "sv_world_map st0 = tab" "sv_world_name st0 = wm_world_name dunnet_module"
    "sv_global_verbs st0 = sv_global_verbs st" "sv_obj st0 = sv_obj st" "sv_verb_classes st0 = sv_verb_classes st"
    "accounts st0 = accounts st" by (simp_all add: st0_def accounts_def)
  let ?P = "furnished st0"
  have step: "\<exists>s'. (case rd_hook_init (wm_world dunnet_module ! i) of None \<Rightarrow> Inr s | Some f \<Rightarrow> f (rm_id (sv_world s ! i)) s) = Inr s' \<and> ?P (Suc i) s'"
    if "i < 11" "?P i s" for i s
    using furnished_step[OF that] lk(5) st0(1) by simp
  have adj: "map rm_adjacent (sv_world s) = map rm_adjacent rooms" if "?P k s" for k s
  proof (rule nth_equalityI)
    show "length (map rm_adjacent (sv_world s)) = length (map rm_adjacent rooms)" using that lk(4) by (simp add: furnished_def)
    show "map rm_adjacent (sv_world s) ! j = map rm_adjacent rooms ! j" if "j < length (map rm_adjacent (sv_world s))" for j
      using that \<open>?P k s\<close> lk(4) st0(1) bareD(4)[of "sv_world s ! j" "rooms ! j"] by (simp add: furnished_def)
  qed
  have w: "way rooms i d = exit_to i d" if "i < 11" for i d
    using link_target_way(1)[OF dunnet_linkable, of i rooms d] dunnet_exit[OF that, of d] that lk(5) by (simp add: netcosm_rooms)
  have ways: "way rooms i d = ROOM_NONE \<or> nat (way rooms i d) < length rooms" if "i < 11" for i d
    using link_target_way(2)[OF dunnet_linkable, of i rooms d] that lk(4,5) by (simp add: netcosm_rooms)
  have "fit st0" using assms st0(4-6) by (simp add: fit_def)
  moreover have start: "length (mm_pairs (obj_map_init OBJMAP_SIZE :: string obj_map)) \<le> ROOMY_MAX"
    by (rule order_trans[OF roomy_pairs[OF roomy_start]]) simp
  moreover have "tidy_room st0 j" if "j < 11" for j
    using that lk(5) st0(1) objs_tidy_empty[of dunnet_obj_classes "sv_obj st0"] start
    by (simp add: tidy_room_def)
  ultimately have "?P 0 st0" using lk(4,5) st0(1) by (simp add: furnished_def)
  then have "\<exists>st'. init_hooks dunnet_module m [0..<11] st0 =
      Inr (concat (map (\<lambda>i. map (\<lambda>d. (i, dir_num d)) (filter (one_way rooms i) directions)) [0..<11]), st') \<and> ?P 11 st'"
    by (intro init_hooks_run[where P = ?P and rooms = rooms, OF lk(2)] step adj ways) (simp_all add: lk(4))
  then obtain st' where st': "init_hooks dunnet_module m [0..<11] st0 =
      Inr (concat (map (\<lambda>i. map (\<lambda>d. (i, dir_num d)) (filter (one_way rooms i) directions)) [0..<11]), st')" "?P 11 st'"
    by blast
  have "one_way rooms i d \<longleftrightarrow> exit_to i d \<noteq> ROOM_NONE \<and> exit_to (nat (exit_to i d)) (opposite d) \<noteq> int i" if "i < 11" for i d
    using w ways[OF that, of d] that lk(4) by (auto simp: one_way_def)
  then have "concat (map (\<lambda>i. map (\<lambda>d. (i, dir_num d)) (filter (one_way rooms i) directions)) [0..<11]) =
      [(7, dir_num DIR_NE), (8, dir_num DIR_S)]"
    unfolding dunnet_doors[symmetric] by (intro arg_cong[of _ _ concat] map_cong filter_cong arg_cong2[of _ _ _ _ map] refl) simp
  then have res: "world_init dunnet_module st = Inr ([(7, dir_num DIR_NE), (8, dir_num DIR_S)], st')" using lk(1) st'(1) by (simp add: st0_def)
  have same: "rm_id (sv_world st' ! i) = int i" "rm_name (sv_world st' ! i) = rd_name (netcosm_world ! i)"
    "rm_desc (sv_world st' ! i) = rd_desc (netcosm_world ! i)" "way (sv_world st') i d = exit_to i d" if "i < 11" for i d
    using st'(2) that st0(1) bareD[of "sv_world st' ! i" "rooms ! i"] lk(5) w[OF that, of d] by (simp_all add: furnished_def way_def)
  have "room_get_id (dunnet_ids ! i) st' = int i" if "i < 11" for i
    using st'(2) dunnet_position[OF that] same(1)[OF that] st0(2) by (simp add: room_get_id_def lk(3) furnished_def)
  moreover have "world_tidy dunnet_module st'" if "known_verbs st"
    using furnished_tidy[OF st'(2) _ st0(3)] lk(3,5,6) st0(1,2) that known_verbs_same[OF st0(4)] by simp
  ultimately show ?thesis using res st'(2) same st0(7) by (auto simp: furnished_def)
qed


section \<open>Properties\<close>

text \<open>C6: the world of the module builds. From any state whose class tables and table of verbs are right, as at
  the start of the server, \<open>world_init\<close> runs every hook without an error; each room has its name, exits and id,
  and its objects under their names and all their aliases; the verbs are known everywhere; nobody has dug at
  the fork and the computer is off. The only doors reported as one-way are the two between the building and the
  road, whose way in and way out are in different directions.\<close>

theorem dunnet_world_correct:
  assumes "fit st"
  shows "\<exists>st'. world_init dunnet_module st = Inr ([(7, dir_num DIR_NE), (8, dir_num DIR_S)], st') \<and>
    (\<forall>i<11. let room = sv_world st' ! i; data = netcosm_world ! i in
       rm_id room = int i \<and> rm_name room = rd_name data \<and> rm_desc room = rd_desc data \<and>
       (\<forall>d. way (sv_world st') i d = exit_to i d) \<and> room_get_id (dunnet_ids ! i) st' = int i) \<and>
    (\<forall>(i, name, aliases)\<in>set dunnet_objects. offers st' i name aliases) \<and>
    (\<forall>name\<in>set dunnet_verbs. has_verb st' name) \<and>
    dn_flag (sv_module st') 2 = Some False \<and> dn_flag (sv_module st') 10 = Some False"
proof -
  obtain st' where st': "world_init dunnet_module st = Inr ([(7, dir_num DIR_NE), (8, dir_num DIR_S)], st')"
    "\<forall>i<11. hook_done i st'" "\<forall>i<11. let room = sv_world st' ! i; data = netcosm_world ! i in
       rm_id room = int i \<and> rm_name room = rd_name data \<and> rm_desc room = rd_desc data \<and>
       (\<forall>d. way (sv_world st') i d = exit_to i d) \<and> room_get_id (dunnet_ids ! i) st' = int i"
    using dunnet_boot[OF assms] unfolding Let_def by blast
  have "\<forall>(i, name, aliases)\<in>set dunnet_objects. i < 11" by code_simp
  then have "\<forall>(i, name, aliases)\<in>set dunnet_objects. offers st' i name aliases"
    using st'(2) by (fastforce simp: hook_done_def)
  moreover have "hook_done 0 st'" "hook_done 2 st'" "hook_done 10 st'" using st'(2) by simp_all
  ultimately show ?thesis using st'(1,3) by (auto simp: hook_done_def)
qed

lemma fit_initial: "fit (initial_state dunnet_start)"
  by (simp add: fit_def classes_ok_def verb_classes_ok_def initial_state_def obj_state_init_def dunnet_obj_classes_def
      generic_class_def dunnet_verb_classes_def)

text \<open>The general property of \<open>world_init\<close>, applied to this module with all its hooks.\<close>

theorem world_init_correct_witness:
  "\<exists>doors st'. world_init dunnet_module (initial_state dunnet_start) = Inr (doors, st') \<and> length (sv_world st') = 11 \<and>
     (\<forall>i<11. hook_done i st') \<and> rm_name (sv_world st' ! 2) = ''Fork'' \<and> room_get_id ''fork'' st' = 2"
proof -
  let ?st = "initial_state dunnet_start" and ?P = "\<lambda>i s. \<exists>st0. built dunnet_module (initial_state dunnet_start) st0 \<and> furnished st0 i s"
  have wm: "wm_world dunnet_module = netcosm_world" "length netcosm_world = 11" by (simp_all add: dunnet_module_def netcosm_rooms)
  have link: "linkable (wm_world dunnet_module)" using dunnet_linkable by (simp add: wm)
  have start: "\<forall>s. built dunnet_module ?st s \<longrightarrow> ?P 0 s" using furnished_start(1)[OF fit_initial] by blast
  obtain doors st' st0 where r: "world_init dunnet_module ?st = Inr (doors, st')" "furnished st0 11 st'" "length (sv_world st') = 11"
    "\<forall>i<11. let data = netcosm_world ! i; room = sv_world st' ! i in
       rm_id room = int i \<and> rm_name room = rd_name data \<and> rm_desc room = rd_desc data \<and> room_get_id (rd_uniq_id data) st' = int i \<and>
       (\<forall>d. way (sv_world st') i d = (case rd_adjacent data ! dir_num d of None \<Rightarrow> ROOM_NONE | Some name \<Rightarrow> room_get_id name st')) \<and>
       (\<forall>d. (i, dir_num d) \<in> set doors \<longleftrightarrow> one_way (sv_world st') i d)"
    using world_init_correct[OF link start dunnet_hooks_run[OF fit_initial]] unfolding wm by (elim exE conjE)
  have row: "rd_name (netcosm_world ! 2) = ''Fork''" "rd_uniq_id (netcosm_world ! 2) = ''fork''"
    by (simp_all add: netcosm_world_def fork_row_def plain_row_def)
  have "rm_name (sv_world st' ! 2) = ''Fork''" "room_get_id ''fork'' st' = 2"
    using r(4)[rule_format, of 2] unfolding Let_def row by simp_all
  then show ?thesis using r(1-3) by (intro exI[of _ doors] exI[of _ st']) (simp add: furnished_def)
qed

theorem dunnet_world_correct_witness:
  "\<exists>doors st'. world_init dunnet_module (initial_state dunnet_start) = Inr (doors, st') \<and> offers st' 3 ''some food'' [''food'', ''meat''] \<and>
     has_verb st' ''dig'' \<and> room_get_id ''fork'' st' = 2"
proof -
  obtain st' where st': "world_init dunnet_module (initial_state dunnet_start) = Inr ([(7, dir_num DIR_NE), (8, dir_num DIR_S)], st')"
    "\<forall>i<11. let room = sv_world st' ! i; data = netcosm_world ! i in
       rm_id room = int i \<and> rm_name room = rd_name data \<and> rm_desc room = rd_desc data \<and>
       (\<forall>d. way (sv_world st') i d = exit_to i d) \<and> room_get_id (dunnet_ids ! i) st' = int i"
    "\<forall>(i, name, aliases)\<in>set dunnet_objects. offers st' i name aliases" "\<forall>name\<in>set dunnet_verbs. has_verb st' name"
    using dunnet_world_correct[OF fit_initial] by blast
  have "room_get_id (dunnet_ids ! 2) st' = int 2" using st'(2)[rule_format, of 2] by (simp add: Let_def)
  then have "room_get_id ''fork'' st' = 2" by (simp add: dunnet_ids_def)
  then show ?thesis using st'(1,3,4) by (auto simp: dunnet_objects_def dunnet_verbs_def)
qed

end
