(* ===== verification/Nc_Restart.thy ===== *)
theory Nc_Restart
  imports Nc_Reload
begin

text \<open>
  What \<open>userdb_write\<close> writes, \<open>userdb_init\<close> reads back; and with \<open>Nc_Reload\<close>, what
  \<open>server_save_state\<close> leaves on disk is the whole game: world, accounts and inventories.
\<close>

section \<open>The map of a user\<close>

text \<open>A state with one user's map and the objects replaced.\<close>

definition refill :: "map_ptr \<Rightarrow> 'u obj_map \<Rightarrow> 'u obj_state \<Rightarrow> ('u, 'm) server_state \<Rightarrow> ('u, 'm) server_state" where
  "refill q m os st = st\<lparr>sv_heap := (sv_heap st)\<lparr>dh_obj := os, dh_maps := (dh_maps (sv_heap st))(q \<mapsto> m)\<rparr>\<rparr>"

lemma refill_simps [simp]:
  "sv_obj (refill q m os st) = os" "dh_maps (sv_heap (refill q m os st)) = (dh_maps (sv_heap st))(q \<mapsto> m)"
  "dh_next (sv_heap (refill q m os st)) = dh_next (sv_heap st)" "sv_module (refill q m os st) = sv_module st"
  "sv_db_map (refill q m os st) = sv_db_map st"
  "sv_set_obj os' (refill q m os st) = refill q m os' st"
  by (simp_all add: refill_def sv_set_obj_def)

lemma refill_run: "f (m, os) = Inr (r, (m', os')) \<Longrightarrow> map_run q f (refill q m os st) = Inr (r, refill q m' os' st)"
  by (simp add: map_run_def) (simp add: refill_def)

text \<open>
  \<open>userdb_init\<close> makes as many buckets as there are objects, up to 8. The hash function
  distinguishes case and the comparison does not: the two agree on 1, 2, 4 or 8 buckets only.
\<close>

definition even_buckets :: "nat \<Rightarrow> bool" where
  "even_buckets n \<longleftrightarrow> n \<notin> {3, 5, 6, 7}"

lemma user_map_roomy:
  assumes "even_buckets n"
  shows "roomy 0 (user_map_init (min 8 n) :: 'u obj_map)" "mm_pairs (user_map_init (min 8 n) :: 'u obj_map) = []"
proof -
  obtain k where k: "k dvd 32" "obj_map_init (min 8 n) = (obj_map_init k :: 'u obj_map)"
  proof (cases "n = 0")
    case True
    have "obj_map_init (min 8 n) = (obj_map_init 1 :: 'u obj_map)"
      using True by (simp add: obj_map_init_def multimap_init_def hash_init_def)
    then show thesis using that[of 1] by simp
  next
    case False
    have "n = 1 \<or> n = 2 \<or> n = 4 \<or> 8 \<le> n" using False assms by (auto simp: even_buckets_def)
    then have "min 8 n dvd 32" by auto
    then show thesis using that[of "min 8 n"] by simp
  qed
  note f = user_map_init_fields[OF user_map_init_def]
  have ok: "om_ok (user_map_init (min 8 n) :: 'u obj_map)"
  proof -
    have "om_ok (user_map_init (min 8 n) :: 'u obj_map) = om_ok (obj_map_init (min 8 n) :: 'u obj_map)" by (rule om_ok_eq[OF f(1-5)])
    then show ?thesis unfolding k(2) using obj_map_init_ok(1)[OF k(1)] by blast
  qed
  show pairs: "mm_pairs (user_map_init (min 8 n) :: 'u obj_map) = []" by (rule f(7))
  have "mm_counted (user_map_init (min 8 n) :: 'u obj_map) \<and> used_exact (mm_hash_tab (user_map_init (min 8 n) :: 'u obj_map))"
    by (simp add: mm_counted_def f(1))
      (simp add: obj_map_init_def multimap_setfreedata_cb_def multimap_init_def hash_init_def hash_counted_def hash_entries_def
        used_exact_def used_count_def Let_def)
  then show "roomy 0 (user_map_init (min 8 n) :: 'u obj_map)" using ok by (simp add: roomy_def user_map_init_empty(3))
qed

lemma load_user_objects_ok:
  assumes "roomy n m" "n + length (concat (map obj_names objs)) \<le> ROOMY_MAX"
    and "classes_ok (wm_obj_classes wm) os" "heap_fresh os" "om_live os m"
    and "\<forall>obj\<in>set objs. obj_storable (wm_obj_classes wm) obj \<and> class_round_trips (wm_obj_classes wm ! obj_class obj) obj"
  shows "\<exists>m' os'. load_user_objects wm q (length objs) (concat (map (obj_write (wm_obj_classes wm)) objs) @ rest) (refill q m os st) =
      Inr (rest, refill q m' os' st) \<and>
    classes_ok (wm_obj_classes wm) os' \<and> heap_fresh os' \<and> om_live os' m' \<and> heap_grows os os' \<and>
    contents m' os' = sum_list (map named objs) + contents m os"
  using assms
proof (induction objs arbitrary: n m os)
  case Nil
  then show ?case by (intro exI[of _ m] exI[of _ os]) simp
next
  case (Cons obj objs)
  let ?classes = "wm_obj_classes wm" and ?rest = "concat (map (obj_write (wm_obj_classes wm)) objs) @ rest"
  have "n + length (obj_names obj) \<le> ROOMY_MAX" "obj_storable ?classes obj" "class_round_trips (?classes ! obj_class obj) obj"
    using Cons.prems(2,6) by simp_all
  from read_object_ok[OF Cons.prems(1) this(1) Cons.prems(3-5) this(2,3), of ?rest]
  obtain os1 new b m2 os2 where one: "obj_read ?classes (obj_write ?classes obj @ ?rest) os = Inr (os_next os, ?rest, os1)"
    "obj_deref (os_next os) os1 = Inr new"
    "res_bind (om_insert (obj_name new) (os_next os) (m, os1)) (\<lambda>(fresh, mo). om_insert_aliases (os_next os) (obj_alias_list new) fresh mo) =
      Inr (b, (m2, os2))" "roomy (n + length (obj_names obj)) m2"
    "classes_ok ?classes os2" "heap_fresh os2" "om_live os2 m2" "heap_grows os os2" "contents m2 os2 = named obj + contents m os"
    by blast
  have add: "map_run q (\<lambda>mo. res_bind (om_insert (obj_name new) (os_next os) mo) (\<lambda>(fresh, mo).
      om_insert_aliases (os_next os) (obj_alias_list new) fresh mo)) (refill q m os1 st) = Inr (b, refill q m2 os2 st)"
    by (rule refill_run) (rule one(3))
  have "n + length (obj_names obj) + length (concat (map obj_names objs)) \<le> ROOMY_MAX" using Cons.prems(2) by simp
  from Cons.IH[OF one(4) this one(5-7)] Cons.prems(6) obtain m' os' where
    rest: "load_user_objects wm q (length objs) ?rest (refill q m2 os2 st) = Inr (rest, refill q m' os' st)"
    "classes_ok ?classes os'" "heap_fresh os'" "om_live os' m'" "heap_grows os2 os'"
    "contents m' os' = sum_list (map named objs) + contents m2 os2" by auto
  have "load_user_objects wm q (length (obj # objs)) (concat (map (obj_write ?classes) (obj # objs)) @ rest) (refill q m os st) =
      Inr (rest, refill q m' os' st)"
  proof -
    have "load_user_objects wm q (length (obj # objs)) (concat (map (obj_write ?classes) (obj # objs)) @ rest) (refill q m os st) =
        res_bind (obj_deref (os_next os) os1) (\<lambda>new.
        res_bind (map_run q (\<lambda>mo. res_bind (om_insert (obj_name new) (os_next os) mo) (\<lambda>(fresh, mo).
          om_insert_aliases (os_next os) (obj_alias_list new) fresh mo)) (refill q m os1 st)) (\<lambda>(_, st).
          load_user_objects wm q (length objs) ?rest st))"
      using one(1) by simp
    also have "\<dots> = load_user_objects wm q (length objs) ?rest (refill q m2 os2 st)"
      unfolding one(2) res_bind_simps add by simp
    finally show ?thesis using rest(1) by simp
  qed
  then show ?case
    using rest one(9) heap_grows_trans[OF one(8) rest(5)] by (intro exI[of _ m'] exI[of _ os']) (simp add: ac_simps)
qed

section \<open>The record of a user\<close>

text \<open>What a user must be for the file to describe them, and the bytes written for them.\<close>

definition user_tidy :: "('u, 'm) world_module \<Rightarrow> ('u, 'm) server_state \<Rightarrow> userdata_t \<Rightarrow> bool" where
  "user_tidy wm st ud \<longleftrightarrow> userdata_fits ud \<and>
     (\<exists>q m. ud_objects ud = Some q \<and> dh_maps (sv_heap st) q = Some m \<and> objs_tidy (wm_obj_classes wm) m (sv_obj st) \<and>
        length (mm_pairs m) \<le> ROOMY_MAX \<and> even_buckets (length (room_objs m (sv_obj st))))"

definition user_map :: "('u, 'm) server_state \<Rightarrow> userdata_t \<Rightarrow> 'u obj_map" where
  "user_map st ud = the (Option.bind (ud_objects ud) (dh_maps (sv_heap st)))"

definition data_bytes :: "('u, 'm) world_module \<Rightarrow> ('u, 'm) server_state \<Rightarrow> nat \<Rightarrow> string" where
  "data_bytes wm st d = (case wm_write_userdata_cb wm of None \<Rightarrow> [] | Some f \<Rightarrow> f d st)"

definition user_bytes :: "('u, 'm) world_module \<Rightarrow> ('u, 'm) server_state \<Rightarrow> userdata_t \<Rightarrow> string" where
  "user_bytes wm st ud =
     (let objs = room_objs (user_map st ud) (sv_obj st) in
      userdata_bytes ud @ le_bytes 8 (length objs) @ concat (map (obj_write (wm_obj_classes wm)) objs) @ data_bytes wm st (ud_userdata ud))"

lemma write_user_bytes:
  assumes "user_tidy wm st ud" shows "write_user wm st (k, ud) out = Inr (out @ user_bytes wm st ud)"
proof -
  obtain q m where m: "ud_objects ud = Some q" "dh_maps (sv_heap st) q = Some m" "om_live (sv_obj st) m"
    using assms by (auto simp: user_tidy_def objs_tidy_def)
  then show ?thesis
    by (simp add: write_user_def Let_def written_objects[OF m(3)] user_bytes_def user_map_def data_bytes_def)
qed

text \<open>The user read back is the same, up to pointers.\<close>

definition user_same :: "('u, 'm) server_state \<Rightarrow> userdata_t \<Rightarrow> ('u, 'm) server_state \<Rightarrow> userdata_t \<Rightarrow> bool" where
  "user_same st0 ud st ud' \<longleftrightarrow> ud' = ud\<lparr>ud_objects := ud_objects ud', ud_userdata := ud_userdata ud'\<rparr> \<and>
     (\<exists>q m. ud_objects ud' = Some q \<and> q < dh_next (sv_heap st) \<and> dh_maps (sv_heap st) q = Some m \<and> om_live (sv_obj st) m \<and>
        contents m (sv_obj st) = contents (user_map st0 ud) (sv_obj st0))"

text \<open>A later state: maps and objects that were there are untouched.\<close>

definition game_grows :: "('u, 'm) server_state \<Rightarrow> ('u, 'm) server_state \<Rightarrow> bool" where
  "game_grows st st' \<longleftrightarrow> heap_grows (sv_obj st) (sv_obj st') \<and> dh_next (sv_heap st) \<le> dh_next (sv_heap st') \<and>
     (\<forall>q<dh_next (sv_heap st). dh_maps (sv_heap st') q = dh_maps (sv_heap st) q)"

lemma user_same_grows:
  assumes "user_same st0 ud st ud'" "heap_fresh (sv_obj st)" "game_grows st st'"
  shows "user_same st0 ud st' ud'"
  using assms contents_grows[of "sv_obj st" _ "sv_obj st'"] unfolding user_same_def game_grows_def by fastforce

text \<open>A new user under construction: the map is made, then filled.\<close>

lemma new_map_refill:
  "new_map m st = (dh_next (sv_heap st), refill (dh_next (sv_heap st)) m (sv_obj st) (st\<lparr>sv_heap := (sv_heap st)\<lparr>dh_next := Suc (dh_next (sv_heap st))\<rparr>\<rparr>))"
  by (simp add: new_map_def Let_def refill_def)

lemma read_user_ok:
  assumes ud: "user_tidy wm st0 ud" and st: "classes_ok (wm_obj_classes wm) (sv_obj st)" "heap_fresh (sv_obj st)"
  shows "\<exists>q m os. let st1 = refill q m os (st\<lparr>sv_heap := (sv_heap st)\<lparr>dh_next := Suc (dh_next (sv_heap st))\<rparr>\<rparr>) in
    load_users wm (Suc n) (user_bytes wm st0 ud @ rest) st =
      res_bind (case wm_read_userdata_cb wm of
          None \<Rightarrow> Inr (ud_userdata ud, data_bytes wm st0 (ud_userdata ud) @ rest, st1)
        | Some f \<Rightarrow> f (data_bytes wm st0 (ud_userdata ud) @ rest) st1) (\<lambda>(userdata, fd, st).
      res_bind (hash_insert (sv_db_map st) (ud_username ud) (ud\<lparr>ud_objects := Some q, ud_userdata := userdata\<rparr>)) (\<lambda>(_, tab).
        load_users wm n fd (st\<lparr>sv_db_map := tab\<rparr>))) \<and>
    (\<forall>userdata. user_same st0 ud st1 (ud\<lparr>ud_objects := Some q, ud_userdata := userdata\<rparr>)) \<and>
    classes_ok (wm_obj_classes wm) os \<and> heap_fresh os \<and> game_grows st st1"
proof -
  let ?q = "dh_next (sv_heap st)" and ?base = "st\<lparr>sv_heap := (sv_heap st)\<lparr>dh_next := Suc (dh_next (sv_heap st))\<rparr>\<rparr>"
  obtain q0 m0 where m0: "ud_objects ud = Some q0" "dh_maps (sv_heap st0) q0 = Some m0" "objs_tidy (wm_obj_classes wm) m0 (sv_obj st0)"
    "length (mm_pairs m0) \<le> ROOMY_MAX" "even_buckets (length (room_objs m0 (sv_obj st0)))" and fits: "userdata_fits ud"
    using ud by (auto simp: user_tidy_def)
  define objs where "objs = room_objs m0 (sv_obj st0)"
  have um: "user_map st0 ud = m0" by (simp add: user_map_def m0(1,2))
  have cont0: "contents m0 (sv_obj st0) = sum_list (map named objs)" using m0(3) by (simp add: objs_tidy_def objs_def)
  have names: "length (concat (map obj_names objs)) \<le> ROOMY_MAX" and len: "length objs < 2 ^ 64"
    using objs_tidy_names[OF m0(3,4)] by (simp_all add: objs_def)
  let ?start = "user_map_init (min 8 (length objs)) :: 'a obj_map"
  have roomy: "roomy 0 ?start" "mm_pairs ?start = []" using user_map_roomy[OF m0(5)] by (simp_all add: objs_def)
  have live: "om_live (sv_obj st) ?start" using roomy_ok(2)[OF roomy(1)] by (simp add: om_live_def roomy(2))
  have store: "\<forall>obj\<in>set objs. obj_storable (wm_obj_classes wm) obj \<and> class_round_trips (wm_obj_classes wm ! obj_class obj) obj"
    using m0(3) by (simp add: objs_tidy_def objs_def)
  have "0 + length (concat (map obj_names objs)) \<le> ROOMY_MAX" using names by simp
  from load_user_objects_ok[OF roomy(1) this st live store, of ?q "data_bytes wm st0 (ud_userdata ud) @ rest" ?base]
  obtain m os where ld: "load_user_objects wm ?q (length objs) (concat (map (obj_write (wm_obj_classes wm)) objs) @
      data_bytes wm st0 (ud_userdata ud) @ rest) (refill ?q ?start (sv_obj st) ?base) = Inr (data_bytes wm st0 (ud_userdata ud) @ rest, refill ?q m os ?base)"
    "classes_ok (wm_obj_classes wm) os" "heap_fresh os" "om_live os m" "heap_grows (sv_obj st) os"
    "contents m os = sum_list (map named objs) + contents ?start (sv_obj st)" by blast
  have rec: "file_read USERDATA_SIZE (userdata_bytes ud @ fd) = (userdata_bytes ud, fd)" "userdata_parse (userdata_bytes ud) = ud"
    "length (userdata_bytes ud) = USERDATA_SIZE" for fd
    using userdata_round_trip_ok[OF fits] by (simp_all add: file_read_def)
  have n: "le_val (le_bytes 8 (length objs)) = length objs" using len by (simp add: le_val_le_bytes)
  let ?st1 = "refill ?q m os ?base"
  have "load_users wm (Suc n) (user_bytes wm st0 ud @ rest) st =
      res_bind (case wm_read_userdata_cb wm of
          None \<Rightarrow> Inr (ud_userdata ud, data_bytes wm st0 (ud_userdata ud) @ rest, ?st1)
        | Some f \<Rightarrow> f (data_bytes wm st0 (ud_userdata ud) @ rest) ?st1) (\<lambda>(userdata, fd, st).
      res_bind (hash_insert (sv_db_map st) (ud_username ud) (ud\<lparr>ud_objects := Some ?q, ud_userdata := userdata\<rparr>)) (\<lambda>(_, tab).
        load_users wm n fd (st\<lparr>sv_db_map := tab\<rparr>)))"
    using ld(1) by (simp add: user_bytes_def um objs_def[symmetric] Let_def rec n new_map_refill cong: option.case_cong)
  moreover have "user_same st0 ud ?st1 (ud\<lparr>ud_objects := Some ?q, ud_userdata := userdata\<rparr>)" for userdata
  proof -
    have "contents ?start (sv_obj st) = {#}" by (simp add: contents_def roomy(2))
    then show ?thesis using ld(4,6) cont0 by (simp add: user_same_def um)
  qed
  moreover have "game_grows st ?st1" using ld(5) by (simp add: game_grows_def)
  ultimately show ?thesis using ld(2,3) by (intro exI[of _ ?q] exI[of _ m] exI[of _ os]) (simp add: Let_def)
qed

section \<open>All users\<close>

text \<open>
  What \<open>userdb_init\<close> asks of a module: the bytes that its writing callback makes of a user's data are
  the bytes that the reading one takes, and reading restores that data and leaves alone what was
  restored before.
\<close>

locale saving_users = saving_module wm sane sound restored
  for wm :: "('u, 'm) world_module" and sane sound :: "'m \<Rightarrow> bool" and restored :: "'m \<Rightarrow> nat \<Rightarrow> 'm \<Rightarrow> bool" +
  fixes data_sane :: "'m \<Rightarrow> nat \<Rightarrow> bool" and data_same :: "'m \<Rightarrow> nat \<Rightarrow> 'm \<Rightarrow> nat \<Rightarrow> bool"
  assumes no_data: "wm_read_userdata_cb wm = None \<Longrightarrow> wm_write_userdata_cb wm = None \<and> data_same m d m' d"
    and data: "wm_read_userdata_cb wm = Some rd \<Longrightarrow> data_sane (sv_module st0) d \<Longrightarrow> sound (sv_module st) \<Longrightarrow>
      \<exists>d' m'. sound m' \<and> (\<forall>rest. rd (data_bytes wm st0 d @ rest) st = Inr (d', rest, st\<lparr>sv_module := m'\<rparr>)) \<and>
        data_same (sv_module st0) d m' d' \<and>
        (\<forall>e e'. data_same (sv_module st0) e (sv_module st) e' \<longrightarrow> data_same (sv_module st0) e m' e') \<and>
        (\<forall>m i. restored m i (sv_module st) \<longrightarrow> restored m i m')"

text \<open>The users of \<open>ds\<close> are in the table as they were in \<open>st0\<close>; of \<open>base\<close>, only the heap, the table and the module's data changed.\<close>

definition users_in ::
  "('u, 'm) world_module \<Rightarrow> ('u, 'm) server_state \<Rightarrow> ('u, 'm) server_state \<Rightarrow> userdata_t list \<Rightarrow> ('u, 'm) server_state \<Rightarrow> bool" where
  "users_in wm st0 base ds st \<longleftrightarrow> (\<exists>h tab m. st = base\<lparr>sv_heap := h, sv_db_map := tab, sv_module := m\<rparr>) \<and>
     game_grows base st \<and> classes_ok (wm_obj_classes wm) (sv_obj st) \<and> heap_fresh (sv_obj st) \<and> db_table_ok (sv_db_map st) \<and>
     dom (hash_lookup (sv_db_map st)) = set (map ud_username ds) \<and>
     (\<forall>ud\<in>set ds. \<exists>ud'. hash_lookup (sv_db_map st) (ud_username ud) = Some ud' \<and> user_same st0 ud st ud')"

lemma game_grows_trans: "game_grows a b \<Longrightarrow> game_grows b c \<Longrightarrow> game_grows a c"
  by (auto simp: game_grows_def intro: heap_grows_trans)

lemma users_in_add:
  assumes "users_in wm st0 base ds st" "game_grows st st1" "classes_ok (wm_obj_classes wm) (sv_obj st1)" "heap_fresh (sv_obj st1)"
    and st1: "st1 = st\<lparr>sv_heap := h\<rparr>" and ud: "user_same st0 ud st1 ud'" "\<forall>u\<in>set ds. ud_username u \<noteq> ud_username ud"
    and tab: "db_table_ok tab" "hash_lookup tab = (hash_lookup (sv_db_map st))(ud_username ud \<mapsto> ud')"
  shows "users_in wm st0 base (ds @ [ud]) (st1\<lparr>sv_module := m, sv_db_map := tab\<rparr>)"
proof -
  let ?st = "st1\<lparr>sv_module := m, sv_db_map := tab\<rparr>"
  obtain h0 tab0 m0 where "st = base\<lparr>sv_heap := h0, sv_db_map := tab0, sv_module := m0\<rparr>" using assms(1) by (auto simp: users_in_def)
  then have "?st = base\<lparr>sv_heap := h, sv_db_map := tab, sv_module := m\<rparr>" by (simp add: st1)
  then have shape: "\<exists>h tab m. ?st = base\<lparr>sv_heap := h, sv_db_map := tab, sv_module := m\<rparr>" by blast
  have "\<exists>ud'. hash_lookup tab (ud_username u) = Some ud' \<and> user_same st0 u ?st ud'" if "u \<in> set (ds @ [ud])" for u
  proof (cases "u = ud")
    case True
    then show ?thesis using ud(1) tab(2) by (simp add: user_same_def)
  next
    case False
    then have "u \<in> set ds" using that by simp
    then obtain v where v: "hash_lookup (sv_db_map st) (ud_username u) = Some v" "user_same st0 u st v"
      using assms(1) by (auto simp: users_in_def)
    have "user_same st0 u st1 v" using user_same_grows[OF v(2) _ assms(2)] assms(1) by (simp add: users_in_def)
    moreover have "ud_username u \<noteq> ud_username ud" using \<open>u \<in> set ds\<close> ud(2) by auto
    ultimately show ?thesis using v(1) tab(2) by (simp add: user_same_def)
  qed
  moreover have "game_grows base st1" using assms(1,2) game_grows_trans by (auto simp: users_in_def)
  ultimately show ?thesis
    using assms(1,3,4) tab shape by (auto simp: users_in_def game_grows_def)
qed

text \<open>A database that its file describes, and what it means that it is back.\<close>

definition users_tidy :: "('u, 'm) world_module \<Rightarrow> ('u, 'm) server_state \<Rightarrow> bool" where
  "users_tidy wm st \<longleftrightarrow> db_table_ok (sv_db_map st) \<and> length (hash_entries (sv_db_map st)) < 2 ^ 64 \<and>
     (\<forall>e\<in>set (hash_entries (sv_db_map st)). fst e = ud_username (snd e) \<and> user_tidy wm st (snd e))"

definition users_same :: "('u, 'm) server_state \<Rightarrow> ('u, 'm) server_state \<Rightarrow> bool" where
  "users_same st s \<longleftrightarrow> (\<forall>name. case userdb_lookup name st of None \<Rightarrow> userdb_lookup name s = None
     | Some ud \<Rightarrow> \<exists>ud'. userdb_lookup name s = Some ud' \<and> user_same st ud s ud')"

lemma userdb_write_bytes:
  assumes "users_tidy wm st"
  shows "userdb_write wm st = Inr (True, st\<lparr>sv_userfile := Some (write_uint32 USERDB_MAGIC @
    write_size (of_nat (length (hash_entries (sv_db_map st)))) @ concat (map (user_bytes wm st) (map snd (hash_entries (sv_db_map st)))))\<rparr>)"
proof -
  have wf: "hash_wf (sv_db_map st)" and size: "hash_size (sv_db_map st) = of_nat (length (hash_entries (sv_db_map st)))"
    using assms by (simp_all add: users_tidy_def owned_table_def hash_size_def hash_counted_def)
  have "res_fold (write_user wm st) es out = Inr (out @ concat (map (user_bytes wm st) (map snd es)))"
    if "set es \<subseteq> set (hash_entries (sv_db_map st))" for es out
    using that
  proof (induction es arbitrary: out)
    case (Cons e es)
    then have "write_user wm st e out = Inr (out @ user_bytes wm st (snd e))" for out
      using write_user_bytes[of wm st "snd e" "fst e"] assms by (auto simp: users_tidy_def)
    then show ?case using Cons by simp
  qed simp
  then show ?thesis by (simp add: userdb_write_def hash_iter_loop_entries[OF wf] size)
qed

text \<open>Saving changes nothing that the files describe.\<close>

lemma saved_module: "saved st st' \<Longrightarrow> sv_module st' = sv_module st" "saved st st' \<Longrightarrow> sv_world_name st' = sv_world_name st"
  "saved st st' \<Longrightarrow> sv_world_map st' = sv_world_map st"
  by (auto simp: saved_def)

lemma users_tidy_saved: "saved st st' \<Longrightarrow> users_tidy wm st' = users_tidy wm st"
  by (simp add: users_tidy_def user_tidy_def savedD)

lemma users_same_saved: "saved st st' \<Longrightarrow> users_same st' s = users_same st s"
  by (simp add: users_same_def user_same_def user_map_def savedD cong: option.case_cong)

lemma rooms_grow:
  assumes "room_same r os0 r' os" "om_live os (rm_objects r')" "heap_fresh os" "heap_grows os os'"
  shows "room_same r os0 r' os'"
  using assms contents_grows[OF assms(2-4)] by (simp add: room_same_def)

context saving_users begin

text \<open>The data of the users of \<open>ds\<close>, and of the rooms, survives in the module.\<close>

definition data_in :: "('u, 'm) server_state \<Rightarrow> ('u, 'm) server_state \<Rightarrow> userdata_t list \<Rightarrow> ('u, 'm) server_state \<Rightarrow> bool" where
  "data_in st0 base ds st \<longleftrightarrow> sound (sv_module st) \<and>
     (\<forall>m i. restored m i (sv_module base) \<longrightarrow> restored m i (sv_module st)) \<and>
     (\<forall>ud\<in>set ds. \<forall>ud'. hash_lookup (sv_db_map st) (ud_username ud) = Some ud' \<longrightarrow>
        data_same (sv_module st0) (ud_userdata ud) (sv_module st) (ud_userdata ud'))"

lemma load_users_ok:
  assumes "\<forall>ud\<in>set uds. user_tidy wm st0 ud \<and> data_sane (sv_module st0) (ud_userdata ud)" "distinct (map ud_username (ds @ uds))"
    and "users_in wm st0 base ds st" "data_in st0 base ds st"
  shows "\<exists>st'. load_users wm (length uds) (concat (map (user_bytes wm st0) uds) @ tail) st = Inr st' \<and>
    users_in wm st0 base (ds @ uds) st' \<and> data_in st0 base (ds @ uds) st'"
  using assms
proof (induction uds arbitrary: ds st)
  case (Cons ud uds)
  let ?rest = "concat (map (user_bytes wm st0) uds) @ tail"
  have st: "classes_ok (wm_obj_classes wm) (sv_obj st)" "heap_fresh (sv_obj st)" "db_table_ok (sv_db_map st)"
    using Cons.prems(3) by (simp_all add: users_in_def)
  have tidy: "user_tidy wm st0 ud" "data_sane (sv_module st0) (ud_userdata ud)" using Cons.prems(1) by simp_all
  obtain q m os where one: "let st1 = refill q m os (st\<lparr>sv_heap := (sv_heap st)\<lparr>dh_next := Suc (dh_next (sv_heap st))\<rparr>\<rparr>) in
    load_users wm (Suc (length uds)) (user_bytes wm st0 ud @ ?rest) st =
      res_bind (case wm_read_userdata_cb wm of
          None \<Rightarrow> Inr (ud_userdata ud, data_bytes wm st0 (ud_userdata ud) @ ?rest, st1)
        | Some f \<Rightarrow> f (data_bytes wm st0 (ud_userdata ud) @ ?rest) st1) (\<lambda>(userdata, fd, st).
      res_bind (hash_insert (sv_db_map st) (ud_username ud) (ud\<lparr>ud_objects := Some q, ud_userdata := userdata\<rparr>)) (\<lambda>(_, tab).
        load_users wm (length uds) fd (st\<lparr>sv_db_map := tab\<rparr>))) \<and>
    (\<forall>userdata. user_same st0 ud st1 (ud\<lparr>ud_objects := Some q, ud_userdata := userdata\<rparr>)) \<and>
    classes_ok (wm_obj_classes wm) os \<and> heap_fresh os \<and> game_grows st st1"
    using read_user_ok[OF tidy(1) st(1,2), of "length uds" ?rest] by blast
  define st1 where "st1 = refill q m os (st\<lparr>sv_heap := (sv_heap st)\<lparr>dh_next := Suc (dh_next (sv_heap st))\<rparr>\<rparr>)"
  note one = one[unfolded Let_def, folded st1_def]
  obtain h where h: "st1 = st\<lparr>sv_heap := h\<rparr>" by (simp add: st1_def refill_def)
  have "\<exists>d' m'. sound m' \<and> (case wm_read_userdata_cb wm of
          None \<Rightarrow> Inr (ud_userdata ud, data_bytes wm st0 (ud_userdata ud) @ ?rest, st1)
        | Some f \<Rightarrow> f (data_bytes wm st0 (ud_userdata ud) @ ?rest) st1) = Inr (d', ?rest, st1\<lparr>sv_module := m'\<rparr>) \<and>
      data_same (sv_module st0) (ud_userdata ud) m' d' \<and>
      (\<forall>e e'. data_same (sv_module st0) e (sv_module st) e' \<longrightarrow> data_same (sv_module st0) e m' e') \<and>
      (\<forall>m i. restored m i (sv_module st) \<longrightarrow> restored m i m')"
  proof (cases "wm_read_userdata_cb wm")
    case None
    then show ?thesis using no_data[OF None] Cons.prems(4) h
      by (intro exI[of _ "ud_userdata ud"] exI[of _ "sv_module st"]) (simp add: data_in_def data_bytes_def)
  next
    case (Some rd)
    have "sound (sv_module st1)" using Cons.prems(4) h by (simp add: data_in_def)
    from data[OF Some tidy(2) this] show ?thesis using Some h by auto
  qed
  then obtain d' m' where d: "sound m'" "(case wm_read_userdata_cb wm of
          None \<Rightarrow> Inr (ud_userdata ud, data_bytes wm st0 (ud_userdata ud) @ ?rest, st1)
        | Some f \<Rightarrow> f (data_bytes wm st0 (ud_userdata ud) @ ?rest) st1) = Inr (d', ?rest, st1\<lparr>sv_module := m'\<rparr>)"
    "data_same (sv_module st0) (ud_userdata ud) m' d'"
    "\<forall>e e'. data_same (sv_module st0) e (sv_module st) e' \<longrightarrow> data_same (sv_module st0) e m' e'"
    "\<forall>m i. restored m i (sv_module st) \<longrightarrow> restored m i m'" by blast
  let ?ud' = "ud\<lparr>ud_objects := Some q, ud_userdata := d'\<rparr>"
  have "ud_username ud \<notin> set (map ud_username ds)" using Cons.prems(2) by auto
  moreover have "dom (hash_lookup (sv_db_map st)) = set (map ud_username ds)" using Cons.prems(3) by (simp add: users_in_def)
  ultimately have "hash_lookup (sv_db_map st) (ud_username ud) = None" and fresh: "\<forall>u\<in>set ds. ud_username u \<noteq> ud_username ud"
    by (blast, metis image_eqI set_map)
  then obtain tab where tab: "hash_insert (sv_db_map st) (ud_username ud) ?ud' = Inr (None, tab)" "db_table_ok tab"
    "hash_lookup tab = (hash_lookup (sv_db_map st))(ud_username ud \<mapsto> ?ud')"
    using db_table.insert_absent[OF st(3)] by blast
  let ?st = "st1\<lparr>sv_module := m', sv_db_map := tab\<rparr>"
  have sobj: "sv_obj st1 = os" by (simp add: st1_def)
  have "users_in wm st0 base (ds @ [ud]) ?st"
    by (rule users_in_add[OF Cons.prems(3) _ _ _ h _ fresh tab(2,3)]) (use one sobj in simp_all)
  moreover have "data_in st0 base (ds @ [ud]) ?st"
    using Cons.prems(4) d(1,3-5) tab(3) fresh by (auto simp: data_in_def)
  moreover have "distinct (map ud_username ((ds @ [ud]) @ uds))" using Cons.prems(2) by simp
  ultimately obtain st' where "load_users wm (length uds) ?rest ?st = Inr st'"
    "users_in wm st0 base ((ds @ [ud]) @ uds) st'" "data_in st0 base ((ds @ [ud]) @ uds) st'"
    using Cons.IH[of "ds @ [ud]" ?st] Cons.prems(1) by auto
  moreover have "load_users wm (length (ud # uds)) (concat (map (user_bytes wm st0) (ud # uds)) @ tail) st = load_users wm (length uds) ?rest ?st"
    using one d(2) tab(1) h by simp
  ultimately show ?case by simp
qed simp

lemma users_reload:
  assumes st: "users_tidy wm st" "\<forall>e\<in>set (hash_entries (sv_db_map st)). data_sane (sv_module st) (ud_userdata (snd e))"
    and s: "classes_ok (wm_obj_classes wm) (sv_obj s)" "heap_fresh (sv_obj s)" "sound (sv_module s)"
    and disk: "userdb_write wm st = Inr (b, st1)" "sv_userfile s = sv_userfile st1"
  shows "\<exists>s'. userdb_init wm s = Inr s' \<and> (\<exists>h tab m. s' = s\<lparr>sv_heap := h, sv_db_map := tab, sv_module := m\<rparr>) \<and> game_grows s s' \<and>
    users_same st s' \<and> userdb_size s' = userdb_size st \<and> (\<forall>m i. restored m i (sv_module s) \<longrightarrow> restored m i (sv_module s')) \<and>
    (\<forall>name ud ud'. userdb_lookup name st = Some ud \<longrightarrow> userdb_lookup name s' = Some ud' \<longrightarrow>
       data_same (sv_module st) (ud_userdata ud) (sv_module s') (ud_userdata ud'))"
proof -
  let ?es = "hash_entries (sv_db_map st)" and ?tab = "hash_setfreedata_cb (hash_init 256 hash_djb compare_strings) (Some free_userdata)"
  let ?base = "s\<lparr>sv_db_map := ?tab\<rparr>" and ?uds = "map snd (hash_entries (sv_db_map st))"
  have ok: "db_table_ok (sv_db_map st)" and len: "length ?es < 2 ^ 64"
    and e: "\<forall>e\<in>set ?es. fst e = ud_username (snd e) \<and> user_tidy wm st (snd e)"
    using st(1) by (simp_all add: users_tidy_def)
  have names: "map ud_username ?uds = map fst ?es" using e by simp
  have tab: "db_table_ok ?tab" by (rule owned_table_init)
  have empty: "hash_lookup ?tab = Map.empty"
    by (simp add: hash_setfreedata_cb_def hash_lookup_def hash_find_def hash_chain_def hash_index_def hash_init_def fun_eq_iff)
  have "\<exists>h tab m. ?base = ?base\<lparr>sv_heap := h, sv_db_map := tab, sv_module := m\<rparr>" by (cases s) (intro exI, simp)
  then have "users_in wm st ?base [] ?base" using s(1,2) tab empty by (simp add: users_in_def game_grows_def)
  moreover have "data_in st ?base [] ?base" using s(3) by (simp add: data_in_def)
  moreover have "distinct (map ud_username ([] @ ?uds))"
    using db_table.entries_distinct[OF ok] unfolding append_Nil names .
  moreover have "\<forall>ud\<in>set ?uds. user_tidy wm st ud \<and> data_sane (sv_module st) (ud_userdata ud)" using e st(2) by auto
  ultimately obtain s' where s': "load_users wm (length ?uds) (concat (map (user_bytes wm st) ?uds) @ []) ?base = Inr s'"
    "users_in wm st ?base ([] @ ?uds) s'" "data_in st ?base ([] @ ?uds) s'"
    using load_users_ok[of ?uds st "[]" ?base ?base "[]"] by blast
  have fd: "sv_userfile s = Some (write_uint32 USERDB_MAGIC @ write_size (of_nat (length ?es)) @ concat (map (user_bytes wm st) ?uds))"
    using disk(1) unfolding disk(2) userdb_write_bytes[OF st(1)] by auto
  have "userdb_init wm s = load_users wm (length ?uds) (concat (map (user_bytes wm st) ?uds) @ []) ?base"
    using len by (simp add: userdb_init_def Let_def fd unat_of_nat)
  then have init: "userdb_init wm s = Inr s'" using s'(1) by simp
  have known: "userdb_lookup name st = Some ud \<longleftrightarrow> ud \<in> set ?uds \<and> ud_username ud = name" for name ud
  proof -
    have "userdb_lookup name st = Some ud \<longleftrightarrow> (name, ud) \<in> set ?es"
      using db_table.entries_iff[OF ok] by (simp add: userdb_lookup_def)
    then show ?thesis using e by force
  qed
  have "users_same st s'"
    unfolding users_same_def
  proof
    fix name
    show "case userdb_lookup name st of None \<Rightarrow> userdb_lookup name s' = None
      | Some ud \<Rightarrow> \<exists>ud'. userdb_lookup name s' = Some ud' \<and> user_same st ud s' ud'"
    proof (cases "userdb_lookup name st")
      case None
      then have "name \<notin> set (map ud_username ?uds)" using known[of name] by (auto simp del: map_map)
      moreover have "dom (hash_lookup (sv_db_map s')) = set (map ud_username ?uds)" using s'(2) by (simp add: users_in_def)
      ultimately have "name \<notin> dom (hash_lookup (sv_db_map s'))" by blast
      then show ?thesis using None by (auto simp: userdb_lookup_def)
    next
      case (Some ud)
      then have "ud \<in> set ?uds" "ud_username ud = name" using known[of name ud] by blast+
      then show ?thesis using Some s'(2) unfolding users_in_def userdb_lookup_def append_Nil by fastforce
    qed
  qed
  moreover have "data_same (sv_module st) (ud_userdata ud) (sv_module s') (ud_userdata ud')"
    if "userdb_lookup name st = Some ud" "userdb_lookup name s' = Some ud'" for name ud ud'
  proof -
    have "ud \<in> set ?uds" "ud_username ud = name" using that(1) known[of name ud] by blast+
    then show ?thesis using s'(3) that(2) unfolding data_in_def userdb_lookup_def append_Nil by blast
  qed
  moreover have "\<exists>h tab m. s' = s\<lparr>sv_heap := h, sv_db_map := tab, sv_module := m\<rparr>"
  proof -
    obtain h tab m where "s' = ?base\<lparr>sv_heap := h, sv_db_map := tab, sv_module := m\<rparr>" using s'(2) by (auto simp: users_in_def)
    then have "s' = s\<lparr>sv_heap := h, sv_db_map := tab, sv_module := m\<rparr>" by simp
    then show ?thesis by blast
  qed
  moreover have "userdb_size s' = userdb_size st"
  proof -
    have tab': "db_table_ok (sv_db_map s')" "dom (hash_lookup (sv_db_map s')) = set (map fst ?es)"
      using s'(2) names by (simp_all add: users_in_def)
    have "length (hash_entries (sv_db_map s')) = card (dom (hash_lookup (sv_db_map s')))"
      using distinct_card[OF db_table.entries_distinct[OF tab'(1)]] db_table.dom_entries[OF tab'(1)] by simp
    moreover have "card (set (map fst ?es)) = length ?es" using distinct_card[OF db_table.entries_distinct[OF ok]] by simp
    ultimately have "length (hash_entries (sv_db_map s')) = length ?es" by (simp only: tab'(2))
    then show ?thesis using ok tab'(1) by (simp add: userdb_size_def hash_size_def owned_table_def hash_counted_def)
  qed
  moreover have "game_grows s s'" using s'(2) by (simp add: users_in_def game_grows_def)
  moreover have "\<forall>m i. restored m i (sv_module s) \<longrightarrow> restored m i (sv_module s')" using s'(3) by (simp add: data_in_def)
  ultimately show ?thesis using init by blast
qed

text \<open>The start of the server on the files of a world and of a database.\<close>

lemma files_reload:
  assumes world: "world_tidy wm st" "sane (sv_module st)" "world_save wm st = Inr w"
    and users: "users_tidy wm u" "\<forall>e\<in>set (hash_entries (sv_db_map u)). data_sane (sv_module u) (ud_userdata (snd e))"
      "userdb_write wm u = Inr (b, v)"
    and s: "restarted wm s" "sound (sv_module s)" "sv_worldfile s = sv_worldfile w" "sv_userfile s = sv_userfile v"
  shows "\<exists>s1 s2. world_load wm s = Inr (True, s1) \<and> userdb_init wm s1 = Inr s2 \<and> length (sv_world s2) = length (sv_world st) \<and>
    (\<forall>i<length (sv_world st). room_same (sv_world st ! i) (sv_obj st) (sv_world s2 ! i) (sv_obj s2) \<and>
       restored (sv_module st) i (sv_module s2)) \<and>
    sv_world_name s2 = sv_world_name st \<and> hash_lookup (sv_world_map s2) = hash_lookup (sv_world_map st) \<and>
    global_verb s2 = global_verb st \<and> users_same u s2 \<and> userdb_size s2 = userdb_size u \<and> sv_userfile s2 = sv_userfile s \<and>
    (\<forall>name ud ud'. userdb_lookup name u = Some ud \<longrightarrow> userdb_lookup name s2 = Some ud' \<longrightarrow>
       data_same (sv_module u) (ud_userdata ud) (sv_module s2) (ud_userdata ud'))"
proof -
  from world_reload[OF world(1,2) s(1-3) world(3)] obtain s1 where
    s1: "world_load wm s = Inr (True, s1)" "length (sv_world s1) = length (sv_world st)"
    "\<forall>i<length (sv_world st). room_same (sv_world st ! i) (sv_obj st) (sv_world s1 ! i) (sv_obj s1) \<and>
       restored (sv_module st) i (sv_module s1)"
    "sv_world_name s1 = sv_world_name st" "hash_lookup (sv_world_map s1) = hash_lookup (sv_world_map st)" "global_verb s1 = global_verb st"
    "\<forall>i<length (sv_world st). om_live (sv_obj s1) (rm_objects (sv_world s1 ! i))"
    "classes_ok (wm_obj_classes wm) (sv_obj s1)" "heap_fresh (sv_obj s1)" "sound (sv_module s1)" "sv_userfile s1 = sv_userfile s"
    by blast
  from users_reload[OF users(1,2) s1(8-10) users(3)] s1(11) s(4) obtain s2 where
    s2: "userdb_init wm s1 = Inr s2" "\<exists>h tab m. s2 = s1\<lparr>sv_heap := h, sv_db_map := tab, sv_module := m\<rparr>" "game_grows s1 s2" "users_same u s2"
    "\<forall>m i. restored m i (sv_module s1) \<longrightarrow> restored m i (sv_module s2)" "userdb_size s2 = userdb_size u"
    "\<forall>name ud ud'. userdb_lookup name u = Some ud \<longrightarrow> userdb_lookup name s2 = Some ud' \<longrightarrow>
       data_same (sv_module u) (ud_userdata ud) (sv_module s2) (ud_userdata ud')" by auto
  have same: "sv_world s2 = sv_world s1" "sv_world_name s2 = sv_world_name s1" "sv_world_map s2 = sv_world_map s1"
    "global_verb s2 = global_verb s1" "sv_userfile s2 = sv_userfile s1"
    using s2(2) by (auto simp: global_verb_def)
  have "room_same (sv_world st ! i) (sv_obj st) (sv_world s2 ! i) (sv_obj s2)" if "i < length (sv_world st)" for i
    using rooms_grow[OF _ _ s1(9)] s1(3,7) s2(3) that by (simp add: same game_grows_def)
  then show ?thesis
    using s1(1-6,11) s2(1,4-7) same by (intro exI[of _ s1] exI[of _ s2]) auto
qed

text \<open>The whole game: what \<open>server_save_state\<close> leaves on disk, the start of the server reads back.\<close>

lemma game_reload:
  assumes world: "world_tidy wm st" "sane (sv_module st)"
    and users: "users_tidy wm st" "\<forall>e\<in>set (hash_entries (sv_db_map st)). data_sane (sv_module st) (ud_userdata (snd e))"
  shows "\<exists>st1. server_save_state wm True st = Inr st1 \<and>
    (\<forall>s. restarted wm s \<longrightarrow> sound (sv_module s) \<longrightarrow> sv_worldfile s = sv_worldfile st1 \<longrightarrow> sv_userfile s = sv_userfile st1 \<longrightarrow>
      (\<exists>s1 s2. world_load wm s = Inr (True, s1) \<and> userdb_init wm s1 = Inr s2 \<and> length (sv_world s2) = length (sv_world st) \<and>
        (\<forall>i<length (sv_world st). room_same (sv_world st ! i) (sv_obj st) (sv_world s2 ! i) (sv_obj s2) \<and>
           restored (sv_module st) i (sv_module s2)) \<and>
        sv_world_name s2 = sv_world_name st \<and> hash_lookup (sv_world_map s2) = hash_lookup (sv_world_map st) \<and>
        global_verb s2 = global_verb st \<and> users_same st s2 \<and>
        (\<forall>name ud ud'. userdb_lookup name st = Some ud \<longrightarrow> userdb_lookup name s2 = Some ud' \<longrightarrow>
           data_same (sv_module st) (ud_userdata ud) (sv_module s2) (ud_userdata ud'))))"
proof -
  let ?st = "st\<lparr>sv_save_n := (sv_save_n st + 1) mod SAVE_INTERVAL\<rparr>"
  have world': "world_tidy wm ?st" "sane (sv_module ?st)" using world by (simp_all add: world_tidy_def)
  obtain stw where stw: "world_save wm ?st = Inr stw" "saved ?st stw"
  proof -
    obtain tab st1 where w: "saved ?st st1" "world_save wm ?st = Inr (st1\<lparr>sv_worldfile := Some (file_overwrite (sv_worldfile st1) (world_bytes wm tab st1))\<rparr>)"
      using world_save_bytes[OF world'(1)] by blast
    show thesis by (rule that[OF w(2)]) (rule saved_trans[OF w(1)], simp)
  qed
  have sv: "saved st stw" using saved_trans[OF _ stw(2), of st] by simp
  have ut: "users_tidy wm stw" using users(1) users_tidy_saved[OF sv] by simp
  have sane: "\<forall>e\<in>set (hash_entries (sv_db_map stw)). data_sane (sv_module stw) (ud_userdata (snd e))"
    using users(2) savedD(3)[OF sv] saved_module(1)[OF sv] by simp
  define st1 where "st1 = stw\<lparr>sv_userfile := Some (write_uint32 USERDB_MAGIC @
    write_size (of_nat (length (hash_entries (sv_db_map stw)))) @ concat (map (user_bytes wm stw) (map snd (hash_entries (sv_db_map stw)))))\<rparr>"
  have dw: "userdb_write wm stw = Inr (True, st1)" unfolding st1_def by (rule userdb_write_bytes[OF ut])
  have save: "server_save_state wm True st = Inr st1" by (simp add: server_save_state_def Let_def stw(1) dw)
  have same: "sv_world ?st = sv_world st" "sv_obj ?st = sv_obj st" "sv_module ?st = sv_module st" "sv_world_name ?st = sv_world_name st"
    "sv_world_map ?st = sv_world_map st" "global_verb ?st = global_verb st" by (simp_all add: global_verb_def)
  have wf: "sv_worldfile st1 = sv_worldfile stw" by (simp add: st1_def)
  note reload = files_reload[OF world' stw(1) ut sane dw, unfolded same users_same_saved[OF sv] saved_module(1)[OF sv] savedD(6)[OF sv]]
  show ?thesis
  proof (rule exI[of _ st1], intro conjI save allI impI, goal_cases)
    case (1 s)
    from reload[OF 1(1,2) 1(3)[unfolded wf] 1(4)] show ?case by (elim exE conjE) (intro exI conjI)
  qed
qed

end

section \<open>The first account\<close>

text \<open>A database without accounts, and maps.\<close>

definition no_users :: "('u, 'm) server_state \<Rightarrow> bool" where
  "no_users st \<longleftrightarrow> sv_db_map st = hash_setfreedata_cb (hash_init 256 hash_djb compare_strings) (Some free_userdata) \<and>
     dh_maps (sv_heap st) = Map.empty \<and> dh_next (sv_heap st) = 0 \<and> sv_save_n st = 0"

lemma objs_tidy_none: "om_live os m \<Longrightarrow> mm_pairs m = [] \<Longrightarrow> objs_tidy classes m os"
  by (simp add: objs_tidy_def contents_def room_objs_def)

lemma first_account:
  fixes st :: "('u, 'm) server_state"
  assumes "no_users st" "userdata_fits (data\<lparr>ud_objects := Some 0\<rparr>)"
  obtains tab m where "userdb_add wm data st =
      Inr (True, st\<lparr>sv_db_map := tab, sv_heap := (sv_heap st)\<lparr>dh_maps := [0 \<mapsto> m], dh_next := Suc 0\<rparr>, sv_save_n := 1\<rparr>)"
    "users_tidy wm (st\<lparr>sv_db_map := tab, sv_heap := (sv_heap st)\<lparr>dh_maps := [0 \<mapsto> m], dh_next := Suc 0\<rparr>, sv_save_n := 1\<rparr>)"
    "hash_lookup tab = [ud_username data \<mapsto> data\<lparr>ud_objects := Some 0\<rparr>]" "hash_size tab = 1"
    "\<forall>e\<in>set (hash_entries tab). snd e = data\<lparr>ud_objects := Some 0\<rparr>"
proof -
  let ?tab = "hash_setfreedata_cb (hash_init 256 hash_djb compare_strings) (Some free_userdata) :: (string, userdata_t, 'u db_heap) hash_map"
  let ?m = "user_map_init 8 :: 'u obj_map" and ?data = "data\<lparr>ud_objects := Some 0\<rparr>" and ?name = "ud_username data"
  let ?h = "(sv_heap st)\<lparr>dh_maps := [0 \<mapsto> ?m], dh_next := Suc 0\<rparr>"
  have st: "sv_db_map st = ?tab" "dh_maps (sv_heap st) = Map.empty" "dh_next (sv_heap st) = 0" "sv_save_n st = 0"
    using assms(1) by (simp_all add: no_users_def)
  have empty: "hash_lookup ?tab = Map.empty"
    by (simp add: hash_setfreedata_cb_def hash_lookup_def hash_find_def hash_chain_def hash_index_def hash_init_def fun_eq_iff)
  obtain tab where tab: "hash_overwrite ?tab ?name ?data ?h = Inr (tab, ?h)" "db_table_ok tab" "hash_lookup tab = [?name \<mapsto> ?data]"
    using db_table.overwrite_new[OF owned_table_init, of 256 ?name ?data ?h] empty by auto
  let ?u = "st\<lparr>sv_db_map := tab, sv_heap := ?h, sv_save_n := 1\<rparr>"
  have "inherit_objects (userdb_lookup ?name st) st = Inr (0, st\<lparr>sv_heap := ?h\<rparr>)"
    by (simp add: userdb_lookup_def st empty inherit_objects_def new_map_def Let_def)
  then have add: "userdb_add wm data st = Inr (True, ?u)"
    using tab(1) by (simp add: userdb_add_def server_save_state_def SAVE_INTERVAL_def Let_def st)
  have entries: "e = (?name, ?data)" if "e \<in> set (hash_entries tab)" for e
    using db_table.entries_iff[OF tab(2), of "fst e" "snd e"] that tab(3) by (auto simp: prod_eq_iff split: if_splits)
  have "length (hash_entries tab) = card (dom (hash_lookup tab))"
    using distinct_card[OF db_table.entries_distinct[OF tab(2)]] db_table.dom_entries[OF tab(2)] by simp
  then have len: "length (hash_entries tab) = 1" by (simp add: tab(3))
  moreover have "mm_pairs ?m = []" by (rule user_map_init_empty(3))
  moreover have "om_live (sv_obj st) ?m" by (rule empty_map_live(2)) simp
  ultimately have "user_tidy wm ?u ?data"
    using assms(2) by (simp add: user_tidy_def objs_tidy_none even_buckets_def) (simp add: room_objs_def)
  moreover have "fst e = ud_username (snd e)" "snd e = ?data" if "e \<in> set (hash_entries tab)" for e
    using entries[OF that] by simp_all
  ultimately have "users_tidy wm ?u" using tab(2) len by (simp add: users_tidy_def)
  moreover have "hash_size tab = 1" using tab(2) len by (simp add: hash_size_def owned_table_def hash_counted_def)
  moreover have "\<forall>e\<in>set (hash_entries tab). snd e = ?data" using entries by auto
  ultimately show thesis using that[OF add] tab(3) by simp
qed

end
