(* ===== verification/Nc_Dunnet_Save.thy ===== *)
theory Nc_Dunnet_Save
  imports Nc_Dunnet_World Nc_Restart
begin

text \<open>
  Saving the world of \<open>worlds/dunnet.c\<close> and loading it after a restart. The two rooms with data of
  their own, the fork and the computer room, write and read their flags.
\<close>

section \<open>The flags\<close>

lemma dunnet_hooks:
  assumes "i < 11"
  shows "rd_hook_serialize (netcosm_world ! i) = (if i \<in> {2, 10} then Some bool_ser else None)"
    "rd_hook_deserialize (netcosm_world ! i) = (if i \<in> {2, 10} then Some bool_deser else None)"
proof -
  have "i = 0 \<or> i = 1 \<or> i = 2 \<or> i = 3 \<or> i = 4 \<or> i = 5 \<or> i = 6 \<or> i = 7 \<or> i = 8 \<or> i = 9 \<or> i = 10"
    using assms by arith
  then show "rd_hook_serialize (netcosm_world ! i) = (if i \<in> {2, 10} then Some bool_ser else None)"
    "rd_hook_deserialize (netcosm_world ! i) = (if i \<in> {2, 10} then Some bool_deser else None)"
    by (auto simp: netcosm_world_def dead_end_row_def ew_road_row_def fork_row_def senw_road_row_def
      bear_hangout_row_def hidden_area_row_def nesw_road_row_def building_front_row_def building_hallway_row_def
      mailroom_row_def computer_room_row_def plain_row_def)
qed

text \<open>Both flags are set, as the init hooks leave them; the flag of a room is as before.\<close>

definition flags_set :: "dunnet \<Rightarrow> bool" where
  "flags_set m \<longleftrightarrow> dn_flag m 2 \<noteq> None \<and> dn_flag m 10 \<noteq> None"

definition same_flag :: "dunnet \<Rightarrow> nat \<Rightarrow> dunnet \<Rightarrow> bool" where
  "same_flag m i m' \<longleftrightarrow> (i \<in> {2, 10} \<longrightarrow> dn_flag m' (int i) = dn_flag m (int i))"

lemma dunnet_rooms_saved:
  assumes keep: "\<And>m f. sound m \<Longrightarrow> sound (m\<lparr>dn_flag := f\<rparr>)"
  shows "saving_module dunnet_module flags_set sound same_flag"
proof
  have wm: "wm_world dunnet_module = netcosm_world" by (simp add: dunnet_module_def)
  show "rd_hook_serialize (wm_world dunnet_module ! i) = None \<and> same_flag m i m'"
    if "i < length (wm_world dunnet_module)" "rd_hook_deserialize (wm_world dunnet_module ! i) = None" for i m m'
    using that dunnet_hooks[of i] by (simp add: wm netcosm_rooms same_flag_def split: if_splits)
  fix i des and st0 st :: dn_state
  assume i: "i < length (wm_world dunnet_module)" "rd_hook_deserialize (wm_world dunnet_module ! i) = Some des"
    and sane: "flags_set (sv_module st0)" and sound: "sound (sv_module st)" and len: "i < length (sv_world st)"
  have h: "i \<in> {2, 10}" "des = bool_deser" "hook_bytes dunnet_module st0 i = bool_ser (int i) st0"
    using i dunnet_hooks[of i] by (auto simp: wm netcosm_rooms hook_bytes_def split: if_splits)
  then obtain b where b: "dn_flag (sv_module st0) (int i) = Some b" using sane by (auto simp: flags_set_def)
  let ?m' = "(sv_module st)\<lparr>dn_flag := (dn_flag (sv_module st))(int i := Some b)\<rparr>"
  have "des (int i) (hook_bytes dunnet_module st0 i @ rest) st = Inr (rest, st\<lparr>sv_module := ?m'\<rparr>)" for rest
    using len by (simp add: h(2,3) bool_ser_def bool_deser_def b flag_set_def room_get_def)
  moreover have "same_flag (sv_module st0) i ?m'" by (simp add: same_flag_def b)
  moreover have "same_flag (sv_module st0) j (sv_module st) \<Longrightarrow> same_flag (sv_module st0) j ?m'" for j
    using b by (auto simp: same_flag_def)
  ultimately show "\<exists>m'. sound m' \<and> (\<forall>rest. des (int i) (hook_bytes dunnet_module st0 i @ rest) st = Inr (rest, st\<lparr>sv_module := m'\<rparr>)) \<and>
      same_flag (sv_module st0) i m' \<and>
      (\<forall>j. same_flag (sv_module st0) j (sv_module st) \<longrightarrow> same_flag (sv_module st0) j m')"
    using keep[OF sound] by blast
qed

interpretation dunnet_saves: saving_module dunnet_module flags_set "\<lambda>_. True" same_flag
  by (rule dunnet_rooms_saved) simp

section \<open>The records of users\<close>

text \<open>
  A record is 0 or was handed out; new ones come after all that were. What the file keeps of one is
  the state of the console, an \<open>int\<close>.
\<close>

definition records_ok :: "dunnet \<Rightarrow> bool" where
  "records_ok m \<longleftrightarrow> dn_next m \<noteq> 0 \<and> (\<forall>q\<ge>dn_next m. dn_user m q = None)"

definition console_fits :: "dunnet \<Rightarrow> nat \<Rightarrow> bool" where
  "console_fits m d \<longleftrightarrow> d = 0 \<or> (\<exists>du. dn_user m d = Some du \<and> fits_int (du_console_state du))"

definition same_console :: "dunnet \<Rightarrow> nat \<Rightarrow> dunnet \<Rightarrow> nat \<Rightarrow> bool" where
  "same_console m d m' d' \<longleftrightarrow> (d' = 0 \<longleftrightarrow> d = 0) \<and> d' < dn_next m' \<and>
     (d \<noteq> 0 \<longrightarrow> map_option du_console_state (dn_user m' d') = map_option du_console_state (dn_user m d))"

interpretation dunnet_game: saving_users dunnet_module flags_set records_ok same_flag console_fits same_console
proof (rule saving_users.intro[OF dunnet_rooms_saved], simp add: records_ok_def, unfold_locales)
  show "wm_write_userdata_cb dunnet_module = None \<and> same_console m d m' d" if "wm_read_userdata_cb dunnet_module = None" for m m' d
    using that by (simp add: dunnet_module_def)
  fix rd d and st0 st :: dn_state
  assume rd: "wm_read_userdata_cb dunnet_module = Some rd" and d: "console_fits (sv_module st0) d" and ok: "records_ok (sv_module st)"
  have cb: "rd = netcosm_read_userdata_cb" "data_bytes dunnet_module st0 d = netcosm_write_userdata_cb d st0"
    using rd by (simp_all add: dunnet_module_def data_bytes_def)
  let ?q = "dn_next (sv_module st)"
  show "\<exists>d' m'. records_ok m' \<and> (\<forall>rest. rd (data_bytes dunnet_module st0 d @ rest) st = Inr (d', rest, st\<lparr>sv_module := m'\<rparr>)) \<and>
      same_console (sv_module st0) d m' d' \<and>
      (\<forall>e e'. same_console (sv_module st0) e (sv_module st) e' \<longrightarrow> same_console (sv_module st0) e m' e') \<and>
      (\<forall>m i. same_flag m i (sv_module st) \<longrightarrow> same_flag m i m')"
  proof (cases "d = 0")
    case True
    have "rd (data_bytes dunnet_module st0 d @ rest) st = Inr (0, rest, st\<lparr>sv_module := sv_module st\<rparr>)" for rest
      unfolding cb by (simp add: True netcosm_write_userdata_cb_def netcosm_read_userdata_cb_def)
    then show ?thesis using True ok
      by (intro exI[of _ 0] exI[of _ "sv_module st"]) (simp add: same_console_def records_ok_def)
  next
    case False
    then obtain du where du: "dn_user (sv_module st0) d = Some du" "fits_int (du_console_state du)" using d by (auto simp: console_fits_def)
    let ?du = "\<lparr>du_console_state = du_console_state du, du_prompt_pass = False, du_correct_user = False, du_fails = 0\<rparr>"
    let ?m' = "(sv_module st)\<lparr>dn_user := (dn_user (sv_module st))(?q \<mapsto> ?du), dn_next := ?q + 1\<rparr>"
    have "rd (data_bytes dunnet_module st0 d @ rest) st = Inr (?q, rest, st\<lparr>sv_module := ?m'\<rparr>)" for rest
      using False du by (simp add: cb netcosm_write_userdata_cb_def netcosm_read_userdata_cb_def du_set_def Let_def)
    moreover have "records_ok ?m'" using ok by (simp add: records_ok_def)
    moreover have "same_console (sv_module st0) d ?m' ?q" using False du(1) ok by (simp add: same_console_def records_ok_def)
    moreover have "same_console (sv_module st0) e (sv_module st) e' \<Longrightarrow> same_console (sv_module st0) e ?m' e'" for e e'
      by (auto simp: same_console_def)
    moreover have "same_flag m i (sv_module st) \<Longrightarrow> same_flag m i ?m'" for m i by (simp add: same_flag_def)
    ultimately show ?thesis by blast
  qed
qed

section \<open>A fresh process\<close>

lemma fresh_start:
  "restarted dunnet_module ((initial_state dunnet_start)\<lparr>sv_worldfile := a\<rparr>)"
  "restarted dunnet_module ((initial_state dunnet_start)\<lparr>sv_worldfile := a, sv_userfile := b\<rparr>)"
  "records_ok (sv_module ((initial_state dunnet_start)\<lparr>sv_worldfile := a, sv_userfile := b\<rparr>))"
  using fit_initial by (simp_all add: restarted_def heap_fresh_def fit_def dunnet_module_def)
    (simp_all add: initial_state_def obj_state_init_def records_ok_def dunnet_start_def)

lemma hook_flags:
  assumes "\<forall>i<11. hook_done i st"
  shows "dn_flag (sv_module st) 2 = Some False" "dn_flag (sv_module st) 10 = Some False"
proof -
  have "hook_done 2 st" "hook_done 10 st" using assms by simp_all
  then show "dn_flag (sv_module st) 2 = Some False" "dn_flag (sv_module st) 10 = Some False" by (simp_all add: hook_done_def)
qed

section \<open>Properties\<close>

text \<open>A restart keeps the world. When every object is in its room under each of its names, once, no room has
  more than 22 such pairs of a name and an object, the
  names and descriptions are C strings, and both flags are set, \<open>world_save\<close> succeeds; and a
  server that starts with no world and finds the file reads all of it with \<open>world_load\<close>: every room
  has its id, name, description, exits and verbs, each name in it leads to an object of the same name, class,
  id, aliases and description, and the map of rooms, the verbs, the counter of ids and the two flags are as
  before.\<close>

theorem dunnet_world_round_trip:
  assumes "world_tidy dunnet_module st" "flags_set (sv_module st)"
  shows "\<exists>st1. world_save dunnet_module st = Inr st1 \<and>
    (\<forall>s. restarted dunnet_module s \<longrightarrow> sv_worldfile s = sv_worldfile st1 \<longrightarrow>
      (\<exists>st2. world_load dunnet_module s = Inr (True, st2) \<and> length (sv_world st2) = length (sv_world st) \<and>
        (\<forall>i<length (sv_world st). room_same (sv_world st ! i) (sv_obj st) (sv_world st2 ! i) (sv_obj st2)) \<and>
        sv_world_name st2 = sv_world_name st \<and> hash_lookup (sv_world_map st2) = hash_lookup (sv_world_map st) \<and>
        global_verb st2 = global_verb st \<and> obj_get_idcounter (sv_obj st2) = obj_get_idcounter (sv_obj st) \<and>
        dn_flag (sv_module st2) 2 = dn_flag (sv_module st) 2 \<and> dn_flag (sv_module st2) 10 = dn_flag (sv_module st) 10))"
proof -
  obtain st1 where st1: "world_save dunnet_module st = Inr st1" using world_save_bytes[OF assms(1)] by blast
  have len: "length (sv_world st) = 11" using assms(1) by (simp add: world_tidy_def dunnet_module_def netcosm_rooms)
  have "\<exists>st2. world_load dunnet_module s = Inr (True, st2) \<and> length (sv_world st2) = length (sv_world st) \<and>
        (\<forall>i<length (sv_world st). room_same (sv_world st ! i) (sv_obj st) (sv_world st2 ! i) (sv_obj st2)) \<and>
        sv_world_name st2 = sv_world_name st \<and> hash_lookup (sv_world_map st2) = hash_lookup (sv_world_map st) \<and>
        global_verb st2 = global_verb st \<and> obj_get_idcounter (sv_obj st2) = obj_get_idcounter (sv_obj st) \<and>
        dn_flag (sv_module st2) 2 = dn_flag (sv_module st) 2 \<and> dn_flag (sv_module st2) 10 = dn_flag (sv_module st) 10"
    if s: "restarted dunnet_module s" "sv_worldfile s = sv_worldfile st1" for s
  proof -
    obtain st2 where st2: "world_load dunnet_module s = Inr (True, st2)" "length (sv_world st2) = length (sv_world st)"
      "\<forall>i<length (sv_world st). room_same (sv_world st ! i) (sv_obj st) (sv_world st2 ! i) (sv_obj st2) \<and>
         same_flag (sv_module st) i (sv_module st2)"
      "sv_world_name st2 = sv_world_name st" "hash_lookup (sv_world_map st2) = hash_lookup (sv_world_map st)"
      "global_verb st2 = global_verb st" "obj_get_idcounter (sv_obj st2) = obj_get_idcounter (sv_obj st)"
      using dunnet_saves.world_reload[OF assms s(1) TrueI s(2) st1] by blast
    have "same_flag (sv_module st) 2 (sv_module st2)" "same_flag (sv_module st) 10 (sv_module st2)" using st2(3) len by simp_all
    then show ?thesis using st2 by (intro exI[of _ st2]) (simp add: same_flag_def)
  qed
  then show ?thesis using st1 by blast
qed

theorem dunnet_world_round_trip_witness:
  "\<exists>doors st st1 st2. world_init dunnet_module (initial_state dunnet_start) = Inr (doors, st) \<and>
     world_save dunnet_module st = Inr st1 \<and>
     world_load dunnet_module ((initial_state dunnet_start)\<lparr>sv_worldfile := sv_worldfile st1\<rparr>) = Inr (True, st2) \<and>
     length (sv_world st2) = 11 \<and> rm_name (sv_world st2 ! 2) = ''Fork'' \<and>
     contents (rm_objects (sv_world st2 ! 3)) (sv_obj st2) = contents (rm_objects (sv_world st ! 3)) (sv_obj st) \<and>
     dn_flag (sv_module st2) 10 = Some False"
proof -
  have known: "known_verbs (initial_state dunnet_start)" by (simp add: known_verbs_def initial_state_def)
  obtain st where st: "world_init dunnet_module (initial_state dunnet_start) = Inr ([(7, dir_num DIR_NE), (8, dir_num DIR_S)], st)"
    "length (sv_world st) = 11" "\<forall>i<11. hook_done i st" "world_tidy dunnet_module st"
    "\<forall>i<11. rm_name (sv_world st ! i) = rd_name (netcosm_world ! i)"
    using dunnet_boot[OF fit_initial] known by metis
  note flags = hook_flags[OF st(3)]
  let ?s = "\<lambda>st1. (initial_state dunnet_start)\<lparr>sv_worldfile := sv_worldfile st1\<rparr> :: dn_state"
  have "restarted dunnet_module (?s st1)" for st1 by (rule fresh_start(1))
  then obtain st1 st2 where r: "world_save dunnet_module st = Inr st1" "world_load dunnet_module (?s st1) = Inr (True, st2)"
    "length (sv_world st2) = length (sv_world st)"
    "\<forall>i<length (sv_world st). room_same (sv_world st ! i) (sv_obj st) (sv_world st2 ! i) (sv_obj st2)"
    "dn_flag (sv_module st2) 10 = dn_flag (sv_module st) 10"
    using dunnet_world_round_trip[OF st(4)] flags by (fastforce simp: flags_set_def)
  have "rm_name (sv_world st2 ! 2) = rd_name (netcosm_world ! 2)" using r(4) st(2,5) by (simp add: room_same_def)
  then have "rm_name (sv_world st2 ! 2) = ''Fork''" by (simp add: netcosm_world_def fork_row_def plain_row_def)
  moreover have "contents (rm_objects (sv_world st2 ! 3)) (sv_obj st2) = contents (rm_objects (sv_world st ! 3)) (sv_obj st)"
    using r(4) st(2) by (simp add: room_same_def)
  ultimately show ?thesis using st(1,2) r(1-3,5) flags by metis
qed

text \<open>C8: a restart keeps the whole game. When the world, the accounts and the inventories are such that the files
  can describe them, \<open>server_save_state\<close> succeeds; and a server that starts with nothing and finds the two
  files reads them with \<open>world_load\<close> and \<open>userdb_init\<close>, as the start of the server does: every room is as before, and its objects under
  all their names; every account has its name, salt, hash of the password, rights and last login, no
  other account exists, each inventory holds the same objects under the same names; and the module's
  flags and the state of every user's console are back. That the files can describe them means: names, aliases and descriptions are
  C strings and the rest fits its C type; every object is alive and in its room or inventory under its name and each alias, once; and two bounds
  which come not from the files but from the tables that are made when they are read. A room and an inventory hold at most
  22 pairs of a name or alias and an object (\<open>ROOMY_MAX\<close>): beyond this a table can grow past 32 buckets, a size for which
  \<open>hash_djb\<close> does not fit the comparison without case. And an inventory of 3, 5, 6 or 7 objects is excepted, for
  which \<open>userdb_init\<close> makes a table of such a size at once.\<close>

theorem dunnet_restart_correct:
  assumes "world_tidy dunnet_module st" "flags_set (sv_module st)" "users_tidy dunnet_module st"
    and "\<forall>e\<in>set (hash_entries (sv_db_map st)). console_fits (sv_module st) (ud_userdata (snd e))"
  shows "\<exists>st1. server_save_state dunnet_module True st = Inr st1 \<and>
    (\<forall>s. restarted dunnet_module s \<longrightarrow> records_ok (sv_module s) \<longrightarrow>
         sv_worldfile s = sv_worldfile st1 \<longrightarrow> sv_userfile s = sv_userfile st1 \<longrightarrow>
      (\<exists>s1 s2. world_load dunnet_module s = Inr (True, s1) \<and> userdb_init dunnet_module s1 = Inr s2 \<and>
        length (sv_world s2) = length (sv_world st) \<and>
        (\<forall>i<length (sv_world st). room_same (sv_world st ! i) (sv_obj st) (sv_world s2 ! i) (sv_obj s2)) \<and>
        hash_lookup (sv_world_map s2) = hash_lookup (sv_world_map st) \<and> global_verb s2 = global_verb st \<and>
        users_same st s2 \<and>
        (\<forall>name ud ud'. userdb_lookup name st = Some ud \<longrightarrow> userdb_lookup name s2 = Some ud' \<longrightarrow>
           same_console (sv_module st) (ud_userdata ud) (sv_module s2) (ud_userdata ud')) \<and>
        dn_flag (sv_module s2) 2 = dn_flag (sv_module st) 2 \<and> dn_flag (sv_module s2) 10 = dn_flag (sv_module st) 10))"
proof -
  obtain st1 where save: "server_save_state dunnet_module True st = Inr st1"
    and again: "\<forall>s. restarted dunnet_module s \<longrightarrow> records_ok (sv_module s) \<longrightarrow>
        sv_worldfile s = sv_worldfile st1 \<longrightarrow> sv_userfile s = sv_userfile st1 \<longrightarrow>
      (\<exists>s1 s2. world_load dunnet_module s = Inr (True, s1) \<and> userdb_init dunnet_module s1 = Inr s2 \<and> length (sv_world s2) = length (sv_world st) \<and>
        (\<forall>i<length (sv_world st). room_same (sv_world st ! i) (sv_obj st) (sv_world s2 ! i) (sv_obj s2) \<and>
           same_flag (sv_module st) i (sv_module s2)) \<and>
        sv_world_name s2 = sv_world_name st \<and> hash_lookup (sv_world_map s2) = hash_lookup (sv_world_map st) \<and>
        global_verb s2 = global_verb st \<and> users_same st s2 \<and>
        (\<forall>name ud ud'. userdb_lookup name st = Some ud \<longrightarrow> userdb_lookup name s2 = Some ud' \<longrightarrow>
           same_console (sv_module st) (ud_userdata ud) (sv_module s2) (ud_userdata ud')))"
    using dunnet_game.game_reload[OF assms] by (elim exE conjE)
  have len: "length (sv_world st) = 11" using assms(1) by (simp add: world_tidy_def dunnet_module_def netcosm_rooms)
  then have flags: "dn_flag m 2 = dn_flag (sv_module st) 2 \<and> dn_flag m 10 = dn_flag (sv_module st) 10"
    if "\<forall>i<length (sv_world st). P i \<and> same_flag (sv_module st) i m" for P m
    using that[rule_format, of 2] that[rule_format, of 10] by (simp add: same_flag_def)
  show ?thesis
  proof (rule exI[of _ st1], intro conjI save allI impI)
    fix s assume s: "restarted dunnet_module s" "records_ok (sv_module s)" "sv_worldfile s = sv_worldfile st1" "sv_userfile s = sv_userfile st1"
    from again[rule_format, OF s] obtain s1 s2 where r: "world_load dunnet_module s = Inr (True, s1)" "userdb_init dunnet_module s1 = Inr s2"
      "length (sv_world s2) = length (sv_world st)"
      "\<forall>i<length (sv_world st). room_same (sv_world st ! i) (sv_obj st) (sv_world s2 ! i) (sv_obj s2) \<and> same_flag (sv_module st) i (sv_module s2)"
      "hash_lookup (sv_world_map s2) = hash_lookup (sv_world_map st)" "global_verb s2 = global_verb st" "users_same st s2"
      "\<forall>name ud ud'. userdb_lookup name st = Some ud \<longrightarrow> userdb_lookup name s2 = Some ud' \<longrightarrow>
           same_console (sv_module st) (ud_userdata ud) (sv_module s2) (ud_userdata ud')" by (elim exE conjE)
    show "\<exists>s1 s2. world_load dunnet_module s = Inr (True, s1) \<and> userdb_init dunnet_module s1 = Inr s2 \<and>
        length (sv_world s2) = length (sv_world st) \<and>
        (\<forall>i<length (sv_world st). room_same (sv_world st ! i) (sv_obj st) (sv_world s2 ! i) (sv_obj s2)) \<and>
        hash_lookup (sv_world_map s2) = hash_lookup (sv_world_map st) \<and> global_verb s2 = global_verb st \<and>
        users_same st s2 \<and>
        (\<forall>name ud ud'. userdb_lookup name st = Some ud \<longrightarrow> userdb_lookup name s2 = Some ud' \<longrightarrow>
           same_console (sv_module st) (ud_userdata ud) (sv_module s2) (ud_userdata ud')) \<and>
        dn_flag (sv_module s2) 2 = dn_flag (sv_module st) 2 \<and> dn_flag (sv_module s2) 10 = dn_flag (sv_module st) 10"
      by (intro exI[of _ s1] exI[of _ s2] conjI r(1-3,5-8) flags[OF r(4), THEN conjunct1] flags[OF r(4), THEN conjunct2]) (use r(4) in blast)
  qed
qed

text \<open>The world after its start, and one account in a fresh database.\<close>

lemma sample_game:
  fixes st :: dn_state
  assumes "world_tidy dunnet_module st"
  obtains st0 u where "userdb_add dunnet_module sample_user st0 = Inr (True, u)"
    "world_tidy dunnet_module u" "users_tidy dunnet_module u" "sv_module u = sv_module st" "sv_world u = sv_world st"
    "userdb_lookup ''ann'' u = Some (sample_user\<lparr>ud_objects := Some 0\<rparr>)"
    "\<forall>e\<in>set (hash_entries (sv_db_map u)). snd e = sample_user\<lparr>ud_objects := Some 0\<rparr>"
proof -
  let ?st0 = "st\<lparr>sv_db_map := hash_setfreedata_cb (hash_init 256 hash_djb compare_strings) (Some free_userdata),
      sv_heap := (sv_heap st)\<lparr>dh_maps := Map.empty, dh_next := 0\<rparr>, sv_save_n := 0\<rparr>"
  have "no_users ?st0" by (simp add: no_users_def)
  moreover have "userdata_fits (sample_user\<lparr>ud_objects := Some 0\<rparr>)"
    by (auto simp: userdata_fits_def sample_user_def plain_str_def PRIV_ADMIN_def fits_int_def ptr_num_def code_def)
  ultimately obtain tab m where u: "userdb_add dunnet_module sample_user ?st0 =
      Inr (True, ?st0\<lparr>sv_db_map := tab, sv_heap := (sv_heap ?st0)\<lparr>dh_maps := [0 \<mapsto> m], dh_next := Suc 0\<rparr>, sv_save_n := 1\<rparr>)"
    "users_tidy dunnet_module (?st0\<lparr>sv_db_map := tab, sv_heap := (sv_heap ?st0)\<lparr>dh_maps := [0 \<mapsto> m], dh_next := Suc 0\<rparr>, sv_save_n := 1\<rparr>)"
    "hash_lookup tab = [ud_username sample_user \<mapsto> sample_user\<lparr>ud_objects := Some 0\<rparr>]"
    "\<forall>e\<in>set (hash_entries tab). snd e = sample_user\<lparr>ud_objects := Some 0\<rparr>"
    by (rule first_account)
  have "ud_username sample_user = ''ann''" by (simp add: sample_user_def)
  then show thesis using that[OF u(1) _ u(2)] u(3,4) assms by (simp add: world_tidy_def userdb_lookup_def)
qed

theorem dunnet_restart_correct_witness:
  "\<exists>doors st st0 u st1 s1 s2 ud. world_init dunnet_module (initial_state dunnet_start) = Inr (doors, st) \<and>
     userdb_add dunnet_module sample_user st0 = Inr (True, u) \<and> sv_world u = sv_world st \<and>
     server_save_state dunnet_module True u = Inr st1 \<and>
     world_load dunnet_module ((initial_state dunnet_start)\<lparr>sv_worldfile := sv_worldfile st1, sv_userfile := sv_userfile st1\<rparr>) = Inr (True, s1) \<and>
     userdb_init dunnet_module s1 = Inr s2 \<and> userdb_lookup ''ann'' s2 = Some ud \<and> ud_passhash ud = ''00ff'' \<and>
     rm_name (sv_world s2 ! 2) = ''Fork'' \<and> dn_flag (sv_module s2) 10 = Some False"
proof -
  have known: "known_verbs (initial_state dunnet_start)" by (simp add: known_verbs_def initial_state_def)
  obtain st where st: "world_init dunnet_module (initial_state dunnet_start) = Inr ([(7, dir_num DIR_NE), (8, dir_num DIR_S)], st)"
    "length (sv_world st) = 11" "\<forall>i<11. hook_done i st" "world_tidy dunnet_module st"
    "\<forall>i<11. rm_name (sv_world st ! i) = rd_name (netcosm_world ! i)"
    using dunnet_boot[OF fit_initial] known by metis
  note flags = hook_flags[OF st(3)]
  obtain st0 u where u: "userdb_add dunnet_module sample_user st0 = Inr (True, u)" "world_tidy dunnet_module u" "users_tidy dunnet_module u"
    "sv_module u = sv_module st" "sv_world u = sv_world st" "userdb_lookup ''ann'' u = Some (sample_user\<lparr>ud_objects := Some 0\<rparr>)"
    "\<forall>e\<in>set (hash_entries (sv_db_map u)). snd e = sample_user\<lparr>ud_objects := Some 0\<rparr>"
    using sample_game[OF st(4)] by metis
  have hyps: "flags_set (sv_module u)" "\<forall>e\<in>set (hash_entries (sv_db_map u)). console_fits (sv_module u) (ud_userdata (snd e))"
    using flags u(4,7) by (simp_all add: flags_set_def console_fits_def sample_user_def)
  let ?s = "\<lambda>st1. (initial_state dunnet_start)\<lparr>sv_worldfile := sv_worldfile st1, sv_userfile := sv_userfile st1\<rparr> :: dn_state"
  have re: "restarted dunnet_module (?s st1)" "records_ok (sv_module (?s st1))" for st1 by (rule fresh_start)+
  obtain st1 where save: "server_save_state dunnet_module True u = Inr st1"
    and again: "\<forall>s. restarted dunnet_module s \<longrightarrow> records_ok (sv_module s) \<longrightarrow>
         sv_worldfile s = sv_worldfile st1 \<longrightarrow> sv_userfile s = sv_userfile st1 \<longrightarrow>
      (\<exists>s1 s2. world_load dunnet_module s = Inr (True, s1) \<and> userdb_init dunnet_module s1 = Inr s2 \<and>
        length (sv_world s2) = length (sv_world u) \<and>
        (\<forall>i<length (sv_world u). room_same (sv_world u ! i) (sv_obj u) (sv_world s2 ! i) (sv_obj s2)) \<and>
        hash_lookup (sv_world_map s2) = hash_lookup (sv_world_map u) \<and> global_verb s2 = global_verb u \<and>
        users_same u s2 \<and>
        (\<forall>name ud ud'. userdb_lookup name u = Some ud \<longrightarrow> userdb_lookup name s2 = Some ud' \<longrightarrow>
           same_console (sv_module u) (ud_userdata ud) (sv_module s2) (ud_userdata ud')) \<and>
        dn_flag (sv_module s2) 2 = dn_flag (sv_module u) 2 \<and> dn_flag (sv_module s2) 10 = dn_flag (sv_module u) 10)"
    using dunnet_restart_correct[OF u(2) hyps(1) u(3) hyps(2)] by (elim exE conjE)
  have files: "sv_worldfile (?s st1) = sv_worldfile st1" "sv_userfile (?s st1) = sv_userfile st1" by simp_all
  from again[rule_format, OF re files] obtain s1 s2 where r: "world_load dunnet_module (?s st1) = Inr (True, s1)" "userdb_init dunnet_module s1 = Inr s2"
    "\<forall>i<length (sv_world u). room_same (sv_world u ! i) (sv_obj u) (sv_world s2 ! i) (sv_obj s2)" "users_same u s2"
    "dn_flag (sv_module s2) 10 = dn_flag (sv_module u) 10" by (elim exE conjE)
  obtain ud where ud: "userdb_lookup ''ann'' s2 = Some ud" "user_same u (sample_user\<lparr>ud_objects := Some 0\<rparr>) s2 ud"
    using r(4)[unfolded users_same_def, rule_format, of "''ann''"] u(6) by auto
  have "ud = (sample_user\<lparr>ud_objects := Some 0\<rparr>)\<lparr>ud_objects := ud_objects ud, ud_userdata := ud_userdata ud\<rparr>"
    using ud(2) unfolding user_same_def by (elim conjE)
  from arg_cong[OF this, of ud_passhash] have "ud_passhash ud = ''00ff''" by (simp add: sample_user_def)
  moreover have "rm_name (sv_world s2 ! 2) = rd_name (netcosm_world ! 2)" using r(3) st(2,5) u(5) by (simp add: room_same_def)
  then have "rm_name (sv_world s2 ! 2) = ''Fork''" by (simp add: netcosm_world_def fork_row_def plain_row_def)
  moreover have "dn_flag (sv_module s2) 10 = Some False" using r(5) u(4) flags by simp
  ultimately show ?thesis using st(1) u(1,5) save r(1,2) ud(1) by metis
qed

end
