(* ===== verification/Nc_Boot.thy ===== *)
theory Nc_Boot
  imports Nc_Dunnet_Save Nc_Server
begin

text \<open>
  The start of the server as a whole, from the command line to the event loop: with a new data
  directory and the options for an automatic setup, and again on the files that it left.
\<close>

section \<open>Modules\<close>

text \<open>The symbols that a module compiled from a value of the type of modules has.\<close>

definition module_symbols :: "('u, 'm) world_module \<Rightarrow> ('u, 'm) symbols" where
  "module_symbols wm =
     \<lparr>ls_verb_classes = Some (wm_verb_classes wm), ls_obj_classes = Some (wm_obj_classes wm), ls_world = Some (wm_world wm),
      ls_world_name = Some (wm_world_name wm), ls_simulation_cb = wm_simulation_cb wm,
      ls_simulation_interval = Some (wm_simulation_interval wm), ls_write_userdata_cb = wm_write_userdata_cb wm,
      ls_read_userdata_cb = wm_read_userdata_cb wm, ls_raw_mode_cb = wm_raw_mode_cb wm\<rparr>"

lemma load_module_symbols: "load_symbols (Some (module_symbols wm)) = Inr wm"
  by (simp add: load_symbols_def module_symbols_def sym_deref_def)

section \<open>Starting again\<close>

context saving_users begin

lemma server_reopens:
  assumes world: "world_tidy wm st" "sane (sv_module st)" "world_save wm st = Inr w"
    and users: "users_tidy wm u" "\<forall>e\<in>set (hash_entries (sv_db_map u)). data_sane (sv_module u) (ud_userdata (snd e))"
      "userdb_write wm u = Inr (b, v)" "userdb_size u \<noteq> 0"
    and s: "restarted wm s" "sound (sv_module s)" "sv_worldfile s = sv_worldfile w" "sv_userfile s = sv_userfile v"
    and dl: "dlopen ''build/worlds/dunnet.so'' = Some (module_symbols wm)"
  shows "\<exists>m s2. server_start dlopen ctime sha rnd now input [] prefix s = Inr (wm, m, s2) \<and> length (sv_world s2) = length (sv_world st) \<and>
    (\<forall>i<length (sv_world st). room_same (sv_world st ! i) (sv_obj st) (sv_world s2 ! i) (sv_obj s2) \<and>
       restored (sv_module st) i (sv_module s2)) \<and> users_same u s2 \<and> global_verb s2 = global_verb st \<and>
    hash_lookup (sv_world_map s2) = hash_lookup (sv_world_map st)"
proof -
  obtain s1 s2 where r: "world_load wm s = Inr (True, s1)" "userdb_init wm s1 = Inr s2" "length (sv_world s2) = length (sv_world st)"
    "\<forall>i<length (sv_world st). room_same (sv_world st ! i) (sv_obj st) (sv_world s2 ! i) (sv_obj s2) \<and> restored (sv_module st) i (sv_module s2)"
    "users_same u s2" "userdb_size s2 = userdb_size u" "sv_userfile s2 = sv_userfile s" "global_verb s2 = global_verb st"
    "hash_lookup (sv_world_map s2) = hash_lookup (sv_world_map st)"
    using files_reload[OF world users(1-3) s] by (elim exE conjE)
  have "sv_worldfile s \<noteq> None" using s(3) world_save_bytes[OF world(1)] world(3) by auto
  then have "load_worldfile wm s = Inr s1" using r(1) by (auto simp: load_worldfile_def)
  moreover have "sv_userfile s2 \<noteq> None" using r(7) s(4) users(3) unfolding userdb_write_bytes[OF users(1)] by auto
  then have "check_userfile wm sha rnd now input default_options s2 = Inr s2" using r(6) users(4) by (auto simp: check_userfile_def)
  moreover obtain m where "reqmap_init (requests wm ctime) = Inr m" using reqmap_init_ok by blast
  moreover have "op_world_module default_options = Some ''build/worlds/dunnet.so''" "op_data_prefix default_options = None"
    by (simp_all add: default_options_def)
  ultimately have "server_start dlopen ctime sha rnd now input [] prefix s = Inr (wm, m, s2\<lparr>sv_child_map := child_map_init\<rparr>)"
    using r(2) by (simp add: server_start_def dl load_module_symbols enter_prefix_def)
  moreover have "users_same u (s2\<lparr>sv_child_map := child_map_init\<rparr>)"
    using r(5) by (simp add: users_same_def user_same_def userdb_lookup_def cong: option.case_cong)
  moreover have "global_verb (s2\<lparr>sv_child_map := child_map_init\<rparr>) = global_verb st" using r(8) by (simp add: global_verb_def)
  ultimately show ?thesis using r(3,4,9) by (intro exI[of _ m] exI[of _ "s2\<lparr>sv_child_map := child_map_init\<rparr>"]) simp
qed

end

section \<open>The first start\<close>

lemma world_save_changes:
  assumes "world_tidy wm st"
  obtains g f where "world_save wm st = Inr (st\<lparr>sv_global_verbs := g, sv_worldfile := f\<rparr>)"
    "global_verb (st\<lparr>sv_global_verbs := g\<rparr>) = global_verb st"
proof -
  obtain tab st1 where st1: "world_verb_map st = (tab, st1)"
    "world_save wm st = Inr (st1\<lparr>sv_worldfile := Some (file_overwrite (sv_worldfile st1) (world_bytes wm tab st1))\<rparr>)"
    using world_save_bytes[OF assms] by blast
  have "st1 = st\<lparr>sv_global_verbs := sv_global_verbs st1\<rparr> \<and> global_verb st1 = global_verb st"
    using st1(1) verb_table_init(2)[of GLOBAL_VERBMAP_SZ]
    by (cases "sv_global_verbs st") (auto simp: world_verb_map_def init_map_def Let_def global_verb_def)
  then obtain g where "st1 = st\<lparr>sv_global_verbs := g\<rparr>" "global_verb st1 = global_verb st" by blast
  then show thesis using that st1(2) by simp
qed

text \<open>The record of a new account fits the file.\<close>

lemma hex_digit_code: "n < 16 \<Longrightarrow> code (hex_digit n) \<noteq> 0"
  by (simp add: hex_digit_def code_def)

lemma new_userdata_fits:
  assumes "valid_login_name name" "\<forall>x. length (sha x) = AUTH_HASHLEN" "- (2 ^ 63) \<le> now" "now < 2 ^ 63"
  shows "userdata_fits ((new_userdata sha rnd now name pass PRIV_ADMIN)\<lparr>ud_objects := Some 0\<rparr>)"
proof -
  have "code c \<noteq> 0" if "isalpha c \<or> isdigit c" for c using that by (auto simp: isalpha_def isdigit_def)
  then have "plain_str 33 name" using assms(1) by (auto simp: valid_login_iff plain_str_def MAX_NAME_LEN_def)
  moreover have "code (char_of (65 + rnd i mod 26)) \<noteq> 0" for i
  proof -
    have "65 + rnd i mod 26 < 256" using pos_mod_bound[of 26 "int (rnd i)"] by linarith
    then show ?thesis by (simp add: code_def)
  qed
  then have "plain_str 17 (new_salt rnd)" by (auto simp: plain_str_def new_salt_def SALT_LEN_def)
  moreover have "code c \<noteq> 0" if "c \<in> set (hash_pass_hex sha pass salt)" for c salt
  proof -
    have "code b div 16 < 16" "code b mod 16 < 16" for b using code_less[of b] by (simp_all add: less_mult_imp_div_less del: code_less)
    then show ?thesis using that hex_digit_code by (auto simp: hash_pass_hex_eq hex_byte_def)
  qed
  then have "plain_str 129 (hash_pass_hex sha pass salt)" for salt
    using assms(2) by (simp add: plain_str_def) (simp add: hash_pass_hex_eq AUTH_HASHLEN_def)
  ultimately show ?thesis
    using assms(3,4) by (simp add: userdata_fits_def new_userdata_def PRIV_ADMIN_def fits_int_def ptr_num_def)
qed

lemma auto_setup_args:
  "parse_args default_options [''-a'', user, pass] =
     Inr (default_options\<lparr>op_autoconfig := True, op_autouser := Some user, op_autopass := Some pass\<rparr>)"
  by (simp add: next_arg_def)

lemma first_start:
  fixes user :: string
  assumes name: "valid_login_name (remove_cruft user)" and sha: "\<forall>x. length (sha x) = AUTH_HASHLEN"
    and now: "- (2 ^ 63) \<le> now" "now < 2 ^ 63" and dl: "dlopen ''build/worlds/dunnet.so'' = Some (module_symbols dunnet_module)"
  obtains m w0 w u v where
    "server_start dlopen ctime sha rnd now input [''-a'', user, pass] prefix (initial_state dunnet_start) =
       Inr (dunnet_module, m, v\<lparr>sv_child_map := child_map_init\<rparr>)" "reqmap_ok (requests dunnet_module ctime) m"
    "world_tidy dunnet_module w0" "\<forall>i<11. rm_name (sv_world w0 ! i) = rd_name (netcosm_world ! i)" "\<forall>i<11. hook_done i w0"
    "world_save dunnet_module w0 = Inr w" "users_tidy dunnet_module u" "userdb_write dunnet_module u = Inr (True, v)"
    "sv_worldfile v = sv_worldfile w" "sv_world v = sv_world w0" "sv_obj v = sv_obj w0" "sv_module v = sv_module w0"
    "userdb_size u = 1" "users_same u = users_same v"
    "\<forall>e\<in>set (hash_entries (sv_db_map u)). ud_userdata (snd e) = 0"
    "hash_lookup (sv_db_map v) = [remove_cruft user \<mapsto>
       (new_userdata sha rnd now (remove_cruft user) (remove_cruft pass) PRIV_ADMIN)\<lparr>ud_objects := Some 0\<rparr>]"
    "sv_children v = Map.empty" "sv_num_clients v = 0" "global_verb v = global_verb w0" "sv_world_map v = sv_world_map w0"
proof -
  let ?s = "initial_state dunnet_start :: dn_state"
  let ?data = "new_userdata sha rnd now (remove_cruft user) (remove_cruft pass) PRIV_ADMIN"
  obtain doors w0 where w0: "world_init dunnet_module ?s = Inr (doors, w0)" "\<forall>i<11. hook_done i w0" "world_tidy dunnet_module w0"
    "\<forall>i<11. rm_name (sv_world w0 ! i) = rd_name (netcosm_world ! i)" "accounts w0 = accounts ?s"
  proof -
    have "known_verbs ?s" by (simp add: known_verbs_def initial_state_def)
    then show thesis using dunnet_boot[OF fit_initial] that by metis
  qed
  have acc: "dh_maps (sv_heap w0) = Map.empty" "dh_next (sv_heap w0) = 0" "sv_userfile w0 = None" "sv_save_n w0 = 0"
    "sv_children w0 = Map.empty" "sv_num_clients w0 = 0"
    using w0(5) by (simp_all add: accounts_def initial_state_def)
  obtain g f where w: "world_save dunnet_module w0 = Inr (w0\<lparr>sv_global_verbs := g, sv_worldfile := f\<rparr>)"
    and g: "global_verb (w0\<lparr>sv_global_verbs := g\<rparr>) = global_verb w0"
    by (rule world_save_changes[OF w0(3)])
  let ?w = "w0\<lparr>sv_global_verbs := g, sv_worldfile := f\<rparr>"
  let ?tab = "hash_setfreedata_cb (hash_init 256 hash_djb compare_strings) (Some free_userdata)"
  let ?r = "?w\<lparr>sv_db_map := ?tab\<rparr>"
  have load: "load_worldfile dunnet_module ?s = Inr ?w"
    using w0(1) w by (simp add: load_worldfile_def) (simp add: initial_state_def)
  have init: "userdb_init dunnet_module ?w = Inr ?r" by (simp add: userdb_init_def acc)
  have "no_users ?r" by (simp add: no_users_def acc)
  then obtain tab m0 where u: "userdb_add dunnet_module ?data ?r =
      Inr (True, ?r\<lparr>sv_db_map := tab, sv_heap := (sv_heap ?r)\<lparr>dh_maps := [0 \<mapsto> m0], dh_next := Suc 0\<rparr>, sv_save_n := 1\<rparr>)"
    "users_tidy dunnet_module (?r\<lparr>sv_db_map := tab, sv_heap := (sv_heap ?r)\<lparr>dh_maps := [0 \<mapsto> m0], dh_next := Suc 0\<rparr>, sv_save_n := 1\<rparr>)"
    "hash_lookup tab = [ud_username ?data \<mapsto> ?data\<lparr>ud_objects := Some 0\<rparr>]" "hash_size tab = 1"
    "\<forall>e\<in>set (hash_entries tab). snd e = ?data\<lparr>ud_objects := Some 0\<rparr>"
    by (rule first_account[OF _ new_userdata_fits[OF name sha now]])
  define u where "u = ?r\<lparr>sv_db_map := tab, sv_heap := (sv_heap ?r)\<lparr>dh_maps := [0 \<mapsto> m0], dh_next := Suc 0\<rparr>, sv_save_n := 1\<rparr>"
  have tidy: "users_tidy dunnet_module u" using u(2) by (simp add: u_def)
  obtain bytes where v: "userdb_write dunnet_module u = Inr (True, u\<lparr>sv_userfile := Some bytes\<rparr>)" using userdb_write_bytes[OF tidy] by blast
  have add: "auth_user_add dunnet_module sha rnd now user pass PRIV_ADMIN ?r = Inr (True, u)"
    using u(1) name by (simp add: auth_user_add_def add_user_internal_def Let_def u_def)
  let ?opts = "default_options\<lparr>op_autoconfig := True, op_autouser := Some user, op_autopass := Some pass\<rparr>"
  have opts: "op_world_module ?opts = Some ''build/worlds/dunnet.so''" "op_data_prefix ?opts = None" by (simp_all add: default_options_def)
  have check: "check_userfile dunnet_module sha rnd now input ?opts ?r = Inr (u\<lparr>sv_userfile := Some bytes\<rparr>)"
    by (simp add: check_userfile_def acc add v)
  obtain m where m: "reqmap_init (requests dunnet_module ctime) = Inr m" "reqmap_ok (requests dunnet_module ctime) m"
    using reqmap_init_ok by blast
  have "server_start dlopen ctime sha rnd now input [''-a'', user, pass] prefix ?s =
      Inr (dunnet_module, m, u\<lparr>sv_userfile := Some bytes, sv_child_map := child_map_init\<rparr>)"
    unfolding server_start_def auto_setup_args res_bind_simps opts option.case dl load_module_symbols load enter_prefix_def if_P[OF opts(2)]
      m(1) by (simp add: init check)
  then have start: "server_start dlopen ctime sha rnd now input [''-a'', user, pass] prefix ?s =
      Inr (dunnet_module, m, (u\<lparr>sv_userfile := Some bytes\<rparr>)\<lparr>sv_child_map := child_map_init\<rparr>)" by simp
  have "ud_username ?data = remove_cruft user" "ud_userdata ?data = 0" by (simp_all add: new_userdata_def)
  moreover have "users_same u = users_same (u\<lparr>sv_userfile := Some bytes\<rparr>)"
    by (rule ext) (simp add: users_same_def user_same_def user_map_def userdb_lookup_def cong: option.case_cong)
  moreover have "global_verb (u\<lparr>sv_userfile := Some bytes\<rparr>) = global_verb w0" using g by (simp add: u_def global_verb_def)
  ultimately show thesis
    using that[OF start m(2) w0(3,4,2) w tidy v] u(3-5) by (simp add: u_def userdb_size_def acc)
qed

section \<open>Properties\<close>

text \<open>C7: the server starts, and starts again. With the options \<open>-a\<close>, a valid name and a password, on a machine
  without files, the program builds and saves the world of \<open>dunnet\<close>, makes the account and comes to its event loop with the table of
  requests, no client and that one account, an administrator's, which the password opens. Started once more on the two files it left,
  by whatever setup, it comes to its event loop again without asking for an account: with the same rooms and map of rooms, the same objects,
  the same verbs (those of each room, and the global ones, among them the five of \<open>dunnet\<close>), the same account and the same flags.
  No file operation fails, and \<open>dlopen\<close> finds \<open>dunnet\<close> under the default name.\<close>

theorem dunnet_server_starts:
  assumes "valid_login_name (remove_cruft user)" "\<forall>x. length (sha x) = AUTH_HASHLEN" "- (2 ^ 63) \<le> now" "now < 2 ^ 63"
    and "dlopen ''build/worlds/dunnet.so'' = Some (module_symbols dunnet_module)"
  shows "\<exists>m st ud. server_start dlopen ctime sha rnd now input [''-a'', user, pass] prefix (initial_state dunnet_start) = Inr (dunnet_module, m, st) \<and>
    reqmap_ok (requests dunnet_module ctime) m \<and>
    (\<forall>i<11. rm_name (sv_world st ! i) = rd_name (netcosm_world ! i)) \<and>
    (\<forall>name\<in>set dunnet_verbs. has_verb st name) \<and>
    listening \<lparr>sy_state = st, sy_running = {}, sy_zombies = [], sy_reap_children = False\<rparr> \<and>
    userdb_lookup (remove_cruft user) st = Some ud \<and> ud_priv ud = PRIV_ADMIN \<and> password_ok sha ud (remove_cruft pass) \<and>
    (\<forall>name. name \<noteq> remove_cruft user \<longrightarrow> userdb_lookup name st = None) \<and>
    (\<forall>sha' rnd' now' input' prefix'. \<exists>m' st'.
       server_start dlopen ctime sha' rnd' now' input' [] prefix'
         ((initial_state dunnet_start)\<lparr>sv_worldfile := sv_worldfile st, sv_userfile := sv_userfile st\<rparr>) = Inr (dunnet_module, m', st') \<and>
       length (sv_world st') = 11 \<and>
       (\<forall>i<11. room_same (sv_world st ! i) (sv_obj st) (sv_world st' ! i) (sv_obj st')) \<and> users_same st st' \<and>
       global_verb st' = global_verb st \<and> hash_lookup (sv_world_map st') = hash_lookup (sv_world_map st) \<and>
       dn_flag (sv_module st') 2 = Some False \<and> dn_flag (sv_module st') 10 = Some False)"
proof -
  obtain m w0 w u v where
    start: "server_start dlopen ctime sha rnd now input [''-a'', user, pass] prefix (initial_state dunnet_start) =
       Inr (dunnet_module, m, v\<lparr>sv_child_map := child_map_init\<rparr>)" "reqmap_ok (requests dunnet_module ctime) m"
    and w0: "world_tidy dunnet_module w0" "\<forall>i<11. rm_name (sv_world w0 ! i) = rd_name (netcosm_world ! i)" "\<forall>i<11. hook_done i w0"
      "world_save dunnet_module w0 = Inr w"
    and u: "users_tidy dunnet_module u" "userdb_write dunnet_module u = Inr (True, v)"
    and v: "sv_worldfile v = sv_worldfile w" "sv_world v = sv_world w0" "sv_obj v = sv_obj w0" "sv_module v = sv_module w0"
    and u': "userdb_size u = 1" "users_same u = users_same v" "\<forall>e\<in>set (hash_entries (sv_db_map u)). ud_userdata (snd e) = 0"
    and ann: "hash_lookup (sv_db_map v) = [remove_cruft user \<mapsto>
       (new_userdata sha rnd now (remove_cruft user) (remove_cruft pass) PRIV_ADMIN)\<lparr>ud_objects := Some 0\<rparr>]"
    and kids: "sv_children v = Map.empty" "sv_num_clients v = 0"
    and verbs: "global_verb v = global_verb w0" "sv_world_map v = sv_world_map w0"
    by (rule first_start[where user = user and sha = sha and now = now and dlopen = dlopen and ctime = ctime and rnd = rnd and
        input = input and pass = pass and prefix = prefix]) (use assms in simp_all)
  let ?st = "v\<lparr>sv_child_map := child_map_init\<rparr>"
  let ?s = "(initial_state dunnet_start)\<lparr>sv_worldfile := sv_worldfile ?st, sv_userfile := sv_userfile ?st\<rparr> :: dn_state"
  let ?ud = "(new_userdata sha rnd now (remove_cruft user) (remove_cruft pass) PRIV_ADMIN)\<lparr>ud_objects := Some 0\<rparr>"
  note flags = hook_flags[OF w0(3)]
  then have sane: "flags_set (sv_module w0)" "\<forall>e\<in>set (hash_entries (sv_db_map u)). console_fits (sv_module u) (ud_userdata (snd e))"
    using u'(3) by (simp_all add: flags_set_def console_fits_def)
  have s: "restarted dunnet_module ?s" "records_ok (sv_module ?s)" by (rule fresh_start)+
  have len: "length (sv_world w0) = 11" using w0(1) by (simp add: world_tidy_def dunnet_module_def netcosm_rooms)
  have same: "users_same ?st = users_same v"
    by (rule ext) (simp add: users_same_def user_same_def user_map_def userdb_lookup_def cong: option.case_cong)
  have "\<exists>m' st'. server_start dlopen ctime sha' rnd' now' input' [] prefix' ?s = Inr (dunnet_module, m', st') \<and>
       length (sv_world st') = 11 \<and>
       (\<forall>i<11. room_same (sv_world ?st ! i) (sv_obj ?st) (sv_world st' ! i) (sv_obj st')) \<and> users_same ?st st' \<and>
       global_verb st' = global_verb ?st \<and> hash_lookup (sv_world_map st') = hash_lookup (sv_world_map ?st) \<and>
       dn_flag (sv_module st') 2 = Some False \<and> dn_flag (sv_module st') 10 = Some False" for sha' rnd' now' input' prefix'
  proof -
    have size: "userdb_size u \<noteq> 0" and files: "sv_worldfile ?s = sv_worldfile w" "sv_userfile ?s = sv_userfile v" using u'(1) v(1) by simp_all
    obtain m' st' where r: "server_start dlopen ctime sha' rnd' now' input' [] prefix' ?s = Inr (dunnet_module, m', st')"
      "length (sv_world st') = length (sv_world w0)"
      "\<forall>i<length (sv_world w0). room_same (sv_world w0 ! i) (sv_obj w0) (sv_world st' ! i) (sv_obj st') \<and>
         same_flag (sv_module w0) i (sv_module st')" "users_same u st'" "global_verb st' = global_verb w0"
      "hash_lookup (sv_world_map st') = hash_lookup (sv_world_map w0)"
      using dunnet_game.server_reopens[where dlopen = dlopen, OF w0(1) sane(1) w0(4) u(1) sane(2) u(2) size s files assms(5)] by blast
    have "same_flag (sv_module w0) 2 (sv_module st')" "same_flag (sv_module w0) 10 (sv_module st')" using r(3) len by simp_all
    moreover have "global_verb ?st = global_verb w0" using verbs(1) by (simp add: global_verb_def)
    ultimately show ?thesis using r len v(2,3) flags u'(2) same verbs(2) by (intro exI[of _ m'] exI[of _ st']) (simp add: same_flag_def)
  qed
  moreover have "userdb_lookup name ?st = (if name = remove_cruft user then Some ?ud else None)" for name
    by (simp add: userdb_lookup_def ann)
  moreover have "ud_priv ?ud = PRIV_ADMIN" by (simp add: new_userdata_def)
  moreover have "password_ok sha ?ud (remove_cruft pass)"
    using password_ok_new[OF assms(2), of rnd now "remove_cruft user" "remove_cruft pass" PRIV_ADMIN "remove_cruft pass"]
    by (simp add: password_ok_def)
  moreover have "listening \<lparr>sy_state = ?st, sy_running = {}, sy_zombies = [], sy_reap_children = False\<rparr>"
    using kids by (simp add: listening_def)
  moreover have "has_verb ?st name" if "name \<in> set dunnet_verbs" for name
  proof -
    have "has_verb w0 name" using w0(3)[rule_format, of 0] that by (simp add: hook_done_def)
    then have "global_verb v name \<noteq> None" unfolding verbs(1) by (auto simp: has_verb_def global_verb_def)
    then show ?thesis by (auto simp: has_verb_def global_verb_def split: option.splits)
  qed
  ultimately show ?thesis using start w0(2) v(2) by (intro exI[of _ m] exI[of _ ?st] exI[of _ ?ud]) simp
qed

theorem dunnet_server_starts_witness:
  "\<exists>m st ud m' st'. server_start (\<lambda>_. Some (module_symbols dunnet_module)) (\<lambda>_. []) sample_sha (\<lambda>i. i) 0 [] [''-a'', ''ann'', ''secret''] (None, None)
       (initial_state dunnet_start) = Inr (dunnet_module, m, st) \<and>
     userdb_lookup ''ann'' st = Some ud \<and> password_ok sample_sha ud ''secret'' \<and> userdb_lookup ''bob'' st = None \<and>
     server_start (\<lambda>_. Some (module_symbols dunnet_module)) (\<lambda>_. []) sample_sha (\<lambda>i. i) 5 [] [] (None, None)
       ((initial_state dunnet_start)\<lparr>sv_worldfile := sv_worldfile st, sv_userfile := sv_userfile st\<rparr>) = Inr (dunnet_module, m', st') \<and>
     rm_name (sv_world st' ! 2) = ''Fork'' \<and> userdb_lookup ''bob'' st' = None \<and> global_verb st' ''dig'' \<noteq> None"
proof -
  have cruft: "remove_cruft ''ann'' = ''ann''" "remove_cruft ''secret'' = ''secret''" "valid_login_name ''ann''" by code_simp+
  have len: "\<forall>x. length (sample_sha x) = AUTH_HASHLEN" by (auto simp: sample_sha_def AUTH_HASHLEN_def min_def)
  have name: "valid_login_name (remove_cruft ''ann'')" by (simp only: cruft)
  have base: "- (2 ^ 63) \<le> (0 :: int)" "(0 :: int) < 2 ^ 63" by simp_all
  obtain m st ud where r: "server_start (\<lambda>_. Some (module_symbols dunnet_module)) (\<lambda>_. []) sample_sha (\<lambda>i. i) 0 [] [''-a'', ''ann'', ''secret''] (None, None)
       (initial_state dunnet_start) = Inr (dunnet_module, m, st)"
    "\<forall>i<11. rm_name (sv_world st ! i) = rd_name (netcosm_world ! i)"
    "userdb_lookup ''ann'' st = Some ud" "password_ok sample_sha ud ''secret''" "\<forall>name. name \<noteq> ''ann'' \<longrightarrow> userdb_lookup name st = None"
    "\<forall>name\<in>set dunnet_verbs. has_verb st name"
    and again: "\<forall>sha' rnd' now' input' prefix'. \<exists>m' st'.
       server_start (\<lambda>_. Some (module_symbols dunnet_module)) (\<lambda>_. []) sha' rnd' now' input' [] prefix'
         ((initial_state dunnet_start)\<lparr>sv_worldfile := sv_worldfile st, sv_userfile := sv_userfile st\<rparr>) = Inr (dunnet_module, m', st') \<and>
       length (sv_world st') = 11 \<and>
       (\<forall>i<11. room_same (sv_world st ! i) (sv_obj st) (sv_world st' ! i) (sv_obj st')) \<and> users_same st st' \<and>
       global_verb st' = global_verb st \<and> hash_lookup (sv_world_map st') = hash_lookup (sv_world_map st) \<and>
       dn_flag (sv_module st') 2 = Some False \<and> dn_flag (sv_module st') 10 = Some False"
    using dunnet_server_starts[where dlopen = "\<lambda>_. Some (module_symbols dunnet_module)" and ctime = "\<lambda>_. []" and rnd = "\<lambda>i. i"
        and input = "[]" and pass = "''secret''" and prefix = "(None, None)", OF name len base refl]
    unfolding cruft(1,2) by (elim exE conjE)
  obtain m' st' where r': "server_start (\<lambda>_. Some (module_symbols dunnet_module)) (\<lambda>_. []) sample_sha (\<lambda>i. i) 5 [] [] (None, None)
         ((initial_state dunnet_start)\<lparr>sv_worldfile := sv_worldfile st, sv_userfile := sv_userfile st\<rparr>) = Inr (dunnet_module, m', st')"
    "\<forall>i<11. room_same (sv_world st ! i) (sv_obj st) (sv_world st' ! i) (sv_obj st')" "users_same st st'" "global_verb st' = global_verb st"
    using again by blast
  have "rm_name (sv_world st' ! 2) = rd_name (netcosm_world ! 2)" using r'(2) r(2) by (simp add: room_same_def)
  then have "rm_name (sv_world st' ! 2) = ''Fork''" by (simp add: netcosm_world_def fork_row_def plain_row_def)
  moreover have bob: "userdb_lookup ''bob'' st = None" using r(5) by simp
  moreover have "userdb_lookup ''bob'' st' = None" using r'(3)[unfolded users_same_def, rule_format, of "''bob''"] bob by simp
  moreover have "has_verb st ''dig''" using r(6) by (simp add: dunnet_verbs_def)
  then have "global_verb st' ''dig'' \<noteq> None" unfolding r'(4) by (auto simp: has_verb_def global_verb_def)
  ultimately show ?thesis using r(1,3,4) r'(1) by blast
qed

end
