(* ===== verification/Nc_Worldgen.thy ===== *)
theory Nc_Worldgen
  imports Nc_Requests Nc_Reload
begin

text \<open>
  Starting points for new worlds: the sample module of \<open>worlds/template.c\<close>, and the program
  \<open>tools/worldgen.c\<close> that prints the source of a module whose rooms form a grid.
\<close>

section \<open>The template\<close>

text \<open>The hooks of its only class. \<open>write_string\<close> of NULL crashes, which a hook of this type cannot report.\<close>

definition template_ser :: "string object_t \<Rightarrow> string" where
  "template_ser obj = (case obj_userdata obj of None \<Rightarrow> [] | Some desc \<Rightarrow> write_string desc)"

definition template_deser :: "string \<Rightarrow> string object_t \<Rightarrow> (string option \<times> string) res" where
  "template_deser fd obj = res_bind (read_string fd) (\<lambda>(desc, fd). Inr (Some desc, fd))"

definition template_desc :: "obj_ptr \<Rightarrow> user_ptr \<Rightarrow> (string, unit) server_state \<Rightarrow> (string \<times> (string, unit) server_state) res" where
  "template_desc p user st =
     res_bind (obj_deref p (sv_obj st)) (\<lambda>obj.
       case obj_userdata obj of None \<Rightarrow> Inl Null_Deref | Some desc \<Rightarrow> Inr (desc, st))"

definition template_dup :: "string object_t \<Rightarrow> string option" where
  "template_dup obj = obj_userdata obj"

definition template_obj_classes :: "(string, (string, unit) server_state) obj_class_t list" where
  "template_obj_classes =
     [\<lparr>oc_class_name = ''/generic'', oc_hook_serialize = Some template_ser, oc_hook_deserialize = Some template_deser,
       oc_hook_take = None, oc_hook_drop = None, oc_hook_desc = Some template_desc, oc_hook_dupdata = Some template_dup\<rparr>]"

definition template_world :: "(string, unit) roomdata_t list" where
  "template_world =
     [\<lparr>rd_uniq_id = ''uniq_id'', rd_name = ''Room name'', rd_desc = ''Initial description'',
       rd_adjacent = [None, None, None, None, None, None, None, None, None, None, None, None],
       rd_hook_init = None, rd_hook_enter = None, rd_hook_leave = None, rd_hook_serialize = None,
       rd_hook_deserialize = None, rd_hook_destroy = None\<rparr>]"

text \<open>The symbols the server looks for; those it does not find are NULL.\<close>

definition template_module :: "(string, unit) world_module" where
  "template_module =
     \<lparr>wm_verb_classes = [], wm_obj_classes = template_obj_classes, wm_world = template_world,
      wm_world_name = ''World Name Here'', wm_write_userdata_cb = None, wm_read_userdata_cb = None,
      wm_raw_mode_cb = (\<lambda>_ _ _ _. Inl Use_After_Free),
      wm_simulation_cb = None, wm_simulation_interval = 0\<rparr>"

section \<open>The generator\<close>

definition MAX_X :: nat where "MAX_X = 100"
definition MAX_Y :: nat where "MAX_Y = 100"
definition MAX_Z :: nat where "MAX_Z = 1"

definition gen_dirs :: "(direction_t \<times> int \<times> int \<times> int) list" where
  "gen_dirs =
     [(DIR_N, 0, 1, 0), (DIR_NE, 1, 1, 0), (DIR_E, 1, 0, 0), (DIR_SE, 1, -1, 0), (DIR_S, 0, -1, 0),
      (DIR_SW, -1, -1, 0), (DIR_W, -1, 0, 0), (DIR_NW, -1, 1, 0), (DIR_UP, 0, 0, 1), (DIR_DN, 0, 0, -1)]"

definition room_uid :: "int \<times> int \<times> int \<Rightarrow> string" where
  "room_uid = (\<lambda>(x, y, z). ''room_'' @ decimal_int x @ ''_'' @ decimal_int y @ ''_'' @ decimal_int z)"

definition quote :: "string \<Rightarrow> string" where
  "quote s = CHR 0x22 # s @ [CHR 0x22]"

text \<open>\<open>adj[i]\<close>, as it is printed.\<close>

definition outside :: "int \<times> int \<times> int \<Rightarrow> bool" where
  "outside = (\<lambda>(x, y, z). x < 0 \<or> x \<ge> int MAX_X \<or> y < 0 \<or> y \<ge> int MAX_Y \<or> z < 0 \<or> z \<ge> int MAX_Z)"

definition gen_adj :: "int \<times> int \<times> int \<Rightarrow> direction_t \<times> int \<times> int \<times> int \<Rightarrow> string" where
  "gen_adj = (\<lambda>(x, y, z) (_, off_x, off_y, off_z).
     let new = (x + off_x, y + off_y, z + off_z) in if outside new then ''NULL'' else quote (room_uid new))"

definition gen_room :: "int \<times> int \<times> int \<Rightarrow> string" where
  "gen_room = (\<lambda>(x, y, z).
     ''{'' @ newline @ quote (room_uid (x, y, z)) @ '','' @ newline @
     quote (''Room ('' @ decimal_int x @ '','' @ decimal_int y @ '','' @ decimal_int z @ '')'') @ '','' @ newline @
     quote ''You are in a room...'' @ '','' @
     ''{ '' @ concat (map (\<lambda>d. gen_adj (x, y, z) d @ '', '') gen_dirs) @ ''NONE_IN, NONE_OT },'' @ newline @
     concat (replicate 6 (''NULL,'' @ newline)) @ ''},'' @ newline)"

definition cells :: "(int \<times> int \<times> int) list" where
  "cells = concat (map (\<lambda>x. concat (map (\<lambda>y. map (\<lambda>z. (int x, int y, int z)) [0..<MAX_Z]) [0..<MAX_Y])) [0..<MAX_X])"

definition gen_head :: string where
  "gen_head = ''#include <world_api.h>'' @ newline @ ''const struct roomdata_t netcosm_world[] = {'' @ newline"

definition gen_tail :: string where
  "gen_tail = concat (map (\<lambda>line. line @ newline)
     [''};'',
      ''const size_t netcosm_world_sz = ARRAYLEN(netcosm_world);'',
      ''const char *netcosm_world_name = '' @ quote ''World Name Here'' @ '';'',
      ''static void generic_ser(int fd, struct object_t *obj)'',
      ''{'',
      ''    write_string(fd, obj->userdata);'',
      ''}'',
      ''static void generic_deser(int fd, struct object_t *obj)'',
      ''{'',
      ''    obj->userdata = read_string(fd);'',
      ''}'',
      ''static void generic_destroy(struct object_t *obj)'',
      ''{'',
      ''    free(obj->userdata);'',
      ''}'',
      ''static const char *generic_desc(struct object_t *obj, user_t *user)'',
      ''{'',
      ''    (void) user;'',
      ''    return obj->userdata;'',
      ''}'',
      ''static void *generic_dup(struct object_t *obj)'',
      ''{'',
      ''    return strdup(obj->userdata);'',
      ''}'',
      ''const struct obj_class_t netcosm_obj_classes[] = {'',
      ''    {'',
      ''        '' @ quote ''/generic'' @ '','',
      ''        generic_ser,'',
      ''        generic_deser,'',
      ''        NULL,'',
      ''        NULL,'',
      ''        generic_destroy,'',
      ''        generic_desc,'',
      ''        generic_dup,'',
      ''    },'',
      ''};'',
      ''const size_t netcosm_obj_classes_sz = ARRAYLEN(netcosm_obj_classes);'',
      ''const struct verb_class_t netcosm_verb_classes[] = {'',
      '''',
      ''};'',
      '''',
      ''const size_t netcosm_verb_classes_sz = ARRAYLEN(netcosm_verb_classes);''])"

definition worldgen :: string where
  "worldgen = gen_head @ concat (map gen_room cells) @ gen_tail"

section \<open>The world it prints\<close>

text \<open>
  The neighbour of a cell in a direction, the module with a room for every cell, and how a row
  of the array of rooms is written in C.
\<close>

definition neighbour :: "int \<times> int \<times> int \<Rightarrow> direction_t \<Rightarrow> (int \<times> int \<times> int) option" where
  "neighbour = (\<lambda>(x, y, z) d. case map_of gen_dirs d of None \<Rightarrow> None
     | Some (off_x, off_y, off_z) \<Rightarrow> let new = (x + off_x, y + off_y, z + off_z) in if outside new then None else Some new)"

definition grid_room :: "int \<times> int \<times> int \<Rightarrow> (string, unit) roomdata_t" where
  "grid_room c = \<lparr>rd_uniq_id = room_uid c,
     rd_name = (case c of (x, y, z) \<Rightarrow> ''Room ('' @ decimal_int x @ '','' @ decimal_int y @ '','' @ decimal_int z @ '')''),
     rd_desc = ''You are in a room...'', rd_adjacent = map (\<lambda>d. map_option room_uid (neighbour c d)) directions,
     rd_hook_init = None, rd_hook_enter = None, rd_hook_leave = None, rd_hook_serialize = None,
     rd_hook_deserialize = None, rd_hook_destroy = None\<rparr>"

definition grid_module :: "(string, unit) world_module" where
  "grid_module = template_module\<lparr>wm_world := map grid_room cells\<rparr>"

definition c_adjacent :: "string option \<Rightarrow> string" where
  "c_adjacent adj = (case adj of None \<Rightarrow> ''NULL'' | Some name \<Rightarrow> quote name)"

definition c_row :: "(string, unit) roomdata_t \<Rightarrow> string" where
  "c_row data = ''{'' @ newline @ quote (rd_uniq_id data) @ '','' @ newline @ quote (rd_name data) @ '','' @ newline @
     quote (rd_desc data) @ '','' @
     ''{ '' @ concat (map (\<lambda>adj. c_adjacent adj @ '', '') (take 10 (rd_adjacent data))) @ ''NONE_IN, NONE_OT },'' @ newline @
     concat (replicate 6 (''NULL,'' @ newline)) @ ''},'' @ newline"

lemma gen_room_row: "gen_room c = c_row (grid_room c)"
proof (cases c)
  case (fields x y z)
  have "take 10 directions = map fst gen_dirs" by (simp add: directions_def gen_dirs_def)
  moreover have "\<forall>(d, off)\<in>set gen_dirs. map_of gen_dirs d = Some off" by (simp add: gen_dirs_def)
  ultimately have "map c_adjacent (take 10 (rd_adjacent (grid_room c))) = map (gen_adj c) gen_dirs"
    by (auto simp: fields grid_room_def take_map comp_def gen_adj_def neighbour_def c_adjacent_def Let_def)
  from arg_cong[OF this, of "\<lambda>xs. concat (map (\<lambda>s. s @ '', '') xs)"] show ?thesis
    by (simp add: gen_room_def c_row_def grid_room_def fields comp_def)
qed

lemma grid_exits_end: "neighbour c DIR_IN = None" "neighbour c DIR_OT = None"
  by (cases c; simp add: neighbour_def gen_dirs_def)+

lemma neighbour_back: "neighbour c d = Some c' \<Longrightarrow> \<not> outside c \<Longrightarrow> neighbour c' (opposite d) = Some c"
  by (cases c; cases d) (auto simp: neighbour_def gen_dirs_def Let_def split: if_splits)

text \<open>Cell \<open>i\<close> in the order of the loops.\<close>

definition cell :: "nat \<Rightarrow> int \<times> int \<times> int" where
  "cell i = (int (i div MAX_Y), int (i mod MAX_Y), 0)"

definition cell_pos :: "int \<times> int \<times> int \<Rightarrow> nat" where
  "cell_pos = (\<lambda>(x, y, z). nat x * MAX_Y + nat y)"

lemma concat_grid: "0 < n \<Longrightarrow> concat (map (\<lambda>x. map (f x) [0..<n]) [0..<m]) = map (\<lambda>i. f (i div n) (i mod n)) [0..<m * n]"
proof (induction m)
  case (Suc m)
  have "map (f m) [0..<n] = map (\<lambda>i. f (i div n) (i mod n)) [m * n..<m * n + n]"
    using Suc.prems by (intro nth_equalityI) (simp_all add: div_add1_eq)
  then show ?case using Suc upt_add_eq_append[of 0 "m * n" n] by (simp add: add.commute)
qed simp

lemma cells_eq: "cells = map cell [0..<MAX_X * MAX_Y]"
proof -
  have "concat (map (\<lambda>y. map (\<lambda>z. (int x, int y, int z)) [0..<MAX_Z]) ys) = map (\<lambda>y. (int x, int y, 0)) ys" for x ys
    by (induction ys) (simp_all add: MAX_Z_def)
  then have "cells = concat (map (\<lambda>x. map (\<lambda>y. (int x, int y, 0)) [0..<MAX_Y]) [0..<MAX_X])" by (simp add: cells_def)
  moreover have "0 < MAX_Y" by (simp add: MAX_Y_def)
  ultimately show ?thesis by (simp add: concat_grid cell_def[abs_def])
qed

lemma cell_inside: "i < MAX_X * MAX_Y \<Longrightarrow> \<not> outside (cell i)"
  by (simp add: outside_def cell_def MAX_X_def MAX_Y_def MAX_Z_def not_le less_mult_imp_div_less)

lemma cell_of_pos: "\<not> outside c \<Longrightarrow> cell (cell_pos c) = c \<and> cell_pos c < MAX_X * MAX_Y"
  by (auto simp: outside_def cell_def cell_pos_def MAX_X_def MAX_Y_def MAX_Z_def split: prod.splits)

lemma cell_pos_cell [simp]: "cell_pos (cell i) = i"
  by (simp add: cell_pos_def cell_def)

text \<open>The name of a room tells its cell.\<close>

lemma decimal_digits: "c \<in> set (decimal n) \<Longrightarrow> 48 \<le> code c \<and> code c < 58"
proof (induction n rule: decimal.induct)
  case (1 n)
  then show ?case by (subst (asm) decimal.simps) (auto split: if_splits)
qed

definition undecimal :: "string \<Rightarrow> nat" where
  "undecimal s = foldl (\<lambda>n c. 10 * n + (code c - 48)) 0 s"

lemma undecimal: "undecimal (decimal n) = n"
proof (induction n rule: decimal.induct)
  case (1 n)
  then show ?case by (subst decimal.simps) (simp add: undecimal_def)
qed

lemma no_underscore: "CHR ''_'' \<notin> set (decimal n)"
  using decimal_digits[of "CHR ''_''" n] by (auto simp: code_def)

lemma split_at:
  assumes "c \<notin> set a" "c \<notin> set b" "a @ c # r = b @ c # s" shows "a = b \<and> r = s"
proof -
  have "takeWhile (\<lambda>x. x \<noteq> c) (a @ c # r) = a" "takeWhile (\<lambda>x. x \<noteq> c) (b @ c # s) = b"
    using assms(1,2) by (subst takeWhile_append2; auto)+
  then show ?thesis using assms(3) by simp
qed

lemma room_uid_inj:
  assumes "\<not> outside c" "\<not> outside c'" "room_uid c = room_uid c'" shows "c = c'"
proof -
  obtain x y z x' y' z' where c: "c = (x, y, z)" "c' = (x', y', z')" by (cases c; cases c') blast
  have pos: "\<not> x < 0" "\<not> y < 0" "z = 0" "\<not> x' < 0" "\<not> y' < 0" "z' = 0"
    using assms(1,2) by (simp_all add: c outside_def MAX_Z_def)
  then have e: "decimal (nat x) @ CHR ''_'' # decimal (nat y) @ CHR ''_'' # decimal 0 =
      decimal (nat x') @ CHR ''_'' # decimal (nat y') @ CHR ''_'' # decimal 0"
    using assms(3) by (simp add: c room_uid_def decimal_int_def)
  from split_at[OF no_underscore no_underscore this]
  have "decimal (nat x) = decimal (nat x')" "decimal (nat y) = decimal (nat y')"
    using split_at[OF no_underscore no_underscore] by auto
  then have "nat x = nat x'" "nat y = nat y'" by (metis undecimal)+
  then show ?thesis using pos by (auto simp: c)
qed

lemma grid_linkable: "linkable (map grid_room cells)"
proof -
  have uids: "uids (map grid_room cells) = map (\<lambda>i. room_uid (cell i)) [0..<MAX_X * MAX_Y]"
    by (simp add: uids_def cells_eq grid_room_def)
  have "inj_on (\<lambda>i. room_uid (cell i)) {0..<MAX_X * MAX_Y}"
    using room_uid_inj cell_inside by (intro inj_onI) (metis atLeastLessThan_iff cell_pos_cell)
  then have "distinct (uids (map grid_room cells))" by (simp add: uids distinct_map)
  moreover have "room_uid c' \<in> set (uids (map grid_room cells))" if "neighbour c d = Some c'" for c c' d
  proof -
    have "\<not> outside c'" using that by (auto simp: neighbour_def Let_def split: prod.splits option.splits if_splits)
    then show ?thesis using cell_of_pos[of c'] by (auto simp: uids intro!: image_eqI[of _ _ "cell_pos c'"])
  qed
  moreover have "length (rd_adjacent (grid_room c)) = NUM_DIRECTIONS" for c
    by (simp add: grid_room_def directions_def NUM_DIRECTIONS_def)
  moreover have "\<exists>d c'. neighbour c d = Some c' \<and> name = room_uid c'"
    if "Some name \<in> set (rd_adjacent (grid_room c))" for c name
  proof -
    have "Some name \<in> (\<lambda>d. map_option room_uid (neighbour c d)) ` set directions" using that by (simp add: grid_room_def)
    then obtain d where "Some name = map_option room_uid (neighbour c d)" by blast
    then show ?thesis by (cases "neighbour c d") auto
  qed
  ultimately show ?thesis by (fastforce simp: linkable_def)
qed

text \<open>Neither module has data of its own to save.\<close>

lemma no_saved_data:
  fixes wm :: "('u, 'm) world_module"
  assumes "\<forall>data\<in>set (wm_world wm). rd_hook_serialize data = None \<and> rd_hook_deserialize data = None"
  shows "saving_module wm (\<lambda>_. True) (\<lambda>_. True) (\<lambda>_ _ _. True)"
  using assms by unfold_locales auto

interpretation template_saves: saving_module template_module "\<lambda>_. True" "\<lambda>_. True" "\<lambda>_ _ _. True"
  by (rule no_saved_data) (simp add: template_module_def template_world_def)

interpretation grid_saves: saving_module grid_module "\<lambda>_. True" "\<lambda>_. True" "\<lambda>_ _ _. True"
  by (rule no_saved_data) (simp add: grid_module_def grid_room_def)

section \<open>Properties\<close>

text \<open>C40: the program prints the rows of a world, and that world builds: \<open>world_init\<close> of it succeeds from any state, every
  cell of the grid becomes a room under its name, each exit leads to the room next to it in that direction
  or nowhere at the border, and no door is one-way.\<close>

theorem worldgen_correct:
  "worldgen = gen_head @ concat (map c_row (wm_world grid_module)) @ gen_tail \<and>
   (\<exists>doors st'. world_init grid_module st = Inr (doors, st') \<and> length (sv_world st') = 10000 \<and>
     (\<forall>i<10000. rm_id (sv_world st' ! i) = int i \<and> room_get_id (room_uid (cell i)) st' = int i \<and>
        (\<forall>d. way (sv_world st') i d = (case neighbour (cell i) d of None \<Rightarrow> ROOM_NONE | Some c \<Rightarrow> int (cell_pos c)) \<and>
           (i, dir_num d) \<notin> set doors)))"
proof -
  have wm: "wm_world grid_module = map (\<lambda>i. grid_room (cell i)) [0..<10000]"
    by (simp add: grid_module_def cells_eq MAX_X_def MAX_Y_def)
  have n: "length (wm_world grid_module) = 10000" by (simp add: wm)
  have row: "wm_world grid_module ! i = grid_room (cell i)" if "i < 10000" for i using that by (simp add: wm)
  have link: "linkable (wm_world grid_module)" "\<forall>data\<in>set (wm_world grid_module). rd_hook_init data = None"
    using grid_linkable by (auto simp: grid_module_def grid_room_def)
  obtain doors st' where st': "world_init grid_module st = Inr (doors, st')" "length (sv_world st') = 10000"
    "\<forall>i<10000. let data = grid_room (cell i); room = sv_world st' ! i in
       rm_id room = int i \<and> rm_name room = rd_name data \<and> rm_desc room = rd_desc data \<and> room_get_id (rd_uniq_id data) st' = int i \<and>
       (\<forall>d. way (sv_world st') i d = (case rd_adjacent data ! dir_num d of None \<Rightarrow> ROOM_NONE | Some name \<Rightarrow> room_get_id name st')) \<and>
       (\<forall>d. (i, dir_num d) \<in> set doors \<longleftrightarrow> one_way (sv_world st') i d)"
    using world_init_ok[OF link, of st] row n by (auto simp: Let_def)
  have id: "room_get_id (room_uid (cell i)) st' = int i" if "i < 10000" for i
    using st'(3) that by (simp add: Let_def grid_room_def)
  have inside: "\<not> outside c" if "neighbour c' d = Some c" for c c' d
    using that by (auto simp: neighbour_def Let_def split: prod.splits option.splits if_splits)
  have ten: "MAX_X * MAX_Y = 10000" by (simp add: MAX_X_def MAX_Y_def)
  have way: "way (sv_world st') i d = (case neighbour (cell i) d of None \<Rightarrow> ROOM_NONE | Some c \<Rightarrow> int (cell_pos c))" if "i < 10000" for i d
  proof -
    have "rd_adjacent (grid_room (cell i)) ! dir_num d = map_option room_uid (neighbour (cell i) d)"
      by (cases d) (simp_all add: grid_room_def directions_def)
    then have "way (sv_world st') i d = (case neighbour (cell i) d of None \<Rightarrow> ROOM_NONE | Some c \<Rightarrow> room_get_id (room_uid c) st')"
      using st'(3) that by (simp add: Let_def split: option.split)
    then show ?thesis using inside[of "cell i" d] cell_of_pos id ten by (auto split: option.split) metis
  qed
  have "\<not> one_way (sv_world st') i d" if i: "i < 10000" for i d
  proof (cases "neighbour (cell i) d")
    case (Some c)
    then have c: "cell (cell_pos c) = c" "cell_pos c < 10000" using cell_of_pos[OF inside[OF Some]] ten by simp_all
    have "neighbour c (opposite d) = Some (cell i)" using neighbour_back[OF Some] cell_inside i ten by simp
    then show ?thesis using way[OF i, of d] way[OF c(2), of "opposite d"] Some c by (simp add: one_way_def)
  qed (simp add: one_way_def way[OF i])
  moreover have "worldgen = gen_head @ concat (map c_row (wm_world grid_module)) @ gen_tail"
    by (simp add: worldgen_def gen_room_row[abs_def] grid_module_def comp_def)
  ultimately show ?thesis using st' way id by (intro conjI exI[of _ doors] exI[of _ st']) (simp_all add: Let_def)
qed

theorem worldgen_correct_witness:
  "\<exists>doors st'. world_init grid_module (initial_state ()) = Inr (doors, st') \<and>
     room_get_id ''room_3_7_0'' st' = 307 \<and> way (sv_world st') 307 DIR_N = 308 \<and> way (sv_world st') 307 DIR_UP = ROOM_NONE"
proof -
  obtain doors st' where st': "world_init grid_module (initial_state ()) = Inr (doors, st')"
    "room_get_id (room_uid (cell 307)) st' = int 307"
    "\<forall>d. way (sv_world st') 307 d = (case neighbour (cell 307) d of None \<Rightarrow> ROOM_NONE | Some c \<Rightarrow> int (cell_pos c))"
  proof -
    have "307 < (10000 :: nat)" by simp
    then show thesis using worldgen_correct[of "initial_state ()"] that by blast
  qed
  have "room_uid (cell 307) = ''room_3_7_0''" by code_simp
  moreover have "neighbour (cell 307) DIR_N = Some (3, 8, 0)" "neighbour (cell 307) DIR_UP = None" by code_simp+
  ultimately show ?thesis using st' by (auto simp: cell_pos_def MAX_Y_def)
qed

end
