(* ===== verification/Nc_Api.thy ===== *)
theory Nc_Api
  imports Nc_Util
begin

text \<open>
  The table of functions through which a world module calls the server (\<open>src/world_api.c\<close>, whose
  type is in \<open>export/include/world_api.h\<close>). The table is initialised by position, so that which
  function a member holds depends on two lists being in the same order.
\<close>

text \<open>The members of \<open>struct world_api\<close>, in the order of their declarations.\<close>

definition world_api_members :: "string list" where
  "world_api_members =
     [''obj_new'', ''obj_dup'', ''obj_copy'', ''obj_free'', ''room_user_teleport'', ''room_obj_add'',
      ''room_obj_add_alias'', ''room_obj_del'', ''room_obj_del_by_ptr'', ''room_obj_get'', ''room_obj_get_size'',
      ''room_obj_count'', ''room_obj_count_noalias'', ''room_verb_add'', ''room_verb_del'', ''room_verb_map'',
      ''room_get'', ''room_get_id'', ''world_verb_add'', ''world_verb_del'', ''world_verb_map'', ''verb_new'',
      ''verb_free'', ''hash_djb'', ''compare_strings'', ''compare_strings_nocase'', ''hash_init'',
      ''hash_setfreedata_cb'', ''hash_setfreekey_cb'', ''hash_free'', ''hash_insert'', ''hash_overwrite'',
      ''hash_lookup'', ''hash_remove'', ''hash_iterate'', ''hash_insert_pairs'', ''hash_getkeyptr'', ''hash_dup'',
      ''hash_setdupdata_cb'', ''multimap_init'', ''multimap_free'', ''multimap_lookup'', ''multimap_insert'',
      ''multimap_delete'', ''multimap_delete_all'', ''multimap_iterate'', ''multimap_size'',
      ''multimap_setfreedata_cb'', ''multimap_dup'', ''multimap_setdupdata_cb'', ''multimap_copy'', ''send_msg'',
      ''child_toggle_rawmode'', ''userdb_lookup'', ''userdb_remove'', ''userdb_size'', ''userdb_add'',
      ''userdb_iterate'', ''userdb_add_obj'', ''userdb_del_obj'', ''userdb_del_obj_by_ptr'', ''error'',
      ''all_upper'', ''all_lower'', ''write_string'', ''read_string'', ''write_roomid'', ''read_roomid'',
      ''write_bool'', ''read_bool'', ''write_uint32'', ''read_uint32'', ''write_uint64'', ''read_uint64'',
      ''write_size'', ''read_size'', ''write_int'', ''read_int'', ''is_vowel'', ''strlcat'', ''format_noun'']"

text \<open>The functions of the initialiser of \<open>api\<close>, in its order.\<close>

definition api :: "string list" where
  "api =
     [''obj_new'', ''obj_dup'', ''obj_copy'', ''obj_free'', ''room_user_teleport'', ''room_obj_add'',
      ''room_obj_add_alias'', ''room_obj_del'', ''room_obj_del_by_ptr'', ''room_obj_get'', ''room_obj_get_size'',
      ''room_obj_count'', ''room_obj_count_noalias'', ''room_verb_add'', ''room_verb_del'', ''room_verb_map'',
      ''room_get'', ''room_get_id'', ''world_verb_add'', ''world_verb_del'', ''world_verb_map'', ''verb_new'',
      ''verb_free'', ''hash_djb'', ''compare_strings'', ''compare_strings_nocase'', ''hash_init'',
      ''hash_setfreedata_cb'', ''hash_setfreekey_cb'', ''hash_free'', ''hash_insert'', ''hash_overwrite'',
      ''hash_lookup'', ''hash_remove'', ''hash_iterate'', ''hash_insert_pairs'', ''hash_getkeyptr'', ''hash_dup'',
      ''hash_setdupdata_cb'', ''multimap_init'', ''multimap_free'', ''multimap_lookup'', ''multimap_insert'',
      ''multimap_delete'', ''multimap_delete_all'', ''multimap_iterate'', ''multimap_size'',
      ''multimap_setfreedata_cb'', ''multimap_dup'', ''multimap_setdupdata_cb'', ''multimap_copy'', ''send_msg'',
      ''child_toggle_rawmode'', ''userdb_lookup'', ''userdb_remove'', ''userdb_size'', ''userdb_add'',
      ''userdb_iterate'', ''userdb_add_obj'', ''userdb_del_obj'', ''userdb_del_obj_by_ptr'', ''error'',
      ''all_upper'', ''all_lower'', ''write_string'', ''read_string'', ''write_roomid'', ''read_roomid'',
      ''write_bool'', ''read_bool'', ''write_uint32'', ''read_uint32'', ''write_uint64'', ''read_uint64'',
      ''write_size'', ''read_size'', ''write_int'', ''read_int'', ''is_vowel'', ''strlcat'', ''format_noun'']"

text \<open>\<open>nc->f\<close>.\<close>

definition nc :: "string \<Rightarrow> string option" where
  "nc f = map_of (zip world_api_members api) f"

text \<open>
  Every member holds the function of its own name: a call \<open>nc->f(...)\<close> is a call of \<open>f\<close>. The
  models of world modules call the functions directly.
\<close>

lemma api_in_order: "api = world_api_members"
  by (simp only: api_def world_api_members_def)

lemma nc_own_name:
  assumes "f \<in> set world_api_members" shows "nc f = Some f"
proof -
  have "map_of (zip xs xs) f = Some f" if "f \<in> set xs" for xs :: "string list"
    using that by (induction xs) auto
  then show ?thesis using assms by (simp add: nc_def api_in_order)
qed

end
