(* ===== verification/Spec2Isabelle.thy ===== *)
theory Spec2Isabelle
  imports Nc_Boot Nc_Dunnet_Play Nc_Link Nc_Worldgen Nc_Api
begin

text \<open>
  NetCosm is a MUD server. A master process owns the game: the rooms with their objects and
  verbs, the user database and the list of connected clients. It forks one child per client;
  the child runs the login screen and the command loop and asks the master for everything else
  by packets on a pipe. A world module, loaded at run time, supplies the classes of objects and
  verbs, the rooms, and hooks in all of them.

  What each theory models (files under \<open>src/\<close> of the repository):

  \<^item> \<open>Nc_Base\<close>: the ways a run can end early (\<open>crash\<close>: a call of \<open>error\<close>, a failed assertion, a
    NULL or dangling pointer, an index outside an array), the result type \<open>'a res\<close> with its
    bind, and the C library functions the code calls on strings.
  \<^item> \<open>Nc_Hash\<close>: \<open>hash.c\<close>, the chained hash table. Its lemmas show that insertion, overwriting,
    removal, resizing and iteration implement a finite map up to the key comparison, for which
    the locales \<open>table_map\<close> and \<open>removable_map\<close> state the contract that the other theories use;
    they are interpreted for the tables with string keys and with integer keys.
  \<^item> \<open>Nc_Multimap\<close>: \<open>multimap.c\<close>, keys with lists of values, kept in a hash table of nodes.
  \<^item> \<open>Nc_Util\<close>: \<open>util.c\<close>, string helpers and the primitives of the save files.
  \<^item> \<open>Nc_Obj\<close>, \<open>Nc_Verb\<close>: \<open>obj.c\<close> and \<open>verb.c\<close>, classes, reference counts, saving.
  \<^item> \<open>Nc_State\<close>: the state of the master and the interface of a world module.
  \<^item> \<open>Nc_Objmap\<close>: operations on the multimaps of objects that rooms and users share, and how
    they account for the references they hold.
  \<^item> \<open>Nc_Room\<close>, \<open>Nc_World\<close>: \<open>room.c\<close> and \<open>world.c\<close>.
  \<^item> \<open>Nc_Stock\<close>, \<open>Nc_Reload\<close>, \<open>Nc_Restart\<close>: no code of their own. \<open>Nc_Stock\<close> shows what placing an object under its
    names does to a room whose table stays within 32 buckets; with that, \<open>Nc_Reload\<close> shows that
    \<open>world_load\<close> reads back what \<open>world_save\<close> wrote, for any module whose own hooks do: the
    locale \<open>saving_module\<close> says what is asked of them. \<open>Nc_Restart\<close> does the same for the file of users,
    in the locale \<open>saving_users\<close>, which extends it by what is asked of the callbacks that save the
    module's data of a user; together they give the state of the whole game after a restart.
  \<^item> \<open>Nc_Userdb\<close>: the master side of \<open>userdb.c\<close>, and \<open>server_save_state\<close> of \<open>server.c\<close>.
  \<^item> \<open>Nc_Requests\<close>: \<open>server_reqs.c\<close>, the handlers of the children's requests and the dispatcher.
  \<^item> \<open>Nc_Frame\<close>: a small calculus of what holds when a handler returns, and with it that no handler
    touches the bookkeeping of the children, except the one it was asked to change.
  \<^item> \<open>Nc_Auth\<close>: \<open>auth.c\<close>, the names and password hashes of accounts, and their creation.
  \<^item> \<open>Nc_Server\<close>: \<open>server.c\<close>, the command line, the start of the server, the symbols
    of the world module, connections, the reaping of exited children, and the event loop as a step relation \<open>server_step\<close>.
  \<^item> \<open>Nc_Telnet\<close>: \<open>telnet.c\<close>, the parser of what the player's terminal sends, and the sequences
    sent to it.
  \<^item> \<open>Nc_Child\<close>: the state of a child, its runs (which may stop: the process ends, or waits for
    the player or the master), and the output of \<open>client.c\<close> with its line wrapping.
  \<^item> \<open>Nc_Client_Reqs\<close>: \<open>client_reqs.c\<close> and the child's side of \<open>auth.c\<close> and \<open>userdb.c\<close>. The locale
    \<open>client_frame\<close> says what a relation between states has to respect to hold along every run.
  \<^item> \<open>Nc_Client\<close>: the rest of \<open>client.c\<close>: reading lines, the commands, the login, the command loop.
    Its locales \<open>user_frame\<close> and \<open>session_frame\<close> carry such relations through whole sessions;
    their interpretations give what ordinary users may send and that every round uses up input.
  \<^item> \<open>Nc_Link\<close>: a child with the model of the master at the other end of its pipe, by the locale
    \<open>master_link\<close>: no session waits for ever, and what it says is what the master understands.
  \<^item> \<open>Nc_Dunnet\<close>, \<open>Nc_Dunnet_Play\<close>, \<open>Nc_Dunnet_World\<close>, \<open>Nc_Dunnet_Save\<close>: \<open>worlds/dunnet.c\<close> as a
    concrete world module; its hooks respect what the master relies on (\<open>dunnet_hooks_keep\<close>), its
    console and its locked door, the world that \<open>world_init\<close> makes of it, and that the world and
    the accounts with their inventories are the same after a restart.
  \<^item> \<open>Nc_Boot\<close>: the start of the server as a whole, from its arguments to the event loop: first
    with an automatic setup in an empty directory, then on the files the first start left.
  \<^item> \<open>Nc_Worldgen\<close>: \<open>worlds/template.c\<close>, the sample module, and \<open>tools/worldgen.c\<close>, which prints the
    source of a module: what it prints is the array of rooms of a grid, and \<open>world_init\<close> makes of
    it a world in which every exit leads to the neighbouring cell and has a way back.
  \<^item> \<open>Nc_Api\<close>: the table that \<open>world_api.c\<close> hands to a module, and that every member of it holds the
    function of its own name.

  The state is passed explicitly. A pointer to something shared (an object, a user's map, a
  child) is a number looked up in a finite map that holds what is alive, so that a dangling
  pointer is an error value; a pointer that has one owner is its contents. Callbacks and hooks
  are functions on the state. Unsigned hash values and the sizes that are written to files are
  machine words; indices, ids of rooms and descriptors are \<open>nat\<close> or \<open>int\<close>, and where a value of
  them is stored as a C type the conversion is written out.

  Loops over lists and chains are structural recursions. The loops of \<open>hash_iterate\<close>,
  \<open>read_aliases\<close>, the telnet parser, \<open>client_read\<close>, the login, the command loop and the sessions of
  a child have termination proofs: each round uses up input. The wrapping loop of \<open>out\<close> can go on
  for ever on a terminal of a width that the code does not expect, so its value is
  optional, with a proof that it returns otherwise. No fuel is used anywhere.

  Parameters are the world module, or the shared object that \<open>dlopen\<close> finds under a name, \<open>ctime\<close>, the contents of uninitialised memory, the hash
  function of OpenSSL, and what \<open>rand\<close> and \<open>time\<close> return; the events that the event loop serves
  come in any order.

  Not modelled: sockets, pipes and the handlers of signals in \<open>server.c\<close> (the event loop is modelled
  by what it may call: a connection, a packet, the exit of a child, the timer of the simulation),
  \<open>main.c\<close>, which only calls \<open>server_main\<close>, \<open>multimap_copy\<close>, which nothing calls, memory exhaustion,
  debugging output, and the errors of the operating system: a file opens when it is there (for writing always), a
  regular file can be read to its end and written without end, so the branches for a failed \<open>open\<close> of \<open>userdb_write\<close> and
  \<open>world_save\<close>, a failed \<open>read\<close> of \<open>read_roomid\<close> and a failed \<open>write\<close> of \<open>write_uint32\<close> and its kin are left out, and so are
  failed reads and writes on the pipes, in \<open>handle_child_req\<close>, \<open>send_packet\<close> and the child.

  Where the model keeps a value and the code keeps a pointer to it, the model is right as long as what is pointed to lives. The places where
  that is in doubt: the keys of the maps of objects and of the users of a room are strings of an object and of a child; \<open>dir_map\<close> points into the stack
  (\<open>Nc_Client_Reqs\<close>); \<open>auth_check\<close> hands out a pointer to the static \<open>returned_reqdata\<close>, which \<open>login_attempt\<close> and \<open>chpass_cb\<close>
  still read and write after further requests, of which the model has a copy. \<open>client_read_loop\<close> takes what arrives from the master in whole
  answers, so packets behind a \<open>REQ_ALLDONE\<close> wait for the next event, where \<open>poll\<close> would report them at once.
\<close>

end
